(* ===== verification/Prelude.thy ===== *)
theory Prelude
  imports Main "HOL-Library.Multiset" "HOL-Library.Sublist"
begin

section \<open>Prelude: results, integer arithmetic and list lemmas shared by the components\<close>

text \<open>
  What every component uses: the result type of an operation that may raise
  (\<open>Inl\<close> the error, \<open>Inr\<close> the value) with its sequencing \<open>bindR\<close>, the integer
  helpers of \<open>python/minisgl/utils/misc.py\<close> (\<open>div_ceil\<close>, \<open>align_ceil\<close>,
  \<open>align_down\<close>), Python's list slices with a stop bound and a rolling window of the
  last \<open>n\<close> elements, and the lemmas about them.  The collection \<open>align_simps\<close>
  holds the facts about multiples that the allocators' and the schedulers' proofs share.
\<close>

named_theorems align_simps

subsection \<open>Results\<close>

definition bindR :: "'e + 'a \<Rightarrow> ('a \<Rightarrow> 'e + 'b) \<Rightarrow> 'e + 'b" where
  "bindR m f = (case m of Inl e \<Rightarrow> Inl e | Inr x \<Rightarrow> f x)"

lemma bindR_simps [simp]:
  "bindR (Inl e) f = Inl e"
  "bindR (Inr x) f = f x"
  by (simp_all add: bindR_def)

lemma bindR_eq_Inr: "bindR m f = Inr y \<longleftrightarrow> (\<exists>x. m = Inr x \<and> f x = Inr y)"
  by (cases m) auto

lemma bindR_InrE:
  assumes "bindR m f = Inr y"
  obtains x where "m = Inr x" "f x = Inr y"
  using assms by (auto simp: bindR_eq_Inr)

text \<open>The exceptions a component may raise, and an operation that may also not return.\<close>

datatype py_error = AssertionError | RuntimeError | NotImplementedError | IndexError | KeyError

type_synonym 'a run = "(py_error + 'a) option"

definition bindX :: "'a run \<Rightarrow> ('a \<Rightarrow> 'b run) \<Rightarrow> 'b run" where
  "bindX m f = (case m of None \<Rightarrow> None | Some (Inl e) \<Rightarrow> Some (Inl e) | Some (Inr x) \<Rightarrow> f x)"

text \<open>Unfolded in code, so that evaluation does not run a continuation before its argument is known.\<close>

declare bindX_def [code_unfold]

lemma bindX_simps [simp]:
  "bindX None f = None" "bindX (Some (Inl e)) f = Some (Inl e)" "bindX (Some (Inr x)) f = f x"
  by (simp_all add: bindX_def)

lemma bindX_Inr: "bindX m f = Some (Inr y) \<longleftrightarrow> (\<exists>x. m = Some (Inr x) \<and> f x = Some (Inr y))"
  by (auto simp: bindX_def split: option.splits sum.splits)

text \<open>Sequencing inside a loop that may not return.\<close>

lemma bindX_mono [partial_function_mono]:
  assumes "mono_option B" "\<And>y. mono_option (\<lambda>f. C y f)"
  shows "mono_option (\<lambda>f. bindX (B f) (\<lambda>y. C y f))"
proof -
  have eq: "bindX (B f) (\<lambda>y. C y f)
      = Option.bind (B f) (\<lambda>s. case s of Inl e \<Rightarrow> Some (Inl e) | Inr y \<Rightarrow> C y f)" for f
    by (simp add: bindX_def split: option.split)
  have "mono_option (\<lambda>f. case s of Inl e \<Rightarrow> Some (Inl e) | Inr y \<Rightarrow> C y f)" for s
    by (cases s) (simp_all add: assms(2) option.const_mono)
  then show ?thesis unfolding eq by (rule bind_mono [OF assms(1)])
qed

subsection \<open>Integer helpers\<close>

definition div_ceil :: "int \<Rightarrow> int \<Rightarrow> int" where
  "div_ceil a b = (a + b - 1) div b"

definition align_ceil :: "int \<Rightarrow> int \<Rightarrow> int" where
  "align_ceil a b = div_ceil a b * b"

definition align_down :: "int \<Rightarrow> int \<Rightarrow> int" where
  "align_down a b = (a div b) * b"

lemma align_down_dvd [simp, align_simps]: "b dvd align_down a b"
  by (simp add: align_down_def)

lemma align_down_le [align_simps]: "0 < b \<Longrightarrow> align_down a b \<le> a"
  by (metis align_down_def div_mult_mod_eq le_add_same_cancel1 pos_mod_sign)

lemma align_down_gt [align_simps]: "0 < b \<Longrightarrow> a - b < align_down a b"
proof -
  assume b: "0 < b"
  have "a = align_down a b + a mod b" by (simp add: align_down_def)
  moreover have "a mod b < b" using b by simp
  ultimately show ?thesis by linarith
qed

lemma align_down_nonneg [align_simps]: "0 < b \<Longrightarrow> 0 \<le> a \<Longrightarrow> 0 \<le> align_down a b"
  by (simp add: align_down_def pos_imp_zdiv_nonneg_iff)

lemma align_down_id [align_simps]: "b dvd a \<Longrightarrow> align_down a b = a"
  by (simp add: align_down_def)

lemma align_down_mono [align_simps]: "0 < b \<Longrightarrow> a \<le> c \<Longrightarrow> align_down a b \<le> align_down c b"
  by (simp add: align_down_def zdiv_mono1)

lemma align_down_greatest:
  assumes "0 < b" "b dvd m" "m \<le> a"
  shows "m \<le> align_down a b"
proof -
  from assms have "align_down m b \<le> align_down a b" by (intro align_down_mono)
  with assms show ?thesis by (simp add: align_down_id)
qed

lemma align_ceil_dvd [simp, align_simps]: "b dvd align_ceil a b"
  by (simp add: align_ceil_def)

lemma align_ceil_down: "align_ceil a b = align_down (a + b - 1) b"
  by (simp add: align_ceil_def align_down_def div_ceil_def)

lemma align_ceil_ge [align_simps]: "0 < b \<Longrightarrow> a \<le> align_ceil a b"
  using align_down_gt [of b "a + b - 1"] by (simp add: align_ceil_down)

lemma align_ceil_lt [align_simps]: "0 < b \<Longrightarrow> align_ceil a b < a + b"
  using align_down_le [of b "a + b - 1"] by (simp add: align_ceil_down)

lemma align_ceil_id [align_simps]:
  assumes "0 < b" "b dvd a"
  shows "align_ceil a b = a"
proof -
  from assms obtain k where k: "a = b * k" by (auto elim: dvdE)
  have "(b * k + (b - 1)) div b = k"
    using assms(1) by (simp add: div_pos_pos_trivial)
  with k show ?thesis by (simp add: align_ceil_def div_ceil_def algebra_simps)
qed

lemma align_ceil_mono: "0 < b \<Longrightarrow> a \<le> c \<Longrightarrow> align_ceil a b \<le> align_ceil c b"
  by (simp add: align_ceil_down align_down_mono)

lemma align_ceil_least:
  assumes "0 < b" "b dvd m" "a \<le> m"
  shows "align_ceil a b \<le> m"
  using align_ceil_mono [OF assms(1,3)] align_ceil_id [OF assms(1,2)] by simp

lemma dvd_less_add:
  fixes a b m :: int
  assumes "0 < b" "b dvd a" "b dvd m" "a < m"
  shows "a + b \<le> m"
proof -
  from assms have "b dvd m - a" by simp
  with assms have "b \<le> m - a" by (intro zdvd_imp_le) auto
  then show ?thesis by simp
qed

subsection \<open>The last elements of a list\<close>

text \<open>
  The loop body \<open>xs.append(x); del xs[: max(0, len(xs) - n)]\<close> keeps the last
  \<open>n\<close> elements.  \<open>lastn\<close> is that window.
\<close>

definition lastn :: "nat \<Rightarrow> 'a list \<Rightarrow> 'a list" where
  "lastn n xs = drop (length xs - n) xs"

lemma length_lastn [simp]: "length (lastn n xs) = min n (length xs)"
  by (simp add: lastn_def)

lemma lastn_Nil [simp]: "lastn n [] = []"
  by (simp add: lastn_def)

lemma lastn_all [simp]: "length xs \<le> n \<Longrightarrow> lastn n xs = xs"
  by (simp add: lastn_def)

lemma lastn_suffix: "suffix (lastn n xs) xs"
  by (simp add: lastn_def suffix_drop)

lemma lastn_lastn [simp]: "lastn m (lastn n xs) = lastn (min m n) xs"
proof -
  have "length xs - (length xs - n + m) + (length xs - n) = length xs - m" if "m \<le> n"
    using that by arith
  then show ?thesis by (cases "m \<le> n") (simp_all add: lastn_def min_def)
qed

lemma lastn_append_lastn: "lastn n (lastn n xs @ ys) = lastn n (xs @ ys)"
proof -
  have "xs = take (length xs - n) xs @ lastn n xs" by (simp add: lastn_def)
  then have "lastn n (xs @ ys) = lastn n (take (length xs - n) xs @ (lastn n xs @ ys))"
    by (metis append.assoc)
  also have "\<dots> = lastn n (lastn n xs @ ys)"
  proof (cases "length xs \<le> n")
    case True
    then show ?thesis by simp
  next
    case False
    then show ?thesis by (simp add: lastn_def)
  qed
  finally show ?thesis by simp
qed

lemma lastn_append_same: "n \<le> length ys \<Longrightarrow> lastn n (xs @ ys) = lastn n ys"
  by (simp add: lastn_def)

subsection \<open>Sums over lists of integers\<close>

lemma sum_list_update_int:
  fixes xs :: "int list"
  shows "i < length xs \<Longrightarrow> sum_list (xs[i := v]) = sum_list xs - xs ! i + v"
  by (induction xs arbitrary: i) (auto split: nat.splits)

lemma sum_list_nonneg_int:
  fixes xs :: "int list"
  shows "\<forall>x \<in> set xs. 0 \<le> x \<Longrightarrow> 0 \<le> sum_list xs"
  by (induction xs) auto

subsection \<open>The first prefix with a property\<close>

text \<open>\<open>first_hit P h i ts\<close> extends the stream \<open>h\<close> by \<open>ts\<close> one element at a time and returns
  the position (counted from \<open>i\<close>) at which \<open>P\<close> first holds of the stream so far.\<close>

fun first_hit :: "('a list \<Rightarrow> bool) \<Rightarrow> 'a list \<Rightarrow> nat \<Rightarrow> 'a list \<Rightarrow> nat option" where
  "first_hit P h i [] = None"
| "first_hit P h i (t # ts) = (if P (h @ [t]) then Some i else first_hit P (h @ [t]) (Suc i) ts)"

lemma first_hit_Some:
  "first_hit P h i ts = Some k \<longleftrightarrow>
     i \<le> k \<and> k - i < length ts \<and> P (h @ take (Suc (k - i)) ts) \<and> (\<forall>j < k - i. \<not> P (h @ take (Suc j) ts))"
proof (induction ts arbitrary: h i)
  case Nil
  then show ?case by simp
next
  case (Cons t ts)
  consider "k \<le> i" | n where "k - i = Suc n" "k - Suc i = n" "i < k"
    by (metis Suc_diff_Suc not_le_imp_less)
  then show ?case
  proof cases
    case 1
    then show ?thesis using Cons.IH [of "h @ [t]" "Suc i"] by auto
  next
    case 2
    have "(\<forall>j < Suc n. \<not> P (h @ take (Suc j) (t # ts)))
        \<longleftrightarrow> \<not> P (h @ [t]) \<and> (\<forall>j < n. \<not> P (h @ t # take (Suc j) ts))"
      by (auto simp: less_Suc_eq_0_disj)
    with 2 Cons.IH [of "h @ [t]" "Suc i"] show ?thesis by auto
  qed
qed

lemma first_hit_None: "first_hit P h i ts = None \<longleftrightarrow> (\<forall>j < length ts. \<not> P (h @ take (Suc j) ts))"
proof (induction ts arbitrary: h i)
  case (Cons t ts)
  show ?case using Cons.IH [of "h @ [t]" "Suc i"] by (auto simp: less_Suc_eq_0_disj)
qed simp

subsection \<open>Slices with a step, \<open>xs[::n]\<close>\<close>

fun stride :: "nat \<Rightarrow> 'a list \<Rightarrow> 'a list" where
  "stride n [] = []"
| "stride n (x # xs) = x # stride n (drop (n - 1) xs)"

lemma stride_append:
  assumes "0 < n" "n dvd length xs"
  shows "stride n (xs @ ys) = stride n xs @ stride n ys"
  using assms
proof (induction n xs rule: stride.induct)
  case (2 n x xs)
  note prem = 2(3) and n0 = 2(2)
  from prem have "n \<le> length (x # xs)" by (intro dvd_imp_le) auto
  then have "length (x # xs) - n = length (drop (n - 1) xs)" "n - 1 \<le> length xs" using n0 by auto
  with prem have "n dvd length (drop (n - 1) xs)" by (metis dvd_diff_nat dvd_refl)
  with 2(1) [OF n0] n0 \<open>n - 1 \<le> length xs\<close> show ?case by simp
qed simp

lemma length_stride:
  assumes "0 < n" "n dvd length xs"
  shows "n * length (stride n xs) = length xs"
  using assms
proof (induction n xs rule: stride.induct)
  case (2 n x xs)
  note prem = 2(3) and n0 = 2(2)
  from prem have "n \<le> length (x # xs)" by (intro dvd_imp_le) auto
  then have l: "length (x # xs) - n = length (drop (n - 1) xs)" "n \<le> Suc (length xs)" using n0 by auto
  with prem have "n dvd length (drop (n - 1) xs)" by (metis dvd_diff_nat dvd_refl)
  with 2(1) [OF n0] have "n * length (stride n (drop (n - 1) xs)) = length (drop (n - 1) xs)" by blast
  with l n0 show ?case by (simp add: algebra_simps)
qed simp

end
