(* ===== verification/Chunk_Plan.thy ===== *)
theory Chunk_Plan
  imports Prelude
begin

unbundle bit_operations_syntax

section \<open>The pinned weight arena's chunk layout (weights/chunk_plan.py)\<close>

text \<open>
  The pure-integer half of the pinned host arena: the forward-only next-fit
  \<open>BumpAllocator\<close>, the up-front plan \<open>plan_regions\<close> and the headroom arithmetic.
  Chunk numbers are list indices (\<open>nat\<close>); byte counts, offsets and alignments are
  Python integers (\<open>int\<close>).  A \<open>raise\<close> is an \<open>Inl\<close> of \<open>layout_error\<close>, an
  allocator call returns its result with the allocator it leaves behind.  Messages are
  not modelled.
\<close>

datatype layout_error = ValueError | RegionTooLargeError | ArenaExhaustedError | ArenaLayoutError

definition KIB :: int where "KIB = 1024"
definition MIB :: int where "MIB = 1048576"
definition GIB :: int where "GIB = 1073741824"
definition ALIGN :: int where "ALIGN = 512"
definition CHUNK_GRANULE :: int where "CHUNK_GRANULE = 2 * MIB"
definition DEFAULT_CHUNK_BYTES :: int where "DEFAULT_CHUNK_BYTES = 2 * GIB"
definition MIN_CHUNK_BYTES :: int where "MIN_CHUNK_BYTES = CHUNK_GRANULE"

lemmas chunk_consts =
  KIB_def MIB_def GIB_def ALIGN_def CHUNK_GRANULE_def DEFAULT_CHUNK_BYTES_def MIN_CHUNK_BYTES_def

definition round_up :: "int \<Rightarrow> int \<Rightarrow> layout_error + int" where
  "round_up x a = (if a \<le> 0 then Inl ValueError else Inr (((x + a - 1) div a) * a))"

record region_request =
  rr_name :: string
  rr_nbytes :: int
  rr_align :: int
  rr_forecast :: bool

definition mk_region_request :: "string \<Rightarrow> int \<Rightarrow> int \<Rightarrow> bool \<Rightarrow> layout_error + region_request" where
  "mk_region_request name nbytes al fc =
     (if nbytes < 0 then Inl ValueError
      else if al \<le> 0 \<or> al AND (al - 1) \<noteq> 0 then Inl ValueError
      else Inr \<lparr>rr_name = name, rr_nbytes = nbytes, rr_align = al, rr_forecast = fc\<rparr>)"

record placement =
  p_name :: string
  p_chunk :: nat
  p_offset :: int
  p_nbytes :: int
  p_align :: int
  p_forecast :: bool

definition p_end :: "placement \<Rightarrow> int" where
  "p_end p = p_offset p + p_nbytes p"

subsection \<open>The bump allocator\<close>

record bump =
  chunk_bytes :: int
  b_align :: int
  max_chunks :: "int option"
  cursors :: "int list"
  cur :: nat

definition bump_init :: "int \<Rightarrow> int option \<Rightarrow> int \<Rightarrow> layout_error + bump" where
  "bump_init cb n al =
     (if cb < MIN_CHUNK_BYTES then Inl ValueError
      else if cb mod CHUNK_GRANULE \<noteq> 0 then Inl ValueError
      else Inr \<lparr>chunk_bytes = cb, b_align = al, max_chunks = n,
                cursors = (case n of None \<Rightarrow> [0] | Some m \<Rightarrow> replicate (nat m) 0),
                cur = 0\<rparr>)"

definition b_n_chunks :: "bump \<Rightarrow> nat" where
  "b_n_chunks b = length (cursors b)"

definition b_reserved_bytes :: "bump \<Rightarrow> int" where
  "b_reserved_bytes b = int (b_n_chunks b) * chunk_bytes b"

definition b_consumed_bytes :: "bump \<Rightarrow> int" where
  "b_consumed_bytes b = sum_list (cursors b)"

definition b_abandoned_bytes :: "bump \<Rightarrow> int" where
  "b_abandoned_bytes b = sum_list (map (\<lambda>c. chunk_bytes b - c) (take (cur b) (cursors b)))"

definition b_free_bytes :: "bump \<Rightarrow> int" where
  "b_free_bytes b = b_reserved_bytes b - b_consumed_bytes b - b_abandoned_bytes b"

definition b_footprint_bytes :: "bump \<Rightarrow> int" where
  "b_footprint_bytes b =
     (if cursors b = [] then 0 else int (cur b) * chunk_bytes b + cursors b ! cur b)"

definition b_largest_free_run :: "bump \<Rightarrow> int" where
  "b_largest_free_run b =
     (if cursors b = [] then 0
      else (let tl = chunk_bytes b - cursors b ! cur b;
                untouched = (if max_chunks b = None then chunk_bytes b
                             else if cur b + 1 < b_n_chunks b then chunk_bytes b else 0)
            in max tl untouched))"

text \<open>
  \<open>try_allocate\<close>: the checks in the source's order, the zero-byte region that does not
  move the cursor, and the step to the next chunk (a growable allocator appends it, a
  bounded one returns None when there is none).
\<close>

definition try_allocate ::
    "bump \<Rightarrow> int \<Rightarrow> string \<Rightarrow> int option \<Rightarrow> layout_error + (placement option \<times> bump)" where
  "try_allocate b n name al =
     (let a = (case al of None \<Rightarrow> b_align b | Some x \<Rightarrow> x);
          at = (\<lambda>b off. \<lparr>p_name = name, p_chunk = cur b, p_offset = off, p_nbytes = n,
                         p_align = a, p_forecast = False\<rparr>)
      in if n < 0 then Inl ValueError
         else if n > chunk_bytes b then Inl RegionTooLargeError
         else if cursors b = [] then Inr (None, b)
         else if n = 0 then Inr (Some (at b (cursors b ! cur b)), b)
         else bindR (round_up (cursors b ! cur b) a) (\<lambda>off.
           if off + n > chunk_bytes b
           then (if max_chunks b \<noteq> None \<and> cur b + 1 \<ge> b_n_chunks b then Inr (None, b)
                 else (let b1 = (if max_chunks b = None then b\<lparr>cursors := cursors b @ [0]\<rparr> else b);
                           b2 = b1\<lparr>cur := cur b1 + 1\<rparr>
                       in bindR (round_up (cursors b2 ! cur b2) a) (\<lambda>off2.
                            if off2 + n > chunk_bytes b2 then Inr (None, b2)
                            else Inr (Some (at b2 off2),
                                      b2\<lparr>cursors := (cursors b2)[cur b2 := off2 + n]\<rparr>))))
           else Inr (Some (at b off), b\<lparr>cursors := (cursors b)[cur b := off + n]\<rparr>)))"

definition allocate ::
    "bump \<Rightarrow> int \<Rightarrow> string \<Rightarrow> int option \<Rightarrow> layout_error + (placement \<times> bump)" where
  "allocate b n name al =
     bindR (try_allocate b n name al) (\<lambda>(p, b').
       case p of None \<Rightarrow> Inl ArenaExhaustedError | Some q \<Rightarrow> Inr (q, b'))"

text \<open>
  The list comprehension of \<open>plan_regions\<close>: one \<open>allocate\<close> per request, in order,
  the forecast flag copied onto the placement.
\<close>

fun alloc_all :: "bump \<Rightarrow> region_request list \<Rightarrow> layout_error + (placement list \<times> bump)" where
  "alloc_all b [] = Inr ([], b)"
| "alloc_all b (r # rs) =
     bindR (allocate b (rr_nbytes r) (rr_name r) (Some (rr_align r))) (\<lambda>(p, b').
       bindR (alloc_all b' rs) (\<lambda>(ps, b'').
         Inr ((if rr_forecast r then p\<lparr>p_forecast := True\<rparr> else p) # ps, b'')))"

subsection \<open>The plan\<close>

record chunk_plan =
  cp_chunk_bytes :: int
  cp_n_chunks :: nat
  cp_align :: int
  cp_placements :: "placement list"
  cp_cursors :: "int list"
  cp_extra_chunks :: nat
  cp_extra_bytes :: int
  cp_extra_max :: int

definition headroom_chunks :: "int \<Rightarrow> int \<Rightarrow> int \<Rightarrow> layout_error + int" where
  "headroom_chunks n c m =
     (if n \<le> 0 then Inr 0
      else if m < 0 then Inl ValueError
      else if m \<ge> c then Inl RegionTooLargeError
      else (let usable = (if m \<noteq> 0 then c - m else c) in Inr ((n + usable - 1) div usable)))"

definition plan_regions ::
    "region_request list \<Rightarrow> int \<Rightarrow> int \<Rightarrow> int \<Rightarrow> int \<Rightarrow> layout_error + chunk_plan" where
  "plan_regions rs cb al extra mx =
     (if \<not> distinct (map rr_name rs) then Inl ArenaLayoutError
      else bindR (bump_init cb None al) (\<lambda>b0.
           bindR (alloc_all b0 rs) (\<lambda>(ps, b).
           bindR (headroom_chunks extra cb mx) (\<lambda>k.
             let used = (if (\<exists>c \<in> set (cursors b). c > 0) \<or> ps \<noteq> [] then b_n_chunks b else 0)
             in Inr \<lparr>cp_chunk_bytes = cb, cp_n_chunks = used + nat k, cp_align = al,
                     cp_placements = ps, cp_cursors = take used (cursors b) @ replicate (nat k) 0,
                     cp_extra_chunks = nat k, cp_extra_bytes = max 0 extra,
                     cp_extra_max = max 0 mx\<rparr>))))"

definition suggest_chunk_bytes :: "region_request list \<Rightarrow> int \<Rightarrow> int \<Rightarrow> layout_error + int" where
  "suggest_chunk_bytes rs preferred hard_max =
     (let largest = foldr max (map rr_nbytes rs) 0
      in bindR (round_up preferred CHUNK_GRANULE) (\<lambda>p.
         bindR (round_up largest CHUNK_GRANULE) (\<lambda>l.
           let want = max (max p l) MIN_CHUNK_BYTES
           in if want > hard_max then Inl RegionTooLargeError else Inr want)))"

definition cp_reserved_bytes :: "chunk_plan \<Rightarrow> int" where
  "cp_reserved_bytes P = int (cp_n_chunks P) * cp_chunk_bytes P"

definition cp_payload_bytes :: "chunk_plan \<Rightarrow> int" where
  "cp_payload_bytes P = sum_list (map p_nbytes (cp_placements P))"

definition cp_consumed_bytes :: "chunk_plan \<Rightarrow> int" where
  "cp_consumed_bytes P = sum_list (cp_cursors P)"

definition cp_padding_bytes :: "chunk_plan \<Rightarrow> int" where
  "cp_padding_bytes P = cp_consumed_bytes P - cp_payload_bytes P"

definition cp_overhead_bytes :: "chunk_plan \<Rightarrow> int" where
  "cp_overhead_bytes P = cp_reserved_bytes P - cp_payload_bytes P"

definition cp_headroom_bytes :: "chunk_plan \<Rightarrow> int" where
  "cp_headroom_bytes P = int (cp_extra_chunks P) * cp_chunk_bytes P"

definition cp_footprint_bytes :: "chunk_plan \<Rightarrow> int" where
  "cp_footprint_bytes P =
     (if cp_placements P = [] then 0
      else (let l = Max (set (map p_chunk (cp_placements P)))
            in int l * cp_chunk_bytes P + cp_cursors P ! l))"

subsection \<open>The allocator's invariant and its one-step view\<close>

text \<open>
  Cursors stay inside their chunk, every chunk past the current one is untouched, a
  growable allocator's current chunk is its last, a bounded one has all its chunks from
  the start.
\<close>

definition bump_wf :: "bump \<Rightarrow> bool" where
  "bump_wf b \<longleftrightarrow> 0 < chunk_bytes b
     \<and> (\<forall>c \<in> set (cursors b). 0 \<le> c \<and> c \<le> chunk_bytes b)
     \<and> (\<forall>i. cur b < i \<longrightarrow> i < length (cursors b) \<longrightarrow> cursors b ! i = 0)
     \<and> (case max_chunks b of
          None \<Rightarrow> length (cursors b) = Suc (cur b)
        | Some m \<Rightarrow> length (cursors b) = nat m \<and> (cursors b \<noteq> [] \<longrightarrow> cur b < length (cursors b)))"

lemma bump_wfD:
  assumes "bump_wf b"
  shows "0 < chunk_bytes b"
    and "i < length (cursors b) \<Longrightarrow> 0 \<le> cursors b ! i"
    and "i < length (cursors b) \<Longrightarrow> cursors b ! i \<le> chunk_bytes b"
    and "cur b < i \<Longrightarrow> i < length (cursors b) \<Longrightarrow> cursors b ! i = 0"
    and "cursors b \<noteq> [] \<Longrightarrow> cur b < length (cursors b)"
    and "max_chunks b = None \<Longrightarrow> length (cursors b) = Suc (cur b)"
  using assms by (auto simp: bump_wf_def split: option.splits)

lemma bump_init_wf: "bump_init cb n al = Inr b \<Longrightarrow> bump_wf b"
  by (auto simp: bump_init_def bump_wf_def chunk_consts split: if_splits option.splits)

lemma bump_init_fields:
  "bump_init cb n al = Inr b \<Longrightarrow> chunk_bytes b = cb \<and> b_align b = al \<and> max_chunks b = n
     \<and> cur b = 0 \<and> cursors b = (case n of None \<Rightarrow> [0] | Some m \<Rightarrow> replicate (nat m) 0)
     \<and> MIN_CHUNK_BYTES \<le> cb"
  by (auto simp: bump_init_def split: if_splits)

lemma round_up_ceil: "0 < a \<Longrightarrow> round_up x a = Inr (align_ceil x a)"
  by (simp add: round_up_def align_ceil_def div_ceil_def)

lemma align_ceil_0 [simp]: "0 < a \<Longrightarrow> align_ceil 0 a = 0"
  by (simp add: align_ceil_id)

text \<open>The placement an allocation makes at an offset of the current chunk.\<close>

abbreviation place_at :: "string \<Rightarrow> nat \<Rightarrow> int \<Rightarrow> int \<Rightarrow> int \<Rightarrow> placement" where
  "place_at name k off n a \<equiv>
     \<lparr>p_name = name, p_chunk = k, p_offset = off, p_nbytes = n, p_align = a, p_forecast = False\<rparr>"

lemma allocate_zero:
  assumes "bump_wf b" "cursors b \<noteq> []"
  shows "allocate b 0 name (Some a) = Inr (place_at name (cur b) (cursors b ! cur b) 0 a, b)"
  using assms bump_wfD(1) [OF assms(1)] by (simp add: allocate_def try_allocate_def)

lemma allocate_fit:
  assumes "bump_wf b" "cursors b \<noteq> []" "0 < n" "0 < a"
    and "align_ceil (cursors b ! cur b) a + n \<le> chunk_bytes b"
  shows "allocate b n name (Some a) =
    Inr (place_at name (cur b) (align_ceil (cursors b ! cur b) a) n a,
         b\<lparr>cursors := (cursors b)[cur b := align_ceil (cursors b ! cur b) a + n]\<rparr>)"
proof -
  have "0 \<le> cursors b ! cur b" using assms(1,2) by (simp add: bump_wfD)
  then have "0 \<le> align_ceil (cursors b ! cur b) a"
    using align_ceil_ge [of a "cursors b ! cur b"] assms(4) by linarith
  with assms have "n \<le> chunk_bytes b" by linarith
  with assms show ?thesis by (simp add: allocate_def try_allocate_def round_up_ceil)
qed

lemma allocate_next:
  assumes "bump_wf b" "cursors b \<noteq> []" "0 < n" "0 < a" "n \<le> chunk_bytes b"
    and "align_ceil (cursors b ! cur b) a + n > chunk_bytes b"
    and "max_chunks b = None \<or> Suc (cur b) < length (cursors b)"
  shows "allocate b n name (Some a) =
    Inr (place_at name (Suc (cur b)) 0 n a,
         b\<lparr>cursors := (if max_chunks b = None then cursors b @ [n]
                       else (cursors b)[Suc (cur b) := n]),
           cur := Suc (cur b)\<rparr>)"
proof (cases "max_chunks b = None")
  case True
  then have "length (cursors b) = Suc (cur b)" using assms(1) by (simp add: bump_wfD)
  then have nth: "(cursors b @ [0]) ! Suc (cur b) = 0"
    and upd: "(cursors b @ [0])[Suc (cur b) := n] = cursors b @ [n]"
    by (metis nth_append_length, metis list_update_length)
  with True assms show ?thesis
    by (simp add: allocate_def try_allocate_def round_up_ceil)
next
  case False
  with assms have "cursors b ! Suc (cur b) = 0" by (auto intro: bump_wfD(4))
  with False assms show ?thesis
    by (auto simp: allocate_def try_allocate_def round_up_ceil b_n_chunks_def)
qed

lemma allocate_exhausted:
  assumes "bump_wf b" "cursors b \<noteq> []" "0 < n" "0 < a" "n \<le> chunk_bytes b"
    and "align_ceil (cursors b ! cur b) a + n > chunk_bytes b"
    and "max_chunks b \<noteq> None" "\<not> Suc (cur b) < length (cursors b)"
  shows "allocate b n name (Some a) = Inl ArenaExhaustedError"
  using assms by (simp add: allocate_def try_allocate_def round_up_ceil b_n_chunks_def)

text \<open>A successful allocation is one of three: a zero-byte region, the tail, the next chunk.\<close>

lemma allocate_cases:
  assumes "allocate b n name (Some a) = Inr (p, b')" "bump_wf b"
  obtains (zero) "n = 0" "b' = b" "cursors b \<noteq> []"
      "p = place_at name (cur b) (cursors b ! cur b) 0 a"
  | (fit) "0 < n" "0 < a" "cursors b \<noteq> []"
      "align_ceil (cursors b ! cur b) a + n \<le> chunk_bytes b"
      "p = place_at name (cur b) (align_ceil (cursors b ! cur b) a) n a"
      "b' = b\<lparr>cursors := (cursors b)[cur b := align_ceil (cursors b ! cur b) a + n]\<rparr>"
  | (nxt) "0 < n" "0 < a" "n \<le> chunk_bytes b" "cursors b \<noteq> []"
      "align_ceil (cursors b ! cur b) a + n > chunk_bytes b"
      "max_chunks b = None \<or> Suc (cur b) < length (cursors b)"
      "p = place_at name (Suc (cur b)) 0 n a"
      "b' = b\<lparr>cursors := (if max_chunks b = None then cursors b @ [n]
                           else (cursors b)[Suc (cur b) := n]),
              cur := Suc (cur b)\<rparr>"
proof -
  have ne: "cursors b \<noteq> []" and n: "0 \<le> n" "n \<le> chunk_bytes b"
    using assms(1) by (auto simp: allocate_def try_allocate_def bindR_eq_Inr split: if_splits)
  show thesis
  proof (cases "n = 0")
    case True
    with assms ne show ?thesis by (intro zero) (auto simp: allocate_zero)
  next
    case False
    with n have pos: "0 < n" by simp
    have a: "0 < a"
      using assms(1) ne n False
      by (auto simp: allocate_def try_allocate_def round_up_def bindR_eq_Inr split: if_splits)
    show ?thesis
    proof (cases "align_ceil (cursors b ! cur b) a + n \<le> chunk_bytes b")
      case True
      with assms ne pos a show ?thesis by (intro fit) (auto simp: allocate_fit)
    next
      case over: False
      show ?thesis
      proof (cases "max_chunks b = None \<or> Suc (cur b) < length (cursors b)")
        case True
        have "p = place_at name (Suc (cur b)) 0 n a \<and>
          b' = b\<lparr>cursors := (if max_chunks b = None then cursors b @ [n]
                              else (cursors b)[Suc (cur b) := n]), cur := Suc (cur b)\<rparr>"
          using assms(1) allocate_next [OF assms(2) ne pos a n(2) _ True, of name] over by auto
        with True ne pos a n over show ?thesis by (intro nxt) auto
      next
        case False
        then have "allocate b n name (Some a) = Inl ArenaExhaustedError"
          using assms(2) ne pos a n(2) over by (intro allocate_exhausted) auto
        with assms(1) show ?thesis by simp
      qed
    qed
  qed
qed

definition bump_le :: "bump \<Rightarrow> bump \<Rightarrow> bool" where
  "bump_le b b' \<longleftrightarrow> chunk_bytes b' = chunk_bytes b \<and> b_align b' = b_align b
     \<and> max_chunks b' = max_chunks b \<and> cur b \<le> cur b' \<and> length (cursors b) \<le> length (cursors b')
     \<and> (\<forall>i < length (cursors b). cursors b ! i \<le> cursors b' ! i)
     \<and> (cursors b = [] \<longleftrightarrow> cursors b' = [])"

lemma bump_le_refl: "bump_le b b"
  by (simp add: bump_le_def)

lemma bump_le_trans: "bump_le a b \<Longrightarrow> bump_le b c \<Longrightarrow> bump_le a c"
  unfolding bump_le_def by (auto intro: order_trans order_less_le_trans)

lemma allocate_frame:
  assumes "allocate b n name (Some a) = Inr (p, b')" "bump_wf b"
  shows "bump_wf b' \<and> bump_le b b' \<and> cursors b' \<noteq> []
     \<and> p = place_at name (cur b') (p_offset p) n a \<and> 0 \<le> n
     \<and> 0 \<le> p_offset p \<and> p_end p \<le> cursors b' ! cur b' \<and> (0 < n \<longrightarrow> a dvd p_offset p)
     \<and> (cur b' = cur b \<longrightarrow> cursors b ! cur b \<le> p_offset p)"
  using assms
proof (cases rule: allocate_cases)
  case zero
  with assms(2) show ?thesis
    by (auto simp: bump_le_refl p_end_def bump_wfD)
next
  case fit
  note wf = bump_wfD [OF assms(2)]
  have c: "cur b < length (cursors b)" using fit wf(5) by simp
  have ge: "cursors b ! cur b \<le> align_ceil (cursors b ! cur b) a" "0 \<le> cursors b ! cur b"
    using fit c wf(2) by (auto simp: align_ceil_ge)
  have all: "\<forall>c \<in> set (cursors b'). 0 \<le> c \<and> c \<le> chunk_bytes b"
  proof
    fix c assume "c \<in> set (cursors b')"
    then have "c = align_ceil (cursors b ! cur b) a + n \<or> c \<in> set (cursors b)"
      using fit set_update_subset_insert by fastforce
    then show "0 \<le> c \<and> c \<le> chunk_bytes b"
      using fit ge assms(2) unfolding bump_wf_def by (metis add_nonneg_nonneg less_imp_le order_trans)
  qed
  have "bump_wf b'"
    using assms(2) fit all by (auto simp: bump_wf_def split: option.splits)
  moreover have "bump_le b b'"
    using fit ge c by (auto simp: bump_le_def nth_list_update)
  ultimately show ?thesis
    using fit ge c by (auto simp: p_end_def)
next
  case nxt
  note wf = bump_wfD [OF assms(2)]
  show ?thesis
  proof (cases "max_chunks b = None")
    case True
    then have len: "length (cursors b) = Suc (cur b)" using wf(6) by simp
    have "bump_wf b'"
      using assms(2) nxt True len by (auto simp: bump_wf_def nth_append)
    moreover have "bump_le b b'"
      using nxt True by (auto simp: bump_le_def nth_append)
    moreover have "cursors b' ! cur b' = n"
      using nxt True len by (simp add: nth_append)
    ultimately show ?thesis
      using nxt True by (auto simp: p_end_def)
  next
    case False
    with nxt(6) have len: "Suc (cur b) < length (cursors b)" by simp
    have z: "cursors b ! Suc (cur b) = 0" using len wf(4) by simp
    have "bump_wf b'"
      using assms(2) nxt False len
      by (auto simp: bump_wf_def dest!: set_update_subset_insert [THEN subsetD] split: option.splits)
    moreover have "bump_le b b'"
      using nxt False len z by (auto simp: bump_le_def nth_list_update)
    ultimately show ?thesis
      using nxt False len by (auto simp: p_end_def)
  qed
qed

subsection \<open>A carve: many allocations\<close>

text \<open>\<open>placed b p\<close>: \<open>p\<close> lies inside one chunk of \<open>b\<close>, below its cursor, aligned.\<close>

definition placed :: "bump \<Rightarrow> placement \<Rightarrow> bool" where
  "placed b p \<longleftrightarrow> p_chunk p < length (cursors b) \<and> 0 \<le> p_offset p \<and> 0 \<le> p_nbytes p
     \<and> p_end p \<le> cursors b ! p_chunk p \<and> (0 < p_nbytes p \<longrightarrow> p_align p dvd p_offset p)"

definition before :: "placement \<Rightarrow> placement \<Rightarrow> bool" where
  "before p q \<longleftrightarrow> p_chunk p < p_chunk q \<or> (p_chunk p = p_chunk q \<and> p_end p \<le> p_offset q)"

definition after_cursor :: "bump \<Rightarrow> placement \<Rightarrow> bool" where
  "after_cursor b p \<longleftrightarrow> cur b < p_chunk p \<or> (cur b = p_chunk p \<and> cursors b ! cur b \<le> p_offset p)"

definition serves :: "region_request \<Rightarrow> placement \<Rightarrow> bool" where
  "serves r p \<longleftrightarrow> p_name p = rr_name r \<and> p_nbytes p = rr_nbytes r \<and> p_align p = rr_align r
     \<and> p_forecast p = rr_forecast r"

lemma placed_forecast [simp]: "placed b (p\<lparr>p_forecast := f\<rparr>) = placed b p"
  by (simp add: placed_def p_end_def)

lemma before_forecast [simp]:
  "before (p\<lparr>p_forecast := f\<rparr>) q = before p q" "before p (q\<lparr>p_forecast := f\<rparr>) = before p q"
  by (simp_all add: before_def p_end_def)

lemma after_cursor_forecast [simp]: "after_cursor b (p\<lparr>p_forecast := f\<rparr>) = after_cursor b p"
  by (simp add: after_cursor_def)

lemma placed_mono: "placed b p \<Longrightarrow> bump_le b b' \<Longrightarrow> placed b' p"
  unfolding placed_def bump_le_def by fastforce

lemma before_cursor:
  "placed b p \<Longrightarrow> p_chunk p = cur b \<Longrightarrow> after_cursor b q \<Longrightarrow> before p q"
  by (auto simp: placed_def after_cursor_def before_def)

lemma after_cursor_mono:
  assumes "after_cursor b' p" "bump_le b b'" "bump_wf b" "cursors b \<noteq> []"
  shows "after_cursor b p"
proof -
  have "cur b < length (cursors b)" using assms by (simp add: bump_wfD)
  with assms(1,2) show ?thesis
    unfolding after_cursor_def bump_le_def by (metis le_neq_implies_less order_trans order_le_less_trans)
qed

lemma alloc_all_ConsE:
  assumes "alloc_all b (r # rs) = Inr (ps, b')"
  obtains p b1 qs where "allocate b (rr_nbytes r) (rr_name r) (Some (rr_align r)) = Inr (p, b1)"
    "alloc_all b1 rs = Inr (qs, b')"
    "ps = (if rr_forecast r then p\<lparr>p_forecast := True\<rparr> else p) # qs"
  using assms by (auto simp: bindR_eq_Inr)

theorem alloc_all_layout:
  assumes "alloc_all b rs = Inr (ps, b')" "bump_wf b"
  shows "bump_wf b' \<and> bump_le b b' \<and> (rs \<noteq> [] \<longrightarrow> cursors b \<noteq> []) \<and> list_all2 serves rs ps
     \<and> (\<forall>p \<in> set ps. placed b' p \<and> after_cursor b p) \<and> sorted_wrt before ps"
  using assms
proof (induction rs arbitrary: b ps)
  case Nil
  then show ?case by (simp add: bump_le_refl)
next
  case (Cons r rs)
  from Cons.prems(1) obtain p b1 qs
    where a: "allocate b (rr_nbytes r) (rr_name r) (Some (rr_align r)) = Inr (p, b1)"
      and rest: "alloc_all b1 rs = Inr (qs, b')"
      and ps: "ps = (if rr_forecast r then p\<lparr>p_forecast := True\<rparr> else p) # qs"
    by (rule alloc_all_ConsE)
  note f = allocate_frame [OF a Cons.prems(2)]
  then have "p_chunk p = cur b1" by (metis placement.select_convs(2))
  have fields: "p_name p = rr_name r" "p_nbytes p = rr_nbytes r" "p_align p = rr_align r"
      "p_forecast p = False"
    using f by (metis placement.select_convs)+
  have ih: "bump_wf b' \<and> bump_le b1 b' \<and> list_all2 serves rs qs
     \<and> (\<forall>p \<in> set qs. placed b' p \<and> after_cursor b1 p) \<and> sorted_wrt before qs"
    using Cons.IH [OF rest] f by simp
  have p1: "placed b1 p"
    using f bump_wfD(5) [of b1] \<open>p_chunk p = cur b1\<close> fields by (auto simp: placed_def)
  have ne: "cursors b \<noteq> []" using f by (auto simp: bump_le_def)
  have "after_cursor b p"
    using f \<open>p_chunk p = cur b1\<close> by (auto simp: after_cursor_def bump_le_def)
  moreover have "\<forall>q \<in> set qs. before p q"
    using ih p1 \<open>p_chunk p = cur b1\<close> before_cursor by blast
  moreover have "\<forall>q \<in> set qs. after_cursor b q"
    using ih f Cons.prems(2) ne after_cursor_mono by blast
  moreover have "placed b' p" using p1 ih placed_mono by blast
  moreover have "bump_le b b'" using f ih bump_le_trans by blast
  moreover have "list_all2 serves (r # rs) ps"
    using ih ps fields by (simp add: serves_def [of r])
  ultimately show ?case
    using ih ps ne by auto
qed

subsection \<open>The live carve reproduces the plan\<close>

text \<open>
  \<open>mirrors g b\<close>: the bounded allocator \<open>b\<close> (the arena's) stands where the
  growable one \<open>g\<close> (the plan's) stands, with chunks to spare.
\<close>

definition mirrors :: "bump \<Rightarrow> bump \<Rightarrow> bool" where
  "mirrors g b \<longleftrightarrow> bump_wf g \<and> bump_wf b \<and> max_chunks g = None \<and> max_chunks b \<noteq> None
     \<and> chunk_bytes b = chunk_bytes g \<and> cur b = cur g
     \<and> (\<exists>k. cursors b = cursors g @ replicate k 0)"

lemma allocate_mirrors:
  assumes "allocate g n name (Some a) = Inr (p, g')" "mirrors g b"
    and "length (cursors g') \<le> length (cursors b)"
  shows "\<exists>b'. allocate b n name (Some a) = Inr (p, b') \<and> mirrors g' b'
     \<and> length (cursors b') = length (cursors b)"
proof -
  from assms(2) have wg: "bump_wf g" and wb: "bump_wf b" and mg: "max_chunks g = None"
    and mb: "max_chunks b \<noteq> None" and cb: "chunk_bytes b = chunk_bytes g" and cu: "cur b = cur g"
    by (auto simp: mirrors_def)
  from assms(2) obtain k where k: "cursors b = cursors g @ replicate k 0"
    by (auto simp: mirrors_def)
  have len: "length (cursors g) = Suc (cur g)" using wg mg by (simp add: bump_wfD)
  have ne: "cursors b \<noteq> []" using k len by auto
  have at: "cursors b ! cur b = cursors g ! cur g" using k len cu by (simp add: nth_append)
  have wf': "bump_wf g'" using allocate_frame [OF assms(1) wg] by blast
  from assms(1) wg show ?thesis
  proof (cases rule: allocate_cases)
    case zero
    with assms(2) ne wb at cu show ?thesis by (auto simp: allocate_zero)
  next
    case fit
    define b' where "b' = b\<lparr>cursors := (cursors b)[cur b := align_ceil (cursors b ! cur b) a + n]\<rparr>"
    have al: "allocate b n name (Some a) = Inr (p, b')"
      unfolding b'_def using fit wb ne at cb cu by (subst allocate_fit) auto
    moreover have "bump_wf b'" using allocate_frame [OF al wb] by blast
    moreover have "cursors b' = cursors g' @ replicate k 0"
      using fit k len cu at by (simp add: b'_def list_update_append)
    ultimately show ?thesis
      using fit wf' mg mb cb cu k by (auto simp: mirrors_def b'_def)
  next
    case nxt
    have g': "cursors g' = cursors g @ [n]" "cur g' = Suc (cur g)" "chunk_bytes g' = chunk_bytes g"
      "max_chunks g' = None" "p = place_at name (Suc (cur g)) 0 n a"
      using nxt mg by simp_all
    from assms(3) g' k have "k \<noteq> 0" by auto
    then obtain k' where k': "k = Suc k'" by (cases k) auto
    define b' where "b' = b\<lparr>cursors := (cursors b)[Suc (cur b) := n], cur := Suc (cur b)\<rparr>"
    have al: "allocate b n name (Some a) = Inr (p, b')"
      unfolding b'_def using nxt wb ne at cb cu mb k k' len by (subst allocate_next) auto
    moreover have "bump_wf b'" using allocate_frame [OF al wb] by blast
    moreover have "cursors b' = cursors g' @ replicate k' 0"
      using k k' len cu g' by (simp add: b'_def list_update_append)
    moreover have "chunk_bytes b' = chunk_bytes g'" "cur b' = cur g'" "max_chunks b' \<noteq> None"
      "length (cursors b') = length (cursors b)"
      using g' cb cu mb by (simp_all add: b'_def)
    ultimately show ?thesis
      using wf' g' unfolding mirrors_def by blast
  qed
qed

lemma alloc_all_mirrors:
  assumes "alloc_all g rs = Inr (ps, g')" "mirrors g b"
    and "length (cursors g') \<le> length (cursors b)"
  shows "\<exists>b'. alloc_all b rs = Inr (ps, b') \<and> mirrors g' b'
     \<and> length (cursors b') = length (cursors b)"
  using assms
proof (induction rs arbitrary: g b ps)
  case Nil
  then show ?case by simp
next
  case (Cons r rs)
  from Cons.prems(1) obtain p g1 qs
    where a: "allocate g (rr_nbytes r) (rr_name r) (Some (rr_align r)) = Inr (p, g1)"
      and rest: "alloc_all g1 rs = Inr (qs, g')"
      and ps: "ps = (if rr_forecast r then p\<lparr>p_forecast := True\<rparr> else p) # qs"
    by (rule alloc_all_ConsE)
  have wf: "bump_wf g" using Cons.prems(2) by (simp add: mirrors_def)
  have g1: "bump_wf g1" using allocate_frame [OF a wf] by blast
  then have "bump_le g1 g'" using alloc_all_layout [OF rest] by blast
  then have "length (cursors g1) \<le> length (cursors b)"
    using Cons.prems(3) by (simp add: bump_le_def)
  from allocate_mirrors [OF a Cons.prems(2) this] obtain b1
    where b1: "allocate b (rr_nbytes r) (rr_name r) (Some (rr_align r)) = Inr (p, b1)"
      "mirrors g1 b1" "length (cursors b1) = length (cursors b)" by blast
  from Cons.IH [OF rest b1(2)] Cons.prems(3) b1(3) obtain b'
    where "alloc_all b1 rs = Inr (qs, b')" "mirrors g' b'" "length (cursors b') = length (cursors b1)"
    by auto
  with b1 ps show ?case by auto
qed

lemma plan_regions_InrE:
  assumes "plan_regions rs cb al extra mx = Inr P"
  obtains b0 b k where "distinct (map rr_name rs)" "bump_init cb None al = Inr b0"
    "alloc_all b0 rs = Inr (cp_placements P, b)" "headroom_chunks extra cb mx = Inr k"
    "cp_chunk_bytes P = cb" "cp_align P = al"
    "cp_n_chunks P = (if rs = [] then 0 else length (cursors b)) + nat k"
    "cp_cursors P = (if rs = [] then [] else cursors b) @ replicate (nat k) 0"
    "cp_extra_chunks P = nat k"
proof -
  from assms have d: "distinct (map rr_name rs)"
    by (simp add: plan_regions_def split: if_splits)
  from assms d have "bindR (bump_init cb None al) (\<lambda>b0.
       bindR (alloc_all b0 rs) (\<lambda>(ps, b).
       bindR (headroom_chunks extra cb mx) (\<lambda>k.
         let used = (if (\<exists>c \<in> set (cursors b). c > 0) \<or> ps \<noteq> [] then b_n_chunks b else 0)
         in Inr \<lparr>cp_chunk_bytes = cb, cp_n_chunks = used + nat k, cp_align = al,
                 cp_placements = ps, cp_cursors = take used (cursors b) @ replicate (nat k) 0,
                 cp_extra_chunks = nat k, cp_extra_bytes = max 0 extra,
                 cp_extra_max = max 0 mx\<rparr>))) = Inr P"
    by (simp add: plan_regions_def)
  then obtain b0 ps b k where b0: "bump_init cb None al = Inr b0"
    and al: "alloc_all b0 rs = Inr (ps, b)" and hk: "headroom_chunks extra cb mx = Inr k"
    and P: "(let used = (if (\<exists>c \<in> set (cursors b). c > 0) \<or> ps \<noteq> [] then b_n_chunks b else 0)
         in Inr \<lparr>cp_chunk_bytes = cb, cp_n_chunks = used + nat k, cp_align = al,
                 cp_placements = ps, cp_cursors = take used (cursors b) @ replicate (nat k) 0,
                 cp_extra_chunks = nat k, cp_extra_bytes = max 0 extra,
                 cp_extra_max = max 0 mx\<rparr>) = (Inr P :: layout_error + chunk_plan)"
    by (elim bindR_InrE) (auto elim!: bindR_InrE)
  note i = bump_init_fields [OF b0]
  have lp: "list_all2 serves rs ps"
    using alloc_all_layout [OF al bump_init_wf [OF b0]] by blast
  then have e: "ps = [] \<longleftrightarrow> rs = []" by auto
  have "cursors b = [0]" if "rs = []" using that al i by simp
  then have "(\<exists>c \<in> set (cursors b). c > 0) \<or> ps \<noteq> [] \<longleftrightarrow> rs \<noteq> []"
    using e by auto
  with P have P': "P = \<lparr>cp_chunk_bytes = cb, cp_n_chunks = (if rs \<noteq> [] then b_n_chunks b else 0) + nat k,
     cp_align = al, cp_placements = ps,
     cp_cursors = take (if rs \<noteq> [] then b_n_chunks b else 0) (cursors b) @ replicate (nat k) 0,
     cp_extra_chunks = nat k, cp_extra_bytes = max 0 extra, cp_extra_max = max 0 mx\<rparr>"
    by (simp only: Let_def sum.inject)
  show thesis
    by (rule that [OF d b0 _ hk]) (use al P' in \<open>auto simp: b_n_chunks_def\<close>)
qed

text \<open>
  C31.  A plan never lets a region straddle a chunk boundary and never lets two regions
  overlap: each request gets, in order, a placement of its name, size and alignment, inside
  one of the plan's chunks, aligned when it has bytes, and every later region lies in a
  later chunk or after the end of the earlier one.
\<close>

theorem plan_regions_layout:
  assumes "plan_regions rs cb al extra mx = Inr P"
  shows "list_all2 serves rs (cp_placements P)
     \<and> (\<forall>p \<in> set (cp_placements P). p_chunk p < cp_n_chunks P \<and> 0 \<le> p_offset p
          \<and> p_end p \<le> cb \<and> (0 < p_nbytes p \<longrightarrow> p_align p dvd p_offset p))
     \<and> sorted_wrt before (cp_placements P)"
proof -
  from assms obtain b0 b k where b0: "bump_init cb None al = Inr b0"
    and al: "alloc_all b0 rs = Inr (cp_placements P, b)"
    and n: "cp_n_chunks P = (if rs = [] then 0 else length (cursors b)) + nat k"
    by (rule plan_regions_InrE)
  note l = alloc_all_layout [OF al bump_init_wf [OF b0]]
  have cb: "chunk_bytes b = cb" using l bump_init_fields [OF b0] by (auto simp: bump_le_def)
  have "p_end p \<le> cb \<and> p_chunk p < cp_n_chunks P" if p: "p \<in> set (cp_placements P)" for p
  proof -
    from l p have "placed b p" by blast
    moreover have "rs \<noteq> []" using p l by auto
    ultimately show ?thesis
      using l cb n bump_wfD(3) [of b "p_chunk p"] by (fastforce simp: placed_def)
  qed
  with l show ?thesis by (auto simp: placed_def)
qed

theorem plan_regions_layout_witness:
  "\<exists>P. plan_regions [\<lparr>rr_name = ''a'', rr_nbytes = 1500000, rr_align = 512, rr_forecast = False\<rparr>,
                      \<lparr>rr_name = ''b'', rr_nbytes = 700000, rr_align = 512, rr_forecast = True\<rparr>]
        2097152 512 0 0 = Inr P
     \<and> map p_chunk (cp_placements P) = [0, 1] \<and> sorted_wrt before (cp_placements P)"
proof -
  let ?rs = "[\<lparr>rr_name = ''a'', rr_nbytes = 1500000, rr_align = 512, rr_forecast = False\<rparr>,
              \<lparr>rr_name = ''b'', rr_nbytes = 700000, rr_align = 512, rr_forecast = True\<rparr>]"
  obtain P where P: "plan_regions ?rs 2097152 512 0 0 = Inr P" "map p_chunk (cp_placements P) = [0, 1]"
    by (simp add: plan_regions_def bump_init_def chunk_consts allocate_def try_allocate_def
        round_up_def headroom_chunks_def b_n_chunks_def)
  show ?thesis
    by (rule exI [of _ P]) (intro conjI P plan_regions_layout [OF P(1), THEN conjunct2, THEN conjunct2])
qed

text \<open>
  C32.  Plan and carve agree: an arena bounded to the plan's chunk count, asked for the same
  regions in the same order, places every one of them exactly where the plan said (and
  succeeds), so every rank that derives the plan derives the offsets.
\<close>

theorem carve_replays_plan:
  assumes "plan_regions rs cb al extra mx = Inr P"
    and "bump_init cb (Some (int (cp_n_chunks P))) al = Inr b"
  shows "\<exists>b'. alloc_all b rs = Inr (cp_placements P, b')"
proof (cases "rs = []")
  case True
  with assms(1) show ?thesis by (auto elim!: plan_regions_InrE)
next
  case False
  from assms(1) obtain g0 g k where g0: "bump_init cb None al = Inr g0"
    and al: "alloc_all g0 rs = Inr (cp_placements P, g)"
    and n: "cp_n_chunks P = (if rs = [] then 0 else length (cursors g)) + nat k"
    by (rule plan_regions_InrE)
  note l = alloc_all_layout [OF al bump_init_wf [OF g0]]
  note ig = bump_init_fields [OF g0] and ib = bump_init_fields [OF assms(2)]
  have pos: "0 < length (cursors g)" using l False by (auto simp: bump_le_def)
  have "mirrors g0 b"
    using ig ib bump_init_wf [OF g0] bump_init_wf [OF assms(2)] n False pos
    by (auto simp: mirrors_def intro!: exI [of _ "cp_n_chunks P - 1"] simp flip: replicate_Suc)
  moreover have "length (cursors g) \<le> length (cursors b)" using n False ib by (simp add: nat_add_distrib)
  ultimately show ?thesis using alloc_all_mirrors [OF al] by blast
qed

theorem carve_replays_plan_witness:
  "\<exists>P b b'. plan_regions [\<lparr>rr_name = ''a'', rr_nbytes = 1500000, rr_align = 512, rr_forecast = False\<rparr>,
                      \<lparr>rr_name = ''b'', rr_nbytes = 700000, rr_align = 512, rr_forecast = True\<rparr>]
        2097152 512 0 0 = Inr P
     \<and> bump_init 2097152 (Some 2) 512 = Inr b
     \<and> alloc_all b [\<lparr>rr_name = ''a'', rr_nbytes = 1500000, rr_align = 512, rr_forecast = False\<rparr>,
                      \<lparr>rr_name = ''b'', rr_nbytes = 700000, rr_align = 512, rr_forecast = True\<rparr>]
        = Inr (cp_placements P, b')"
proof -
  let ?rs = "[\<lparr>rr_name = ''a'', rr_nbytes = 1500000, rr_align = 512, rr_forecast = False\<rparr>,
              \<lparr>rr_name = ''b'', rr_nbytes = 700000, rr_align = 512, rr_forecast = True\<rparr>]"
  obtain P where P: "plan_regions ?rs 2097152 512 0 0 = Inr P" "cp_n_chunks P = 2"
    by (simp add: plan_regions_def bump_init_def chunk_consts allocate_def try_allocate_def
        round_up_def headroom_chunks_def b_n_chunks_def)
  obtain b where b: "bump_init 2097152 (Some 2) 512 = Inr b"
    by (simp add: bump_init_def chunk_consts)
  have "\<exists>b'. alloc_all b ?rs = Inr (cp_placements P, b')"
    using carve_replays_plan [OF P(1)] b P(2) by simp
  with P b show ?thesis by blast
qed

subsection \<open>A smaller carve stays inside the reservation\<close>

text \<open>
  The allocator's high-water mark is compared between the carve and the plan.  \<open>pos_le\<close>
  orders two bounded allocators of the same arena by where they stand.
\<close>

definition pos_le :: "bump \<Rightarrow> bump \<Rightarrow> bool" where
  "pos_le b b' \<longleftrightarrow> bump_wf b \<and> bump_wf b' \<and> chunk_bytes b = chunk_bytes b'
     \<and> (\<exists>m. max_chunks b = Some m \<and> max_chunks b' = Some m)
     \<and> (cursors b \<noteq> [] \<longrightarrow>
          cur b < cur b' \<or> (cur b = cur b' \<and> cursors b ! cur b \<le> cursors b' ! cur b'))"

lemma pos_le_length: "pos_le b b' \<Longrightarrow> length (cursors b) = length (cursors b')"
  by (auto simp: pos_le_def bump_wf_def)

lemma pos_le_refl: "bump_wf b \<Longrightarrow> max_chunks b = Some m \<Longrightarrow> pos_le b b"
  by (simp add: pos_le_def)

lemma pos_le_advance:
  assumes "pos_le b c" "bump_le c c'" "bump_wf c'"
  shows "pos_le b c'"
proof (cases "cursors b = []")
  case True
  with assms show ?thesis by (auto simp: pos_le_def bump_le_def)
next
  case False
  then have "cursors c \<noteq> []" using pos_le_length [OF assms(1)] by auto
  then have "cur c < length (cursors c)" using assms(1) by (auto simp: pos_le_def bump_wfD)
  then have "cursors c ! cur c \<le> cursors c' ! cur c" "cur c \<le> cur c'"
    using assms(2) by (auto simp: bump_le_def)
  moreover have "max_chunks c = max_chunks c'" "chunk_bytes c = chunk_bytes c'"
    using assms(2) by (auto simp: bump_le_def)
  moreover have "cur b < cur c \<or> (cur b = cur c \<and> cursors b ! cur b \<le> cursors c ! cur c)"
    using assms(1) False by (auto simp: pos_le_def)
  ultimately have "cur b < cur c' \<or> (cur b = cur c' \<and> cursors b ! cur b \<le> cursors c' ! cur c')"
    by (metis le_neq_implies_less order_less_le_trans order_trans)
  with assms(1,3) \<open>max_chunks c = max_chunks c'\<close> \<open>chunk_bytes c = chunk_bytes c'\<close>
  show ?thesis by (auto simp: pos_le_def)
qed

lemma pos_le_footprint:
  assumes "pos_le b b'"
  shows "b_footprint_bytes b \<le> b_footprint_bytes b'"
proof (cases "cursors b = []")
  case True
  with pos_le_length [OF assms] show ?thesis by (simp add: b_footprint_bytes_def)
next
  case False
  then have ne: "cursors b' \<noteq> []" using pos_le_length [OF assms] by auto
  have cb: "chunk_bytes b = chunk_bytes b'" using assms by (simp add: pos_le_def)
  have le: "cursors b ! cur b \<le> chunk_bytes b'" "0 \<le> cursors b' ! cur b'" "0 < chunk_bytes b'"
    using assms False ne unfolding pos_le_def by (metis bump_wfD(1,3,5), metis bump_wfD(2,5), metis bump_wfD(1))
  show ?thesis
  proof (cases "cur b < cur b'")
    case True
    then have "(int (cur b) + 1) * chunk_bytes b' \<le> int (cur b') * chunk_bytes b'"
      using le(3) by (intro mult_right_mono) auto
    then show ?thesis using le False ne cb by (simp add: b_footprint_bytes_def algebra_simps)
  next
    case False
    with assms ne \<open>cursors b \<noteq> []\<close> show ?thesis
      by (auto simp: b_footprint_bytes_def pos_le_def)
  qed
qed

lemma allocate_pos_le:
  assumes "allocate c m nm (Some a) = Inr (q, c')" "pos_le b c" "0 \<le> n" "n \<le> m"
  shows "\<exists>p b'. allocate b n name (Some a) = Inr (p, b') \<and> pos_le b' c'"
proof -
  have wb: "bump_wf b" and wc: "bump_wf c" and cb: "chunk_bytes b = chunk_bytes c"
    and mx: "max_chunks b = max_chunks c" "max_chunks c \<noteq> None"
    using assms(2) by (auto simp: pos_le_def)
  note fr = allocate_frame [OF assms(1) wc]
  have adv: "pos_le b c'" using fr pos_le_advance [OF assms(2)] by blast
  have nec: "cursors c \<noteq> []" using fr by (auto simp: bump_le_def)
  then have ne: "cursors b \<noteq> []" using pos_le_length [OF assms(2)] by auto
  show ?thesis
  proof (cases "n = 0")
    case True
    with wb ne adv show ?thesis by (auto simp: allocate_zero)
  next
    case False
    with assms(3,4) have n: "0 < n" "0 < m" by auto
    from assms(1) wc n have a: "0 < a" by (cases rule: allocate_cases) auto
    have nC: "n \<le> chunk_bytes b" "m \<le> chunk_bytes c"
      using assms(1,4) cb by (auto simp: allocate_def try_allocate_def split: if_splits)
    let ?o = "align_ceil (cursors b ! cur b) a"
    let ?O = "align_ceil (cursors c ! cur c) a"
    have O0: "0 \<le> ?O" using wc nec a align_ceil_ge [of a "cursors c ! cur c"]
      by (metis bump_wfD(2,5) order_trans)
    have clen: "cur c < length (cursors b)"
      using pos_le_length [OF assms(2)] bump_wfD(5) [OF wc nec] by simp
    have ord: "cur b < cur c \<or> (cur b = cur c \<and> ?o \<le> ?O)"
      using assms(2) ne a by (auto simp: pos_le_def align_ceil_mono)
    show ?thesis
    proof (cases "?o + n \<le> chunk_bytes b")
      case fits: True
      define b' where "b' = b\<lparr>cursors := (cursors b)[cur b := ?o + n]\<rparr>"
      have al: "allocate b n name (Some a) = Inr (place_at name (cur b) ?o n a, b')"
        unfolding b'_def by (rule allocate_fit) (use wb ne n a fits in auto)
      have wb': "bump_wf b'" using allocate_frame [OF al wb] by blast
      have cub: "cursors b' ! cur b' = ?o + n"
        using bump_wfD(5) [OF wb ne] by (simp add: b'_def)
      have "cur b' < cur c' \<or> (cur b' = cur c' \<and> ?o + n \<le> cursors c' ! cur c')"
        using assms(1) wc
      proof (cases rule: allocate_cases)
        case fit
        then have "cursors c' ! cur c' = ?O + m" using bump_wfD(5) [OF wc nec] by simp
        with fit ord assms(4) show ?thesis by (auto simp: b'_def)
      qed (use ord n in \<open>auto simp: b'_def\<close>)
      then have "pos_le b' c'"
        using fr wb' cb mx cub by (auto simp: pos_le_def bump_le_def b'_def)
      with al show ?thesis by blast
    next
      case over: False
      have room: "Suc (cur b) < length (cursors b) \<and> Suc (cur b) \<le> cur c'"
      proof (cases "cur b < cur c")
        case True
        with clen fr show ?thesis by (auto simp: bump_le_def)
      next
        case False
        with ord have eq: "cur b = cur c" "?o \<le> ?O" by auto
        have "\<not> ?O + m \<le> chunk_bytes c" using over eq assms(4) cb by linarith
        with assms(1) wc n mx eq show ?thesis
          by (cases rule: allocate_cases) (auto simp: pos_le_length [OF assms(2)])
      qed
      define b' where "b' = b\<lparr>cursors := (cursors b)[Suc (cur b) := n], cur := Suc (cur b)\<rparr>"
      have al: "allocate b n name (Some a) = Inr (place_at name (Suc (cur b)) 0 n a, b')"
        unfolding b'_def using wb ne n a nC over room mx by (subst allocate_next) auto
      have wb': "bump_wf b'" using allocate_frame [OF al wb] by blast
      have "m \<le> cursors c' ! cur c'"
        using assms(1) wc
      proof (cases rule: allocate_cases)
        case fit
        then show ?thesis using bump_wfD(5) [OF wc nec] O0 by simp
      next
        case nxt
        with mx show ?thesis by auto
      qed (use n in simp)
      then have "pos_le b' c'"
        using fr wb' cb mx room assms(4) by (auto simp: pos_le_def bump_le_def b'_def)
      with al show ?thesis by blast
    qed
  qed
qed

lemma alloc_all_pos_le:
  assumes "list_all2 (\<lambda>r s. 0 \<le> rr_nbytes r \<and> rr_nbytes r \<le> rr_nbytes s \<and> rr_align r = rr_align s) rs ss"
    and "alloc_all c ss = Inr (qs, c')" "pos_le b c"
  shows "\<exists>ps b'. alloc_all b rs = Inr (ps, b') \<and> pos_le b' c'"
  using assms
proof (induction rs ss arbitrary: b c qs rule: list_all2_induct)
  case Nil
  then show ?case by simp
next
  case (Cons r rs s ss)
  from Cons.prems(1) obtain q c1 qs'
    where a: "allocate c (rr_nbytes s) (rr_name s) (Some (rr_align s)) = Inr (q, c1)"
      and rest: "alloc_all c1 ss = Inr (qs', c')"
    by (rule alloc_all_ConsE)
  from allocate_pos_le [OF a Cons.prems(2), of "rr_nbytes r" "rr_name r"] Cons.hyps(1)
  obtain p b1 where "allocate b (rr_nbytes r) (rr_name r) (Some (rr_align r)) = Inr (p, b1)"
    "pos_le b1 c1" by auto
  with Cons.IH [OF rest] show ?case by fastforce
qed

text \<open>
  The envelope check of \<open>verify_matches_plan\<close> is sound: on the same pinned chunks, a
  carve whose regions are no larger than the forecast ones (in the same order and with the
  same alignments; a region that never arrives has size zero) succeeds and its footprint is
  at most the forecast's, which is at most what was pinned.
\<close>

theorem smaller_carve_stays_inside:
  assumes "bump_init cb (Some n) al = Inr b"
    and "alloc_all b ss = Inr (qs, b2)"
    and "list_all2 (\<lambda>r s. 0 \<le> rr_nbytes r \<and> rr_nbytes r \<le> rr_nbytes s \<and> rr_align r = rr_align s) rs ss"
  shows "\<exists>ps b1. alloc_all b rs = Inr (ps, b1)
     \<and> b_footprint_bytes b1 \<le> b_footprint_bytes b2 \<and> b_footprint_bytes b2 \<le> b_reserved_bytes b2"
proof -
  note i = bump_init_fields [OF assms(1)]
  have "pos_le b b" using i bump_init_wf [OF assms(1)] by (simp add: pos_le_refl)
  from alloc_all_pos_le [OF assms(3,2) this] obtain ps b1
    where "alloc_all b rs = Inr (ps, b1)" "pos_le b1 b2" by blast
  moreover have "b_footprint_bytes b2 \<le> b_reserved_bytes b2"
  proof (cases "cursors b2 = []")
    case False
    have w: "bump_wf b2" using alloc_all_layout [OF assms(2) bump_init_wf [OF assms(1)]] by blast
    then have c: "cur b2 < length (cursors b2)" "cursors b2 ! cur b2 \<le> chunk_bytes b2" "0 < chunk_bytes b2"
      using False by (auto simp: bump_wfD)
    then have "(int (cur b2) + 1) * chunk_bytes b2 \<le> int (length (cursors b2)) * chunk_bytes b2"
      by (intro mult_right_mono) auto
    with c False show ?thesis
      by (simp add: b_footprint_bytes_def b_reserved_bytes_def b_n_chunks_def algebra_simps)
  qed (simp add: b_footprint_bytes_def b_reserved_bytes_def b_n_chunks_def)
  ultimately show ?thesis using pos_le_footprint by blast
qed

theorem smaller_carve_stays_inside_witness:
  "\<exists>b qs b2 ps b1. bump_init 2097152 (Some 2) 512 = Inr b
     \<and> alloc_all b [\<lparr>rr_name = ''a'', rr_nbytes = 1500000, rr_align = 512, rr_forecast = False\<rparr>,
                    \<lparr>rr_name = ''b'', rr_nbytes = 700000, rr_align = 512, rr_forecast = True\<rparr>] = Inr (qs, b2)
     \<and> alloc_all b [\<lparr>rr_name = ''a'', rr_nbytes = 1500000, rr_align = 512, rr_forecast = False\<rparr>,
                    \<lparr>rr_name = ''b'', rr_nbytes = 600000, rr_align = 512, rr_forecast = True\<rparr>] = Inr (ps, b1)
     \<and> b_footprint_bytes b1 \<le> b_footprint_bytes b2"
proof -
  let ?a = "\<lparr>rr_name = ''a'', rr_nbytes = 1500000, rr_align = 512, rr_forecast = False\<rparr>"
  let ?ss = "[?a, \<lparr>rr_name = ''b'', rr_nbytes = 700000, rr_align = 512, rr_forecast = True\<rparr>]"
  let ?rs = "[?a, \<lparr>rr_name = ''b'', rr_nbytes = 600000, rr_align = 512, rr_forecast = True\<rparr>]"
  obtain b where b: "bump_init 2097152 (Some 2) 512 = Inr b"
    by (simp add: bump_init_def chunk_consts)
  then have "\<exists>qs b2. alloc_all b ?ss = Inr (qs, b2)"
    by (auto simp: bump_init_def chunk_consts allocate_def try_allocate_def round_up_def
        b_n_chunks_def numeral_2_eq_2)
  then obtain qs b2 where q: "alloc_all b ?ss = Inr (qs, b2)" by blast
  have "\<exists>ps b1. alloc_all b ?rs = Inr (ps, b1) \<and> b_footprint_bytes b1 \<le> b_footprint_bytes b2"
    using smaller_carve_stays_inside [OF b q, of ?rs] by auto
  with b q show ?thesis by blast
qed

end
