(* ===== verification/Chunk_Headroom.thy ===== *)
theory Chunk_Headroom
  imports Chunk_Plan
begin

section \<open>What the plan's trailing headroom guarantees (weights/chunk_plan.py)\<close>

text \<open>
  \<open>plan_regions\<close> appends \<open>headroom_chunks\<close> whole chunks for regions that are carved
  later.  With a bound \<open>m\<close> on one region, next-fit leaves at most \<open>m\<close> bytes unused in a
  chunk; \<open>capacity\<close> is the number of bytes that are then sure to be placeable from where
  the allocator stands.  The guarantee needs the later regions to be multiples of their
  alignment; without that it fails, and a concrete plan shows it.
\<close>

definition capacity :: "int \<Rightarrow> int \<Rightarrow> bump \<Rightarrow> int" where
  "capacity m a b = (int (length (cursors b)) - int (cur b) - 1) * (chunk_bytes b - m)
     + max 0 (chunk_bytes b - m - align_ceil (cursors b ! cur b) a)"

definition bounded_arena :: "bump \<Rightarrow> bool" where
  "bounded_arena b \<longleftrightarrow> bump_wf b \<and> (\<exists>n. max_chunks b = Some n)"

lemma allocate_capacity:
  assumes "bounded_arena b" "cursors b \<noteq> []" "0 < a" "0 < n" "n \<le> m" "m < chunk_bytes b"
    and "a dvd n" "n \<le> capacity m a b"
  shows "\<exists>p b'. allocate b n name (Some a) = Inr (p, b') \<and> bounded_arena b' \<and> cursors b' \<noteq> []
     \<and> chunk_bytes b' = chunk_bytes b \<and> capacity m a b - n \<le> capacity m a b'"
proof -
  have wf: "bump_wf b" and mx: "\<exists>n. max_chunks b = Some n" using assms(1) by (auto simp: bounded_arena_def)
  have c: "cur b < length (cursors b)" using wf assms(2) by (rule bump_wfD(5))
  let ?o = "align_ceil (cursors b ! cur b) a"
  have al: "align_ceil (?o + n) a = ?o + n" using assms(3,7) by (intro align_ceil_id) auto
  have an: "align_ceil n a = n" using assms(3,7) by (intro align_ceil_id) auto
  show ?thesis
  proof (cases "?o + n \<le> chunk_bytes b")
    case True
    define b' where "b' = b\<lparr>cursors := (cursors b)[cur b := ?o + n]\<rparr>"
    have p: "\<exists>p. allocate b n name (Some a) = Inr (p, b')"
      unfolding b'_def using allocate_fit [OF wf assms(2,4,3) True] by blast
    then have "bump_wf b'" using allocate_frame [OF _ wf] by blast
    moreover have "capacity m a b - n \<le> capacity m a b'"
      using c assms(4) al by (simp add: capacity_def b'_def)
    moreover have "bounded_arena b'" using calculation(1) mx by (auto simp: bounded_arena_def b'_def)
    ultimately show ?thesis using p assms(2) by (auto simp: b'_def)
  next
    case False
    then have cap: "capacity m a b = (int (length (cursors b)) - int (cur b) - 1) * (chunk_bytes b - m)"
      using assms(5) by (simp add: capacity_def)
    have more: "Suc (cur b) < length (cursors b)"
    proof (rule ccontr)
      assume "\<not> ?thesis"
      with c have "int (length (cursors b)) - int (cur b) - 1 = 0" by linarith
      with cap assms(4,8) show False by simp
    qed
    define b' where "b' = b\<lparr>cursors := (cursors b)[Suc (cur b) := n], cur := Suc (cur b)\<rparr>"
    have p: "\<exists>p. allocate b n name (Some a) = Inr (p, b')"
      unfolding b'_def using mx False more assms wf by (subst allocate_next) auto
    then have "bump_wf b'" using allocate_frame [OF _ wf] by blast
    moreover have "capacity m a b - n \<le> capacity m a b'"
      using cap more an by (simp add: capacity_def b'_def algebra_simps)
    moreover have "bounded_arena b'" using calculation(1) mx by (auto simp: bounded_arena_def b'_def)
    ultimately show ?thesis using p more by (auto simp: b'_def)
  qed
qed

lemma alloc_all_capacity:
  assumes "bounded_arena b" "cursors b \<noteq> []" "0 < a" "m < chunk_bytes b"
    and "\<forall>x \<in> set xs. 0 < rr_nbytes x \<and> rr_nbytes x \<le> m \<and> rr_align x = a \<and> a dvd rr_nbytes x"
    and "sum_list (map rr_nbytes xs) \<le> capacity m a b"
  shows "\<exists>ps b'. alloc_all b xs = Inr (ps, b')"
  using assms
proof (induction xs arbitrary: b)
  case Nil
  then show ?case by simp
next
  case (Cons x xs)
  have "0 \<le> sum_list (map rr_nbytes xs)"
    using Cons.prems(5) by (intro sum_list_nonneg_int) auto
  then have "rr_nbytes x \<le> capacity m a b" using Cons.prems(6) by simp
  with allocate_capacity [OF Cons.prems(1,2,3), of "rr_nbytes x" m "rr_name x"] Cons.prems(4,5)
  obtain p b' where b': "allocate b (rr_nbytes x) (rr_name x) (Some (rr_align x)) = Inr (p, b')"
    "bounded_arena b'" "cursors b' \<noteq> []" "chunk_bytes b' = chunk_bytes b"
    "capacity m a b - rr_nbytes x \<le> capacity m a b'" by auto
  then have "\<exists>ps b2. alloc_all b' xs = Inr (ps, b2)"
    using Cons.prems by (intro Cons.IH) auto
  with b'(1) show ?case by auto
qed

lemma alloc_all_append:
  "alloc_all b rs = Inr (ps, b1) \<Longrightarrow> alloc_all b1 xs = Inr (qs, b2) \<Longrightarrow>
   \<exists>ps'. alloc_all b (rs @ xs) = Inr (ps', b2)"
proof (induction rs arbitrary: b ps)
  case Nil
  then show ?case by simp
next
  case (Cons r rs)
  from Cons.prems(1) obtain p c ps0
    where a: "allocate b (rr_nbytes r) (rr_name r) (Some (rr_align r)) = Inr (p, c)"
      and rest: "alloc_all c rs = Inr (ps0, b1)"
    by (rule alloc_all_ConsE)
  from Cons.IH [OF rest Cons.prems(2)] a show ?case by auto
qed

lemma headroom_enough:
  assumes "headroom_chunks e c m = Inr k" "0 < m" "0 < e"
  shows "m < c" "0 < k" "e \<le> k * (c - m)"
proof -
  from assms show mc: "m < c" by (auto simp: headroom_chunks_def split: if_splits)
  with assms have k: "k = (e + (c - m) - 1) div (c - m)"
    by (auto simp: headroom_chunks_def Let_def split: if_splits)
  have "k * (c - m) = align_ceil e (c - m)" by (simp add: k align_ceil_def div_ceil_def)
  with align_ceil_ge [of "c - m" e] mc show e: "e \<le> k * (c - m)" by simp
  show "0 < k"
  proof (rule ccontr)
    assume "\<not> 0 < k"
    with mc have "k * (c - m) \<le> 0" by (intro mult_nonpos_nonneg) auto
    with e assms(3) show False by simp
  qed
qed

text \<open>
  Headroom is enough: on the chunks the plan reserved, after the planned regions, any
  later regions whose sizes are positive multiples of the arena's alignment, at most the
  declared bound each and at most \<open>extra_bytes\<close> in all, are all placed; none falls out
  of the arena.
\<close>

theorem headroom_places_extra:
  assumes "plan_regions rs cb a extra m = Inr P" "0 < m" "0 < a"
    and "bump_init cb (Some (int (cp_n_chunks P))) a = Inr b"
    and "\<forall>x \<in> set xs. 0 < rr_nbytes x \<and> rr_nbytes x \<le> m \<and> rr_align x = a \<and> a dvd rr_nbytes x"
    and "sum_list (map rr_nbytes xs) \<le> extra"
  shows "\<exists>ps b'. alloc_all b (rs @ xs) = Inr (ps, b')"
proof -
  from assms(1) obtain g0 g k where g0: "bump_init cb None a = Inr g0"
    and al: "alloc_all g0 rs = Inr (cp_placements P, g)" and hk: "headroom_chunks extra cb m = Inr k"
    and n: "cp_n_chunks P = (if rs = [] then 0 else length (cursors g)) + nat k"
    by (rule plan_regions_InrE)
  note l = alloc_all_layout [OF al bump_init_wf [OF g0]]
  note ig = bump_init_fields [OF g0] and ib = bump_init_fields [OF assms(4)]
  have "\<exists>qs b1. alloc_all b rs = Inr (qs, b1) \<and> bounded_arena b1 \<and> chunk_bytes b1 = cb
     \<and> length (cursors b1) = cp_n_chunks P
     \<and> cur b1 = (if rs = [] then 0 else length (cursors g) - 1)"
  proof (cases "rs = []")
    case True
    with ib bump_init_wf [OF assms(4)] show ?thesis by (auto simp: bounded_arena_def)
  next
    case False
    have pos: "0 < length (cursors g)" using l False by (auto simp: bump_le_def)
    have "mirrors g0 b"
      using ig ib bump_init_wf [OF g0] bump_init_wf [OF assms(4)] n False pos
      by (auto simp: mirrors_def intro!: exI [of _ "cp_n_chunks P - 1"] simp flip: replicate_Suc)
    moreover have "length (cursors g) \<le> length (cursors b)" using n False ib by (simp add: nat_add_distrib)
    ultimately obtain b1 where b1: "alloc_all b rs = Inr (cp_placements P, b1)" "mirrors g b1"
      "length (cursors b1) = length (cursors b)" using alloc_all_mirrors [OF al] by blast
    then have "cur b1 = cur g" "bump_wf g" "max_chunks g = None" "bump_wf b1" "max_chunks b1 \<noteq> None"
      "chunk_bytes b1 = chunk_bytes g" by (auto simp: mirrors_def)
    moreover have "chunk_bytes g = cb" using l ig by (auto simp: bump_le_def)
    ultimately show ?thesis
      using b1 False ib bump_wfD(6) [of g] by (auto simp: bounded_arena_def)
  qed
  then obtain qs b1 where b1: "alloc_all b rs = Inr (qs, b1)" "bounded_arena b1" "chunk_bytes b1 = cb"
    "length (cursors b1) = cp_n_chunks P" "cur b1 = (if rs = [] then 0 else length (cursors g) - 1)"
    by blast
  have "\<exists>ps b'. alloc_all b1 xs = Inr (ps, b')"
  proof (cases "xs = []")
    case False
    then have "0 < sum_list (map rr_nbytes xs)"
      using assms(5) sum_list_nonneg_int [of "map rr_nbytes (tl xs)"]
      by (cases xs) (auto intro!: add_pos_nonneg sum_list_nonneg_int simp: less_imp_le)
    then have e: "0 < extra" using assms(6) by simp
    note h = headroom_enough [OF hk assms(2) e]
    have wf: "bump_wf b1" using b1(2) by (simp add: bounded_arena_def)
    have nk: "int (nat k) = k" "0 < nat k" using h by auto
    have ne: "cursors b1 \<noteq> []" using b1(4) n nk by auto
    have "k * (cb - m) \<le> capacity m a b1"
    proof (cases "rs = []")
      case True
      then have "cur b1 = 0" "int (length (cursors b1)) = k" using b1 n nk by auto
      moreover have "alloc_all b rs = Inr ([], b)" using True by simp
      then have "cursors b1 ! 0 = 0" using b1(1) ib True ne by auto
      ultimately show ?thesis using b1(3) assms(3) h by (simp add: capacity_def algebra_simps)
    next
      case False
      have "0 < length (cursors g)" using l False by (auto simp: bump_le_def)
      moreover have "length (cursors b1) = length (cursors g) + nat k" "cur b1 = length (cursors g) - 1"
        using False b1(4,5) n by auto
      ultimately have "int (length (cursors b1)) - int (cur b1) - 1 = k"
        using nk by linarith
      then show ?thesis using b1(3) by (simp add: capacity_def)
    qed
    then have "sum_list (map rr_nbytes xs) \<le> capacity m a b1" using h(3) assms(6) by linarith
    then show ?thesis
      using alloc_all_capacity [OF b1(2) ne assms(3)] h(1) b1(3) assms(5) by blast
  qed simp
  then show ?thesis using alloc_all_append [OF b1(1)] by blast
qed

theorem headroom_places_extra_witness:
  "\<exists>P b ps b'. plan_regions [\<lparr>rr_name = ''a'', rr_nbytes = 1500000, rr_align = 512, rr_forecast = False\<rparr>]
        2097152 512 2048000 1024000 = Inr P
     \<and> bump_init 2097152 (Some (int (cp_n_chunks P))) 512 = Inr b
     \<and> alloc_all b ([\<lparr>rr_name = ''a'', rr_nbytes = 1500000, rr_align = 512, rr_forecast = False\<rparr>]
          @ [\<lparr>rr_name = ''x'', rr_nbytes = 1024000, rr_align = 512, rr_forecast = False\<rparr>,
             \<lparr>rr_name = ''y'', rr_nbytes = 1024000, rr_align = 512, rr_forecast = False\<rparr>]) = Inr (ps, b')"
proof -
  let ?rs = "[\<lparr>rr_name = ''a'', rr_nbytes = 1500000, rr_align = 512, rr_forecast = False\<rparr>]"
  let ?xs = "[\<lparr>rr_name = ''x'', rr_nbytes = 1024000, rr_align = 512, rr_forecast = False\<rparr>,
              \<lparr>rr_name = ''y'', rr_nbytes = 1024000, rr_align = 512, rr_forecast = False\<rparr>]"
  obtain P where P: "plan_regions ?rs 2097152 512 2048000 1024000 = Inr P"
    by (simp add: plan_regions_def bump_init_def chunk_consts allocate_def try_allocate_def
        round_up_def headroom_chunks_def b_n_chunks_def)
  obtain b where b: "bump_init 2097152 (Some (int (cp_n_chunks P))) 512 = Inr b"
    by (simp add: bump_init_def chunk_consts)
  have "\<exists>ps b'. alloc_all b (?rs @ ?xs) = Inr (ps, b')"
    by (rule headroom_places_extra [OF P _ _ b]) auto
  with P b show ?thesis by blast
qed

text \<open>
  The alignment hypothesis of the guarantee is needed, although \<open>headroom_chunks\<close>
  promises to be sure for any regions within its bound: three one-byte regions aligned to
  one megabyte, with three bytes of headroom and the exact bound of one byte, get one
  chunk, and the third does not fit in it.
\<close>

theorem headroom_ignores_alignment_padding:
  "\<exists>P b. plan_regions [] 2097152 1048576 3 1 = Inr P \<and> cp_n_chunks P = 1
     \<and> bump_init 2097152 (Some (int (cp_n_chunks P))) 1048576 = Inr b
     \<and> alloc_all b [\<lparr>rr_name = ''x'', rr_nbytes = 1, rr_align = 1048576, rr_forecast = False\<rparr>,
                    \<lparr>rr_name = ''y'', rr_nbytes = 1, rr_align = 1048576, rr_forecast = False\<rparr>,
                    \<lparr>rr_name = ''z'', rr_nbytes = 1, rr_align = 1048576, rr_forecast = False\<rparr>]
       = Inl ArenaExhaustedError"
  by (simp add: plan_regions_def bump_init_def chunk_consts allocate_def try_allocate_def
      round_up_def headroom_chunks_def b_n_chunks_def)

end
