(* ===== verification/Torch_Charge.thy ===== *)
theory Torch_Charge
  imports Chunk_Plan
begin

section \<open>The segments torch's caching allocator asks the arena for (weights/chunk_plan.py)\<close>

text \<open>
  \<open>torch_charged_rows\<close> turns an ordered list of rows into the ordered list of arena
  charges: a row served from a free block of its pool costs nothing, a row that opens a
  segment costs the segment, and a large enough remainder goes back to the pool.  The two
  pools are lists in insertion order, as in the code.
\<close>

definition TORCH_ALLOC_GRANULE :: int where "TORCH_ALLOC_GRANULE = 2 * MIB"
definition TORCH_SMALL_SIZE :: int where "TORCH_SMALL_SIZE = 1 * MIB"
definition TORCH_SMALL_BUFFER :: int where "TORCH_SMALL_BUFFER = 2 * MIB"
definition TORCH_MIN_LARGE_ALLOC :: int where "TORCH_MIN_LARGE_ALLOC = 10 * MIB"
definition TORCH_LARGE_BUFFER :: int where "TORCH_LARGE_BUFFER = 20 * MIB"
definition TORCH_MIN_BLOCK :: int where "TORCH_MIN_BLOCK = 512"

lemmas torch_consts =
  TORCH_ALLOC_GRANULE_def TORCH_SMALL_SIZE_def TORCH_SMALL_BUFFER_def TORCH_MIN_LARGE_ALLOC_def
  TORCH_LARGE_BUFFER_def TORCH_MIN_BLOCK_def MIB_def

definition torch_allocation_bytes :: "int \<Rightarrow> layout_error + int" where
  "torch_allocation_bytes nbytes =
     (if nbytes \<le> 0 then Inr 0
      else round_up (max nbytes TORCH_ALLOC_GRANULE) TORCH_ALLOC_GRANULE)"

definition torch_segment_bytes :: "int \<Rightarrow> layout_error + int" where
  "torch_segment_bytes nbytes =
     bindR (round_up nbytes TORCH_MIN_BLOCK) (\<lambda>n.
       if n \<le> 0 then Inr 0
       else if n \<le> TORCH_SMALL_SIZE then Inr TORCH_SMALL_BUFFER
       else if n < TORCH_MIN_LARGE_ALLOC then Inr TORCH_LARGE_BUFFER
       else round_up n TORCH_ALLOC_GRANULE)"

text \<open>The search loop over one pool: the first of the smallest blocks that fit, its index.\<close>

fun pick_from :: "int \<Rightarrow> nat \<Rightarrow> int list \<Rightarrow> (nat \<times> int) option \<Rightarrow> (nat \<times> int) option" where
  "pick_from n i [] best = best"
| "pick_from n i (avail # pool) best =
     pick_from n (Suc i) pool
       (if avail \<ge> n \<and> (case best of None \<Rightarrow> True | Some (_, v) \<Rightarrow> avail < v)
        then Some (i, avail) else best)"

definition get_free_block :: "int \<Rightarrow> int list \<Rightarrow> (nat \<times> int) option" where
  "get_free_block n pool = pick_from n 0 pool None"

definition pop_at :: "nat \<Rightarrow> 'a list \<Rightarrow> 'a list" where
  "pop_at i xs = take i xs @ drop (Suc i) xs"

definition serve_row :: "int \<Rightarrow> int \<Rightarrow> int list \<Rightarrow> layout_error + (int \<times> int list)" where
  "serve_row n min_split pool =
     bindR (case get_free_block n pool of
              Some (i, block) \<Rightarrow> Inr (block, 0, pop_at i pool)
            | None \<Rightarrow> bindR (torch_segment_bytes n) (\<lambda>seg. Inr (seg, seg, pool)))
       (\<lambda>(block, charge, pool').
         Inr (charge, if block - n \<ge> min_split then pool' @ [block - n] else pool'))"

fun charge_rows ::
    "int list \<Rightarrow> int list \<Rightarrow> (string \<times> int) list \<Rightarrow>
     layout_error + ((string \<times> int) list \<times> int list \<times> int list)" where
  "charge_rows small large [] = Inr ([], small, large)"
| "charge_rows small large ((name, nbytes) # rows) =
     bindR (round_up nbytes TORCH_MIN_BLOCK) (\<lambda>n.
       if n \<le> 0 then charge_rows small large rows
       else if n \<le> TORCH_SMALL_SIZE
       then bindR (serve_row n TORCH_MIN_BLOCK small) (\<lambda>(charge, small').
              bindR (charge_rows small' large rows) (\<lambda>(out, s, l). Inr ((name, charge) # out, s, l)))
       else bindR (serve_row n (TORCH_SMALL_SIZE + 1) large) (\<lambda>(charge, large').
              bindR (charge_rows small large' rows) (\<lambda>(out, s, l). Inr ((name, charge) # out, s, l))))"

definition torch_charged_rows :: "(string \<times> int) list \<Rightarrow> layout_error + (string \<times> int) list" where
  "torch_charged_rows rows = bindR (charge_rows [] [] rows) (\<lambda>(out, _, _). Inr out)"

subsection \<open>The free block search\<close>

lemma pick_from_Some:
  assumes "pick_from n i pool best = Some (j, v)"
    and "\<And>j' v'. best = Some (j', v') \<Longrightarrow> n \<le> v'"
  shows "n \<le> v \<and> (best = Some (j, v) \<or> (i \<le> j \<and> j - i < length pool \<and> pool ! (j - i) = v))"
  using assms
proof (induction n i pool best rule: pick_from.induct)
  case (1 n i best)
  then show ?case by simp
next
  case (2 n i avail pool best)
  let ?b = "if avail \<ge> n \<and> (case best of None \<Rightarrow> True | Some (_, v) \<Rightarrow> avail < v)
        then Some (i, avail) else best"
  have "n \<le> v \<and> (?b = Some (j, v) \<or> (Suc i \<le> j \<and> j - Suc i < length pool \<and> pool ! (j - Suc i) = v))"
  proof (rule "2.IH")
    show "pick_from n (Suc i) pool ?b = Some (j, v)" using "2.prems"(1) by simp
    show "n \<le> v'" if "?b = Some (j', v')" for j' v'
      using that "2.prems"(2) by (cases "?b = best") (auto split: if_splits)
  qed
  then consider (here) "n \<le> v" "?b = Some (j, v)"
    | (later) "n \<le> v" "Suc i \<le> j" "j - Suc i < length pool" "pool ! (j - Suc i) = v"
    by blast
  then show ?case
  proof cases
    case here
    then show ?thesis by (cases "?b = best") (auto split: if_splits)
  next
    case later
    then have "j - i = Suc (j - Suc i)" by arith
    with later show ?thesis by simp
  qed
qed

lemma get_free_block_Some:
  "get_free_block n pool = Some (j, v) \<Longrightarrow> n \<le> v \<and> j < length pool \<and> pool ! j = v"
  unfolding get_free_block_def by (drule pick_from_Some) auto

lemma pick_from_None:
  "pick_from n i pool best = None \<longleftrightarrow> best = None \<and> (\<forall>v \<in> set pool. v < n)"
  by (induction n i pool best rule: pick_from.induct) (auto split: option.splits)

lemma sum_list_pop_at:
  fixes xs :: "int list"
  shows "i < length xs \<Longrightarrow> sum_list (pop_at i xs) = sum_list xs - xs ! i"
  by (induction xs arbitrary: i) (auto simp: pop_at_def nth_Cons split: nat.splits)

lemma set_pop_at: "set (pop_at i xs) \<subseteq> set xs"
  by (auto simp: pop_at_def dest: in_set_takeD in_set_dropD)

lemma round_up_block [simp]: "round_up n TORCH_MIN_BLOCK = Inr (align_ceil n TORCH_MIN_BLOCK)"
  by (simp add: round_up_ceil torch_consts)

lemma min_split_nonneg: "0 \<le> TORCH_MIN_BLOCK" "0 \<le> TORCH_SMALL_SIZE + 1"
  by (simp_all add: torch_consts)

lemma torch_segment_ge:
  assumes "TORCH_MIN_BLOCK dvd n" "0 < n"
  shows "\<exists>seg. torch_segment_bytes n = Inr seg \<and> n \<le> seg"
  using assms align_ceil_ge [of TORCH_ALLOC_GRANULE n]
  by (auto simp: torch_segment_bytes_def align_ceil_id round_up_ceil torch_consts)

lemma serve_row_conserves:
  assumes "TORCH_MIN_BLOCK dvd n" "0 < n" "0 \<le> min_split" "\<forall>x \<in> set pool. 0 \<le> x"
  obtains charge pool' where "serve_row n min_split pool = Inr (charge, pool')"
    "n + sum_list pool' \<le> charge + sum_list pool" "\<forall>x \<in> set pool'. 0 \<le> x"
    "charge = 0 \<or> torch_segment_bytes n = Inr charge"
proof (cases "get_free_block n pool")
  case None
  obtain seg where "torch_segment_bytes n = Inr seg" "n \<le> seg" using torch_segment_ge [OF assms(1,2)] by blast
  with None assms that [of seg "if seg - n \<ge> min_split then pool @ [seg - n] else pool"]
  show thesis by (auto simp: serve_row_def)
next
  case (Some p)
  obtain i v where p: "p = (i, v)" by (cases p)
  note f = get_free_block_Some [OF Some [unfolded p]]
  have "\<forall>x \<in> set (pop_at i pool). 0 \<le> x" using assms(4) set_pop_at by fastforce
  with Some p f assms that [of 0 "if v - n \<ge> min_split then pop_at i pool @ [v - n] else pop_at i pool"]
  show thesis by (auto simp: serve_row_def sum_list_pop_at)
qed

definition rounded_rows :: "(string \<times> int) list \<Rightarrow> (string \<times> int) list" where
  "rounded_rows rows = filter (\<lambda>(_, n). 0 < n) (map (\<lambda>(s, n). (s, align_ceil n TORCH_MIN_BLOCK)) rows)"

lemma rounded_rows_simps [simp]:
  "rounded_rows [] = []"
  "rounded_rows ((s, n) # rows) =
     (if 0 < align_ceil n TORCH_MIN_BLOCK then [(s, align_ceil n TORCH_MIN_BLOCK)] else []) @ rounded_rows rows"
  by (simp_all add: rounded_rows_def)

lemma charge_rows_conserves:
  assumes "\<forall>x \<in> set small. 0 \<le> x" "\<forall>x \<in> set large. 0 \<le> x"
  shows "\<exists>out s l. charge_rows small large rows = Inr (out, s, l)
     \<and> (\<forall>x \<in> set s. 0 \<le> x) \<and> (\<forall>x \<in> set l. 0 \<le> x)
     \<and> list_all2 (\<lambda>(nm, n) (nm', c). nm' = nm \<and> (c = 0 \<or> torch_segment_bytes n = Inr c)) (rounded_rows rows) out
     \<and> sum_list (map snd (rounded_rows rows)) + sum_list s + sum_list l
         \<le> sum_list (map snd out) + sum_list small + sum_list large"
  using assms
proof (induction rows arbitrary: small large)
  case Nil
  then show ?case by simp
next
  case (Cons r rows)
  obtain name nbytes where r: "r = (name, nbytes)" by (cases r)
  define n where "n = align_ceil nbytes TORCH_MIN_BLOCK"
  have d: "TORCH_MIN_BLOCK dvd n" by (simp add: n_def)
  consider (skip) "n \<le> 0" | (small) "0 < n" "n \<le> TORCH_SMALL_SIZE" | (large) "0 < n" "TORCH_SMALL_SIZE < n"
    by linarith
  then show ?case
  proof cases
    case skip
    with Cons show ?thesis by (auto simp: r n_def)
  next
    case small
    obtain c s' where s': "serve_row n TORCH_MIN_BLOCK small = Inr (c, s')"
      "n + sum_list s' \<le> c + sum_list small" "\<forall>x \<in> set s'. 0 \<le> x"
      "c = 0 \<or> torch_segment_bytes n = Inr c"
      using serve_row_conserves [OF d small(1) min_split_nonneg(1) Cons.prems(1)] by metis
    from Cons.IH [OF s'(3) Cons.prems(2)] s' small show ?thesis
      by (auto simp: r n_def [symmetric])
  next
    case large
    obtain c l' where l': "serve_row n (TORCH_SMALL_SIZE + 1) large = Inr (c, l')"
      "n + sum_list l' \<le> c + sum_list large" "\<forall>x \<in> set l'. 0 \<le> x"
      "c = 0 \<or> torch_segment_bytes n = Inr c"
      using serve_row_conserves [OF d large(1) min_split_nonneg(2) Cons.prems(2)] by metis
    from Cons.IH [OF Cons.prems(1) l'(3)] l' large show ?thesis
      by (auto simp: r n_def [symmetric])
  qed
qed

text \<open>
  The charges back the rows: every row of positive size is reported once, in order, with
  a charge that is either zero (a free block served it) or the segment torch opens for it,
  and the charges add up to at least the rows' block-rounded sizes; the function never
  raises.  A reservation made from the charges is therefore never short of the tensors it holds.
\<close>

theorem torch_charges_back_rows:
  "\<exists>out. torch_charged_rows rows = Inr out
     \<and> list_all2 (\<lambda>(nm, n) (nm', c). nm' = nm \<and> (c = 0 \<or> torch_segment_bytes n = Inr c)) (rounded_rows rows) out
     \<and> sum_list (map snd (rounded_rows rows)) \<le> sum_list (map snd out)"
proof -
  from charge_rows_conserves [of "[]" "[]" rows] obtain out s l
    where o: "charge_rows [] [] rows = Inr (out, s, l)" "\<forall>x \<in> set s. 0 \<le> x" "\<forall>x \<in> set l. 0 \<le> x"
     "list_all2 (\<lambda>(nm, n) (nm', c). nm' = nm \<and> (c = 0 \<or> torch_segment_bytes n = Inr c)) (rounded_rows rows) out"
     "sum_list (map snd (rounded_rows rows)) + sum_list s + sum_list l \<le> sum_list (map snd out)"
    by auto
  have "0 \<le> sum_list s" "0 \<le> sum_list l" using o by (auto intro: sum_list_nonneg_int)
  with o show ?thesis by (auto simp: torch_charged_rows_def)
qed

text \<open>The trace the code's comment records (two layers, sizes in bytes) is what the model computes.\<close>

lemma torch_charged_rows_trace:
  "torch_charged_rows
     [(''w13_0'', 400 * MIB), (''s13_0'', 50 * MIB), (''g13_0'', 1310720), (''w2_0'', 200 * MIB),
      (''s2_0'', 25 * MIB), (''g2_0'', 5 * MIB),
      (''w13_1'', 400 * MIB), (''s13_1'', 50 * MIB), (''g13_1'', 1310720), (''w2_1'', 200 * MIB),
      (''s2_1'', 25 * MIB), (''g2_1'', 5 * MIB)] =
   Inr [(''w13_0'', 400 * MIB), (''s13_0'', 50 * MIB), (''g13_0'', 20 * MIB), (''w2_0'', 200 * MIB),
      (''s2_0'', 26 * MIB), (''g2_0'', 0),
      (''w13_1'', 400 * MIB), (''s13_1'', 50 * MIB), (''g13_1'', 0), (''w2_1'', 200 * MIB),
      (''s2_1'', 26 * MIB), (''g2_1'', 0)]"
  by (simp add: torch_charged_rows_def serve_row_def torch_segment_bytes_def get_free_block_def
      pop_at_def round_up_def torch_consts align_ceil_def div_ceil_def)

subsection \<open>Above ten megabytes the per-row charge is exact\<close>

lemma charge_rows_large:
  assumes "\<forall>x \<in> set large. x < 2 * MIB"
    and "\<forall>(_, n) \<in> set rows. TORCH_MIN_LARGE_ALLOC \<le> align_ceil n TORCH_MIN_BLOCK"
  shows "\<exists>out s l. charge_rows small large rows = Inr (out, s, l)
     \<and> list_all2 (\<lambda>(nm, n) (nm', c). nm' = nm \<and> torch_allocation_bytes n = Inr c) rows out"
  using assms
proof (induction rows arbitrary: large)
  case Nil
  then show ?case by simp
next
  case (Cons r rows)
  obtain name nbytes where r: "r = (name, nbytes)" by (cases r)
  define n where "n = align_ceil nbytes TORCH_MIN_BLOCK"
  have n: "TORCH_MIN_LARGE_ALLOC \<le> n" using Cons.prems(2) by (simp add: r n_def)
  then have big: "0 < n" "TORCH_SMALL_SIZE < n" "2 * MIB \<le> n" by (simp_all add: torch_consts)
  have none: "get_free_block n large = None"
    using Cons.prems(1) big by (force simp: get_free_block_def pick_from_None)
  have lo: "nbytes \<le> n" "n < nbytes + 512"
    using align_ceil_ge [of 512 nbytes] align_ceil_lt [of 512 nbytes] by (simp_all add: n_def torch_consts)
  have "align_ceil n TORCH_ALLOC_GRANULE = align_ceil nbytes TORCH_ALLOC_GRANULE"
  proof (rule antisym)
    have "TORCH_MIN_BLOCK dvd align_ceil nbytes TORCH_ALLOC_GRANULE"
      by (rule dvd_trans [of _ TORCH_ALLOC_GRANULE]) (simp_all add: torch_consts)
    then have "n \<le> align_ceil nbytes TORCH_ALLOC_GRANULE"
      unfolding n_def by (intro align_ceil_least align_ceil_ge) (simp_all add: torch_consts)
    then show "align_ceil n TORCH_ALLOC_GRANULE \<le> align_ceil nbytes TORCH_ALLOC_GRANULE"
      by (intro align_ceil_least) (simp_all add: torch_consts)
  qed (use lo in \<open>intro align_ceil_mono\<close>, simp_all add: torch_consts)
  moreover have "align_ceil n TORCH_MIN_BLOCK = n"
    by (rule align_ceil_id) (simp_all add: n_def, simp add: torch_consts)
  ultimately have seg: "torch_segment_bytes n = torch_allocation_bytes nbytes"
    "torch_allocation_bytes nbytes = Inr (align_ceil nbytes TORCH_ALLOC_GRANULE)"
    using n lo by (auto simp: torch_segment_bytes_def torch_allocation_bytes_def round_up_ceil torch_consts)
  let ?c = "align_ceil nbytes TORCH_ALLOC_GRANULE"
  have "?c - n < 2 * MIB" using align_ceil_lt [of TORCH_ALLOC_GRANULE nbytes] lo by (simp add: torch_consts)
  with Cons.prems(1) have "\<forall>x \<in> set (if ?c - n \<ge> TORCH_SMALL_SIZE + 1 then large @ [?c - n] else large). x < 2 * MIB"
    by auto
  from Cons.IH [OF this] Cons.prems(2) none seg big
  show ?case by (auto simp: r n_def [symmetric] serve_row_def)
qed

text \<open>
  Above the ten-megabyte boundary the sequence model and the per-row primitive agree:
  when every row rounds to at least \<open>kMinLargeAlloc\<close>, the charge of each row is exactly
  \<open>torch_allocation_bytes\<close> of it, whatever came before it.
\<close>

theorem torch_large_rows_exact:
  assumes "\<forall>(_, n) \<in> set rows. TORCH_MIN_LARGE_ALLOC \<le> align_ceil n TORCH_MIN_BLOCK"
  shows "\<exists>out. torch_charged_rows rows = Inr out
     \<and> list_all2 (\<lambda>(nm, n) (nm', c). nm' = nm \<and> torch_allocation_bytes n = Inr c) rows out"
  using charge_rows_large [of "[]" rows "[]"] assms by (auto simp: torch_charged_rows_def)

theorem torch_large_rows_exact_witness:
  "\<exists>out. torch_charged_rows [(''w13'', 400 * MIB), (''s2'', 25 * MIB)] = Inr out
     \<and> list_all2 (\<lambda>(nm, n) (nm', c). nm' = nm \<and> torch_allocation_bytes n = Inr c)
         [(''w13'', 400 * MIB), (''s2'', 25 * MIB)] out"
  by (rule torch_large_rows_exact) (simp add: torch_consts align_ceil_def div_ceil_def)

end
