(* ===== verification/Token_Patterns.thy ===== *)
theory Token_Patterns
  imports Prelude
begin

section \<open>Release patterns over committed tokens (scheduler/think_gate.py)\<close>

text \<open>
  The pattern matcher that both gates share.  A caller's pattern is a bare id sequence or a
  (head, tail, gap) triple; \<open>as_pattern\<close> normalises it, \<open>matches\<close> compares the rolling
  window of the last committed tokens with it.  \<open>ends_pattern\<close> is the specification over
  the whole stream, and \<open>matches_window\<close> says that the window decides it exactly as soon as
  it is at least as wide as the pattern.
\<close>

type_synonym uid = int
type_synonym ids = "int list"
type_synonym pattern = "ids \<times> ids \<times> nat"

datatype pattern_spec = Bare ids | Triple ids ids int

definition UNBOUNDED :: int where
  "UNBOUNDED = 4611686018427387904"

fun as_pattern :: "pattern_spec \<Rightarrow> pattern option" where
  "as_pattern (Triple head tail gap) = (if head \<noteq> [] then Some (head, tail, nat gap) else None)"
| "as_pattern (Bare p) = (if p \<noteq> [] then Some (p, [], 0) else None)"

fun pattern_width :: "pattern \<Rightarrow> nat" where
  "pattern_width (head, tail, gap) =
     length head + (if tail \<noteq> [] then length tail + gap else 0)"

fun pattern_tokens :: "pattern \<Rightarrow> int set" where
  "pattern_tokens (head, tail, gap) = set head \<union> set tail"

text \<open>\<open>suffix_eq\<close>: does the window carry \<open>s\<close> immediately before offset \<open>e\<close> from its right edge?\<close>

definition suffix_eq :: "int list \<Rightarrow> ids \<Rightarrow> nat \<Rightarrow> bool" where
  "suffix_eq window s e =
     (if s = [] then True
      else (let hi = int (length window) - int e; lo = hi - int (length s)
            in lo \<ge> 0 \<and> take (nat hi - nat lo) (drop (nat lo) window) = s))"

fun matches :: "int list \<Rightarrow> pattern \<Rightarrow> bool" where
  "matches window (head, tail, gap) =
     (if tail = [] then suffix_eq window head 0
      else if \<not> suffix_eq window tail 0 then False
      else list_ex (\<lambda>g. suffix_eq window head (length tail + g)) [0..<gap + 1])"

definition released :: "int list \<Rightarrow> pattern list \<Rightarrow> bool" where
  "released window pats = list_ex (matches window) pats"

text \<open>One rolling-window update: append, then drop what exceeds the width from the front.\<close>

definition push_window :: "nat \<Rightarrow> int list \<Rightarrow> int \<Rightarrow> int list" where
  "push_window w window tok = drop (length (window @ [tok]) - w) (window @ [tok])"

lemma push_window_lastn [simp]: "push_window w window tok = lastn w (window @ [tok])"
  by (simp add: push_window_def lastn_def)

subsection \<open>Specification over the whole stream\<close>

fun ends_pattern :: "int list \<Rightarrow> pattern \<Rightarrow> bool" where
  "ends_pattern s (head, tail, gap) \<longleftrightarrow>
     (if tail = [] then suffix head s
      else \<exists>mid. length mid \<le> gap \<and> suffix (head @ mid @ tail) s)"

lemma suffix_eq_iff: "suffix_eq w s e \<longleftrightarrow> s = [] \<or> (\<exists>pre post. w = pre @ s @ post \<and> length post = e)"
proof (cases "s = []")
  case False
  have "suffix_eq w s e" if "w = pre @ s @ post" "length post = e" for pre post
    using that by (simp add: suffix_eq_def)
  moreover have "\<exists>pre post. w = pre @ s @ post \<and> length post = e" if eq: "suffix_eq w s e"
  proof -
    let ?lo = "nat (int (length w) - int e - int (length s))"
    have le: "int (length s) + int e \<le> int (length w)" and
      tk: "take (length s) (drop ?lo w) = s"
      using eq False by (auto simp: suffix_eq_def Let_def nat_diff_distrib)
    then have "w = take ?lo w @ s @ drop (?lo + length s) w"
      by (metis add.commute append_take_drop_id drop_drop)
    moreover have "length (drop (?lo + length s) w) = e" using le by simp
    ultimately show ?thesis by blast
  qed
  ultimately show ?thesis using False by blast
qed (simp add: suffix_eq_def)

lemma suffix_eq_0: "suffix_eq w s 0 \<longleftrightarrow> suffix s w"
  by (auto simp: suffix_eq_iff suffix_def)

lemma matches_ends: "matches w p = ends_pattern w p"
proof -
  obtain head tail gap where p: "p = (head, tail, gap)" by (cases p)
  have "(\<exists>g \<le> gap. suffix_eq w head (length tail + g)) = (\<exists>mid. length mid \<le> gap \<and> suffix (head @ mid @ tail) w)"
    if t: "suffix tail w" "tail \<noteq> []"
  proof
    assume "\<exists>g \<le> gap. suffix_eq w head (length tail + g)"
    then obtain g where g: "g \<le> gap" "suffix_eq w head (length tail + g)" by blast
    show "\<exists>mid. length mid \<le> gap \<and> suffix (head @ mid @ tail) w"
    proof (cases "head = []")
      case True
      with t show ?thesis by (intro exI [of _ "[]"]) simp
    next
      case False
      with g(2) obtain pre post where w: "w = pre @ head @ post" "length post = length tail + g"
        by (auto simp: suffix_eq_iff)
      with t(1) have "suffix tail post"
        by (metis le_add1 suffix_append suffix_length_suffix suffixI append.assoc)
      then obtain mid where "post = mid @ tail" by (auto simp: suffix_def)
      with w g(1) show ?thesis by (intro exI [of _ mid]) (auto simp: suffix_def)
    qed
  next
    assume "\<exists>mid. length mid \<le> gap \<and> suffix (head @ mid @ tail) w"
    then obtain mid pre where "length mid \<le> gap" "w = pre @ head @ mid @ tail"
      by (auto simp: suffix_def)
    then show "\<exists>g \<le> gap. suffix_eq w head (length tail + g)"
      unfolding suffix_eq_iff
      by (intro exI [of _ "length mid"] conjI disjI2 exI [of _ pre] exI [of _ "mid @ tail"]) simp_all
  qed
  moreover have "suffix tail w" if "suffix (head @ mid @ tail) w" for mid
    using that by (meson suffixI suffix_order.trans append.assoc)
  moreover have "list_ex P [0..<gap + 1] = (\<exists>g \<le> gap. P g)" for P
    by (auto simp: list_ex_iff le_less)
  ultimately show ?thesis
    unfolding p matches.simps ends_pattern.simps suffix_eq_0 by (metis (no_types))
qed

lemma suffix_lastn:
  assumes "length x \<le> w"
  shows "suffix x (lastn w s) \<longleftrightarrow> suffix x s"
proof
  assume "suffix x s"
  with assms show "suffix x (lastn w s)"
    by (intro suffix_length_suffix [OF _ lastn_suffix]) (simp_all add: suffix_length_le)
qed (rule suffix_order.trans [OF _ lastn_suffix])

lemma ends_pattern_lastn:
  assumes "pattern_width p \<le> w"
  shows "ends_pattern (lastn w s) p = ends_pattern s p"
proof -
  obtain head tail gap where p: "p = (head, tail, gap)" by (cases p)
  have "suffix (head @ mid @ tail) (lastn w s) = suffix (head @ mid @ tail) s"
    if "length mid \<le> gap" "tail \<noteq> []" for mid
    using that assms by (intro suffix_lastn) (simp add: p)
  with assms show ?thesis by (auto simp: p suffix_lastn)
qed

lemma matches_window: "pattern_width p \<le> w \<Longrightarrow> matches (lastn w s) p = ends_pattern s p"
  by (simp add: matches_ends ends_pattern_lastn)

lemma released_window:
  assumes "\<forall>p \<in> set pats. pattern_width p \<le> w"
  shows "released (lastn w s) pats \<longleftrightarrow> (\<exists>p \<in> set pats. ends_pattern s p)"
  using assms by (auto simp: released_def list_ex_iff matches_window)

lemma as_pattern_head: "as_pattern q = Some (h, t, g) \<Longrightarrow> h \<noteq> []"
  by (cases q) (auto split: if_splits)

lemma ends_pattern_tokens: "ends_pattern s (h, t, g) \<Longrightarrow> h \<noteq> [] \<Longrightarrow> s \<noteq> []"
  by (auto split: if_splits)

lemma foldr_max_le: "x \<in> set xs \<Longrightarrow> x \<le> foldr max xs (0 :: nat)"
  by (induction xs) auto

lemma widths_le: "\<forall>p \<in> set ps. pattern_width p \<le> foldr max (map pattern_width ps) 0"
  by (intro ballI foldr_max_le) simp

end
