(* ===== verification/Think_Gate.thy ===== *)
theory Think_Gate
  imports Token_Patterns
begin

section \<open>The reasoning gate (scheduler/think_gate.py, class ThinkGate)\<close>

text \<open>
  \<open>gate_state\<close> is one request's \<open>_GateState\<close>, \<open>think_gate\<close> the object with its two
  tables.  \<open>commit\<close> is the only operation that advances a request; \<open>forced_next\<close>,
  \<open>forced_at\<close>, \<open>suppress_eos\<close> and \<open>scan\<close> are queries.  An operation returns its
  result with the gate it leaves behind.
\<close>

record gate_state =
  gs_force :: ids
  gs_releases :: "pattern list"
  gs_budget :: int
  gs_width :: nat
  gs_may_suppress_eos :: bool
  gs_count :: int
  gs_window :: "int list"
  gs_forcing :: int
  gs_hist :: "int list"
  gs_runs :: "nat list"
  gs_loop :: nat
  gs_loop_reported :: bool

record think_gate =
  tg_enabled :: bool
  tg_default_budget :: int
  tg_loop_span :: int
  tg_loop_reps :: int
  tg_loop_period :: nat
  tg_st :: "uid \<Rightarrow> gate_state option"
  tg_done :: "uid set"

definition tg_init :: "bool \<Rightarrow> int \<Rightarrow> int \<Rightarrow> int \<Rightarrow> int \<Rightarrow> think_gate" where
  "tg_init enabled default_budget loop_span loop_reps loop_period =
     \<lparr>tg_enabled = enabled,
      tg_default_budget = (if default_budget > 0 then default_budget else 1024),
      tg_loop_span = loop_span, tg_loop_reps = max 2 loop_reps,
      tg_loop_period = nat (max 1 loop_period), tg_st = (\<lambda>_. None), tg_done = {}\<rparr>"

text \<open>The patterns of a request: the force sequence first, duplicates dropped.\<close>

fun gather_patterns :: "pattern list \<Rightarrow> pattern_spec list \<Rightarrow> pattern list" where
  "gather_patterns pats [] = pats"
| "gather_patterns pats (c # cs) =
     gather_patterns (case as_pattern c of
         Some p \<Rightarrow> if p \<notin> set pats then pats @ [p] else pats | None \<Rightarrow> pats) cs"

definition eff_budget :: "think_gate \<Rightarrow> int option \<Rightarrow> int \<Rightarrow> nat \<Rightarrow> int" where
  "eff_budget g b max_tokens n_force =
     (let eff = (case b of
                   Some v \<Rightarrow> if v < 0 then UNBOUNDED else if v > 0 then v else tg_default_budget g
                 | None \<Rightarrow> tg_default_budget g)
      in if eff \<noteq> UNBOUNDED \<and> max_tokens > 0 \<and> eff + int n_force \<ge> max_tokens
         then max 1 ((max_tokens * 3) div 4 - int n_force) else eff)"

definition tg_arm ::
    "think_gate \<Rightarrow> uid \<Rightarrow> ids \<Rightarrow> pattern_spec list \<Rightarrow> int option \<Rightarrow> int \<Rightarrow> int list \<Rightarrow> bool \<times> think_gate" where
  "tg_arm g uid force release_seqs b max_tokens eos_ids =
     (if \<not> tg_enabled g then (False, g)
      else if tg_st g uid \<noteq> None \<or> uid \<in> tg_done g then (False, g)
      else if force = [] then (False, g)
      else (let patterns = gather_patterns [] (Bare force # release_seqs);
                may = \<not> list_ex (\<lambda>p. set eos_ids \<inter> pattern_tokens p \<noteq> {}) patterns
            in (True, g\<lparr>tg_st := (tg_st g)(uid \<mapsto>
                 \<lparr>gs_force = force, gs_releases = patterns,
                  gs_budget = eff_budget g b max_tokens (length force),
                  gs_width = foldr max (map pattern_width patterns) 0,
                  gs_may_suppress_eos = may, gs_count = 0, gs_window = [], gs_forcing = -1,
                  gs_hist = [],
                  gs_runs = (if tg_loop_span g > 0 then replicate (tg_loop_period g + 1) 0 else []),
                  gs_loop = 0, gs_loop_reported = False\<rparr>)\<rparr>)))"

definition tg_clear :: "think_gate \<Rightarrow> uid \<Rightarrow> think_gate" where
  "tg_clear g uid = g\<lparr>tg_st := (tg_st g)(uid := None), tg_done := insert uid (tg_done g)\<rparr>"

definition tg_free :: "think_gate \<Rightarrow> uid \<Rightarrow> think_gate" where
  "tg_free g uid = g\<lparr>tg_st := (tg_st g)(uid := None), tg_done := tg_done g - {uid}\<rparr>"

definition tg_is_armed :: "think_gate \<Rightarrow> uid \<Rightarrow> bool" where
  "tg_is_armed g uid \<longleftrightarrow> tg_st g uid \<noteq> None"

definition tg_is_done :: "think_gate \<Rightarrow> uid \<Rightarrow> bool" where
  "tg_is_done g uid \<longleftrightarrow> uid \<in> tg_done g"

subsection \<open>Where a force run resumes\<close>

text \<open>\<open>for k in range(min(len(f) - 1, len(window)), 0, -1)\<close>: the longest proper prefix of the force
  sequence that the window ends with.\<close>

fun align_force :: "ids \<Rightarrow> int list \<Rightarrow> nat \<Rightarrow> nat" where
  "align_force f window 0 = 0"
| "align_force f window (Suc k) =
     (if lastn (Suc k) window = take (Suc k) f then Suc k else align_force f window k)"

definition force_base :: "gate_state \<Rightarrow> nat" where
  "force_base s =
     (if gs_forcing s \<ge> 0 then nat (gs_forcing s)
      else align_force (gs_force s) (gs_window s) (min (length (gs_force s) - 1) (length (gs_window s))))"

definition forced_next :: "think_gate \<Rightarrow> uid \<Rightarrow> int option" where
  "forced_next g uid = (case tg_st g uid of
       None \<Rightarrow> None
     | Some s \<Rightarrow> if gs_count s < gs_budget s then None else Some (gs_force s ! force_base s))"

definition forced_at :: "think_gate \<Rightarrow> uid \<Rightarrow> int \<Rightarrow> int option" where
  "forced_at g uid ahead = (case tg_st g uid of
       None \<Rightarrow> None
     | Some s \<Rightarrow> if gs_count s < gs_budget s then None
                 else Some (gs_force s ! min (force_base s + nat ahead) (length (gs_force s) - 1)))"

definition suppress_eos :: "think_gate \<Rightarrow> uid \<Rightarrow> bool" where
  "suppress_eos g uid = (case tg_st g uid of
       None \<Rightarrow> False
     | Some s \<Rightarrow> if \<not> gs_may_suppress_eos s then False
                 else if gs_budget s \<ge> UNBOUNDED then False
                 else gs_count s < gs_budget s)"

fun scan_from :: "nat \<Rightarrow> pattern list \<Rightarrow> int list \<Rightarrow> nat \<Rightarrow> int list \<Rightarrow> nat option" where
  "scan_from w pats window i [] = None"
| "scan_from w pats window i (tok # toks) =
     (let window' = push_window w window tok
      in if released window' pats then Some i else scan_from w pats window' (Suc i) toks)"

definition tg_scan :: "think_gate \<Rightarrow> uid \<Rightarrow> int list \<Rightarrow> nat option" where
  "tg_scan g uid toks = (case tg_st g uid of
       None \<Rightarrow> None
     | Some s \<Rightarrow> scan_from (gs_width s) (gs_releases s) (gs_window s) 0 toks)"

subsection \<open>The mutator\<close>

text \<open>One pass of the loop detector over the candidate periods; the second result is the period found.\<close>

fun loop_scan ::
    "int \<Rightarrow> int \<Rightarrow> nat \<Rightarrow> int list \<Rightarrow> int \<Rightarrow> nat list \<Rightarrow> nat list \<Rightarrow> nat list \<times> nat" where
  "loop_scan span reps n hist token [] runs = (runs, 0)"
| "loop_scan span reps n hist token (p # ps) runs =
     (if hist ! (n - p) = token
      then (let r = runs ! p + 1; runs' = runs[p := r]
            in if int r \<ge> span \<and> int r \<ge> int p * reps then (runs', p)
               else loop_scan span reps n hist token ps runs')
      else loop_scan span reps n hist token ps (runs[p := 0]))"

definition loop_step :: "think_gate \<Rightarrow> gate_state \<Rightarrow> int \<Rightarrow> gate_state" where
  "loop_step g s token =
     (let n = length (gs_hist s);
          (runs', found) = loop_scan (tg_loop_span g) (tg_loop_reps g) n (gs_hist s) token
                             [1..<min (tg_loop_period g) n + 1] (gs_runs s);
          s1 = (if found \<noteq> 0
                then s\<lparr>gs_runs := runs', gs_loop := found, gs_budget := min (gs_budget s) (gs_count s)\<rparr>
                else s\<lparr>gs_runs := runs'\<rparr>);
          hist' = gs_hist s @ [token]
      in s1\<lparr>gs_hist := (if n \<ge> tg_loop_period g then tl hist' else hist')\<rparr>)"

definition commit_state :: "think_gate \<Rightarrow> gate_state \<Rightarrow> int \<Rightarrow> bool \<times> gate_state" where
  "commit_state g s token =
     (let base = (if gs_count s \<ge> gs_budget s then Some (force_base s) else None);
          forced = (case base of None \<Rightarrow> False | Some k \<Rightarrow> token = gs_force s ! k);
          s1 = s\<lparr>gs_window := push_window (gs_width s) (gs_window s) token\<rparr>;
          s2 = (if forced then s1\<lparr>gs_forcing := int (the base) + 1\<rparr>
                else (let s3 = s1\<lparr>gs_forcing := -1, gs_count := gs_count s + 1\<rparr>
                      in if gs_runs s3 \<noteq> [] \<and> gs_loop s3 = 0 then loop_step g s3 token else s3))
      in (released (gs_window s2) (gs_releases s2) \<or> gs_forcing s2 \<ge> int (length (gs_force s2)), s2))"

definition tg_commit :: "think_gate \<Rightarrow> uid \<Rightarrow> int \<Rightarrow> bool \<times> think_gate" where
  "tg_commit g uid token = (case tg_st g uid of
       None \<Rightarrow> (False, g)
     | Some s \<Rightarrow> (let (rel, s') = commit_state g s token
                  in if rel then (True, tg_clear g uid)
                     else (False, g\<lparr>tg_st := (tg_st g)(uid \<mapsto> s')\<rparr>)))"

fun commit_many_from :: "think_gate \<Rightarrow> uid \<Rightarrow> nat \<Rightarrow> int list \<Rightarrow> nat option \<times> think_gate" where
  "commit_many_from g uid i [] = (None, g)"
| "commit_many_from g uid i (tok # toks) =
     (let (rel, g') = tg_commit g uid tok
      in if rel then (Some i, g') else commit_many_from g' uid (Suc i) toks)"

definition tg_commit_many :: "think_gate \<Rightarrow> uid \<Rightarrow> int list \<Rightarrow> nat option \<times> think_gate" where
  "tg_commit_many g uid toks = commit_many_from g uid 0 toks"

definition take_loop_report :: "think_gate \<Rightarrow> uid \<Rightarrow> nat \<times> think_gate" where
  "take_loop_report g uid = (case tg_st g uid of
       None \<Rightarrow> (0, g)
     | Some s \<Rightarrow> if gs_loop s = 0 \<or> gs_loop_reported s then (0, g)
                 else (gs_loop s, g\<lparr>tg_st := (tg_st g)(uid \<mapsto> s\<lparr>gs_loop_reported := True\<rparr>)\<rparr>))"

subsection \<open>The invariant of an armed request\<close>

text \<open>
  \<open>gate_inv s h\<close> relates a request's state to the stream \<open>h\<close> of tokens committed since it was
  armed: the window is the tail of the stream, wide enough for every pattern; the force
  sequence is itself a release pattern; a force run in flight is a proper prefix of the
  force sequence that the stream ends with.
\<close>

definition gate_inv :: "gate_state \<Rightarrow> int list \<Rightarrow> bool" where
  "gate_inv s h \<longleftrightarrow> gs_force s \<noteq> [] \<and> (gs_force s, [], 0) \<in> set (gs_releases s)
     \<and> (\<forall>p \<in> set (gs_releases s). pattern_width p \<le> gs_width s)
     \<and> gs_window s = lastn (gs_width s) h
     \<and> gs_forcing s < int (length (gs_force s))
     \<and> (0 \<le> gs_forcing s \<longrightarrow> suffix (take (nat (gs_forcing s)) (gs_force s)) h)"

lemma align_force_le: "align_force f w k \<le> k"
  by (induction k) auto

lemma align_force_suffix:
  "k \<le> length w \<Longrightarrow> k \<le> length f \<Longrightarrow> suffix (take (align_force f w k) f) w"
proof (induction k)
  case (Suc k)
  then show ?case using lastn_suffix [of "Suc k" w] by auto
qed simp

lemma force_base_props:
  assumes "gate_inv s h"
  shows "force_base s < length (gs_force s)" "suffix (take (force_base s) (gs_force s)) h"
proof -
  have w: "gs_window s = lastn (gs_width s) h" "gs_force s \<noteq> []"
    using assms by (auto simp: gate_inv_def)
  show "force_base s < length (gs_force s)"
    using assms align_force_le [of "gs_force s" "gs_window s" "min (length (gs_force s) - 1) (length (gs_window s))"]
    by (cases "gs_force s") (auto simp: gate_inv_def force_base_def)
  show "suffix (take (force_base s) (gs_force s)) h"
  proof (cases "0 \<le> gs_forcing s")
    case True
    with assms show ?thesis by (simp add: gate_inv_def force_base_def)
  next
    case False
    then have "suffix (take (force_base s) (gs_force s)) (gs_window s)"
      by (simp add: force_base_def align_force_suffix)
    then show ?thesis using w(1) lastn_suffix suffix_order.trans by metis
  qed
qed

lemma loop_step_frame:
  "gs_force (loop_step g s t) = gs_force s" "gs_releases (loop_step g s t) = gs_releases s"
  "gs_width (loop_step g s t) = gs_width s" "gs_window (loop_step g s t) = gs_window s"
  "gs_forcing (loop_step g s t) = gs_forcing s" "gs_count (loop_step g s t) = gs_count s"
  "gs_may_suppress_eos (loop_step g s t) = gs_may_suppress_eos s"
  "gs_budget (loop_step g s t) \<le> gs_budget s"
  by (auto simp: loop_step_def Let_def split: prod.splits)

lemma loop_step_budget: "gs_budget s \<le> b \<Longrightarrow> gs_budget (loop_step g s t) \<le> b"
  using loop_step_frame(8) order_trans by blast

lemma commit_state_frame:
  assumes "commit_state g s t = (rel, s')"
  shows "gs_force s' = gs_force s" "gs_releases s' = gs_releases s" "gs_width s' = gs_width s"
    "gs_window s' = lastn (gs_width s) (gs_window s @ [t])" "gs_budget s' \<le> gs_budget s"
    "gs_may_suppress_eos s' = gs_may_suppress_eos s" "gs_count s \<le> gs_count s'"
    "rel \<longleftrightarrow> released (gs_window s') (gs_releases s') \<or> gs_forcing s' \<ge> int (length (gs_force s'))"
  using assms
  by (auto simp: commit_state_def Let_def loop_step_frame loop_step_budget split: if_splits option.splits)

lemma commit_state_forced:
  assumes "commit_state g s t = (rel, s')"
  shows "gs_count s \<ge> gs_budget s \<Longrightarrow> t = gs_force s ! force_base s \<Longrightarrow>
      gs_forcing s' = int (force_base s) + 1 \<and> gs_count s' = gs_count s \<and> gs_budget s' = gs_budget s
      \<and> gs_loop s' = gs_loop s"
    and "\<not> (gs_count s \<ge> gs_budget s \<and> t = gs_force s ! force_base s) \<Longrightarrow>
      gs_forcing s' = -1 \<and> gs_count s' = gs_count s + 1"
  using assms by (auto simp: commit_state_def Let_def loop_step_frame split: if_splits option.splits)

lemma suffix_snoc_nth:
  assumes "suffix (take k f) h" "k < length f"
  shows "suffix (take (Suc k) f) (h @ [f ! k])"
  using assms by (auto simp: suffix_def take_Suc_conv_app_nth)

text \<open>
  One commit: the gate releases exactly when the stream ends with one of the patterns.  A
  completed force run is such a stream, so the second release test of \<open>commit\<close> never
  decides anything.
\<close>

lemma commit_state_step:
  assumes "gate_inv s h" "commit_state g s t = (rel, s')"
  shows "rel \<longleftrightarrow> (\<exists>p \<in> set (gs_releases s). ends_pattern (h @ [t]) p)"
    and "gs_forcing s' \<ge> int (length (gs_force s')) \<Longrightarrow> released (gs_window s') (gs_releases s')"
    and "\<not> rel \<Longrightarrow> gate_inv s' (h @ [t])"
proof -
  note fr = commit_state_frame [OF assms(2)] and fb = force_base_props [OF assms(1)]
  have win: "gs_window s' = lastn (gs_width s) (h @ [t])"
    using assms(1) fr(4) by (simp add: gate_inv_def lastn_append_lastn)
  have forced: "gs_forcing s' < 0 \<or> (gs_forcing s' = int (force_base s) + 1
      \<and> suffix (take (Suc (force_base s)) (gs_force s)) (h @ [t]))"
    using commit_state_forced [OF assms(2)] suffix_snoc_nth [OF fb(2,1)] by fastforce
  have rel: "released (gs_window s') (gs_releases s') \<longleftrightarrow>
      (\<exists>p \<in> set (gs_releases s). ends_pattern (h @ [t]) p)"
    using assms(1) by (simp add: win fr(2) gate_inv_def released_window)
  have "\<exists>p \<in> set (gs_releases s). ends_pattern (h @ [t]) p" if "gs_forcing s' \<ge> int (length (gs_force s'))"
  proof -
    from that forced fb(1) fr(1) have "suffix (gs_force s) (h @ [t])" by auto
    with assms(1) show ?thesis by (intro bexI [of _ "(gs_force s, [], 0)"]) (auto simp: gate_inv_def)
  qed
  with rel fr(8) show "rel \<longleftrightarrow> (\<exists>p \<in> set (gs_releases s). ends_pattern (h @ [t]) p)"
    and "gs_forcing s' \<ge> int (length (gs_force s')) \<Longrightarrow> released (gs_window s') (gs_releases s')"
    by blast+
  show "gate_inv s' (h @ [t])" if "\<not> rel"
    using that assms(1) forced fr win by (auto simp: gate_inv_def nat_add_distrib)
qed

subsection \<open>What the operations do to the object\<close>

definition gate_ok :: "think_gate \<Rightarrow> bool" where
  "gate_ok g \<longleftrightarrow> (\<forall>uid s. tg_st g uid = Some s \<longrightarrow> (\<exists>h. gate_inv s h))"

text \<open>The states a scheduler can bring the gate into.\<close>

inductive gate_reach :: "think_gate \<Rightarrow> bool" where
  init: "gate_reach (tg_init e b sp rp pd)"
| arm: "gate_reach g \<Longrightarrow> tg_arm g uid force rels b mx eos = (r, g') \<Longrightarrow> gate_reach g'"
| commit: "gate_reach g \<Longrightarrow> tg_commit g uid t = (r, g') \<Longrightarrow> gate_reach g'"
| clear: "gate_reach g \<Longrightarrow> gate_reach (tg_clear g uid)"
| free: "gate_reach g \<Longrightarrow> gate_reach (tg_free g uid)"
| report: "gate_reach g \<Longrightarrow> take_loop_report g uid = (r, g') \<Longrightarrow> gate_reach g'"

lemma gather_patterns_mono: "set pats \<subseteq> set (gather_patterns pats cs)"
  by (induction pats cs rule: gather_patterns.induct) (auto split: option.splits if_splits)

lemma gather_patterns_head: "f \<noteq> [] \<Longrightarrow> (f, [], 0) \<in> set (gather_patterns [] (Bare f # cs))"
  using gather_patterns_mono [of "[(f, [], 0)]" cs] by auto

lemma tg_arm_True:
  assumes "tg_arm g uid force rels b mx eos = (True, g')"
  obtains s where "tg_st g' = (tg_st g)(uid \<mapsto> s)" "gate_inv s []" "gs_force s = force"
    "gs_releases s = gather_patterns [] (Bare force # rels)" "gs_count s = 0"
    "gs_budget s = eff_budget g b mx (length force)" "gs_loop s = 0" "gs_hist s = []"
    "gs_runs s = (if tg_loop_span g > 0 then replicate (tg_loop_period g + 1) 0 else [])"
    "gs_may_suppress_eos s \<longleftrightarrow> (\<forall>p \<in> set (gs_releases s). set eos \<inter> pattern_tokens p = {})"
    "tg_st g uid = None" "uid \<notin> tg_done g" "tg_done g' = tg_done g" "force \<noteq> []"
    "tg_loop_span g' = tg_loop_span g" "tg_loop_reps g' = tg_loop_reps g"
    "tg_loop_period g' = tg_loop_period g" "gs_width s = foldr max (map pattern_width (gs_releases s)) 0"
proof -
  from assms have f: "force \<noteq> []" by (auto simp: tg_arm_def split: if_splits)
  let ?ps = "gather_patterns [] (Bare force # rels)"
  define s where "s = \<lparr>gs_force = force, gs_releases = ?ps,
      gs_budget = eff_budget g b mx (length force),
      gs_width = foldr max (map pattern_width ?ps) 0,
      gs_may_suppress_eos = (\<not> list_ex (\<lambda>p. set eos \<inter> pattern_tokens p \<noteq> {}) ?ps),
      gs_count = 0, gs_window = [], gs_forcing = -1, gs_hist = [],
      gs_runs = (if tg_loop_span g > 0 then replicate (tg_loop_period g + 1) 0 else []),
      gs_loop = 0, gs_loop_reported = False\<rparr>"
  have g': "g' = g\<lparr>tg_st := (tg_st g)(uid \<mapsto> s)\<rparr>" "tg_st g uid = None" "uid \<notin> tg_done g"
    using assms by (simp_all add: tg_arm_def s_def Let_def split: if_splits)
  have "gate_inv s []"
    unfolding gate_inv_def
    using f gather_patterns_head [OF f, of rels] widths_le [of ?ps] by (simp add: s_def)
  with g' f show thesis
    by (intro that [of s]) (simp_all add: s_def list_ex_iff)
qed

lemma tg_arm_False: "tg_arm g uid force rels b mx eos = (False, g') \<Longrightarrow> g' = g"
  by (auto simp: tg_arm_def Let_def split: if_splits)

lemma gate_ok_upd: "gate_ok g \<Longrightarrow> gate_inv s h \<Longrightarrow> tg_st g' = (tg_st g)(uid \<mapsto> s) \<Longrightarrow> gate_ok g'"
  by (auto simp: gate_ok_def)

lemma gate_ok_commit:
  assumes "gate_ok g" "tg_commit g uid t = (r, g')"
  shows "gate_ok g'"
proof (cases "tg_st g uid")
  case None
  with assms show ?thesis by (simp add: tg_commit_def)
next
  case (Some s)
  with assms(1) obtain h where h: "gate_inv s h" by (auto simp: gate_ok_def)
  obtain rel s' where c: "commit_state g s t = (rel, s')" by (cases "commit_state g s t")
  show ?thesis
  proof (cases rel)
    case True
    with assms Some c show ?thesis
      by (auto simp: tg_commit_def gate_ok_def tg_clear_def split: if_splits)
  next
    case False
    with commit_state_step(3) [OF h c] have "gate_inv s' (h @ [t])" by blast
    with assms Some c False show ?thesis
      by (auto simp: tg_commit_def intro: gate_ok_upd)
  qed
qed

lemma gate_reach_ok: "gate_reach g \<Longrightarrow> gate_ok g"
proof (induction rule: gate_reach.induct)
  case (init e b sp rp pd)
  then show ?case by (simp add: gate_ok_def tg_init_def)
next
  case (arm g uid force rels b mx eos r g')
  then show ?case by (cases r) (auto elim!: tg_arm_True dest!: tg_arm_False intro: gate_ok_upd)
next
  case (commit g uid t r g')
  then show ?case by (blast intro: gate_ok_commit)
next
  case (clear g uid)
  then show ?case by (simp add: gate_ok_def tg_clear_def)
next
  case (free g uid)
  then show ?case by (simp add: gate_ok_def tg_free_def)
next
  case (report g uid r g')
  then obtain s h where "g' = g \<or> (tg_st g uid = Some s \<and> gate_inv s h
      \<and> tg_st g' = (tg_st g)(uid \<mapsto> s\<lparr>gs_loop_reported := True\<rparr>))"
    by (fastforce simp: take_loop_report_def gate_ok_def split: option.splits if_splits)
  moreover have "gate_inv (s\<lparr>gs_loop_reported := True\<rparr>) h = gate_inv s h"
    by (simp add: gate_inv_def)
  ultimately show ?case using report.IH gate_ok_upd by blast
qed

subsection \<open>Releases as a function of the committed stream\<close>

text \<open>The specification: the first position at which the whole stream ends with a pattern.\<close>

definition first_release :: "pattern list \<Rightarrow> int list \<Rightarrow> nat \<Rightarrow> int list \<Rightarrow> nat option" where
  "first_release pats = first_hit (\<lambda>s. \<exists>p \<in> set pats. ends_pattern s p)"

lemma first_release_simps [simp]:
  "first_release pats h i [] = None"
  "first_release pats h i (t # ts) =
     (if \<exists>p \<in> set pats. ends_pattern (h @ [t]) p then Some i
      else first_release pats (h @ [t]) (Suc i) ts)"
  by (simp_all add: first_release_def)

lemma tg_commit_inv:
  assumes "tg_st g uid = Some s" "gate_inv s h" "tg_commit g uid t = (rel, g')"
  shows "rel \<longleftrightarrow> (\<exists>p \<in> set (gs_releases s). ends_pattern (h @ [t]) p)"
    and "rel \<Longrightarrow> g' = tg_clear g uid"
    and "\<not> rel \<Longrightarrow> \<exists>s'. commit_state g s t = (False, s') \<and> g' = g\<lparr>tg_st := (tg_st g)(uid \<mapsto> s')\<rparr>
           \<and> gate_inv s' (h @ [t]) \<and> gs_releases s' = gs_releases s"
proof -
  obtain r s' where c: "commit_state g s t = (r, s')" by (cases "commit_state g s t")
  with assms have r: "rel = r" by (auto simp: tg_commit_def split: if_splits)
  show "rel \<longleftrightarrow> (\<exists>p \<in> set (gs_releases s). ends_pattern (h @ [t]) p)"
    using commit_state_step(1) [OF assms(2) c] r by simp
  show "rel \<Longrightarrow> g' = tg_clear g uid" using assms c r by (simp add: tg_commit_def)
  show "\<not> rel \<Longrightarrow> \<exists>s'. commit_state g s t = (False, s') \<and> g' = g\<lparr>tg_st := (tg_st g)(uid \<mapsto> s')\<rparr>
           \<and> gate_inv s' (h @ [t]) \<and> gs_releases s' = gs_releases s"
    using assms c r commit_state_step(3) [OF assms(2) c] commit_state_frame(2) [OF c]
    by (auto simp: tg_commit_def)
qed

lemma commit_many_from_first_release:
  assumes "tg_st g uid = Some s" "gate_inv s h"
  shows "fst (commit_many_from g uid i ts) = first_release (gs_releases s) h i ts
    \<and> (fst (commit_many_from g uid i ts) \<noteq> None \<longrightarrow>
         uid \<in> tg_done (snd (commit_many_from g uid i ts)) \<and> tg_st (snd (commit_many_from g uid i ts)) uid = None)
    \<and> (fst (commit_many_from g uid i ts) = None \<longrightarrow>
         (\<exists>s'. tg_st (snd (commit_many_from g uid i ts)) uid = Some s' \<and> gate_inv s' (h @ ts)))"
  using assms
proof (induction ts arbitrary: g s h i)
  case Nil
  then show ?case by auto
next
  case (Cons t ts)
  obtain rel g' where c: "tg_commit g uid t = (rel, g')" by (cases "tg_commit g uid t")
  note st = tg_commit_inv [OF Cons.prems c]
  show ?case
  proof (cases rel)
    case True
    with st c show ?thesis by (auto simp: tg_clear_def)
  next
    case False
    from st(3) [OF this] obtain s' where s': "tg_st g' uid = Some s'" "gate_inv s' (h @ [t])"
      "gs_releases s' = gs_releases s" by auto
    from Cons.IH [OF s'(1,2), of "Suc i"] show ?thesis using False st(1) c s'(3) by auto
  qed
qed

lemma scan_from_first_release:
  assumes "\<forall>p \<in> set pats. pattern_width p \<le> w"
  shows "scan_from w pats (lastn w h) i ts = first_release pats h i ts"
proof (induction ts arbitrary: h i)
  case (Cons t ts)
  have "push_window w (lastn w h) t = lastn w (h @ [t])" by (simp add: lastn_append_lastn)
  with Cons show ?case using released_window [OF assms, of "h @ [t]"] by simp
qed simp

text \<open>
  C9.  When a request leaves its reasoning span is a function of the committed tokens alone:
  from a freshly armed gate, \<open>commit_many\<close> releases at the first position where the whole
  stream ends with the force sequence or one of the release patterns (with its wildcard
  gap), whatever the budget, the force cursor and the loop detector do; the rolling window
  never misses or invents a match.  The released request is then no longer armed and is
  remembered as done.
\<close>

theorem release_is_first_pattern_end:
  assumes "tg_arm g uid force rels b mx eos = (True, g1)"
  shows "fst (tg_commit_many g1 uid ts) = first_release (gather_patterns [] (Bare force # rels)) [] 0 ts
    \<and> (fst (tg_commit_many g1 uid ts) \<noteq> None \<longrightarrow>
         tg_is_done (snd (tg_commit_many g1 uid ts)) uid \<and> \<not> tg_is_armed (snd (tg_commit_many g1 uid ts)) uid)"
proof -
  from assms obtain s where s: "tg_st g1 = (tg_st g)(uid \<mapsto> s)" "gate_inv s []"
    "gs_releases s = gather_patterns [] (Bare force # rels)" by (rule tg_arm_True)
  then have "tg_st g1 uid = Some s" by simp
  from commit_many_from_first_release [OF this s(2), of 0 ts] s(3) show ?thesis
    by (auto simp: tg_commit_many_def tg_is_done_def tg_is_armed_def)
qed

theorem release_is_first_pattern_end_witness:
  "\<exists>g1. tg_arm (tg_init True 8 384 8 128) 7 [200, 6] [Triple [200] [6] 2] None 0 [] = (True, g1)
     \<and> fst (tg_commit_many g1 7 [1, 200, 9, 9, 6, 3]) = Some 4"
proof -
  obtain g1 where g1: "tg_arm (tg_init True 8 384 8 128) 7 [200, 6] [Triple [200] [6] 2] None 0 [] = (True, g1)"
    by (simp add: tg_arm_def tg_init_def)
  have n: "\<not> suffix ([200] @ mid @ [6]) [1]" "\<not> suffix ([200] @ mid @ [6]) [1, 200]"
    "\<not> suffix ([200] @ mid @ [6]) [1, 200, 9]" "\<not> suffix ([200] @ mid @ [6]) [1, 200, 9, 9 :: int]" for mid
    by (auto simp: suffix_def Cons_eq_append_conv append_eq_Cons_conv)
  have "suffix ([200] @ [9, 9] @ [6]) [1, 200, 9, 9, 6 :: int]" by (simp add: suffix_def)
  then have y: "\<exists>mid. length mid \<le> 2 \<and> suffix ([200] @ mid @ [6]) [1, 200, 9, 9, 6 :: int]"
    by (intro exI [of _ "[9, 9]"]) simp
  have "fst (tg_commit_many g1 7 [1, 200, 9, 9, 6, 3]) = Some 4"
    using release_is_first_pattern_end [OF g1, of "[1, 200, 9, 9, 6, 3]"] n y
    by (simp add: suffix_ConsI suffix_def Cons_eq_append_conv append_eq_Cons_conv)
  with g1 show ?thesis by blast
qed

text \<open>
  C28.  The speculative path's probe is honest: in every state the scheduler can bring the gate
  into, \<open>scan\<close> over a candidate chain answers exactly the position at which committing that
  chain would release.
\<close>

theorem scan_predicts_commit:
  assumes "gate_reach g"
  shows "tg_scan g uid ts = fst (tg_commit_many g uid ts)"
proof (cases "tg_st g uid")
  case None
  have "fst (commit_many_from g uid i ts) = None" for i
    using None by (induction ts arbitrary: i) (simp_all add: tg_commit_def)
  with None show ?thesis by (simp add: tg_scan_def tg_commit_many_def)
next
  case (Some s)
  with gate_reach_ok [OF assms] obtain h where h: "gate_inv s h" by (auto simp: gate_ok_def)
  then have "gs_window s = lastn (gs_width s) h" "\<forall>p \<in> set (gs_releases s). pattern_width p \<le> gs_width s"
    by (auto simp: gate_inv_def)
  then show ?thesis
    using commit_many_from_first_release [OF Some h, of 0 ts] Some
    by (simp add: tg_scan_def tg_commit_many_def scan_from_first_release)
qed

theorem scan_predicts_commit_witness:
  "tg_scan (snd (tg_arm (tg_init True 8 384 8 128) 7 [200, 6] [] None 0 [])) 7 [200, 200, 6] =
   fst (tg_commit_many (snd (tg_arm (tg_init True 8 384 8 128) 7 [200, 6] [] None 0 [])) 7 [200, 200, 6])"
  by (rule scan_predicts_commit, rule gate_reach.arm [OF gate_reach.init], rule prod.collapse [symmetric])

subsection \<open>The backstop\<close>

text \<open>A decoder that obeys the backstop: it commits the forced token whenever there is one.\<close>

fun obeys :: "think_gate \<Rightarrow> uid \<Rightarrow> int list \<Rightarrow> bool" where
  "obeys g uid [] = True"
| "obeys g uid (t # ts) =
     ((case forced_next g uid of None \<Rightarrow> True | Some f \<Rightarrow> t = f)
      \<and> (let (rel, g') = tg_commit g uid t in rel \<or> obeys g' uid ts))"

definition backstop_left :: "gate_state \<Rightarrow> nat" where
  "backstop_left s = nat (gs_budget s - gs_count s)
     + (if gs_count s < gs_budget s then length (gs_force s) else length (gs_force s) - force_base s)"

lemma commit_state_progress:
  assumes "gate_inv s h" "commit_state g s t = (False, s')"
    and "gs_count s \<ge> gs_budget s \<Longrightarrow> t = gs_force s ! force_base s"
  shows "backstop_left s' < backstop_left s"
proof (cases "gs_count s \<ge> gs_budget s")
  case True
  note f = commit_state_forced(1) [OF assms(2) True assms(3) [OF True]]
  then have "force_base s' = Suc (force_base s)" by (simp add: force_base_def nat_add_distrib)
  with True f force_base_props(1) [OF assms(1)] commit_state_frame(1) [OF assms(2)]
  show ?thesis by (simp add: backstop_left_def)
next
  case False
  with commit_state_forced(2) [OF assms(2)] have "gs_count s' = gs_count s + 1" by simp
  moreover have "gs_budget s' \<le> gs_budget s" "gs_force s' = gs_force s"
    using commit_state_frame [OF assms(2)] by simp_all
  ultimately show ?thesis using False by (auto simp: backstop_left_def)
qed

lemma backstop_releases:
  assumes "tg_st g uid = Some s" "gate_inv s h" "obeys g uid ts" "backstop_left s \<le> length ts"
  shows "\<exists>k. fst (commit_many_from g uid i ts) = Some k \<and> k < i + backstop_left s"
  using assms
proof (induction ts arbitrary: g s h i)
  case Nil
  then show ?case using force_base_props(1) [of s h] by (auto simp: backstop_left_def split: if_splits)
next
  case (Cons t ts)
  obtain rel g' where c: "tg_commit g uid t = (rel, g')" by (cases "tg_commit g uid t")
  note st = tg_commit_inv [OF Cons.prems(1,2) c]
  have pos: "0 < backstop_left s"
    using force_base_props(1) [OF Cons.prems(2)] by (auto simp: backstop_left_def)
  show ?case
  proof (cases rel)
    case True
    with c pos show ?thesis by simp
  next
    case False
    from st(3) [OF this] obtain s' where s': "commit_state g s t = (False, s')" "tg_st g' uid = Some s'"
      "gate_inv s' (h @ [t])" by auto
    have "gs_count s \<ge> gs_budget s \<Longrightarrow> t = gs_force s ! force_base s"
      using Cons.prems(1,3) by (simp add: forced_next_def)
    from commit_state_progress [OF Cons.prems(2) s'(1) this]
    have lt: "backstop_left s' < backstop_left s" .
    have "obeys g' uid ts" using Cons.prems(3) c False by simp
    from Cons.IH [OF s'(2,3) this, of "Suc i"] lt Cons.prems(4) c False show ?thesis by fastforce
  qed
qed

lemma eff_budget_bound:
  assumes "eff_budget g b mx n \<noteq> UNBOUNDED" "0 < mx" "int n < (mx * 3) div 4" "0 < tg_default_budget g"
  shows "0 < eff_budget g b mx n" "eff_budget g b mx n + int n < mx"
proof -
  define e where "e = (case b of
       Some v \<Rightarrow> if v < 0 then UNBOUNDED else if v > 0 then v else tg_default_budget g
     | None \<Rightarrow> tg_default_budget g)"
  have "0 < e" using assms(4) by (auto simp: e_def UNBOUNDED_def split: option.splits)
  moreover have "eff_budget g b mx n = (if e \<noteq> UNBOUNDED \<and> mx > 0 \<and> e + int n \<ge> mx
      then max 1 ((mx * 3) div 4 - int n) else e)"
    by (simp add: eff_budget_def e_def Let_def)
  moreover have "(mx * 3) div 4 < mx" using assms(2) by simp
  ultimately show "0 < eff_budget g b mx n" "eff_budget g b mx n + int n < mx"
    using assms by (auto split: if_splits)
qed

lemma gate_reach_default: "gate_reach g \<Longrightarrow> 0 < tg_default_budget g"
  by (induction rule: gate_reach.induct)
     (auto simp: tg_init_def tg_arm_def tg_commit_def tg_clear_def tg_free_def take_loop_report_def Let_def
        split: if_splits option.splits prod.splits)

text \<open>
  C27.  The backstop always produces an answer: a request armed with a positive
  \<open>max_tokens\<close>, a bounded effective budget and a closing delimiter of fewer tokens than
  \<open>(max_tokens * 3) div 4\<close>, decoded by a loop that emits the forced token whenever there is
  one, leaves its reasoning span before \<open>max_tokens\<close>, with at least one token left for the
  answer, whatever the model says.  (With a longer delimiter the clamp of the budget to at
  least one token leaves no room.)
\<close>

theorem backstop_leaves_room:
  assumes "gate_reach g" "tg_arm g uid force rels b mx eos = (True, g1)" "0 < mx"
    and "eff_budget g b mx (length force) \<noteq> UNBOUNDED"
    and "int (length force) < (mx * 3) div 4"
    and "obeys g1 uid ts" "mx - 1 \<le> int (length ts)"
  shows "\<exists>k. fst (tg_commit_many g1 uid ts) = Some k \<and> int k + 1 < mx"
proof -
  from assms(2) obtain s where s: "tg_st g1 = (tg_st g)(uid \<mapsto> s)" "gate_inv s []" "gs_count s = 0"
    "gs_budget s = eff_budget g b mx (length force)" "gs_force s = force" by (rule tg_arm_True)
  note e = eff_budget_bound [OF assms(4,3,5) gate_reach_default [OF assms(1)]]
  have left: "int (backstop_left s) < mx" using s e by (simp add: backstop_left_def)
  then have "backstop_left s \<le> length ts" using assms(7) by linarith
  from backstop_releases [OF _ s(2) assms(6) this, of 0] s(1) left show ?thesis
    by (force simp: tg_commit_many_def)
qed

theorem backstop_leaves_room_witness:
  "\<exists>g1 k. tg_arm (tg_init True 3 0 8 128) 7 [200, 6] [] None 8 [] = (True, g1)
     \<and> fst (tg_commit_many g1 7 [1, 1, 1, 200, 6, 1, 1]) = Some k \<and> int k + 1 < 8"
proof -
  obtain g1 where g1: "tg_arm (tg_init True 3 0 8 128) 7 [200, 6] [] None 8 [] = (True, g1)"
    by (simp add: tg_arm_def tg_init_def)
  have o: "obeys g1 7 [1, 1, 1, 200, 6, 1, 1]"
    using g1 by (auto simp: tg_arm_def tg_init_def forced_next_def tg_commit_def commit_state_def force_base_def
        eff_budget_def UNBOUNDED_def released_def suffix_eq_def lastn_def numeral_2_eq_2)
  have "\<exists>k. fst (tg_commit_many g1 7 [1, 1, 1, 200, 6, 1, 1]) = Some k \<and> int k + 1 < 8"
    by (rule backstop_leaves_room [OF gate_reach.init g1 _ _ _ o])
       (simp_all add: eff_budget_def tg_init_def UNBOUNDED_def)
  with g1 show ?thesis by blast
qed

subsection \<open>Holding the end of the turn\<close>

lemma loop_step_budget_cases:
  "gs_budget (loop_step g s t) = gs_budget s \<or> gs_budget (loop_step g s t) \<le> gs_count s"
  by (auto simp: loop_step_def Let_def min_def split: prod.splits)

lemma commit_state_budget_cases:
  assumes "commit_state g s t = (rel, s')" "gs_budget s = B \<or> gs_budget s \<le> gs_count s"
  shows "gs_budget s' = B \<or> gs_budget s' \<le> gs_count s'"
proof -
  let ?s3 = "s\<lparr>gs_window := push_window (gs_width s) (gs_window s) t, gs_forcing := -1,
               gs_count := gs_count s + 1\<rparr>"
  have "s' = loop_step g ?s3 t \<or> gs_budget s' = gs_budget s"
    using assms(1) by (auto simp: commit_state_def Let_def split: if_splits option.splits)
  then have "gs_budget s' = gs_budget s \<or> gs_budget s' \<le> gs_count s'"
    using loop_step_budget_cases [of g ?s3 t] loop_step_frame(6) [of g ?s3 t] by auto
  with assms(2) commit_state_frame(5,7) [OF assms(1)] show ?thesis by linarith
qed

lemma commit_many_from_keeps:
  assumes "tg_st g uid = Some s" "commit_many_from g uid i ts = (None, g')"
    and "gs_budget s = B \<or> gs_budget s \<le> gs_count s"
  shows "\<exists>s'. tg_st g' uid = Some s' \<and> gs_may_suppress_eos s' = gs_may_suppress_eos s
     \<and> (gs_budget s' = B \<or> gs_budget s' \<le> gs_count s')"
  using assms
proof (induction ts arbitrary: g s i)
  case Nil
  then show ?case by simp
next
  case (Cons t ts)
  obtain rel s1 where c: "commit_state g s t = (rel, s1)" by (cases "commit_state g s t")
  with Cons.prems(1,2) have r: "\<not> rel"
    and m: "commit_many_from (g\<lparr>tg_st := (tg_st g)(uid \<mapsto> s1)\<rparr>) uid (Suc i) ts = (None, g')"
    by (auto simp: tg_commit_def split: if_splits)
  from Cons.IH [OF _ m commit_state_budget_cases [OF c Cons.prems(3)]]
  show ?case using commit_state_frame(6) [OF c] by simp
qed

text \<open>
  The gate only holds the end of the turn while it is guaranteed to let go: if EOS is
  suppressed after any committed tokens, then the request was not armed without a budget,
  nothing is being forced, and none of the request's EOS ids occurs in the delimiter or in
  a release pattern, so the mask can never forbid the token that would end the span.
\<close>

theorem eos_held_only_under_budget:
  assumes "tg_arm g uid force rels b mx eos = (True, g1)"
    and "tg_commit_many g1 uid ts = (None, g2)" "suppress_eos g2 uid"
  shows "(\<forall>v. b = Some v \<longrightarrow> 0 \<le> v) \<and> forced_next g2 uid = None
     \<and> (\<forall>p \<in> set (gather_patterns [] (Bare force # rels)). set eos \<inter> pattern_tokens p = {})"
proof -
  from assms(1) obtain s where s: "tg_st g1 = (tg_st g)(uid \<mapsto> s)"
    "gs_budget s = eff_budget g b mx (length force)"
    "gs_releases s = gather_patterns [] (Bare force # rels)"
    "gs_may_suppress_eos s \<longleftrightarrow> (\<forall>p \<in> set (gs_releases s). set eos \<inter> pattern_tokens p = {})"
    by (rule tg_arm_True)
  have "tg_st g1 uid = Some s" using s(1) by simp
  from commit_many_from_keeps [OF this assms(2) [unfolded tg_commit_many_def], of "gs_budget s"]
  obtain s' where s': "tg_st g2 uid = Some s'" "gs_may_suppress_eos s' = gs_may_suppress_eos s"
    "gs_budget s' = gs_budget s \<or> gs_budget s' \<le> gs_count s'" by blast
  with assms(3) have e: "gs_may_suppress_eos s" "gs_count s' < gs_budget s'" "gs_budget s < UNBOUNDED"
    by (auto simp: suppress_eos_def split: if_splits)
  have "0 \<le> v" if "b = Some v" for v
    using that e(3) s(2) by (auto simp: eff_budget_def Let_def split: if_splits)
  with s s'(1) e show ?thesis by (simp add: forced_next_def)
qed

theorem eos_held_only_under_budget_witness:
  "\<exists>g1 g2. tg_arm (tg_init True 3 0 8 128) 7 [200, 6] [] None 0 [2] = (True, g1)
     \<and> tg_commit_many g1 7 [1, 200] = (None, g2) \<and> suppress_eos g2 7 \<and> forced_next g2 7 = None"
proof -
  obtain g1 where g1: "tg_arm (tg_init True 3 0 8 128) 7 [200, 6] [] None 0 [2] = (True, g1)"
    by (simp add: tg_arm_def tg_init_def)
  have "\<exists>g2. tg_commit_many g1 7 [1, 200] = (None, g2) \<and> suppress_eos g2 7"
    using g1 by (auto simp: tg_arm_def tg_init_def tg_commit_many_def tg_commit_def commit_state_def
        eff_budget_def UNBOUNDED_def released_def suffix_eq_def lastn_def suppress_eos_def)
  then obtain g2 where g2: "tg_commit_many g1 7 [1, 200] = (None, g2)" "suppress_eos g2 7" by blast
  from eos_held_only_under_budget [OF g1 g2] g1 g2 show ?thesis by blast
qed

subsection \<open>The verbatim-loop detector\<close>

text \<open>\<open>period_run p h\<close>: how many tokens at the end of \<open>h\<close> equal the token \<open>p\<close> places before.\<close>

definition period_run :: "nat \<Rightarrow> int list \<Rightarrow> nat" where
  "period_run p h = length (takeWhile (\<lambda>i. h ! i = h ! (i - p)) (rev [p..<length h]))"

definition loop_hit :: "think_gate \<Rightarrow> int list \<Rightarrow> nat \<Rightarrow> bool" where
  "loop_hit g h p \<longleftrightarrow> 1 \<le> p \<and> p \<le> tg_loop_period g
     \<and> tg_loop_span g \<le> int (period_run p h) \<and> int p * tg_loop_reps g \<le> int (period_run p h)"











text \<open>
  The constructor's comment promises to close a span whose tail is \<open>loop_reps\<close> or more
  copies of one unit; the detector needs one copy more: two copies of a two-token unit with
  \<open>loop_reps = 2\<close> are not a loop, three are.
\<close>

theorem loop_breaker_needs_one_more_copy:
  "\<not> loop_hit (tg_init True 100 1 2 2) (concat (replicate 2 [5, 6])) 2
     \<and> loop_hit (tg_init True 100 1 2 2) (concat (replicate 3 [5, 6])) 2"
  by (simp add: loop_hit_def period_run_def tg_init_def numeral_eq_Suc upt_rec)

end
