(* ===== verification/Tool_Gate.thy ===== *)
theory Tool_Gate
  imports Token_Patterns
begin

section \<open>Holding the turn open inside a tool call (scheduler/think_gate.py, class ToolCallGate)\<close>

text \<open>
  One \<open>_ToolCallState\<close> per armed request, \<open>tool_gate\<close> the object.  Specification: the
  same automaton over the whole committed stream (\<open>tool_view\<close>), with no window.
\<close>

record tool_state =
  ts_openers :: "pattern list"
  ts_closers :: "pattern list"
  ts_width :: nat
  ts_budget :: int
  ts_may_suppress_eos :: bool
  ts_inside :: bool
  ts_count :: int
  ts_window :: "int list"
  ts_think_closers :: "pattern list"
  ts_in_think :: bool

record tool_gate =
  tlg_enabled :: bool
  tlg_budget :: int
  tlg_st :: "uid \<Rightarrow> tool_state option"

definition tlg_init :: "bool \<Rightarrow> int \<Rightarrow> tool_gate" where
  "tlg_init enabled budget = \<lparr>tlg_enabled = enabled, tlg_budget = budget, tlg_st = (\<lambda>_. None)\<rparr>"

definition tlg_arm ::
    "tool_gate \<Rightarrow> uid \<Rightarrow> pattern_spec list \<Rightarrow> pattern_spec list \<Rightarrow> int list \<Rightarrow> pattern_spec list
     \<Rightarrow> bool \<times> tool_gate" where
  "tlg_arm g uid openers closers eos_ids think_closers =
     (if \<not> tlg_enabled g \<or> tlg_st g uid \<noteq> None then (False, g)
      else (let opats = List.map_filter as_pattern openers; cpats = List.map_filter as_pattern closers
            in if opats = [] \<or> cpats = [] then (False, g)
               else (let tpats = List.map_filter as_pattern think_closers;
                         delim_tokens = \<Union> (set (map pattern_tokens (opats @ cpats @ tpats)));
                         may = (set eos_ids \<inter> delim_tokens = {})
                     in (True, g\<lparr>tlg_st := (tlg_st g)(uid \<mapsto>
                          \<lparr>ts_openers = opats, ts_closers = cpats,
                           ts_width = foldr max (map pattern_width (opats @ cpats @ tpats)) 0,
                           ts_budget = tlg_budget g, ts_may_suppress_eos = may, ts_inside = False,
                           ts_count = 0, ts_window = [], ts_think_closers = tpats,
                           ts_in_think = (tpats \<noteq> [])\<rparr>)\<rparr>))))"

definition tool_step :: "tool_state \<Rightarrow> int \<Rightarrow> tool_state" where
  "tool_step s token =
     (let s1 = s\<lparr>ts_window := push_window (ts_width s) (ts_window s) token\<rparr>; w = ts_window s1
      in if ts_in_think s1
         then (if list_ex (matches w) (ts_think_closers s1) then s1\<lparr>ts_in_think := False\<rparr> else s1)
         else if ts_inside s1
         then (let s2 = s1\<lparr>ts_count := ts_count s1 + 1\<rparr>
               in if list_ex (matches w) (ts_closers s2) then s2\<lparr>ts_inside := False, ts_count := 0\<rparr> else s2)
         else if list_ex (matches w) (ts_openers s1) then s1\<lparr>ts_inside := True, ts_count := 0\<rparr>
         else s1)"

definition tlg_commit :: "tool_gate \<Rightarrow> uid \<Rightarrow> int \<Rightarrow> tool_gate" where
  "tlg_commit g uid token = (case tlg_st g uid of
       None \<Rightarrow> g | Some s \<Rightarrow> g\<lparr>tlg_st := (tlg_st g)(uid \<mapsto> tool_step s token)\<rparr>)"

fun tlg_commit_many :: "tool_gate \<Rightarrow> uid \<Rightarrow> int list \<Rightarrow> tool_gate" where
  "tlg_commit_many g uid [] = g"
| "tlg_commit_many g uid (t # ts) = tlg_commit_many (tlg_commit g uid t) uid ts"

definition tlg_suppress_eos :: "tool_gate \<Rightarrow> uid \<Rightarrow> bool" where
  "tlg_suppress_eos g uid = (case tlg_st g uid of
       None \<Rightarrow> False
     | Some s \<Rightarrow> ts_inside s \<and> ts_may_suppress_eos s \<and> ts_count s < ts_budget s)"

definition tlg_is_open :: "tool_gate \<Rightarrow> uid \<Rightarrow> bool" where
  "tlg_is_open g uid = (case tlg_st g uid of None \<Rightarrow> False | Some s \<Rightarrow> ts_inside s)"

definition tlg_free :: "tool_gate \<Rightarrow> uid \<Rightarrow> tool_gate" where
  "tlg_free g uid = g\<lparr>tlg_st := (tlg_st g)(uid := None)\<rparr>"

subsection \<open>The specification over the stream\<close>

datatype tool_view = InThink | Outside | Inside int

definition any_ends :: "pattern list \<Rightarrow> int list \<Rightarrow> bool" where
  "any_ends pats h \<longleftrightarrow> (\<exists>p \<in> set pats. ends_pattern h p)"

definition view_step ::
    "pattern list \<Rightarrow> pattern list \<Rightarrow> pattern list \<Rightarrow> int list \<Rightarrow> tool_view \<Rightarrow> tool_view" where
  "view_step op cl th h v = (case v of
       InThink \<Rightarrow> if any_ends th h then Outside else InThink
     | Inside n \<Rightarrow> if any_ends cl h then Outside else Inside (n + 1)
     | Outside \<Rightarrow> if any_ends op h then Inside 0 else Outside)"

fun view_run ::
    "pattern list \<Rightarrow> pattern list \<Rightarrow> pattern list \<Rightarrow> tool_view \<Rightarrow> int list \<Rightarrow> int list \<Rightarrow> tool_view" where
  "view_run op cl th v h [] = v"
| "view_run op cl th v h (t # ts) = view_run op cl th (view_step op cl th (h @ [t]) v) (h @ [t]) ts"

definition view_of :: "tool_state \<Rightarrow> tool_view" where
  "view_of s = (if ts_in_think s then InThink else if ts_inside s then Inside (ts_count s) else Outside)"

definition tool_inv :: "tool_state \<Rightarrow> int list \<Rightarrow> bool" where
  "tool_inv s h \<longleftrightarrow> ts_window s = lastn (ts_width s) h \<and> (ts_in_think s \<longrightarrow> \<not> ts_inside s)
     \<and> (\<forall>p \<in> set (ts_openers s @ ts_closers s @ ts_think_closers s). pattern_width p \<le> ts_width s)"

lemma tool_step_frame:
  "ts_openers (tool_step s t) = ts_openers s" "ts_closers (tool_step s t) = ts_closers s"
  "ts_think_closers (tool_step s t) = ts_think_closers s" "ts_width (tool_step s t) = ts_width s"
  "ts_budget (tool_step s t) = ts_budget s" "ts_may_suppress_eos (tool_step s t) = ts_may_suppress_eos s"
  "ts_window (tool_step s t) = lastn (ts_width s) (ts_window s @ [t])"
  by (simp_all add: tool_step_def Let_def)

lemma tool_step_view:
  assumes "tool_inv s h"
  shows "view_of (tool_step s t) = view_step (ts_openers s) (ts_closers s) (ts_think_closers s) (h @ [t]) (view_of s)"
    and "tool_inv (tool_step s t) (h @ [t])"
proof -
  have w: "lastn (ts_width s) (ts_window s @ [t]) = lastn (ts_width s) (h @ [t])"
    using assms by (simp add: tool_inv_def lastn_append_lastn)
  have m: "list_ex (matches (lastn (ts_width s) (h @ [t]))) pats = any_ends pats (h @ [t])"
    if "set pats \<subseteq> set (ts_openers s @ ts_closers s @ ts_think_closers s)" for pats
  proof -
    have "\<forall>p \<in> set pats. pattern_width p \<le> ts_width s"
      using that assms unfolding tool_inv_def by blast
    then show ?thesis
      using released_window [of pats "ts_width s" "h @ [t]"] by (simp add: released_def any_ends_def)
  qed
  have mm: "list_ex (matches (lastn (ts_width s) (h @ [t]))) (ts_openers s) = any_ends (ts_openers s) (h @ [t])"
    "list_ex (matches (lastn (ts_width s) (h @ [t]))) (ts_closers s) = any_ends (ts_closers s) (h @ [t])"
    "list_ex (matches (lastn (ts_width s) (h @ [t]))) (ts_think_closers s) = any_ends (ts_think_closers s) (h @ [t])"
    by (rule m; auto)+
  show "view_of (tool_step s t) = view_step (ts_openers s) (ts_closers s) (ts_think_closers s) (h @ [t]) (view_of s)"
    using assms [unfolded tool_inv_def, THEN conjunct2, THEN conjunct1]
    by (auto simp: tool_step_def Let_def w mm view_of_def view_step_def)
  have "ts_in_think (tool_step s t) \<longrightarrow> \<not> ts_inside (tool_step s t)"
    using assms by (auto simp: tool_step_def Let_def tool_inv_def)
  with assms show "tool_inv (tool_step s t) (h @ [t])"
    unfolding tool_inv_def tool_step_frame using w by simp
qed

lemma commit_many_view:
  assumes "tlg_st g uid = Some s" "tool_inv s h"
  shows "\<exists>s'. tlg_st (tlg_commit_many g uid ts) uid = Some s' \<and> tool_inv s' (h @ ts)
     \<and> ts_openers s' = ts_openers s \<and> ts_closers s' = ts_closers s \<and> ts_think_closers s' = ts_think_closers s
     \<and> ts_budget s' = ts_budget s \<and> ts_may_suppress_eos s' = ts_may_suppress_eos s
     \<and> view_of s' = view_run (ts_openers s) (ts_closers s) (ts_think_closers s) (view_of s) h ts"
  using assms
proof (induction ts arbitrary: g s h)
  case Nil
  then show ?case by simp
next
  case (Cons t ts)
  have "tlg_st (tlg_commit g uid t) uid = Some (tool_step s t)"
    using Cons.prems(1) by (simp add: tlg_commit_def)
  from Cons.IH [OF this tool_step_view(2) [OF Cons.prems(2)]]
  show ?case using tool_step_view(1) [OF Cons.prems(2)] by (auto simp: tool_step_frame)
qed

lemma tlg_arm_True:
  assumes "tlg_arm g uid openers closers eos thinks = (True, g1)"
  obtains s where "tlg_st g1 uid = Some s" "tool_inv s []"
    "ts_openers s = List.map_filter as_pattern openers" "ts_closers s = List.map_filter as_pattern closers"
    "ts_think_closers s = List.map_filter as_pattern thinks" "ts_budget s = tlg_budget g"
    "view_of s = (if List.map_filter as_pattern thinks \<noteq> [] then InThink else Outside)"
    "ts_may_suppress_eos s \<longleftrightarrow> (\<forall>p \<in> set (ts_openers s @ ts_closers s @ ts_think_closers s).
        set eos \<inter> pattern_tokens p = {})"
proof -
  let ?ps = "List.map_filter as_pattern openers @ List.map_filter as_pattern closers
               @ List.map_filter as_pattern thinks"
  have w: "\<forall>p \<in> set ?ps. pattern_width p \<le> foldr max (map pattern_width ?ps) 0"
    by (rule widths_le)
  let ?op = "List.map_filter as_pattern openers" and ?cl = "List.map_filter as_pattern closers"
    and ?th = "List.map_filter as_pattern thinks"
  define s where "s = \<lparr>ts_openers = ?op, ts_closers = ?cl,
     ts_width = foldr max (map pattern_width (?op @ ?cl @ ?th)) 0, ts_budget = tlg_budget g,
     ts_may_suppress_eos = (set eos \<inter> \<Union> (set (map pattern_tokens (?op @ ?cl @ ?th))) = {}),
     ts_inside = False, ts_count = 0, ts_window = [], ts_think_closers = ?th, ts_in_think = (?th \<noteq> [])\<rparr>"
  have g1: "g1 = g\<lparr>tlg_st := (tlg_st g)(uid \<mapsto> s)\<rparr>"
    using assms unfolding tlg_arm_def Let_def s_def by (simp split: if_splits)
  show thesis
  proof (rule that [of s])
    show "tool_inv s []" unfolding tool_inv_def using w by (simp add: s_def)
    show "ts_may_suppress_eos s \<longleftrightarrow> (\<forall>p \<in> set (ts_openers s @ ts_closers s @ ts_think_closers s).
        set eos \<inter> pattern_tokens p = {})"
      by (simp only: s_def tool_state.simps set_map) blast
  qed (simp_all add: g1 s_def view_of_def)
qed

lemma view_of_inside: "tool_inv s h \<Longrightarrow> ts_inside s \<Longrightarrow> view_of s = Inside (ts_count s)"
  by (simp add: view_of_def tool_inv_def)

text \<open>
  C35.  The tool-call gate refines the automaton over the whole stream: after arming and any
  committed tokens, a call block is open exactly when the stream automaton is inside one
  (openers inside the reasoning span are inert until a think-closer ends it), and EOS is
  suppressed exactly inside a block that is younger than the budget, for a request none of
  whose EOS ids occurs in a delimiter.
\<close>

theorem tool_gate_refines_stream:
  assumes "tlg_arm g uid openers closers eos thinks = (True, g1)"
    and "op = List.map_filter as_pattern openers" "cl = List.map_filter as_pattern closers"
    and "th = List.map_filter as_pattern thinks"
    and "v = view_run op cl th (if th \<noteq> [] then InThink else Outside) [] ts"
  shows "tlg_is_open (tlg_commit_many g1 uid ts) uid = (\<exists>n. v = Inside n)
     \<and> tlg_suppress_eos (tlg_commit_many g1 uid ts) uid =
         ((\<exists>n. v = Inside n \<and> n < tlg_budget g)
          \<and> (\<forall>p \<in> set (op @ cl @ th). set eos \<inter> pattern_tokens p = {}))"
proof -
  from assms(1) obtain s where s: "tlg_st g1 uid = Some s" "tool_inv s []"
    "ts_openers s = op" "ts_closers s = cl" "ts_think_closers s = th" "ts_budget s = tlg_budget g"
    "view_of s = (if th \<noteq> [] then InThink else Outside)"
    "ts_may_suppress_eos s \<longleftrightarrow> (\<forall>p \<in> set (ts_openers s @ ts_closers s @ ts_think_closers s).
        set eos \<inter> pattern_tokens p = {})"
    unfolding assms(2-4) by (rule tlg_arm_True) blast
  from commit_many_view [OF s(1,2), of ts] obtain s' where s':
    "tlg_st (tlg_commit_many g1 uid ts) uid = Some s'" "tool_inv s' ts"
    "ts_budget s' = tlg_budget g" "ts_may_suppress_eos s' = ts_may_suppress_eos s" "view_of s' = v"
    using s assms(5) by auto
  have "ts_inside s' \<longleftrightarrow> v = Inside (ts_count s')" "v = Inside n \<Longrightarrow> n = ts_count s'" for n
    using s'(2,5) by (auto simp: view_of_def tool_inv_def split: if_splits)
  then show ?thesis
    using s' s(3,4,5,8) unfolding tlg_is_open_def tlg_suppress_eos_def by auto
qed

theorem tool_gate_refines_stream_witness:
  "\<exists>g1. tlg_arm (tlg_init True 2) 1 [Bare [10]] [Bare [11]] [2] [Bare [12]] = (True, g1)
     \<and> \<not> tlg_is_open (tlg_commit_many g1 1 [10]) 1
     \<and> tlg_suppress_eos (tlg_commit_many g1 1 [10, 12, 10, 5]) 1
     \<and> \<not> tlg_suppress_eos (tlg_commit_many g1 1 [10, 12, 10, 5, 6]) 1"
proof -
  obtain g1 where g1: "tlg_arm (tlg_init True 2) 1 [Bare [10]] [Bare [11]] [2] [Bare [12]] = (True, g1)"
    by (simp add: tlg_arm_def tlg_init_def map_filter_simps)
  note r = tool_gate_refines_stream [OF g1 refl refl refl refl]
  have "\<not> tlg_is_open (tlg_commit_many g1 1 [10]) 1"
    "tlg_suppress_eos (tlg_commit_many g1 1 [10, 12, 10, 5]) 1"
    "\<not> tlg_suppress_eos (tlg_commit_many g1 1 [10, 12, 10, 5, 6]) 1"
    using r [of "[10]"] r [of "[10, 12, 10, 5]"] r [of "[10, 12, 10, 5, 6]"]
    by (simp_all add: map_filter_simps view_step_def any_ends_def suffix_def tlg_init_def
        Cons_eq_append_conv append_eq_Cons_conv)
  with g1 show ?thesis by blast
qed

lemma view_run_snoc:
  "view_run op cl th v h (ts @ [t]) = view_step op cl th (h @ ts @ [t]) (view_run op cl th v h ts)"
  by (induction ts arbitrary: v h) simp_all

lemma view_run_nonneg:
  assumes "view_run op cl th v h ts = Inside n" "\<And>m. v = Inside m \<Longrightarrow> 0 \<le> m"
  shows "0 \<le> n"
  using assms
proof (induction ts arbitrary: v h)
  case (Cons t ts)
  show ?case
    by (rule Cons.IH [of "view_step op cl th (h @ [t]) v" "h @ [t]"])
      (use Cons.prems in \<open>auto simp: view_step_def split: tool_view.splits if_splits\<close>)
qed simp

text \<open>
  C36.  The gate cannot wedge a request: after any committed tokens \<open>us\<close>, in any further run
  of \<open>budget\<close> tokens there is a moment, before, between or after them, at which EOS is not
  suppressed, whatever the tokens are.
\<close>

theorem tool_gate_cannot_hold_forever:
  assumes "tlg_arm g uid openers closers eos thinks = (True, g1)"
    and "tlg_budget g \<le> int (length ts)"
  shows "\<exists>k \<le> length ts. \<not> tlg_suppress_eos (tlg_commit_many g1 uid (us @ take k ts)) uid"
proof (rule ccontr)
  assume no: "\<not> ?thesis"
  from assms(1) obtain s where s: "tlg_st g1 uid = Some s" "tool_inv s []" "ts_budget s = tlg_budget g"
    "view_of s = (if List.map_filter as_pattern thinks \<noteq> [] then InThink else Outside)"
    by (rule tlg_arm_True)
  let ?V = "view_run (ts_openers s) (ts_closers s) (ts_think_closers s) (view_of s) []"
  have held: "\<exists>n. ?V (us @ take k ts) = Inside n \<and> n < tlg_budget g" if "k \<le> length ts" for k
  proof -
    have "tlg_suppress_eos (tlg_commit_many g1 uid (us @ take k ts)) uid" using no that by blast
    moreover from commit_many_view [OF s(1,2), of "us @ take k ts"] s(3) obtain s' where s':
      "tlg_st (tlg_commit_many g1 uid (us @ take k ts)) uid = Some s'" "tool_inv s' (us @ take k ts)"
      "ts_budget s' = tlg_budget g" "view_of s' = ?V (us @ take k ts)" by auto
    ultimately have "ts_inside s'" "ts_count s' < tlg_budget g" by (simp_all add: tlg_suppress_eos_def)
    with view_of_inside [OF s'(2)] s'(4) show ?thesis by auto
  qed
  have "\<exists>n. ?V (us @ take k ts) = Inside n \<and> int k \<le> n" if "k \<le> length ts" for k
    using that
  proof (induction k)
    case 0
    then obtain n where n: "?V us = Inside n" using held [of 0] by auto
    then have "0 \<le> n" by (rule view_run_nonneg) (use s(4) in \<open>simp split: if_splits\<close>)
    with n show ?case by simp
  next
    case (Suc k)
    then obtain n where n: "?V (us @ take k ts) = Inside n" "int k \<le> n" by auto
    have e: "us @ take (Suc k) ts = (us @ take k ts) @ [ts ! k]"
      using Suc.prems by (simp add: take_Suc_conv_app_nth)
    from held [OF Suc.prems] obtain m where m: "?V (us @ take (Suc k) ts) = Inside m" by blast
    then have "m = n + 1"
      unfolding e view_run_snoc n(1) by (simp add: view_step_def split: if_splits)
    with m n(2) show ?case by simp
  qed
  from this [of "length ts"] held [of "length ts"] assms(2) show False by auto
qed

theorem tool_gate_cannot_hold_forever_witness:
  "\<exists>g1 k. tlg_arm (tlg_init True 2) 1 [Bare [10]] [Bare [11]] [2] [] = (True, g1)
     \<and> k \<le> length [5, 6 :: int] \<and> \<not> tlg_suppress_eos (tlg_commit_many g1 1 ([10] @ take k [5, 6])) 1"
proof -
  obtain g1 where g1: "tlg_arm (tlg_init True 2) 1 [Bare [10]] [Bare [11]] [2] [] = (True, g1)"
    by (simp add: tlg_arm_def tlg_init_def map_filter_simps)
  have "\<exists>k \<le> length [5, 6 :: int]. \<not> tlg_suppress_eos (tlg_commit_many g1 1 ([10] @ take k [5, 6])) 1"
    by (rule tool_gate_cannot_hold_forever [OF g1]) (simp add: tlg_init_def)
  with g1 show ?thesis by blast
qed

end
