(* ===== verification/Prefix_Iface.thy ===== *)
theory Prefix_Iface
  imports Prelude
begin

section \<open>The prefix cache interface (kvcache/base.py)\<close>

text \<open>
  \<open>cache_ops\<close> is the abstract class \<open>BasePrefixCache\<close> with the handle's length and
  matched indices; \<open>co_rec\<close> is the attribute \<open>recurrent\<close>.  The locale \<open>prefix_cache\<close>
  states what a client relies on, over the handles it has locked, the pages it has given
  away and the tokens a handle stands for: no operation fails, a match is a prefix of the
  input, an insertion takes over exactly the pages of the part it did not have and recognises
  at least what any valid handle already covers, an eviction hands back exactly the pages it
  drops and leaves locked handles alone.
\<close>

record ('c, 'h) cache_ops =
  co_match :: "int \<Rightarrow> int \<Rightarrow> int list \<Rightarrow> 'c \<Rightarrow> ('h \<times> 'c) run"
  co_insert :: "int \<Rightarrow> int \<Rightarrow> int list \<Rightarrow> int list \<Rightarrow> 'c \<Rightarrow> (nat \<times> 'h \<times> 'c) run"
  co_lock :: "'h \<Rightarrow> bool \<Rightarrow> 'c \<Rightarrow> 'c run"
  co_evict :: "int \<Rightarrow> 'c \<Rightarrow> (int list \<times> 'c) run"
  co_size :: "'c \<Rightarrow> int \<times> int"
  co_len :: "'h \<Rightarrow> nat"
  co_indices :: "'c \<Rightarrow> 'h \<Rightarrow> int list run"
  co_rec :: "'c \<Rightarrow> bool"

text \<open>\<open>SizeInfo.total_size\<close>.\<close>

definition total_size :: "int \<times> int \<Rightarrow> int" where
  "total_size s = fst s + snd s"

locale prefix_cache =
  fixes K :: "('c, 'h) cache_ops" and pg :: nat
    and inv :: "'c \<Rightarrow> 'h multiset \<Rightarrow> int multiset \<Rightarrow> bool"
    and ok :: "'c \<Rightarrow> 'h \<Rightarrow> bool" and tok :: "'c \<Rightarrow> 'h \<Rightarrow> int list"
  assumes page_pos: "inv c L P \<Longrightarrow> 0 < pg"
    and locked_ok: "inv c L P \<Longrightarrow> h \<in># L \<Longrightarrow> ok c h"
    and ok_len: "inv c L P \<Longrightarrow> ok c h \<Longrightarrow> length (tok c h) = co_len K h \<and> pg dvd co_len K h"
    and size_law: "inv c L P \<Longrightarrow> 0 \<le> fst (co_size K c) \<and> int pg dvd fst (co_size K c)
       \<and> total_size (co_size K c) = int (pg * size P)"
    and match_law: "inv c L P \<Longrightarrow> \<exists>h c'. co_match K tic now ids c = Some (Inr (h, c')) \<and> inv c' L P \<and> ok c' h
       \<and> co_len K h \<le> length ids \<and> tok c' h = take (co_len K h) ids \<and> co_size K c' = co_size K c
       \<and> (\<forall>g. ok c g \<longrightarrow> ok c' g \<and> tok c' g = tok c g)"
    and insert_law: "inv c L P \<Longrightarrow> length ids = length idx \<Longrightarrow>
       \<exists>n h c'. co_insert K tic now ids idx c = Some (Inr (n, h, c')) \<and> ok c' h
       \<and> inv c' L (P + mset (stride pg (drop n (take (co_len K h) idx))))
       \<and> n \<le> co_len K h \<and> co_len K h \<le> length ids \<and> pg dvd n \<and> tok c' h = take (co_len K h) ids
       \<and> (\<forall>g. ok c g \<longrightarrow> ok c' g \<and> tok c' g = tok c g)
       \<and> (\<forall>g. ok c g \<longrightarrow> co_len K g \<le> length ids \<longrightarrow> tok c g = take (co_len K g) ids \<longrightarrow> co_len K g \<le> n)"
    and lock_law: "inv c L P \<Longrightarrow> ok c h \<Longrightarrow> \<exists>c'. co_lock K h False c = Some (Inr c')
       \<and> inv c' (add_mset h L) P \<and> (\<forall>g. ok c g \<longrightarrow> ok c' g \<and> tok c' g = tok c g)"
    and unlock_law: "inv c L P \<Longrightarrow> h \<in># L \<Longrightarrow> \<exists>c'. co_lock K h True c = Some (Inr c')
       \<and> inv c' (L - {#h#}) P \<and> (\<forall>g. ok c g \<longrightarrow> ok c' g \<and> tok c' g = tok c g)"
    and evict_law: "inv c L P \<Longrightarrow> 0 \<le> need \<Longrightarrow> need \<le> fst (co_size K c) \<Longrightarrow>
       \<exists>out c' Q. co_evict K need c = Some (Inr (out, c')) \<and> inv c' L Q \<and> P = Q + mset (stride pg out)
       \<and> need \<le> int (length out) \<and> pg dvd length out \<and> (\<forall>g \<in># L. tok c' g = tok c g)"
    and indices_law: "inv c L P \<Longrightarrow> ok c h \<Longrightarrow> 0 < co_len K h \<Longrightarrow>
       \<exists>xs. co_indices K c h = Some (Inr xs) \<and> length xs = co_len K h"

end
