(* ===== verification/Naive_Cache.thy ===== *)
theory Naive_Cache
  imports Prefix_Iface
begin

section \<open>The naive prefix cache (kvcache/naive_cache.py)\<close>

text \<open>
  The cache that caches nothing: it has no state of its own, every handle has length zero and
  only an eviction of nothing succeeds.  It provides the interface with no pages at all.
\<close>

datatype naive_handle = NaiveCacheHandle

definition nv_indices :: "unit \<Rightarrow> naive_handle \<Rightarrow> int list run" where
  "nv_indices c h = Some (Inr [])"

definition nv_lock :: "naive_handle \<Rightarrow> bool \<Rightarrow> unit \<Rightarrow> unit run" where
  "nv_lock h unlock c = Some (Inr c)"

definition nv_match :: "int \<Rightarrow> int \<Rightarrow> int list \<Rightarrow> unit \<Rightarrow> (naive_handle \<times> unit) run" where
  "nv_match tic now ids c = Some (Inr (NaiveCacheHandle, c))"

definition nv_insert :: "int \<Rightarrow> int \<Rightarrow> int list \<Rightarrow> int list \<Rightarrow> unit \<Rightarrow> (nat \<times> naive_handle \<times> unit) run" where
  "nv_insert tic now ids idx c = Some (Inr (0, NaiveCacheHandle, c))"

definition nv_evict :: "int \<Rightarrow> unit \<Rightarrow> (int list \<times> unit) run" where
  "nv_evict need c = (if need = 0 then Some (Inr ([], c)) else Some (Inl NotImplementedError))"

definition nv_size :: "unit \<Rightarrow> int \<times> int" where
  "nv_size c = (0, 0)"

definition naive_ops :: "(unit, naive_handle) cache_ops" where
  "naive_ops = \<lparr>co_match = nv_match, co_insert = nv_insert, co_lock = nv_lock, co_evict = nv_evict,
     co_size = nv_size, co_len = (\<lambda>_. 0), co_indices = nv_indices, co_rec = (\<lambda>_. False)\<rparr>"

definition naive_state :: "nat \<Rightarrow> unit \<Rightarrow> naive_handle multiset \<Rightarrow> int multiset \<Rightarrow> bool" where
  "naive_state pg c L P \<longleftrightarrow> P = {#} \<and> 0 < pg"

interpretation naive_pc: prefix_cache naive_ops pg "naive_state pg" "\<lambda>_ _. True" "\<lambda>_ _. []"
  by unfold_locales
    (auto simp: naive_ops_def naive_state_def nv_match_def nv_insert_def nv_lock_def nv_evict_def nv_size_def
      nv_indices_def total_size_def)

end
