(* ===== verification/Radix_Cache.thy ===== *)
theory Radix_Cache
  imports Prelude "HOL-Library.AList" "HOL-Library.Product_Lexorder"
begin

section \<open>The radix prefix cache (kvcache/radix_cache.py)\<close>

text \<open>
  A store of mutable tree nodes addressed by their uuid, as in the code: a node has its key
  (token ids), its value (cache slots), a reference count, a timestamp, its dict of children
  keyed by the first page of the child's key, its parent pointer, the \<open>_evicted\<close> mark and
  an optional recurrent-state snapshot.  A handle is (cached_len, node, snapshot).
  \<open>time.monotonic_ns()\<close> is an argument.  Every loop that follows pointers is a
  \<open>partial_function\<close>: None is a loop that does not return, \<open>Some (Inl e)\<close> a failed
  assertion, \<open>Some (Inr x)\<close> a result.
\<close>

record 'r rnode =
  rn_key :: "int list"
  rn_value :: "int list"
  rn_ref :: int
  rn_time :: int
  rn_children :: "(int list \<times> nat) list"
  rn_parent :: "nat option"
  rn_evicted :: bool
  rn_rec :: "'r option"

record 'r radix =
  rx_page :: nat
  rx_nodes :: "nat \<Rightarrow> 'r rnode"
  rx_counter :: nat
  rx_root :: nat
  rx_evictable :: int
  rx_protected :: int
  rx_heap :: "(int \<times> nat) list"
  rx_recurrent :: bool
  rx_max_rec :: nat
  rx_rec_nodes :: "nat list"
  rx_last_kv :: nat

type_synonym 'r handle = "nat \<times> nat \<times> 'r option"

definition key_fn :: "nat \<Rightarrow> int list \<Rightarrow> int list" where
  "key_fn page xs = take page xs"

text \<open>\<open>fast_compare_key\<close>: the length of the common leading part.\<close>

fun compare_key :: "int list \<Rightarrow> int list \<Rightarrow> nat" where
  "compare_key (x # xs) (y # ys) = (if x = y then Suc (compare_key xs ys) else 0)"
| "compare_key _ _ = 0"

definition align_len :: "nat \<Rightarrow> nat \<Rightarrow> nat" where
  "align_len page n = nat (align_down (int n) (int page))"

definition upd_node :: "nat \<Rightarrow> ('r rnode \<Rightarrow> 'r rnode) \<Rightarrow> 'r radix \<Rightarrow> 'r radix" where
  "upd_node i f r = r\<lparr>rx_nodes := (rx_nodes r)(i := f (rx_nodes r i))\<rparr>"

definition is_root :: "'r radix \<Rightarrow> nat \<Rightarrow> bool" where
  "is_root r i \<longleftrightarrow> rn_parent (rx_nodes r i) = None"

definition is_leaf :: "'r radix \<Rightarrow> nat \<Rightarrow> bool" where
  "is_leaf r i \<longleftrightarrow> rn_children (rx_nodes r i) = []"

text \<open>\<open>RadixTreeNode.__init__\<close>: the next uuid, the given time (or the clock when it is zero).\<close>

definition fresh_node :: "int \<Rightarrow> 'r rnode" where
  "fresh_node tic = \<lparr>rn_key = [], rn_value = [], rn_ref = 0, rn_time = tic, rn_children = [],
                     rn_parent = None, rn_evicted = False, rn_rec = None\<rparr>"

definition new_node :: "int \<Rightarrow> 'r radix \<Rightarrow> nat \<times> 'r radix" where
  "new_node tic r = (rx_counter r,
     r\<lparr>rx_nodes := (rx_nodes r)(rx_counter r := fresh_node tic), rx_counter := rx_counter r + 1\<rparr>)"

text \<open>The assertion of \<open>set_key_value\<close>, as many slots as tokens, is a branch of its callers.\<close>

definition set_key_value :: "nat \<Rightarrow> int list \<Rightarrow> int list \<Rightarrow> 'r radix \<Rightarrow> 'r radix" where
  "set_key_value i k v = upd_node i (\<lambda>n. n\<lparr>rn_key := k, rn_value := v\<rparr>)"

definition set_parent :: "nat \<Rightarrow> nat \<Rightarrow> 'r radix \<Rightarrow> 'r radix" where
  "set_parent i p r =
     (let r1 = upd_node i (\<lambda>n. n\<lparr>rn_parent := Some p\<rparr>) r
      in upd_node p (\<lambda>n. n\<lparr>rn_children :=
           AList.update (key_fn (rx_page r1) (rn_key (rx_nodes r1 i))) i (rn_children n)\<rparr>) r1)"

definition split_at :: "int \<Rightarrow> nat \<Rightarrow> nat \<Rightarrow> 'r radix \<Rightarrow> py_error + (nat \<times> 'r radix)" where
  "split_at now i pos r =
     (let s = rx_nodes r i
      in if \<not> (0 < pos \<and> pos < length (rn_key s)) then Inl AssertionError
         else if length (take pos (rn_key s)) \<noteq> length (take pos (rn_value s))
              \<or> length (drop pos (rn_key s)) \<noteq> length (drop pos (rn_value s)) then Inl AssertionError
         else case rn_parent s of
           None \<Rightarrow> Inl AssertionError
         | Some p \<Rightarrow>
             (let (n, r1) = new_node (if rn_time s \<noteq> 0 then rn_time s else now) r;
                  r2 = set_key_value n (take pos (rn_key s)) (take pos (rn_value s)) r1;
                  r3 = set_parent n p r2;
                  r4 = upd_node n (\<lambda>m. m\<lparr>rn_ref := rn_ref s\<rparr>) r3;
                  r5 = set_key_value i (drop pos (rn_key s)) (drop pos (rn_value s)) r4
              in Inr (n, set_parent i n r5)))"

definition rx_init :: "nat \<Rightarrow> bool \<Rightarrow> nat \<Rightarrow> int \<Rightarrow> 'r radix" where
  "rx_init page recurrent max_rec now =
     (let (root, r) = new_node now
            \<lparr>rx_page = page, rx_nodes = (\<lambda>_. fresh_node 0), rx_counter = 0, rx_root = 0,
             rx_evictable = 0, rx_protected = 0, rx_heap = [], rx_recurrent = recurrent,
             rx_max_rec = max_rec, rx_rec_nodes = [], rx_last_kv = 0\<rparr>
      in upd_node root (\<lambda>n. n\<lparr>rn_ref := 1\<rparr>) (r\<lparr>rx_root := root\<rparr>))"

definition push_leaf :: "nat \<Rightarrow> 'r radix \<Rightarrow> 'r radix" where
  "push_leaf i r = (if is_root r i then r
                    else r\<lparr>rx_heap := (rn_time (rx_nodes r i), i) # rx_heap r\<rparr>)"

subsection \<open>Handles\<close>

partial_function (option) value_walk :: "'r radix \<Rightarrow> nat \<Rightarrow> int list list \<Rightarrow> int list list option" where
  "value_walk r i acc = (case rn_parent (rx_nodes r i) of
       None \<Rightarrow> Some acc
     | Some p \<Rightarrow> value_walk r p (acc @ [rn_value (rx_nodes r i)]))"

definition get_matched_indices :: "'r radix \<Rightarrow> 'r handle \<Rightarrow> int list run" where
  "get_matched_indices r h = (case value_walk r (fst (snd h)) [] of
       None \<Rightarrow> None
     | Some vs \<Rightarrow> Some (if vs = [] then Inl RuntimeError else Inr (concat (rev vs))))"

partial_function (option) lock_walk :: "bool \<Rightarrow> 'r radix \<Rightarrow> nat \<Rightarrow> (py_error + 'r radix) option" where
  "lock_walk unlock r i = (case rn_parent (rx_nodes r i) of
       None \<Rightarrow> Some (Inr r)
     | Some p \<Rightarrow>
         (let s = rx_nodes r i; len = int (length (rn_key s))
          in if unlock
             then (let r1 = upd_node i (\<lambda>n. n\<lparr>rn_ref := rn_ref s - 1\<rparr>) r
                   in if rn_ref s - 1 < 0 then Some (Inl AssertionError)
                      else (let r2 = (if rn_ref s - 1 = 0
                                      then (let r3 = r1\<lparr>rx_evictable := rx_evictable r1 + len,
                                                        rx_protected := rx_protected r1 - len\<rparr>
                                            in if is_leaf r3 i then push_leaf i r3 else r3)
                                      else r1)
                            in lock_walk unlock r2 p))
             else (let r1 = (if rn_ref s = 0
                             then r\<lparr>rx_evictable := rx_evictable r - len,
                                    rx_protected := rx_protected r + len\<rparr> else r)
                   in lock_walk unlock (upd_node i (\<lambda>n. n\<lparr>rn_ref := rn_ref s + 1\<rparr>) r1) p)))"

definition lock_handle :: "'r handle \<Rightarrow> bool \<Rightarrow> 'r radix \<Rightarrow> 'r radix run" where
  "lock_handle h unlock r = lock_walk unlock r (fst (snd h))"

subsection \<open>Walking, matching, inserting\<close>

partial_function (option) tree_walk ::
    "int \<Rightarrow> int \<Rightarrow> int list \<Rightarrow> nat \<Rightarrow> nat \<Rightarrow> 'r radix \<Rightarrow> (py_error + (nat \<times> nat \<times> 'r radix)) option" where
  "tree_walk tic now ids node plen r =
     (if \<not> plen < length ids then Some (Inr (node, plen, r))
      else case map_of (rn_children (rx_nodes r node)) (key_fn (rx_page r) (drop plen ids)) of
        None \<Rightarrow> Some (Inr (node, plen, r))
      | Some c \<Rightarrow>
          (let m = align_len (rx_page r) (compare_key (rn_key (rx_nodes r c)) (drop plen ids))
           in if m \<noteq> length (rn_key (rx_nodes r c))
              then (case split_at now c m r of
                      Inl e \<Rightarrow> Some (Inl e)
                    | Inr (n, r1) \<Rightarrow>
                        (let r2 = upd_node n (\<lambda>s. s\<lparr>rn_time := tic\<rparr>) r1
                         in Some (Inr (n, plen + m, if is_leaf r2 n then push_leaf n r2 else r2))))
              else (let r1 = upd_node c (\<lambda>s. s\<lparr>rn_time := tic\<rparr>) r
                    in tree_walk tic now ids c (plen + m) (if is_leaf r1 c then push_leaf c r1 else r1))))"

definition walk :: "int \<Rightarrow> int \<Rightarrow> int list \<Rightarrow> 'r radix \<Rightarrow> (nat \<times> nat \<times> 'r radix) run" where
  "walk tic now ids r = tree_walk tic now ids (rx_root r) 0 r"

partial_function (option) rec_walk :: "'r radix \<Rightarrow> nat \<Rightarrow> int \<Rightarrow> (nat \<times> int) option" where
  "rec_walk r cur cap =
     (case rn_parent (rx_nodes r cur) of
        None \<Rightarrow> Some (cur, cap)
      | Some p \<Rightarrow> if rn_rec (rx_nodes r cur) \<noteq> None then Some (cur, cap)
                  else rec_walk r p (cap - int (length (rn_key (rx_nodes r cur)))))"

definition match_prefix :: "int \<Rightarrow> int \<Rightarrow> int list \<Rightarrow> 'r radix \<Rightarrow> ('r handle \<times> 'r radix) run" where
  "match_prefix tic now ids r =
     bindX (walk tic now ids r) (\<lambda>(node, plen, r1).
       let r2 = r1\<lparr>rx_last_kv := plen\<rparr>
       in if \<not> rx_recurrent r2 then Some (Inr ((plen, node, None), r2))
          else case rec_walk r2 node (int plen) of
            None \<Rightarrow> None
          | Some (cur, cap) \<Rightarrow>
              if is_root r2 cur then Some (Inr ((0, rx_root r2, None), r2))
              else Some (Inr ((nat cap, cur, rn_rec (rx_nodes r2 cur)), r2)))"

definition insert_prefix ::
    "int \<Rightarrow> int \<Rightarrow> int list \<Rightarrow> int list \<Rightarrow> 'r radix \<Rightarrow> (nat \<times> 'r handle \<times> 'r radix) run" where
  "insert_prefix tic now input_ids input_indices r =
     (let insert_len = align_len (rx_page r) (length input_ids);
          ids = take insert_len input_ids; indices = take insert_len input_indices
      in bindX (walk tic now ids r) (\<lambda>(node, plen, r1).
           if plen \<noteq> insert_len
           then if length (drop plen ids) \<noteq> length (drop plen indices) then Some (Inl AssertionError)
                else (let (n, r2) = new_node now r1;
                     r3 = set_key_value n (drop plen ids) (drop plen indices) r2;
                     r4 = set_parent n node r3;
                     r5 = r4\<lparr>rx_evictable := rx_evictable r4 + int (length (rn_key (rx_nodes r4 n)))\<rparr>
                 in Some (Inr (plen, (insert_len, n, None), push_leaf n r5)))
           else Some (Inr (plen, (insert_len, node, None), r1))))"

subsection \<open>Recurrent-state snapshots\<close>

definition enforce_rec_cap :: "'r radix \<Rightarrow> 'r radix" where
  "enforce_rec_cap r =
     (let keep = filter (\<lambda>i. rn_rec (rx_nodes r i) \<noteq> None) (rx_rec_nodes r);
          excess = length keep - rx_max_rec r
      in r\<lparr>rx_rec_nodes := drop excess keep,
           rx_nodes := (\<lambda>i. if i \<in> set (take excess keep) then (rx_nodes r i)\<lparr>rn_rec := None\<rparr>
                            else rx_nodes r i)\<rparr>)"

definition put_rec :: "nat \<Rightarrow> 'r option \<Rightarrow> 'r radix \<Rightarrow> 'r radix" where
  "put_rec i s r =
     (let was_none = (rn_rec (rx_nodes r i) = None);
          r1 = upd_node i (\<lambda>n. n\<lparr>rn_rec := s\<rparr>) r;
          r2 = (if was_none then r1\<lparr>rx_rec_nodes := rx_rec_nodes r1 @ [i]\<rparr> else r1)
      in enforce_rec_cap r2)"

definition attach_rec_state :: "'r handle \<Rightarrow> 'r option \<Rightarrow> 'r radix \<Rightarrow> 'r radix" where
  "attach_rec_state h s r =
     (if \<not> rx_recurrent r then r
      else if is_root r (fst (snd h)) \<or> fst h = 0 then r
      else put_rec (fst (snd h)) s r)"

partial_function (option) chain_walk :: "'r radix \<Rightarrow> nat \<Rightarrow> nat list \<Rightarrow> nat list option" where
  "chain_walk r i acc = (case rn_parent (rx_nodes r i) of
       None \<Rightarrow> Some acc
     | Some p \<Rightarrow> chain_walk r p (i # acc))"

text \<open>The search loop over the root-to-node chain: the node that ends at the boundary, split if needed.\<close>

fun find_boundary :: "int \<Rightarrow> int \<Rightarrow> nat \<Rightarrow> nat list \<Rightarrow> 'r radix \<Rightarrow> py_error + (nat \<times> 'r radix) option" where
  "find_boundary now boundary acc [] r = Inr None"
| "find_boundary now boundary acc (n # ns) r =
     (let len = length (rn_key (rx_nodes r n))
      in if int (acc + len) = boundary then Inr (Some (n, r))
         else if int (acc + len) > boundary
         then bindR (split_at now n (nat boundary - acc) r) (\<lambda>t. Inr (Some t))
         else find_boundary now boundary (acc + len) ns r)"

definition attach_rec_state_at ::
    "int \<Rightarrow> 'r handle \<Rightarrow> int \<Rightarrow> 'r option \<Rightarrow> 'r radix \<Rightarrow> (bool \<times> 'r radix) run" where
  "attach_rec_state_at now h boundary s r =
     (let node = fst (snd h)
      in if \<not> rx_recurrent r then Some (Inr (False, r))
         else if is_root r node then Some (Inr (False, r))
         else if boundary \<le> 0 \<or> boundary \<ge> int (fst h) then Some (Inr (False, r))
         else if boundary mod int (rx_page r) \<noteq> 0 then Some (Inr (False, r))
         else case chain_walk r node [] of
           None \<Rightarrow> None
         | Some chain \<Rightarrow>
             (case find_boundary now boundary 0 chain r of
                Inl e \<Rightarrow> Some (Inl e)
              | Inr None \<Rightarrow> Some (Inr (False, r))
              | Inr (Some (t, r1)) \<Rightarrow> Some (Inr (True, put_rec t s r1))))"

subsection \<open>Eviction\<close>

text \<open>\<open>heapq\<close>: the heap as a list; \<open>heappop\<close> removes one copy of its least entry.\<close>

definition heap_pop :: "(int \<times> nat) list \<Rightarrow> (int \<times> nat) \<times> (int \<times> nat) list" where
  "heap_pop h = (let m = foldr min (tl h) (hd h) in (m, remove1 m h))"

lemma heap_pop_mem: "h \<noteq> [] \<Longrightarrow> fst (heap_pop h) \<in> set h"
proof -
  have "foldr min xs x \<in> insert x (set xs)" for xs and x :: "int \<times> nat"
    by (induction xs) (auto simp: min_def)
  then show "h \<noteq> [] \<Longrightarrow> ?thesis" by (cases h) (auto simp: heap_pop_def Let_def)
qed

lemma heap_pop_length: "h \<noteq> [] \<Longrightarrow> length (snd (heap_pop h)) < length h"
  using heap_pop_mem [of h]
  by (cases h) (auto simp: heap_pop_def Let_def length_remove1 dest: length_pos_if_in_set)

definition stale :: "'r radix \<Rightarrow> int \<times> nat \<Rightarrow> bool" where
  "stale r e \<longleftrightarrow> rn_evicted (rx_nodes r (snd e)) \<or> is_root r (snd e) \<or> \<not> is_leaf r (snd e)
     \<or> rn_ref (rx_nodes r (snd e)) \<noteq> 0 \<or> fst e \<noteq> rn_time (rx_nodes r (snd e))"

function pop_candidate :: "'r radix \<Rightarrow> (int \<times> nat) list \<Rightarrow> nat option \<times> (int \<times> nat) list" where
  "pop_candidate r h =
     (if h = [] then (None, [])
      else if stale r (fst (heap_pop h)) then pop_candidate r (snd (heap_pop h))
      else (Some (snd (fst (heap_pop h))), snd (heap_pop h)))"
  by pat_completeness auto
termination
  by (relation "measure (\<lambda>(r, h). length h)") (auto simp: heap_pop_length)

declare pop_candidate.simps [simp del]

text \<open>The body of one eviction: mark, account, unlink, arm the parent.  The unlinking
  \<open>del parent.children[...]\<close> raises when the parent does not list the node.\<close>

definition listed :: "nat \<Rightarrow> 'r radix \<Rightarrow> bool" where
  "listed i r = (case rn_parent (rx_nodes r i) of None \<Rightarrow> False
     | Some p \<Rightarrow> map_of (rn_children (rx_nodes r p)) (key_fn (rx_page r) (rn_key (rx_nodes r i))) \<noteq> None)"

definition evict_node :: "nat \<Rightarrow> 'r radix \<Rightarrow> 'r radix" where
  "evict_node i r =
     (let s = rx_nodes r i; p = the (rn_parent s);
          r1 = upd_node i (\<lambda>n. n\<lparr>rn_evicted := True, rn_rec := None\<rparr>) r;
          r2 = r1\<lparr>rx_evictable := rx_evictable r1 - int (length (rn_key s))\<rparr>;
          r3 = upd_node p (\<lambda>n. n\<lparr>rn_children :=
                 AList.delete (key_fn (rx_page r2) (rn_key s)) (rn_children n)\<rparr>) r2
      in if is_leaf r3 p \<and> rn_ref (rx_nodes r3 p) = 0 then push_leaf p r3 else r3)"

partial_function (option) evict_loop ::
    "int \<Rightarrow> int \<Rightarrow> int list \<Rightarrow> 'r radix \<Rightarrow> (py_error + (int list \<times> 'r radix)) option" where
  "evict_loop need evicted out r =
     (if \<not> evicted < need then Some (Inr (out, r))
      else (case fst (pop_candidate r (rx_heap r)) of
              None \<Rightarrow> Some (Inl AssertionError)
            | Some i \<Rightarrow>
                if \<not> listed i r then Some (Inl KeyError)
                else evict_loop need (evicted + int (length (rn_key (rx_nodes r i))))
                  (out @ rn_value (rx_nodes r i))
                  (evict_node i (r\<lparr>rx_heap := snd (pop_candidate r (rx_heap r))\<rparr>))))"

definition evict :: "int \<Rightarrow> 'r radix \<Rightarrow> (int list \<times> 'r radix) run" where
  "evict need r =
     (if need = 0 then Some (Inr ([], r))
      else if \<not> need \<le> rx_evictable r then Some (Inl AssertionError)
      else if need < 0 then Some (Inl RuntimeError)
      else evict_loop need 0 [] r)"

definition size_info :: "'r radix \<Rightarrow> int \<times> int" where
  "size_info r = (rx_evictable r, rx_protected r)"

end
