(* ===== verification/Radix_Inv.thy ===== *)
theory Radix_Inv
  imports Radix_Cache
begin

section \<open>The radix cache's invariant\<close>

text \<open>
  \<open>G i\<close> is the sequence of (token, slot) pairs from the root to node \<open>i\<close>; it is a ghost of
  the proof, and a split does not change it for any existing node.  \<open>L\<close> is the multiset of
  nodes whose handles are locked.  \<open>tree_ok\<close>: parents and children agree and every edge
  extends its parent's sequence by whole pages.  \<open>lock_ok\<close>: a node's reference count is the
  number of locked handles at or below it.  \<open>size_ok\<close>: the two size counters are the sums
  they stand for.  \<open>heap_ok\<close>: every evictable leaf has a current entry in the lazy heap.
\<close>

abbreviation nkey :: "'r radix \<Rightarrow> nat \<Rightarrow> int list" where "nkey r i \<equiv> rn_key (rx_nodes r i)"
abbreviation nval :: "'r radix \<Rightarrow> nat \<Rightarrow> int list" where "nval r i \<equiv> rn_value (rx_nodes r i)"
abbreviation nref :: "'r radix \<Rightarrow> nat \<Rightarrow> int" where "nref r i \<equiv> rn_ref (rx_nodes r i)"
abbreviation npar :: "'r radix \<Rightarrow> nat \<Rightarrow> nat option" where "npar r i \<equiv> rn_parent (rx_nodes r i)"
abbreviation nkids :: "'r radix \<Rightarrow> nat \<Rightarrow> int list \<Rightarrow> nat option" where
  "nkids r i \<equiv> map_of (rn_children (rx_nodes r i))"

definition live :: "'r radix \<Rightarrow> nat \<Rightarrow> bool" where
  "live r i \<longleftrightarrow> i < rx_counter r \<and> \<not> rn_evicted (rx_nodes r i)"

definition edge_ok :: "'r radix \<Rightarrow> (nat \<Rightarrow> (int \<times> int) list) \<Rightarrow> nat \<Rightarrow> nat \<Rightarrow> bool" where
  "edge_ok r G i p \<longleftrightarrow> npar r i = Some p \<and> live r p \<and> G i = G p @ zip (nkey r i) (nval r i)
     \<and> nkey r i \<noteq> [] \<and> rx_page r dvd length (nkey r i) \<and> length (nval r i) = length (nkey r i)
     \<and> nkids r p (key_fn (rx_page r) (nkey r i)) = Some i"

definition tree_ok :: "'r radix \<Rightarrow> (nat \<Rightarrow> (int \<times> int) list) \<Rightarrow> bool" where
  "tree_ok r G \<longleftrightarrow> 0 < rx_page r \<and> live r (rx_root r) \<and> npar r (rx_root r) = None \<and> G (rx_root r) = []
     \<and> (\<forall>i. live r i \<longrightarrow> i \<noteq> rx_root r \<longrightarrow> (\<exists>p. edge_ok r G i p))
     \<and> (\<forall>p k c. live r p \<longrightarrow> nkids r p k = Some c \<longrightarrow>
          live r c \<and> c \<noteq> rx_root r \<and> npar r c = Some p \<and> k = key_fn (rx_page r) (nkey r c))"

inductive onpath :: "'r radix \<Rightarrow> nat \<Rightarrow> nat \<Rightarrow> bool" for r where
  self: "onpath r i i"
| up: "npar r l = Some p \<Longrightarrow> onpath r i p \<Longrightarrow> onpath r i l"

definition lock_ok :: "'r radix \<Rightarrow> nat multiset \<Rightarrow> bool" where
  "lock_ok r L \<longleftrightarrow> (\<forall>l \<in># L. live r l)
     \<and> (\<forall>i. live r i \<longrightarrow> i \<noteq> rx_root r \<longrightarrow> nref r i = int (size (filter_mset (onpath r i) L)))"

definition weight :: "'r radix \<Rightarrow> (int \<Rightarrow> bool) \<Rightarrow> nat \<Rightarrow> int" where
  "weight r P i = (if \<not> rn_evicted (rx_nodes r i) \<and> i \<noteq> rx_root r \<and> P (nref r i)
                   then int (length (nkey r i)) else 0)"

definition size_ok :: "'r radix \<Rightarrow> bool" where
  "size_ok r \<longleftrightarrow> rx_evictable r = (\<Sum>i<rx_counter r. weight r (\<lambda>x. x = 0) i)
     \<and> rx_protected r = (\<Sum>i<rx_counter r. weight r (\<lambda>x. x \<noteq> 0) i)"

definition heap_ok :: "'r radix \<Rightarrow> bool" where
  "heap_ok r \<longleftrightarrow> (\<forall>i. live r i \<longrightarrow> i \<noteq> rx_root r \<longrightarrow> is_leaf r i \<longrightarrow> nref r i = 0 \<longrightarrow>
        (rn_time (rx_nodes r i), i) \<in> set (rx_heap r))
     \<and> (\<forall>e \<in> set (rx_heap r). snd e < rx_counter r)"

definition radix_inv :: "'r radix \<Rightarrow> (nat \<Rightarrow> (int \<times> int) list) \<Rightarrow> nat multiset \<Rightarrow> bool" where
  "radix_inv r G L \<longleftrightarrow> tree_ok r G \<and> lock_ok r L \<and> size_ok r \<and> heap_ok r"

subsection \<open>The tree\<close>

lemma tree_okD:
  assumes "tree_ok r G"
  shows "0 < rx_page r" "live r (rx_root r)" "npar r (rx_root r) = None" "G (rx_root r) = []"
    and "live r i \<Longrightarrow> i \<noteq> rx_root r \<Longrightarrow> \<exists>p. edge_ok r G i p"
    and "live r p \<Longrightarrow> nkids r p k = Some c \<Longrightarrow>
          live r c \<and> c \<noteq> rx_root r \<and> npar r c = Some p \<and> k = key_fn (rx_page r) (nkey r c)"
  using assms by (auto simp: tree_ok_def)

lemma edge_of:
  assumes "tree_ok r G" "live r i" "i \<noteq> rx_root r"
  obtains p where "edge_ok r G i p" "npar r i = Some p" "live r p" "length (G p) < length (G i)"
proof -
  from tree_okD(5) [OF assms] obtain p where p: "edge_ok r G i p" ..
  then have "length (G p) < length (G i)" by (simp add: edge_ok_def)
  with p that show thesis by (auto simp: edge_ok_def)
qed

lemma root_iff: "tree_ok r G \<Longrightarrow> live r i \<Longrightarrow> is_root r i \<longleftrightarrow> i = rx_root r"
  by (metis edge_of is_root_def option.distinct(1) tree_okD(3))

lemma live_induct [consumes 2, case_names root node]:
  assumes "tree_ok r G" "live r i"
    and "P (rx_root r)"
    and "\<And>i p. live r i \<Longrightarrow> i \<noteq> rx_root r \<Longrightarrow> edge_ok r G i p \<Longrightarrow> npar r i = Some p \<Longrightarrow> live r p \<Longrightarrow> P p \<Longrightarrow> P i"
  shows "P i"
  using assms(2)
proof (induction "length (G i)" arbitrary: i rule: less_induct)
  case less
  show ?case
  proof (cases "i = rx_root r")
    case True
    with assms(3) show ?thesis by simp
  next
    case False
    with assms(1) less.prems obtain p where "edge_ok r G i p" "npar r i = Some p" "live r p"
      "length (G p) < length (G i)" by (rule edge_of)
    with less assms(4) False show ?thesis by blast
  qed
qed

lemma onpath_root: "tree_ok r G \<Longrightarrow> onpath r i (rx_root r) \<longleftrightarrow> i = rx_root r"
  by (auto simp: tree_okD(3) onpath.simps [of r i "rx_root r"])

lemma onpath_step: "npar r l = Some p \<Longrightarrow> onpath r i l \<longleftrightarrow> i = l \<or> onpath r i p"
  by (auto simp: onpath.simps [of r i l])

lemma onpath_prefix:
  assumes "tree_ok r G" "live r l" "onpath r i l"
  shows "live r i \<and> prefix (G i) (G l)"
  using assms(1,2,3)
proof (induction rule: live_induct)
  case root
  then show ?case using onpath_root [OF assms(1)] tree_okD(2,4) [OF assms(1)] by simp
next
  case (node l p)
  then show ?case using onpath_step [OF node(4)] by (auto simp: edge_ok_def)
qed

lemma onpath_parent_less:
  assumes "tree_ok r G" "live r i" "i \<noteq> rx_root r" "npar r i = Some p"
  shows "\<not> onpath r i p"
proof
  assume "onpath r i p"
  moreover obtain q where "npar r i = Some q" "live r q" "length (G q) < length (G i)"
    using assms(1-3) by (rule edge_of)
  ultimately show False
    using onpath_prefix [OF assms(1), of p i] assms(4) prefix_length_le by fastforce
qed

lemma onpath_root_all: "tree_ok r G \<Longrightarrow> live r l \<Longrightarrow> onpath r (rx_root r) l"
  by (induction rule: live_induct) (auto intro: onpath.intros)

lemma onpath_trans: "onpath r j l \<Longrightarrow> onpath r i j \<Longrightarrow> onpath r i l"
  by (induction rule: onpath.induct) (auto intro: onpath.intros)

text \<open>From an ancestor the path goes down through one of its children.\<close>

lemma onpath_child:
  assumes "tree_ok r G" "live r l" "onpath r a l" "a \<noteq> l"
  shows "\<exists>b. live r b \<and> b \<noteq> rx_root r \<and> npar r b = Some a \<and> onpath r b l"
  using assms(1,2,3,4)
proof (induction rule: live_induct)
  case root
  then show ?case using onpath_root [OF assms(1)] by simp
next
  case (node l p)
  show ?case
  proof (cases "a = p")
    case True
    with node show ?thesis by (auto intro: onpath.self)
  next
    case False
    with node onpath_step [OF node(4), of a] have "onpath r a p" by simp
    with node False show ?thesis by (meson onpath.up)
  qed
qed

subsection \<open>Reading a handle\<close>

definition slots :: "(nat \<Rightarrow> (int \<times> int) list) \<Rightarrow> nat \<Rightarrow> int list" where
  "slots G i = map snd (G i)"

definition tokens :: "(nat \<Rightarrow> (int \<times> int) list) \<Rightarrow> nat \<Rightarrow> int list" where
  "tokens G i = map fst (G i)"

lemma tokens_edge: "edge_ok r G i p \<Longrightarrow> tokens G i = tokens G p @ nkey r i"
  by (simp add: edge_ok_def tokens_def)

lemma slots_edge: "edge_ok r G i p \<Longrightarrow> slots G i = slots G p @ nval r i"
  by (simp add: edge_ok_def slots_def)

lemma length_tokens: "length (tokens G i) = length (G i)" "length (slots G i) = length (G i)"
  by (simp_all add: tokens_def slots_def)

lemma page_dvd_G:
  assumes "tree_ok r G" "live r i"
  shows "rx_page r dvd length (G i)"
  using assms
proof (induction rule: live_induct)
  case root
  then show ?case using tree_okD(4) [OF assms(1)] by simp
next
  case (node i p)
  then show ?case by (simp add: edge_ok_def)
qed

lemma value_walk_spec:
  assumes "tree_ok r G" "live r i"
  shows "\<exists>vs. (\<forall>acc. value_walk r i acc = Some (acc @ vs)) \<and> concat (rev vs) = slots G i
     \<and> (vs = [] \<longleftrightarrow> i = rx_root r)"
  using assms
proof (induction rule: live_induct)
  case root
  have "value_walk r (rx_root r) acc = Some acc" for acc
    using tree_okD(3) [OF assms(1)] by (simp add: value_walk.simps)
  then show ?case using tree_okD(4) [OF assms(1)] by (intro exI [of _ "[]"]) (simp add: slots_def)
next
  case (node i p)
  then obtain vs where "\<And>acc. value_walk r p acc = Some (acc @ vs)" "concat (rev vs) = slots G p" by blast
  with node show ?case
    by (intro exI [of _ "nval r i # vs"]) (simp add: value_walk.simps [of r i] slots_edge)
qed

lemma get_matched_indices_spec:
  assumes "tree_ok r G" "live r i" "i \<noteq> rx_root r"
  shows "get_matched_indices r (n, i, s) = Some (Inr (slots G i))"
  using value_walk_spec [OF assms(1,2)] assms(3) by (auto simp: get_matched_indices_def)

subsection \<open>Operations that leave the shape of the tree alone\<close>

definition same_tree :: "'r radix \<Rightarrow> 'r radix \<Rightarrow> bool" where
  "same_tree r r' \<longleftrightarrow> rx_page r' = rx_page r \<and> rx_counter r' = rx_counter r \<and> rx_root r' = rx_root r
     \<and> (\<forall>i. rn_key (rx_nodes r' i) = rn_key (rx_nodes r i) \<and> rn_value (rx_nodes r' i) = rn_value (rx_nodes r i)
          \<and> rn_children (rx_nodes r' i) = rn_children (rx_nodes r i)
          \<and> rn_parent (rx_nodes r' i) = rn_parent (rx_nodes r i)
          \<and> rn_evicted (rx_nodes r' i) = rn_evicted (rx_nodes r i))"

lemma same_treeD:
  assumes "same_tree r r'"
  shows "rx_page r' = rx_page r" "rx_counter r' = rx_counter r" "rx_root r' = rx_root r"
    "rn_key (rx_nodes r' i) = rn_key (rx_nodes r i)" "rn_value (rx_nodes r' i) = rn_value (rx_nodes r i)"
    "rn_children (rx_nodes r' i) = rn_children (rx_nodes r i)"
    "rn_parent (rx_nodes r' i) = rn_parent (rx_nodes r i)"
    "rn_evicted (rx_nodes r' i) = rn_evicted (rx_nodes r i)"
  using assms by (auto simp: same_tree_def)

lemma same_tree_refl [simp]: "same_tree r r"
  by (simp add: same_tree_def)

lemma same_tree_trans: "same_tree a b \<Longrightarrow> same_tree b c \<Longrightarrow> same_tree a c"
  by (simp add: same_tree_def)

lemma same_tree_live: "same_tree r r' \<Longrightarrow> live r' i = live r i"
  by (simp add: live_def same_treeD)

lemma same_tree_leaf: "same_tree r r' \<Longrightarrow> is_leaf r' i = is_leaf r i"
  by (simp add: is_leaf_def same_treeD)

lemma same_tree_root: "same_tree r r' \<Longrightarrow> is_root r' i = is_root r i"
  by (simp add: is_root_def same_treeD)

lemma same_tree_ok:
  assumes "same_tree r r'"
  shows "tree_ok r' G = tree_ok r G"
  unfolding tree_ok_def edge_ok_def same_treeD [OF assms] same_tree_live [OF assms] ..

lemma onpath_cong:
  assumes "\<And>i. npar r' i = npar r i"
  shows "onpath r' = onpath r"
proof (intro ext iffI)
  show "onpath r i l" if "onpath r' i l" for i l
    using that by (induction rule: onpath.induct) (auto simp: assms intro: onpath.intros)
  show "onpath r' i l" if "onpath r i l" for i l
    using that by (induction rule: onpath.induct) (auto simp: assms intro: onpath.intros)
qed

lemma same_tree_onpath: "same_tree r r' \<Longrightarrow> onpath r' = onpath r"
  by (rule onpath_cong) (rule same_treeD)

subsection \<open>Locking and unlocking\<close>

lemma sum_lt_upd:
  fixes f g :: "nat \<Rightarrow> int"
  assumes "i < n" "\<And>j. j \<noteq> i \<Longrightarrow> f j = g j"
  shows "sum f {..<n} = sum g {..<n} - g i + f i"
proof -
  have "sum f {..<n} = f i + sum f ({..<n} - {i})" "sum g {..<n} = g i + sum g ({..<n} - {i})"
    using assms(1) by (simp_all add: sum.remove)
  moreover have "sum f ({..<n} - {i}) = sum g ({..<n} - {i})"
    by (rule sum.cong) (use assms(2) in auto)
  ultimately show ?thesis by simp
qed

definition lock1 :: "'r radix \<Rightarrow> nat \<Rightarrow> 'r radix" where
  "lock1 r i = upd_node i (\<lambda>n. n\<lparr>rn_ref := nref r i + 1\<rparr>)
     (if nref r i = 0
      then r\<lparr>rx_evictable := rx_evictable r - int (length (nkey r i)),
             rx_protected := rx_protected r + int (length (nkey r i))\<rparr>
      else r)"

definition unlock1 :: "'r radix \<Rightarrow> nat \<Rightarrow> 'r radix" where
  "unlock1 r i =
     (let r1 = upd_node i (\<lambda>n. n\<lparr>rn_ref := nref r i - 1\<rparr>) r
      in if nref r i - 1 = 0
         then (let r3 = r1\<lparr>rx_evictable := rx_evictable r1 + int (length (nkey r i)),
                           rx_protected := rx_protected r1 - int (length (nkey r i))\<rparr>
               in if is_leaf r3 i then push_leaf i r3 else r3)
         else r1)"

lemma lock_walk_lock:
  "lock_walk False r i =
     (case npar r i of None \<Rightarrow> Some (Inr r) | Some p \<Rightarrow> lock_walk False (lock1 r i) p)"
  by (subst lock_walk.simps) (simp add: lock1_def Let_def split: option.split)

lemma lock_walk_unlock:
  "lock_walk True r i =
     (case npar r i of
        None \<Rightarrow> Some (Inr r)
      | Some p \<Rightarrow> if nref r i - 1 < 0 then Some (Inl AssertionError) else lock_walk True (unlock1 r i) p)"
  by (subst lock_walk.simps) (simp add: unlock1_def Let_def split: option.split)

lemma lock1_same [simp]: "same_tree r (lock1 r i)" "same_tree r (unlock1 r i)"
  by (auto simp: same_tree_def lock1_def unlock1_def upd_node_def Let_def push_leaf_def)

lemma lock1_ref:
  "nref (lock1 r i) j = nref r j + (if j = i then 1 else 0)"
  "nref (unlock1 r i) j = nref r j - (if j = i then 1 else 0)"
  by (auto simp: lock1_def unlock1_def upd_node_def Let_def push_leaf_def)

lemma weight_cong:
  assumes "same_tree r r'" "nref r' j = nref r j"
  shows "weight r' P j = weight r P j"
  by (simp add: weight_def same_treeD [OF assms(1)] assms(2))

lemma size_ok_step:
  assumes "same_tree r r'" "size_ok r" "i < rx_counter r"
    and "\<And>j. j \<noteq> i \<Longrightarrow> nref r' j = nref r j"
    and "rx_evictable r' = rx_evictable r - weight r (\<lambda>x. x = 0) i + weight r' (\<lambda>x. x = 0) i"
    and "rx_protected r' = rx_protected r - weight r (\<lambda>x. x \<noteq> 0) i + weight r' (\<lambda>x. x \<noteq> 0) i"
  shows "size_ok r'"
proof -
  have "sum (weight r' P) {..<rx_counter r} = sum (weight r P) {..<rx_counter r} - weight r P i + weight r' P i" for P
    by (rule sum_lt_upd [OF assms(3)]) (rule weight_cong [OF assms(1,4)])
  with assms(2,5,6) show ?thesis unfolding size_ok_def same_treeD(2) [OF assms(1)] by simp
qed

lemma lock1_size:
  assumes "size_ok r" "live r i" "i \<noteq> rx_root r" "0 \<le> nref r i"
  shows "size_ok (lock1 r i)"
proof (rule size_ok_step [OF lock1_same(1) assms(1)])
  show "i < rx_counter r" "j \<noteq> i \<Longrightarrow> nref (lock1 r i) j = nref r j" for j
    using assms(2) by (simp_all add: live_def lock1_ref)
  have w: "weight (lock1 r i) P i = (if P (nref r i + 1) then int (length (nkey r i)) else 0)"
    "weight r P i = (if P (nref r i) then int (length (nkey r i)) else 0)" for P
    using assms(2,3) by (auto simp: weight_def live_def lock1_def upd_node_def)
  show "rx_evictable (lock1 r i) = rx_evictable r - weight r (\<lambda>x. x = 0) i + weight (lock1 r i) (\<lambda>x. x = 0) i"
    "rx_protected (lock1 r i) = rx_protected r - weight r (\<lambda>x. x \<noteq> 0) i + weight (lock1 r i) (\<lambda>x. x \<noteq> 0) i"
    unfolding w using assms(4) by (auto simp: lock1_def upd_node_def)
qed

lemma unlock1_size:
  assumes "size_ok r" "live r i" "i \<noteq> rx_root r" "1 \<le> nref r i"
  shows "size_ok (unlock1 r i)"
proof (rule size_ok_step [OF lock1_same(2) assms(1)])
  show "i < rx_counter r" "j \<noteq> i \<Longrightarrow> nref (unlock1 r i) j = nref r j" for j
    using assms(2) by (simp_all add: live_def lock1_ref)
  have w: "weight (unlock1 r i) P i = (if P (nref r i - 1) then int (length (nkey r i)) else 0)"
    "weight r P i = (if P (nref r i) then int (length (nkey r i)) else 0)" for P
    using assms(2,3) by (auto simp: weight_def live_def unlock1_def upd_node_def Let_def push_leaf_def)
  show "rx_evictable (unlock1 r i) = rx_evictable r - weight r (\<lambda>x. x = 0) i + weight (unlock1 r i) (\<lambda>x. x = 0) i"
    "rx_protected (unlock1 r i) = rx_protected r - weight r (\<lambda>x. x \<noteq> 0) i + weight (unlock1 r i) (\<lambda>x. x \<noteq> 0) i"
    unfolding w using assms(4) by (auto simp: unlock1_def upd_node_def Let_def push_leaf_def)
qed

lemma lock1_heap:
  assumes "heap_ok r" "0 \<le> nref r i"
  shows "heap_ok (lock1 r i)"
  using assms unfolding heap_ok_def same_tree_live [OF lock1_same(1)] same_tree_leaf [OF lock1_same(1)]
    same_treeD(2,3) [OF lock1_same(1)] lock1_ref
  by (auto simp: lock1_def upd_node_def)

lemma unlock1_heap:
  assumes "heap_ok r" "tree_ok r G" "live r i" "i \<noteq> rx_root r"
  shows "heap_ok (unlock1 r i)"
proof -
  have i: "i < rx_counter r" "npar r i \<noteq> None"
    using assms(2-4) by (auto simp: live_def elim: edge_of)
  have t: "rn_time (rx_nodes (unlock1 r i) j) = rn_time (rx_nodes r j)" for j
    by (simp add: unlock1_def upd_node_def Let_def push_leaf_def)
  have h: "set (rx_heap (unlock1 r i)) =
      (if nref r i - 1 = 0 \<and> is_leaf r i then {(rn_time (rx_nodes r i), i)} else {}) \<union> set (rx_heap r)"
    using i(2) by (auto simp: unlock1_def upd_node_def Let_def push_leaf_def is_root_def is_leaf_def)
  show ?thesis
    using assms(1) i(1) unfolding heap_ok_def same_tree_live [OF lock1_same(2)] same_tree_leaf [OF lock1_same(2)]
      same_treeD(2,3) [OF lock1_same(2)] lock1_ref t h by auto
qed

lemma lock_walk_lock_spec:
  assumes "tree_ok r G" "live r i" "size_ok r" "heap_ok r"
    and "\<forall>j. live r j \<longrightarrow> j \<noteq> rx_root r \<longrightarrow> 0 \<le> nref r j"
  shows "\<exists>r'. lock_walk False r i = Some (Inr r') \<and> same_tree r r' \<and> size_ok r' \<and> heap_ok r'
     \<and> (\<forall>j. nref r' j = nref r j + (if onpath r j i \<and> j \<noteq> rx_root r then 1 else 0))"
  using assms
proof (induction "length (G i)" arbitrary: i r rule: less_induct)
  case less
  show ?case
  proof (cases "i = rx_root r")
    case True
    with less.prems show ?thesis
      using onpath_root [OF less.prems(1)] tree_okD(3) [OF less.prems(1)]
      by (intro exI [of _ r]) (simp add: lock_walk_lock)
  next
    case False
    from less.prems(1,2) False obtain p where p: "edge_ok r G i p" "npar r i = Some p" "live r p"
      "length (G p) < length (G i)" by (rule edge_of)
    let ?r = "lock1 r i"
    note st = lock1_same(1) [of r i]
    have "\<exists>r'. lock_walk False ?r p = Some (Inr r') \<and> same_tree ?r r' \<and> size_ok r' \<and> heap_ok r'
     \<and> (\<forall>j. nref r' j = nref ?r j + (if onpath ?r j p \<and> j \<noteq> rx_root ?r then 1 else 0))"
    proof (rule less.hyps [OF p(4)])
      show "tree_ok ?r G" using less.prems(1) by (simp add: same_tree_ok [OF st])
      show "live ?r p" using p(3) by (simp add: same_tree_live [OF st])
      show "size_ok ?r" using less.prems(2,3,5) False by (intro lock1_size) auto
      show "heap_ok ?r" using less.prems(2,4,5) False by (intro lock1_heap) auto
      show "\<forall>j. live ?r j \<longrightarrow> j \<noteq> rx_root ?r \<longrightarrow> 0 \<le> nref ?r j"
        using less.prems(5) by (auto simp: same_tree_live [OF st] same_treeD(3) [OF st] lock1_ref)
    qed
    then obtain r' where r': "lock_walk False ?r p = Some (Inr r')" "same_tree ?r r'" "size_ok r'" "heap_ok r'"
      "\<And>j. nref r' j = nref ?r j + (if onpath r j p \<and> j \<noteq> rx_root r then 1 else 0)"
      by (auto simp: same_tree_onpath [OF st] same_treeD(3) [OF st])
    have "nref r' j = nref r j + (if onpath r j i \<and> j \<noteq> rx_root r then 1 else 0)" for j
      using r'(5) onpath_parent_less [OF less.prems(1,2) False p(2)] onpath_step [OF p(2)] False
      by (auto simp: lock1_ref)
    moreover have "same_tree r r'" using st r'(2) by (rule same_tree_trans)
    moreover have "lock_walk False r i = Some (Inr r')" using r'(1) p(2) by (subst lock_walk_lock) simp
    ultimately show ?thesis using r'(3,4) by blast
  qed
qed

lemma lock_walk_unlock_spec:
  assumes "tree_ok r G" "live r i" "size_ok r" "heap_ok r"
    and "\<forall>j. onpath r j i \<longrightarrow> j \<noteq> rx_root r \<longrightarrow> 1 \<le> nref r j"
  shows "\<exists>r'. lock_walk True r i = Some (Inr r') \<and> same_tree r r' \<and> size_ok r' \<and> heap_ok r'
     \<and> (\<forall>j. nref r' j = nref r j - (if onpath r j i \<and> j \<noteq> rx_root r then 1 else 0))"
  using assms
proof (induction "length (G i)" arbitrary: i r rule: less_induct)
  case less
  show ?case
  proof (cases "i = rx_root r")
    case True
    with less.prems show ?thesis
      using onpath_root [OF less.prems(1)] tree_okD(3) [OF less.prems(1)]
      by (intro exI [of _ r]) (simp add: lock_walk_unlock)
  next
    case False
    from less.prems(1,2) False obtain p where p: "edge_ok r G i p" "npar r i = Some p" "live r p"
      "length (G p) < length (G i)" by (rule edge_of)
    let ?r = "unlock1 r i"
    note st = lock1_same(2) [of r i]
    note ni = onpath_parent_less [OF less.prems(1,2) False p(2)]
    have one: "1 \<le> nref r i" using less.prems(5) False by (blast intro: onpath.self)
    have "\<exists>r'. lock_walk True ?r p = Some (Inr r') \<and> same_tree ?r r' \<and> size_ok r' \<and> heap_ok r'
     \<and> (\<forall>j. nref r' j = nref ?r j - (if onpath ?r j p \<and> j \<noteq> rx_root ?r then 1 else 0))"
    proof (rule less.hyps [OF p(4)])
      show "tree_ok ?r G" using less.prems(1) by (simp add: same_tree_ok [OF st])
      show "live ?r p" using p(3) by (simp add: same_tree_live [OF st])
      show "size_ok ?r" using less.prems(2,3) False one by (intro unlock1_size) auto
      show "heap_ok ?r" using less.prems(1,2,4) False by (intro unlock1_heap)
      show "\<forall>j. onpath ?r j p \<longrightarrow> j \<noteq> rx_root ?r \<longrightarrow> 1 \<le> nref ?r j"
        using less.prems(5) ni onpath_step [OF p(2)]
        by (auto simp: same_tree_onpath [OF st] same_treeD(3) [OF st] lock1_ref)
    qed
    then obtain r' where r': "lock_walk True ?r p = Some (Inr r')" "same_tree ?r r'" "size_ok r'" "heap_ok r'"
      "\<And>j. nref r' j = nref ?r j - (if onpath r j p \<and> j \<noteq> rx_root r then 1 else 0)"
      by (auto simp: same_tree_onpath [OF st] same_treeD(3) [OF st])
    have "nref r' j = nref r j - (if onpath r j i \<and> j \<noteq> rx_root r then 1 else 0)" for j
      using r'(5) ni onpath_step [OF p(2)] False by (auto simp: lock1_ref)
    moreover have "same_tree r r'" using st r'(2) by (rule same_tree_trans)
    moreover have "lock_walk True r i = Some (Inr r')" using r'(1) p(2) one by (subst lock_walk_unlock) simp
    ultimately show ?thesis using r'(3,4) by blast
  qed
qed

lemma lock_okD:
  assumes "lock_ok r L"
  shows "l \<in># L \<Longrightarrow> live r l"
    and "live r i \<Longrightarrow> i \<noteq> rx_root r \<Longrightarrow> nref r i = int (size (filter_mset (onpath r i) L))"
  using assms by (auto simp: lock_ok_def)

lemma lock_handle_inv:
  assumes "radix_inv r G L" "live r i"
  shows "\<exists>r'. lock_handle (n, i, s) False r = Some (Inr r') \<and> radix_inv r' G (add_mset i L) \<and> same_tree r r'"
proof -
  have inv: "tree_ok r G" "lock_ok r L" "size_ok r" "heap_ok r" using assms(1) by (auto simp: radix_inv_def)
  have "\<forall>j. live r j \<longrightarrow> j \<noteq> rx_root r \<longrightarrow> 0 \<le> nref r j" using lock_okD(2) [OF inv(2)] by auto
  from lock_walk_lock_spec [OF inv(1) assms(2) inv(3,4) this] obtain r' where
    r': "lock_walk False r i = Some (Inr r')" "same_tree r r'" "size_ok r'" "heap_ok r'"
    "\<And>j. nref r' j = nref r j + (if onpath r j i \<and> j \<noteq> rx_root r then 1 else 0)" by blast
  have "lock_ok r' (add_mset i L)"
    using lock_okD [OF inv(2)] assms(2) r'(5)
    by (auto simp: lock_ok_def same_tree_live [OF r'(2)] same_treeD(3) [OF r'(2)] same_tree_onpath [OF r'(2)])
  with r' inv(1) show ?thesis by (auto simp: lock_handle_def radix_inv_def same_tree_ok)
qed

lemma unlock_handle_inv:
  assumes "radix_inv r G L" "i \<in># L"
  shows "\<exists>r'. lock_handle (n, i, s) True r = Some (Inr r') \<and> radix_inv r' G (L - {#i#}) \<and> same_tree r r'"
proof -
  have inv: "tree_ok r G" "lock_ok r L" "size_ok r" "heap_ok r" using assms(1) by (auto simp: radix_inv_def)
  from assms(2) obtain M where M: "L = add_mset i M" by (metis mset_add)
  have li: "live r i" using lock_okD(1) [OF inv(2) assms(2)] .
  have ref: "nref r j = int (size (filter_mset (onpath r j) M)) + (if onpath r j i then 1 else 0)"
    if "live r j" "j \<noteq> rx_root r" for j
    using lock_okD(2) [OF inv(2) that] M by simp
  have "\<forall>j. onpath r j i \<longrightarrow> j \<noteq> rx_root r \<longrightarrow> 1 \<le> nref r j"
    using ref onpath_prefix [OF inv(1) li] by auto
  from lock_walk_unlock_spec [OF inv(1) li inv(3,4) this] obtain r' where
    r': "lock_walk True r i = Some (Inr r')" "same_tree r r'" "size_ok r'" "heap_ok r'"
    "\<And>j. nref r' j = nref r j - (if onpath r j i \<and> j \<noteq> rx_root r then 1 else 0)" by blast
  have "lock_ok r' M"
    using lock_okD(1) [OF inv(2)] ref r'(5) M
    by (auto simp: lock_ok_def same_tree_live [OF r'(2)] same_treeD(3) [OF r'(2)] same_tree_onpath [OF r'(2)])
  with r' inv(1) M show ?thesis by (auto simp: lock_handle_def radix_inv_def same_tree_ok)
qed

end
