(* ===== verification/Radix_Walk.thy ===== *)
theory Radix_Walk
  imports Radix_Inv
begin

section \<open>Splitting, walking and inserting in the radix cache\<close>

text \<open>
  A split changes no existing node's sequence and no accounting; the walk finds the longest
  page-aligned prefix any live node shares with the input; an insertion adds one leaf.
\<close>

subsection \<open>Lengths and pages\<close>

lemma align_len_props:
  assumes "0 < page"
  shows "page dvd align_len page n" "align_len page n \<le> n" "n < align_len page n + page"
    and "page dvd m \<Longrightarrow> m \<le> n \<Longrightarrow> m \<le> align_len page n"
proof -
  have e: "align_len page n = n div page * page"
    unfolding align_len_def align_down_def by (metis nat_int of_nat_mult zdiv_int)
  show "page dvd align_len page n" "align_len page n \<le> n" by (simp_all add: e)
  show "n < align_len page n + page" 
    unfolding e by (metis assms div_mult_mod_eq mod_less_divisor nat_add_left_cancel_less)
  show "page dvd m \<Longrightarrow> m \<le> n \<Longrightarrow> m \<le> align_len page n"
    by (metis e div_le_mono dvd_div_mult_self mult_le_mono1)
qed

lemma compare_key_le: "compare_key xs ys \<le> length xs" "compare_key xs ys \<le> length ys"
  by (induction xs ys rule: compare_key.induct) auto

lemma compare_key_take: "take (compare_key xs ys) xs = take (compare_key xs ys) ys"
  by (induction xs ys rule: compare_key.induct) auto

lemma compare_key_greatest:
  "take m xs = take m ys \<Longrightarrow> m \<le> length xs \<Longrightarrow> m \<le> length ys \<Longrightarrow> m \<le> compare_key xs ys"
proof (induction xs ys arbitrary: m rule: compare_key.induct)
  case (1 x xs y ys)
  then show ?case by (cases m) auto
qed auto

subsection \<open>The split\<close>

text \<open>The state \<open>split_at\<close> leaves, as one update of the store.\<close>

definition split_state :: "int \<Rightarrow> nat \<Rightarrow> nat \<Rightarrow> nat \<Rightarrow> 'r radix \<Rightarrow> 'r radix" where
  "split_state now i p pos r = r\<lparr>rx_counter := Suc (rx_counter r), rx_nodes := (\<lambda>j.
     if j = rx_counter r then
       \<lparr>rn_key = take pos (nkey r i), rn_value = take pos (nval r i), rn_ref = nref r i,
        rn_time = (if rn_time (rx_nodes r i) \<noteq> 0 then rn_time (rx_nodes r i) else now),
        rn_children = [(key_fn (rx_page r) (drop pos (nkey r i)), i)], rn_parent = Some p,
        rn_evicted = False, rn_rec = None\<rparr>
     else if j = i then (rx_nodes r i)\<lparr>rn_key := drop pos (nkey r i), rn_value := drop pos (nval r i),
        rn_parent := Some (rx_counter r)\<rparr>
     else if j = p then (rx_nodes r p)\<lparr>rn_children :=
        AList.update (key_fn (rx_page r) (take pos (nkey r i))) (rx_counter r) (rn_children (rx_nodes r p))\<rparr>
     else rx_nodes r j)\<rparr>"

lemma split_at_eq:
  assumes "npar r i = Some p" "0 < pos" "pos < length (nkey r i)"
    and "i \<noteq> p" "p \<noteq> rx_counter r" "i \<noteq> rx_counter r" "length (nval r i) = length (nkey r i)"
  shows "split_at now i pos r = Inr (rx_counter r, split_state now i p pos r)"
proof -
  have "split_at now i pos r = Inr (rx_counter r, snd (projr (split_at now i pos r)))"
    using assms by (simp add: split_at_def new_node_def Let_def)
  moreover have "snd (projr (split_at now i pos r)) = split_state now i p pos r"
    using assms
    by (simp add: split_at_def new_node_def Let_def split_state_def set_key_value_def set_parent_def
        upd_node_def fresh_node_def fun_eq_iff)
  ultimately show ?thesis by simp
qed

lemma split_at_inv:
  assumes "radix_inv r G L" "live r i" "i \<noteq> rx_root r" "0 < pos" "pos < length (nkey r i)"
    and "rx_page r dvd pos"
  shows "\<exists>r' p G'. split_at now i pos r = Inr (rx_counter r, r') \<and> radix_inv r' G' L
     \<and> npar r i = Some p \<and> (\<forall>j. j \<noteq> rx_counter r \<longrightarrow> G' j = G j)
     \<and> G' (rx_counter r) = take (length (G p) + pos) (G i)
     \<and> (\<forall>j. live r' j \<longleftrightarrow> live r j \<or> j = rx_counter r)
     \<and> rx_page r' = rx_page r \<and> rx_root r' = rx_root r \<and> rx_counter r' = Suc (rx_counter r)
     \<and> rx_recurrent r' = rx_recurrent r \<and> rx_evictable r' = rx_evictable r \<and> rx_protected r' = rx_protected r
     \<and> \<not> is_leaf r' (rx_counter r) \<and> npar r' (rx_counter r) = Some p
     \<and> (\<forall>j. j \<noteq> rx_counter r \<longrightarrow> rn_rec (rx_nodes r' j) = rn_rec (rx_nodes r j))
     \<and> rn_rec (rx_nodes r' (rx_counter r)) = None
     \<and> rx_rec_nodes r' = rx_rec_nodes r \<and> rx_max_rec r' = rx_max_rec r"
proof -
  have inv: "tree_ok r G" "lock_ok r L" "size_ok r" "heap_ok r" using assms(1) by (auto simp: radix_inv_def)
  note T = tree_okD [OF inv(1)]
  from T(5) [OF assms(2,3)] obtain p where p: "edge_ok r G i p" ..
  let ?n = "rx_counter r"
  have d: "i \<noteq> p" "p \<noteq> ?n" "i \<noteq> ?n"
    using assms(2) p by (auto simp: live_def edge_ok_def)
  define r' where "r' = split_state now i p pos r"
  have sp: "split_at now i pos r = Inr (?n, r')"
    unfolding r'_def using p d assms(4,5) by (intro split_at_eq) (auto simp: edge_ok_def)
  have f: "rx_counter r' = Suc ?n" "rx_page r' = rx_page r" "rx_root r' = rx_root r"
      "rx_evictable r' = rx_evictable r" "rx_protected r' = rx_protected r" "rx_heap r' = rx_heap r"
      "rx_recurrent r' = rx_recurrent r" "rx_rec_nodes r' = rx_rec_nodes r" "rx_max_rec r' = rx_max_rec r"
    by (simp_all add: r'_def split_state_def)
  note ns = r'_def split_state_def
  define G' where "G' = G(?n := take (length (G p) + pos) (G i))"
  have P: "npar r i = Some p" "live r p" "G i = G p @ zip (nkey r i) (nval r i)"
    "rx_page r dvd length (nkey r i)" "length (nval r i) = length (nkey r i)"
    "nkids r p (key_fn (rx_page r) (nkey r i)) = Some i"
    using p by (auto simp: edge_ok_def)
  have page: "rx_page r \<le> pos" using assms(4,6) by (auto dest: dvd_imp_le)
  have kt: "key_fn (rx_page r) (take pos (nkey r i)) = key_fn (rx_page r) (nkey r i)"
    using page by (simp add: key_fn_def min_def)
  have live: "live r' j \<longleftrightarrow> live r j \<or> j = ?n" for j
    using d by (auto simp: live_def ns less_Suc_eq)
  have root: "rx_root r \<noteq> ?n" "rx_root r \<noteq> i" using T(2) assms(3) by (auto simp: live_def)
  have par: "npar r' j = (if j = i then Some ?n else if j = ?n then Some p else npar r j)" for j
    using d by (simp add: ns)
  have ref: "nref r' j = (if j = ?n then nref r i else nref r j)" for j
    using d by (simp add: ns)
  have key: "nkey r' j = (if j = ?n then take pos (nkey r i) else if j = i then drop pos (nkey r i) else nkey r j)" for j
    using d by (simp add: ns)
  have val: "nval r' j = (if j = ?n then take pos (nval r i) else if j = i then drop pos (nval r i) else nval r j)" for j
    using d by (simp add: ns)
  have rec: "rn_rec (rx_nodes r' j) = (if j = ?n then None else rn_rec (rx_nodes r j))" for j
    using d by (simp add: ns)
  have tim: "j \<noteq> ?n \<Longrightarrow> rn_time (rx_nodes r' j) = rn_time (rx_nodes r j)" for j
    using d by (simp add: ns)
  have evi: "rn_evicted (rx_nodes r' j) = (if j = ?n then False else rn_evicted (rx_nodes r j))" for j
    using d by (simp add: ns)
  have kids: "nkids r' j = (if j = ?n then [key_fn (rx_page r) (drop pos (nkey r i)) \<mapsto> i]
      else if j = p then (nkids r p)(key_fn (rx_page r) (nkey r i) \<mapsto> ?n) else nkids r j)" for j
    using d by (auto simp: ns update_conv' kt)
  have nchild: "nkids r q k \<noteq> Some ?n" if "live r q" for q k
    using T(6) [OF that, of k ?n] by (auto simp: live_def)
  have upd_ne: "AList.update a b xs \<noteq> []" for a :: "int list" and b :: nat and xs
    by (cases xs) auto
  have leaf: "is_leaf r' j \<longleftrightarrow> j \<noteq> ?n \<and> j \<noteq> p \<and> is_leaf r j" for j
    using d upd_ne by (simp add: ns is_leaf_def)
  have Gn: "G' ?n = G p @ zip (take pos (nkey r i)) (take pos (nval r i))"
    by (simp add: G'_def P(3) take_zip)
  have Gi: "G i = G' ?n @ zip (drop pos (nkey r i)) (drop pos (nval r i))"
    unfolding Gn P(3) append.assoc by (metis append_take_drop_id take_zip drop_zip)
  have Go: "G' j = G j" if "j \<noteq> ?n" for j using that by (simp add: G'_def)
  have dd: "rx_page r dvd length (drop pos (nkey r i))" using P(4) assms(6) by (simp add: dvd_diff_nat)
  have tree: "tree_ok r' G'"
    unfolding tree_ok_def
  proof (intro conjI allI impI)
    show "0 < rx_page r'" "live r' (rx_root r')" "npar r' (rx_root r') = None" "G' (rx_root r') = []"
      using T(1-4) f(2,3) live par root by (auto simp: G'_def)
    show "\<exists>q. edge_ok r' G' j q" if "live r' j" "j \<noteq> rx_root r'" for j
    proof -
      consider (n) "j = ?n" | (i) "j = i" | (o) "j \<noteq> ?n" "j \<noteq> i" by blast
      then show ?thesis
      proof cases
        case n
        have "edge_ok r' G' ?n p"
          unfolding edge_ok_def par key val kids live f(2)
          using P(2,5) d assms(4,5,6) kt Gn Go [of p] by auto
        with n show ?thesis by blast
      next
        case i
        have "edge_ok r' G' i ?n"
          unfolding edge_ok_def par key val kids live f(2)
          using P(5) d assms(5) dd Gi Go [of i] by auto
        with i show ?thesis by blast
      next
        case o
        then have "live r j" "j \<noteq> rx_root r" using that live f(3) by auto
        with T(5) obtain q where q: "edge_ok r G j q" by blast
        have "live r q" using q by (simp add: edge_ok_def)
        then have qn: "q \<noteq> ?n" by (auto simp: live_def)
        have "key_fn (rx_page r) (nkey r j) \<noteq> key_fn (rx_page r) (nkey r i)" if "q = p"
          using q P(6) that o by (auto simp: edge_ok_def)
        then have "edge_ok r' G' j q"
          using q o qn unfolding edge_ok_def by (auto simp: live par key val kids f(2) G'_def)
        then show ?thesis by blast
      qed
    qed
    show "live r' c" "c \<noteq> rx_root r'" "npar r' c = Some q" "k = key_fn (rx_page r') (nkey r' c)"
      if "live r' q" "nkids r' q k = Some c" for q k c
    proof -
      have "live r' c \<and> c \<noteq> rx_root r' \<and> npar r' c = Some q \<and> k = key_fn (rx_page r') (nkey r' c)"
      proof (cases "q = ?n")
        case True
        with that show ?thesis using kids assms(2,3) par key d f live by (auto split: if_splits)
      next
        case False
        then have lq: "live r q" using that(1) live by blast
        show ?thesis
        proof (cases "q = p \<and> k = key_fn (rx_page r) (nkey r i)")
          case True
          with that(2) have "c = ?n" using kids d by auto
          with True root show ?thesis using live par key f kt d by auto
        next
          case nf: False
          with that(2) False have c: "nkids r q k = Some c" using kids by (auto split: if_splits)
          note tc = T(6) [OF lq c]
          have "c \<noteq> ?n" using nchild [OF lq] c by blast
          moreover have "c \<noteq> i" using tc nf P(1) by auto
          ultimately show ?thesis using tc live par key f by auto
        qed
      qed
      then show "live r' c" "c \<noteq> rx_root r'" "npar r' c = Some q" "k = key_fn (rx_page r') (nkey r' c)" by auto
    qed
  qed
  have op: "onpath r' j l = (if j = ?n then onpath r i l else onpath r j l)" if "live r l" for l j
    using inv(1) that
  proof (induction rule: live_induct)
    case root
    have "onpath r' j (rx_root r) \<longleftrightarrow> j = rx_root r"
      using onpath_root [OF tree] f(3) by simp
    with onpath_root [OF inv(1)] \<open>rx_root r \<noteq> i\<close> \<open>rx_root r \<noteq> ?n\<close> show ?case by auto
  next
    case (node l q)
    have ln: "l \<noteq> ?n" using node(1) by (auto simp: live_def)
    show ?case
    proof (cases "l = i")
      case True
      then have qp: "q = p" using node(4) P(1) by simp
      have "onpath r' j i \<longleftrightarrow> j = i \<or> j = ?n \<or> onpath r' j p"
        using par d by (simp add: onpath_step [of r' i ?n] onpath_step [of r' ?n p])
      moreover have "\<not> onpath r i p" using onpath_parent_less [OF inv(1) assms(2,3) P(1)] .
      ultimately show ?thesis
        using True node qp onpath_step [OF P(1), of j] by (auto intro: onpath.self)
    next
      case False
      then have "npar r' l = Some q" using par ln node(4) by simp
      from onpath_step [OF this, of j] onpath_step [OF node(4), of j] onpath_step [OF node(4), of i] node(6) False ln
      show ?thesis by auto
    qed
  qed
  have "lock_ok r' L"
    unfolding lock_ok_def
  proof (intro conjI ballI allI impI)
    show "live r' l" if "l \<in># L" for l using that lock_okD(1) [OF inv(2)] live by blast
    show "nref r' j = int (size (filter_mset (onpath r' j) L))" if "live r' j" "j \<noteq> rx_root r'" for j
    proof -
      have "filter_mset (onpath r' j) L = filter_mset (onpath r (if j = ?n then i else j)) L"
        by (rule filter_mset_cong [OF refl]) (use op lock_okD(1) [OF inv(2)] in auto)
      moreover have "live r (if j = ?n then i else j)" "(if j = ?n then i else j) \<noteq> rx_root r"
        using that live f(3) assms(2,3) by auto
      ultimately show ?thesis using lock_okD(2) [OF inv(2)] ref by (metis (full_types))
    qed
  qed
  moreover have "size_ok r'"
  proof -
    have w: "weight r' Q j = weight r Q j" if "j \<noteq> i" "j \<noteq> ?n" for Q j
      using that by (simp add: weight_def evi key ref f(3))
    have A: "sum (weight r' Q) {..<?n} = sum (weight r Q) {..<?n} - weight r Q i + weight r' Q i" for Q
      using sum_lt_upd [of i ?n "\<lambda>j. if j = ?n then weight r Q j else weight r' Q j" "weight r Q"] w assms(2) d(3)
      by (simp add: live_def)
    have B: "weight r' Q ?n + weight r' Q i = weight r Q i" for Q
      using d root f(3) assms(2,3,5) by (auto simp: weight_def evi key ref live_def)
    have "sum (weight r' Q) {..<Suc ?n} = sum (weight r Q) {..<?n}" for Q
      using A [of Q] B [of Q] by simp
    with inv(3) show ?thesis by (simp add: size_ok_def f)
  qed
  moreover have "heap_ok r'"
    using inv(4) unfolding heap_ok_def live f leaf using ref tim by (auto simp: less_Suc_eq)
  ultimately have "radix_inv r' G' L" using tree by (simp add: radix_inv_def)
  moreover have "G' j = G j" if "j \<noteq> ?n" for j using that by (simp add: G'_def)
  moreover have "G' ?n = take (length (G p) + pos) (G i)" by (simp add: G'_def)
  ultimately show ?thesis
    using sp live f leaf P(1) par rec d(3) by (intro exI [of _ r'] exI [of _ p] exI [of _ G']) simp
qed

subsection \<open>The walk\<close>

definition touch :: "int \<Rightarrow> nat \<Rightarrow> 'r radix \<Rightarrow> 'r radix" where
  "touch tic c r = (let r1 = upd_node c (\<lambda>s. s\<lparr>rn_time := tic\<rparr>) r
                    in if is_leaf r1 c then push_leaf c r1 else r1)"

text \<open>What a walk may change: nothing about the nodes that were there, except their timestamps.\<close>

definition ext :: "'r radix \<Rightarrow> (nat \<Rightarrow> (int \<times> int) list) \<Rightarrow> 'r radix \<Rightarrow> (nat \<Rightarrow> (int \<times> int) list) \<Rightarrow> bool" where
  "ext r G r' G' \<longleftrightarrow> rx_page r' = rx_page r \<and> rx_root r' = rx_root r \<and> rx_recurrent r' = rx_recurrent r
     \<and> rx_evictable r' = rx_evictable r \<and> rx_protected r' = rx_protected r
     \<and> rx_rec_nodes r' = rx_rec_nodes r \<and> rx_max_rec r' = rx_max_rec r
     \<and> (\<forall>j. live r j \<longrightarrow> live r' j \<and> G' j = G j \<and> rn_rec (rx_nodes r' j) = rn_rec (rx_nodes r j))"

lemma ext_refl: "ext r G r G"
  by (simp add: ext_def)

lemma ext_trans: "ext a F b G \<Longrightarrow> ext b G c H \<Longrightarrow> ext a F c H"
  by (simp add: ext_def)

lemma touch_same: "same_tree r (touch tic c r)"
  by (auto simp: touch_def Let_def same_tree_def upd_node_def push_leaf_def)

lemma touch_inv:
  assumes "radix_inv r G L" "live r c" "c \<noteq> rx_root r"
  shows "radix_inv (touch tic c r) G L" "ext r G (touch tic c r) G"
proof -
  let ?r = "touch tic c r"
  have inv: "tree_ok r G" "lock_ok r L" "size_ok r" "heap_ok r" using assms(1) by (auto simp: radix_inv_def)
  note st = touch_same [of r tic c]
  have ref: "nref ?r j = nref r j" for j
    by (simp add: touch_def Let_def upd_node_def push_leaf_def)
  have oth: "rx_evictable ?r = rx_evictable r" "rx_protected ?r = rx_protected r"
    "rx_recurrent ?r = rx_recurrent r" "rx_rec_nodes ?r = rx_rec_nodes r" "rx_max_rec ?r = rx_max_rec r"
    "\<And>j. rn_rec (rx_nodes ?r j) = rn_rec (rx_nodes r j)"
    by (simp_all add: touch_def Let_def upd_node_def push_leaf_def)
  have "lock_ok ?r L"
    using inv(2) by (simp add: lock_ok_def same_tree_live [OF st] same_treeD(3) [OF st] same_tree_onpath [OF st] ref)
  moreover have "size_ok ?r"
    using inv(3) weight_cong [OF st ref] by (simp add: size_ok_def oth same_treeD(2) [OF st])
  moreover have "heap_ok ?r"
  proof -
    have np: "npar r c \<noteq> None" "c < rx_counter r"
      using root_iff [OF inv(1) assms(2)] assms(2,3) by (auto simp: is_root_def live_def)
    have t: "rn_time (rx_nodes ?r j) = (if j = c then tic else rn_time (rx_nodes r j))" for j
      by (simp add: touch_def Let_def upd_node_def push_leaf_def)
    have h: "set (rx_heap ?r) = (if is_leaf r c then {(tic, c)} else {}) \<union> set (rx_heap r)"
      using np(1) by (auto simp: touch_def Let_def upd_node_def push_leaf_def is_root_def is_leaf_def)
    show ?thesis
      using inv(4) np(2) unfolding heap_ok_def same_tree_live [OF st] same_tree_leaf [OF st]
        same_treeD(2,3) [OF st] ref t h by auto
  qed
  ultimately show "radix_inv ?r G L" using inv(1) by (simp add: radix_inv_def same_tree_ok [OF st])
  show "ext r G ?r G" by (simp add: ext_def oth same_treeD(1,3) [OF st] same_tree_live [OF st])
qed

text \<open>How much of \<open>ids\<close> a node shares with the input, in whole pages.\<close>

definition shares :: "'r radix \<Rightarrow> (nat \<Rightarrow> (int \<times> int) list) \<Rightarrow> int list \<Rightarrow> nat \<Rightarrow> nat \<Rightarrow> bool" where
  "shares r G ids j m \<longleftrightarrow> live r j \<and> rx_page r dvd m \<and> m \<le> length ids \<and> m \<le> length (G j)
     \<and> take m ids = take m (tokens G j)"

lemma child_on_way:
  assumes "tree_ok r G" "live r a" "tokens G a = take n ids" "n \<le> length ids"
    and "shares r G ids j m" "onpath r a j" "n < m"
  shows "\<exists>b rest. edge_ok r G b a \<and> live r b \<and> b \<noteq> rx_root r \<and> onpath r b j
     \<and> tokens G j = take n ids @ nkey r b @ rest
     \<and> key_fn (rx_page r) (drop n ids) = key_fn (rx_page r) (nkey r b)
     \<and> take (m - n) (drop n ids) = take (m - n) (nkey r b @ rest)"
proof -
  have j: "live r j" "rx_page r dvd m" "m \<le> length ids" "m \<le> length (G j)" "take m ids = take m (tokens G j)"
    using assms(5) by (auto simp: shares_def)
  have ln: "length (G a) = n" using assms(3,4) length_tokens(1) [of G a] by simp
  then have ne: "a \<noteq> j" using assms(7) j(4) by auto
  from onpath_child [OF assms(1) j(1) assms(6) ne] obtain b where
    b: "live r b" "b \<noteq> rx_root r" "npar r b = Some a" "onpath r b j" by blast
  from tree_okD(5) [OF assms(1) b(1,2)] b(3) have e: "edge_ok r G b a" by (auto simp: edge_ok_def)
  from onpath_prefix [OF assms(1) j(1) b(4)] obtain w where "G j = G b @ w" by (auto simp: prefix_def)
  then have "tokens G j = tokens G b @ map fst w" by (simp add: tokens_def)
  then have t: "tokens G j = take n ids @ nkey r b @ map fst w"
    using tokens_edge [OF e] assms(3) by simp
  have dr: "take (m - n) (drop n ids) = take (m - n) (nkey r b @ map fst w)"
  proof -
    have "take (m - n) (drop n ids) = take (m - n) (drop n (tokens G j))"
      using j(5) by (metis drop_take)
    moreover have "drop n (tokens G j) = nkey r b @ map fst w" using t assms(4) by simp
    ultimately show ?thesis by simp
  qed
  have "rx_page r dvd n" using page_dvd_G [OF assms(1,2)] ln by simp
  then have pg: "rx_page r \<le> m - n" "rx_page r \<le> length (nkey r b)"
    using j(2) assms(7) e by (auto simp: edge_ok_def intro!: dvd_imp_le)
  have "take (rx_page r) (drop n ids) = take (rx_page r) (nkey r b)"
    using arg_cong [OF dr, of "take (rx_page r)"] pg by (simp add: min_def)
  with b e t dr show ?thesis by (auto simp: key_fn_def)
qed

lemma tree_walk_spec:
  assumes "radix_inv r G L" "live r a" "tokens G a = take n ids" "n \<le> length ids"
  shows "\<exists>a' n' r' G'. tree_walk tic now ids a n r = Some (Inr (a', n', r')) \<and> radix_inv r' G' L
     \<and> live r' a' \<and> tokens G' a' = take n' ids \<and> n \<le> n' \<and> n' \<le> length ids \<and> ext r G r' G'
     \<and> (\<forall>j. live r' j \<longrightarrow> live r j \<or> j = a')
     \<and> (\<forall>j. live r' j \<longrightarrow> \<not> live r j \<longrightarrow> rn_rec (rx_nodes r' j) = None)
     \<and> (\<forall>j m. shares r G ids j m \<longrightarrow> onpath r a j \<longrightarrow> m \<le> n')
     \<and> (\<exists>j. shares r G ids j n')"
  using assms
proof (induction "length ids - n" arbitrary: a n r rule: less_induct)
  case less
  have inv: "tree_ok r G" using less.prems(1) by (simp add: radix_inv_def)
  note T = tree_okD [OF inv]
  have ln: "length (G a) = n" using less.prems(3,4) length_tokens(1) [of G a] by simp
  have pn: "rx_page r dvd n" using page_dvd_G [OF inv less.prems(2)] ln by simp
  have sh: "shares r G ids a n" using less.prems(2,3,4) ln pn by (simp add: shares_def)
  show ?case
  proof (cases "n < length ids")
    case False
    then have "tree_walk tic now ids a n r = Some (Inr (a, n, r))" by (simp add: tree_walk.simps)
    with less.prems False show ?thesis
      by (intro exI [of _ a] exI [of _ n] exI [of _ r] exI [of _ G]) (use sh in \<open>auto simp: ext_refl shares_def\<close>)
  next
    case n: True
    let ?ids = "drop n ids"
    show ?thesis
    proof (cases "nkids r a (key_fn (rx_page r) ?ids)")
      case None
      then have w: "tree_walk tic now ids a n r = Some (Inr (a, n, r))" using n by (simp add: tree_walk.simps)
      have "m \<le> n" if "shares r G ids j m" "onpath r a j" for j m
      proof (rule ccontr)
        assume "\<not> m \<le> n"
        with child_on_way [OF inv less.prems(2,3,4) that] None show False
          by (auto simp: edge_ok_def)
      qed
      with w less.prems show ?thesis
        by (intro exI [of _ a] exI [of _ n] exI [of _ r] exI [of _ G]) (use sh in \<open>auto simp: ext_refl\<close>)
    next
      case (Some c)
      note c = T(6) [OF less.prems(2) Some]
      from c T(5) [of c] have e: "edge_ok r G c a" by (auto simp: edge_ok_def)
      then have K: "nkey r c \<noteq> []" "rx_page r dvd length (nkey r c)" by (auto simp: edge_ok_def)
      let ?m0 = "compare_key (nkey r c) ?ids"
      define m where "m = align_len (rx_page r) ?m0"
      have pl: "rx_page r \<le> length (nkey r c)" using K by (auto intro!: dvd_imp_le)
      have tp: "take (rx_page r) (nkey r c) = take (rx_page r) ?ids" using c by (simp add: key_fn_def)
      have "min (length (nkey r c)) (rx_page r) = min (length ?ids) (rx_page r)"
        using arg_cong [OF tp, of length] by (simp only: length_take)
      then have "rx_page r \<le> length ?ids" using pl by linarith
      then have "rx_page r \<le> ?m0" using compare_key_greatest [OF tp pl] by simp
      then have pm: "rx_page r \<le> m" unfolding m_def using align_len_props(4) [OF T(1)] by simp
      then have m: "0 < m" "rx_page r dvd m" "m \<le> ?m0" "m \<le> length (nkey r c)" "m \<le> length ?ids"
        using T(1) align_len_props(1,2) [OF T(1)] compare_key_le [of "nkey r c" ?ids]
        by (auto simp: m_def intro: order_trans)
      have tm: "take m (nkey r c) = take m ?ids"
        using compare_key_take [of "nkey r c" ?ids] m(3) by (metis min.absorb1 take_take)
      have tn: "tokens G a @ take m (nkey r c) = take (n + m) ids"
        unfolding less.prems(3) tm by (simp add: take_add)
      have through: "onpath r c j \<and> (\<exists>rest. take (k - n) ?ids = take (k - n) (nkey r c @ rest))"
        if "shares r G ids j k" "onpath r a j" "n < k" for j k
      proof -
        from child_on_way [OF inv less.prems(2,3,4) that] obtain b rest where b: "edge_ok r G b a" "onpath r b j"
          "key_fn (rx_page r) ?ids = key_fn (rx_page r) (nkey r b)"
          "take (k - n) ?ids = take (k - n) (nkey r b @ rest)" by blast
        then have "b = c" using Some by (simp add: edge_ok_def)
        with b show ?thesis by blast
      qed
      show ?thesis
      proof (cases "m = length (nkey r c)")
        case full: True
        let ?r = "touch tic c r"
        note st = touch_same [of r tic c]
        have cl: "live r c" "c \<noteq> rx_root r" using c by auto
        have w: "tree_walk tic now ids a n r = tree_walk tic now ids c (n + m) ?r"
          using n Some full by (subst tree_walk.simps) (simp add: m_def touch_def Let_def)
        have tc: "tokens G c = take (n + m) ids" using tokens_edge [OF e] tn full by simp
        have "\<exists>a' n' r' G'. tree_walk tic now ids c (n + m) ?r = Some (Inr (a', n', r')) \<and> radix_inv r' G' L
           \<and> live r' a' \<and> tokens G' a' = take n' ids \<and> n + m \<le> n' \<and> n' \<le> length ids \<and> ext ?r G r' G'
           \<and> (\<forall>j. live r' j \<longrightarrow> live ?r j \<or> j = a')
           \<and> (\<forall>j. live r' j \<longrightarrow> \<not> live ?r j \<longrightarrow> rn_rec (rx_nodes r' j) = None)
           \<and> (\<forall>j k. shares ?r G ids j k \<longrightarrow> onpath ?r c j \<longrightarrow> k \<le> n')
           \<and> (\<exists>j. shares ?r G ids j n')"
        proof (rule less.hyps)
          show "length ids - (n + m) < length ids - n" using n m by simp
          show "radix_inv ?r G L" using touch_inv(1) [OF less.prems(1) cl] .
          show "live ?r c" using cl by (simp add: same_tree_live [OF st])
          show "tokens G c = take (n + m) ids" by (rule tc)
          show "n + m \<le> length ids" using m(5) n by simp
        qed
        moreover have "shares ?r G = shares r G"
          by (intro HOL.ext) (simp add: shares_def same_tree_live [OF st] same_treeD(1) [OF st])
        ultimately obtain a' n' r' G' where r': "tree_walk tic now ids c (n + m) ?r = Some (Inr (a', n', r'))"
          "radix_inv r' G' L" "live r' a'" "tokens G' a' = take n' ids" "n + m \<le> n'" "n' \<le> length ids"
          "ext ?r G r' G'" "\<forall>j. live r' j \<longrightarrow> live r j \<or> j = a'"
          "\<forall>j. live r' j \<longrightarrow> \<not> live r j \<longrightarrow> rn_rec (rx_nodes r' j) = None"
          "\<And>j k. shares r G ids j k \<Longrightarrow> onpath r c j \<Longrightarrow> k \<le> n'"
          "\<exists>j. shares r G ids j n'"
          by (simp only: same_tree_live [OF st] same_tree_onpath [OF st]) blast
        have "k \<le> n'" if "shares r G ids j k" "onpath r a j" for j k
        proof (cases "n < k")
          case True
          then show ?thesis using through [OF that] r'(10) [OF that(1)] by blast
        next
          case False
          then show ?thesis using r'(5) by simp
        qed
        moreover have "ext r G r' G'" using ext_trans [OF touch_inv(2) [OF less.prems(1) cl] r'(7)] .
        moreover have "n \<le> n'" using r'(5) by simp
        ultimately show ?thesis using w r' by (intro exI [of _ a'] exI [of _ n'] exI [of _ r'] exI [of _ G']) auto
      next
        case part: False
        then have lt: "m < length (nkey r c)" using m(4) by simp
        have cl: "live r c" "c \<noteq> rx_root r" using c by auto
        let ?n = "rx_counter r"
        from split_at_inv [OF less.prems(1) cl m(1) lt m(2), of now] e obtain r1 G1 where
          sp: "split_at now c m r = Inr (?n, r1)" "radix_inv r1 G1 L"
          "\<forall>j. j \<noteq> ?n \<longrightarrow> G1 j = G j" "G1 ?n = take (length (G a) + m) (G c)"
          "\<forall>j. live r1 j \<longleftrightarrow> live r j \<or> j = ?n"
          "rx_page r1 = rx_page r" "rx_root r1 = rx_root r" "rx_recurrent r1 = rx_recurrent r"
          "rx_evictable r1 = rx_evictable r" "rx_protected r1 = rx_protected r"
          "\<not> is_leaf r1 ?n"
          "\<forall>j. j \<noteq> ?n \<longrightarrow> rn_rec (rx_nodes r1 j) = rn_rec (rx_nodes r j)"
          "rx_rec_nodes r1 = rx_rec_nodes r" "rx_max_rec r1 = rx_max_rec r"
          "rn_rec (rx_nodes r1 ?n) = None"
          by (auto simp: edge_ok_def)
        let ?r = "touch tic ?n r1"
        note st = touch_same [of r1 tic ?n]
        have w: "tree_walk tic now ids a n r = Some (Inr (?n, n + m, ?r))"
          using n Some part sp(1)
          by (subst tree_walk.simps) (simp add: m_def touch_def Let_def)
        have nl: "live r1 ?n" "?n \<noteq> rx_root r1" using sp(5,7) T(2) by (auto simp: live_def)
        have old: "j \<noteq> ?n" if "live r j" for j using that by (auto simp: live_def)
        have "tokens G1 ?n = take (length (G a) + m) (tokens G c)" by (simp add: tokens_def sp(4) take_map)
        also have "\<dots> = take (n + m) ids"
          unfolding tokens_edge [OF e] using tn ln length_tokens(1) [of G a] by simp
        finally have tt: "tokens G1 ?n = take (n + m) ids" .
        have "ext r G r1 G1" using sp old by (auto simp: ext_def)
        then have ex: "ext r G ?r G1" using touch_inv(2) [OF sp(2) nl] by (rule ext_trans)
        have "k \<le> n + m" if s: "shares r G ids j k" "onpath r a j" for j k
        proof (rule ccontr)
          assume no: "\<not> k \<le> n + m"
          then have "n < k" by simp
          from through [OF s this] obtain rest where rest: "take (k - n) ?ids = take (k - n) (nkey r c @ rest)" by blast
          let ?q = "min (k - n) (length (nkey r c))"
          have kk: "rx_page r dvd k" "k \<le> length ids" using s(1) by (auto simp: shares_def)
          have q: "rx_page r dvd ?q" using pn kk(1) K(2) by (simp add: min_def dvd_diff_nat)
          have "take ?q (nkey r c) = take ?q ?ids"
            using arg_cong [OF rest, of "take ?q"] by (simp add: min_def split: if_splits)
          then have "?q \<le> ?m0" using kk(2) by (intro compare_key_greatest) auto
          then have "?q \<le> m" unfolding m_def using align_len_props(4) [OF T(1) q] by simp
          with no lt show False by simp
        qed
        moreover have "shares r G ids c (n + m)"
        proof -
          have "take (n + m) (tokens G c) = take (n + m) ids"
            unfolding tokens_edge [OF e] using tn ln length_tokens(1) [of G a] by simp
          moreover have "n + m \<le> length (G c)"
            using arg_cong [OF tokens_edge [OF e], of length] ln m(4) by (simp add: length_tokens)
          ultimately show ?thesis using cl pn m(2,5) n by (simp add: shares_def)
        qed
        moreover have "radix_inv ?r G1 L" using touch_inv(1) [OF sp(2) nl] .
        moreover have "live ?r ?n" using nl(1) by (simp add: same_tree_live [OF st])
        moreover have "\<forall>j. live ?r j \<longrightarrow> live r j \<or> j = ?n" using sp(5) by (simp add: same_tree_live [OF st])
        moreover from this have "\<forall>j. live ?r j \<longrightarrow> \<not> live r j \<longrightarrow> rn_rec (rx_nodes ?r j) = None"
          using sp(15) nl(1) touch_inv(2) [OF sp(2) nl, of tic] by (auto simp: ext_def)
        ultimately show ?thesis
          using w tt ex m(5) n by (intro exI [of _ ?n] exI [of _ "n + m"] exI [of _ ?r] exI [of _ G1]) auto
      qed
    qed
  qed
qed

lemma walk_spec:
  assumes "radix_inv r G L"
  obtains a n r' G' where "walk tic now ids r = Some (Inr (a, n, r'))" "radix_inv r' G' L" "live r' a"
    "tokens G' a = take n ids" "n \<le> length ids" "ext r G r' G'"
    "\<forall>j. live r' j \<longrightarrow> live r j \<or> j = a" "\<forall>j m. shares r G ids j m \<longrightarrow> m \<le> n"
    "\<forall>j. live r' j \<longrightarrow> \<not> live r j \<longrightarrow> rn_rec (rx_nodes r' j) = None"
    "\<exists>j. shares r G ids j n"
proof -
  have t: "tree_ok r G" using assms by (simp add: radix_inv_def)
  note T = tree_okD [OF t]
  have "tokens G (rx_root r) = take 0 ids" using T(4) by (simp add: tokens_def)
  from tree_walk_spec [OF assms T(2) this le0, of tic now] obtain a n r' G' where
    w: "tree_walk tic now ids (rx_root r) 0 r = Some (Inr (a, n, r'))" "radix_inv r' G' L" "live r' a"
    "tokens G' a = take n ids" "n \<le> length ids" "ext r G r' G'"
    "\<forall>j. live r' j \<longrightarrow> live r j \<or> j = a"
    "\<forall>j. live r' j \<longrightarrow> \<not> live r j \<longrightarrow> rn_rec (rx_nodes r' j) = None"
    "\<And>j m. shares r G ids j m \<Longrightarrow> onpath r (rx_root r) j \<Longrightarrow> m \<le> n"
    "\<exists>j. shares r G ids j n" by blast
  have "\<forall>j m. shares r G ids j m \<longrightarrow> m \<le> n" using w(9) onpath_root_all [OF t] by (auto simp: shares_def)
  with w that show thesis by (auto simp: walk_def)
qed

text \<open>Two nodes that spell the same first tokens hold the same slots for them: up to there they
  hang below the same nodes.\<close>

lemma same_way:
  assumes t: "tree_ok r G" and ij: "live r i" "live r j" "rx_page r dvd m" "m \<le> length (G i)" "m \<le> length (G j)"
    "take m (tokens G i) = take m (tokens G j)"
  shows "take m (G i) = take m (G j)"
proof -
  have "take m (G i) = take m (G j)" if "live r a" "onpath r a i" "onpath r a j" "length (G a) \<le> m" for a
    using that
  proof (induction "m - length (G a)" arbitrary: a rule: less_induct)
    case less
    have pa: "prefix (G a) (G i)" "prefix (G a) (G j)" using onpath_prefix [OF t ij(1) less.prems(2)] onpath_prefix [OF t ij(2) less.prems(3)] by simp_all
    show ?case
    proof (cases "length (G a) = m")
      case True
      moreover obtain x y where "G i = G a @ x" "G j = G a @ y" using pa by (auto simp: prefix_def)
      ultimately show ?thesis by simp
    next
      case False
      let ?ids = "take m (tokens G i)"
      have ta: "tokens G a = take (length (G a)) ?ids"
        using pa(1) less.prems(4) by (auto simp: prefix_def tokens_def min_def)
      have la: "length (G a) \<le> length ?ids" "length (G a) < m" using less.prems(4) ij(4) False by (simp_all add: length_tokens)
      have sh: "shares r G ?ids i m" "shares r G ?ids j m" using ij by (auto simp: shares_def length_tokens)
      from child_on_way [OF t less.prems(1) ta la(1) sh(1) less.prems(2) la(2)]
      obtain b where b: "edge_ok r G b a" "live r b" "onpath r b i"
        "key_fn (rx_page r) (drop (length (G a)) ?ids) = key_fn (rx_page r) (nkey r b)" by blast
      from child_on_way [OF t less.prems(1) ta la(1) sh(2) less.prems(3) la(2)]
      obtain c where c: "edge_ok r G c a" "live r c" "onpath r c j"
        "key_fn (rx_page r) (drop (length (G a)) ?ids) = key_fn (rx_page r) (nkey r c)" by blast
      have "nkids r a (key_fn (rx_page r) (nkey r b)) = Some b" "nkids r a (key_fn (rx_page r) (nkey r c)) = Some c"
        using b(1) c(1) by (simp_all add: edge_ok_def)
      then have bc: "b = c" unfolding b(4) [symmetric] c(4) [symmetric] by simp
      have pb: "prefix (G b) (G i)" "prefix (G b) (G j)" using onpath_prefix [OF t ij(1) b(3)] onpath_prefix [OF t ij(2) c(3)] bc by simp_all
      show ?thesis
      proof (cases "length (G b) \<le> m")
        case True
        have "length (G a) < length (G b)" using b(1) by (simp add: edge_ok_def)
        then show ?thesis using less.hyps [of b] True b c bc by simp
      next
        case False
        moreover obtain x y where "G i = G b @ x" "G j = G b @ y" using pb by (auto simp: prefix_def)
        ultimately show ?thesis by simp
      qed
    qed
  qed
  from this [OF tree_okD(2) [OF t]] onpath_root_all [OF t] ij tree_okD(4) [OF t] show ?thesis by simp
qed

end
