(* ===== verification/Radix_Ops.thy ===== *)
theory Radix_Ops
  imports Radix_Walk
begin

section \<open>Insertion, eviction and snapshots keep the radix cache's invariant\<close>

text \<open>
  One lemma per operation: from the invariant it returns, and the invariant holds after it.
  An insertion adds a leaf for the part the walk did not find, an eviction removes
  unreferenced leaves in least-recently-used order and always finds enough of them, a
  snapshot operation touches only the snapshot fields and splits at whole pages.
\<close>

subsection \<open>The new leaf\<close>

definition leaf_state :: "int \<Rightarrow> nat \<Rightarrow> int list \<Rightarrow> int list \<Rightarrow> 'r radix \<Rightarrow> 'r radix" where
  "leaf_state now a k v r = r\<lparr>rx_counter := Suc (rx_counter r),
     rx_evictable := rx_evictable r + int (length k), rx_heap := (now, rx_counter r) # rx_heap r,
     rx_nodes := (\<lambda>j.
       if j = rx_counter r then
         \<lparr>rn_key = k, rn_value = v, rn_ref = 0, rn_time = now, rn_children = [], rn_parent = Some a,
          rn_evicted = False, rn_rec = None\<rparr>
       else if j = a then (rx_nodes r a)\<lparr>rn_children :=
          AList.update (key_fn (rx_page r) k) (rx_counter r) (rn_children (rx_nodes r a))\<rparr>
       else rx_nodes r j)\<rparr>"

lemma leaf_state_inv:
  assumes "radix_inv r G L" "live r a" "k \<noteq> []" "rx_page r dvd length k" "length v = length k"
    and "nkids r a (key_fn (rx_page r) k) = None"
  shows "radix_inv (leaf_state now a k v r) (G(rx_counter r := G a @ zip k v)) L"
    and "live (leaf_state now a k v r) j \<longleftrightarrow> live r j \<or> j = rx_counter r"
proof -
  have inv: "tree_ok r G" "lock_ok r L" "size_ok r" "heap_ok r" using assms(1) by (auto simp: radix_inv_def)
  note T = tree_okD [OF inv(1)]
  let ?n = "rx_counter r" and ?G = "G(rx_counter r := G a @ zip k v)"
  define r' where "r' = leaf_state now a k v r"
  note ns = r'_def leaf_state_def
  have an: "a \<noteq> ?n" using assms(2) by (auto simp: live_def)
  have f: "rx_counter r' = Suc ?n" "rx_page r' = rx_page r" "rx_root r' = rx_root r"
    "rx_evictable r' = rx_evictable r + int (length k)" "rx_protected r' = rx_protected r"
    "rx_heap r' = (now, ?n) # rx_heap r"
    by (simp_all add: ns)
  have live: "live r' j \<longleftrightarrow> live r j \<or> j = ?n" for j
    using an by (auto simp: live_def ns less_Suc_eq)
  then show "live (leaf_state now a k v r) j \<longleftrightarrow> live r j \<or> j = ?n" by (simp add: r'_def)
  have root: "rx_root r \<noteq> ?n" using T(2) by (auto simp: live_def)
  have fields: "npar r' j = (if j = ?n then Some a else npar r j)"
    "nref r' j = (if j = ?n then 0 else nref r j)" "nkey r' j = (if j = ?n then k else nkey r j)"
    "nval r' j = (if j = ?n then v else nval r j)"
    "rn_time (rx_nodes r' j) = (if j = ?n then now else rn_time (rx_nodes r j))"
    "rn_evicted (rx_nodes r' j) = (if j = ?n then False else rn_evicted (rx_nodes r j))" for j
    using an by (simp_all add: ns)
  have kids: "nkids r' j = (if j = ?n then Map.empty
      else if j = a then (nkids r a)(key_fn (rx_page r) k \<mapsto> ?n) else nkids r j)" for j
    using an by (auto simp: ns update_conv')
  have upd_ne: "AList.update a b xs \<noteq> []" for a :: "int list" and b :: nat and xs
    by (cases xs) auto
  have leaf: "is_leaf r' j \<longleftrightarrow> j = ?n \<or> (j \<noteq> a \<and> is_leaf r j)" for j
    using an upd_ne by (simp add: ns is_leaf_def)
  have Go: "?G j = G j" if "live r j" for j using that by (auto simp: live_def)
  have tree: "tree_ok r' ?G"
    unfolding tree_ok_def
  proof (intro conjI allI impI)
    show "0 < rx_page r'" "live r' (rx_root r')" "npar r' (rx_root r') = None" "?G (rx_root r') = []"
      using T(1-4) f(2,3) live fields(1) root by auto
    show "\<exists>q. edge_ok r' ?G j q" if "live r' j" "j \<noteq> rx_root r'" for j
    proof (cases "j = ?n")
      case True
      have "edge_ok r' ?G ?n a"
        unfolding edge_ok_def fields kids live f(2) using assms(2-5) an by simp
      with True show ?thesis by blast
    next
      case False
      then have j: "live r j" "j \<noteq> rx_root r" using that live f(3) by auto
      with T(5) obtain q where q: "edge_ok r G j q" by blast
      then have lq: "live r q" by (simp add: edge_ok_def)
      then have qn: "q \<noteq> ?n" by (auto simp: live_def)
      have "key_fn (rx_page r) (nkey r j) \<noteq> key_fn (rx_page r) k" if "q = a"
        using q that assms(6) by (auto simp: edge_ok_def)
      then have "edge_ok r' ?G j q"
        using q qn False Go [OF lq] Go [OF j(1)] unfolding edge_ok_def
        by (auto simp: live fields kids f(2))
      then show ?thesis by blast
    qed
    have "live r' c \<and> c \<noteq> rx_root r' \<and> npar r' c = Some q \<and> kk = key_fn (rx_page r') (nkey r' c)"
      if "live r' q" "nkids r' q kk = Some c" for q kk c
    proof (cases "q = a \<and> kk = key_fn (rx_page r) k")
      case True
      with that(2) an have "c = ?n" by (auto simp: kids)
      with True root show ?thesis by (auto simp: live fields f)
    next
      case False
      with that have "q \<noteq> ?n" "nkids r q kk = Some c" by (auto simp: kids split: if_splits)
      moreover from this that(1) live have "live r q" by blast
      ultimately have c: "live r c" "c \<noteq> rx_root r" "npar r c = Some q" "kk = key_fn (rx_page r) (nkey r c)"
        using T(6) [of q kk c] by auto
      then have "c \<noteq> ?n" by (auto simp: live_def)
      with c show ?thesis by (auto simp: live fields f)
    qed
    then show "live r' c" "c \<noteq> rx_root r'" "npar r' c = Some q" "kk = key_fn (rx_page r') (nkey r' c)"
      if "live r' q" "nkids r' q kk = Some c" for q kk c using that by blast+
  qed
  have op: "onpath r' j l \<longleftrightarrow> onpath r j l" if "live r l" for l j
    using inv(1) that
  proof (induction rule: live_induct)
    case root
    show ?case using onpath_root [OF tree] onpath_root [OF inv(1)] f(3) by simp
  next
    case (node l q)
    then have "l \<noteq> ?n" by (auto simp: live_def)
    with node have "npar r' l = Some q" by (simp add: fields)
    from onpath_step [OF this, of j] onpath_step [OF node(4), of j] node(6) show ?case by simp
  qed
  have nol: "\<not> onpath r ?n l" if "live r l" for l
    using onpath_prefix [OF inv(1) that, of ?n] by (auto simp: live_def)
  have "lock_ok r' L"
    unfolding lock_ok_def
  proof (intro conjI ballI allI impI)
    show "live r' l" if "l \<in># L" for l using that lock_okD(1) [OF inv(2)] live by blast
    show "nref r' j = int (size (filter_mset (onpath r' j) L))" if "live r' j" "j \<noteq> rx_root r'" for j
    proof -
      have "filter_mset (onpath r' j) L = filter_mset (onpath r j) L"
        by (rule filter_mset_cong [OF refl]) (use op lock_okD(1) [OF inv(2)] in auto)
      moreover have "filter_mset (onpath r ?n) L = {#}"
        using nol lock_okD(1) [OF inv(2)] by (auto simp: filter_mset_eq_conv)
      ultimately show ?thesis using lock_okD(2) [OF inv(2), of j] that live f(3) by (auto simp: fields)
    qed
  qed
  moreover have "size_ok r'"
  proof -
    have w: "weight r' Q j = weight r Q j" if "j \<noteq> ?n" for Q j
      using that by (simp add: weight_def fields f(3))
    have s: "sum (weight r' Q) {..<?n} = sum (weight r Q) {..<?n}" for Q
      by (rule sum.cong) (auto simp: w)
    have "weight r' Q ?n = (if Q 0 then int (length k) else 0)" for Q
      using root by (simp add: weight_def fields f(3))
    then show ?thesis using inv(3) by (simp add: size_ok_def f s)
  qed
  moreover have "heap_ok r'"
    using inv(4) unfolding heap_ok_def live f leaf fields by (auto simp: less_Suc_eq)
  ultimately show "radix_inv (leaf_state now a k v r) ?G L" using tree by (simp add: radix_inv_def r'_def)
qed

lemma insert_prefix_spec:
  assumes "radix_inv r G L" "length ids = length idx"
  defines "k \<equiv> align_len (rx_page r) (length ids)"
  shows "\<exists>n i r' G'. insert_prefix tic now ids idx r = Some (Inr (n, (k, i, None), r')) \<and> radix_inv r' G' L
     \<and> live r' i \<and> n \<le> k \<and> tokens G' i = take k ids
     \<and> (\<forall>j. live r j \<longrightarrow> live r' j \<and> G' j = G j)
     \<and> (\<exists>s. length s = n \<and> slots G' i = s @ drop n (take k idx))
     \<and> rx_evictable r' = rx_evictable r + int (k - n) \<and> rx_protected r' = rx_protected r
     \<and> rx_page r' = rx_page r \<and> (\<forall>j m. shares r G (take k ids) j m \<longrightarrow> m \<le> n)
     \<and> rx_rec_nodes r' = rx_rec_nodes r \<and> rx_max_rec r' = rx_max_rec r
     \<and> (\<forall>j. live r j \<longrightarrow> rn_rec (rx_nodes r' j) = rn_rec (rx_nodes r j))
     \<and> (\<forall>j. live r' j \<longrightarrow> \<not> live r j \<longrightarrow> rn_rec (rx_nodes r' j) = None)
     \<and> (\<exists>j. shares r G (take k ids) j n)"
proof -
  have T0: "0 < rx_page r" using assms(1) by (simp add: radix_inv_def tree_ok_def)
  let ?ids = "take k ids" and ?idx = "take k idx"
  have k: "k \<le> length ids" "rx_page r dvd k" unfolding k_def using align_len_props(1,2) [OF T0] by auto
  then have lk: "length ?ids = k" "length ?idx = k" using assms(2) by simp_all
  obtain a n r1 G1 where w: "walk tic now ?ids r = Some (Inr (a, n, r1))" "radix_inv r1 G1 L" "live r1 a"
    "tokens G1 a = take n ?ids" "n \<le> length ?ids" "ext r G r1 G1"
    "\<forall>j. live r1 j \<longrightarrow> live r j \<or> j = a" "\<forall>j m. shares r G ?ids j m \<longrightarrow> m \<le> n"
    "\<forall>j. live r1 j \<longrightarrow> \<not> live r j \<longrightarrow> rn_rec (rx_nodes r1 j) = None"
    "\<exists>j. shares r G ?ids j n"
    using walk_spec [OF assms(1)] by metis
  have t1: "tree_ok r1 G1" using w(2) by (simp add: radix_inv_def)
  have e: "rx_page r1 = rx_page r" "rx_evictable r1 = rx_evictable r" "rx_protected r1 = rx_protected r"
    "\<forall>j. live r j \<longrightarrow> live r1 j \<and> G1 j = G j"
    "rx_rec_nodes r1 = rx_rec_nodes r" "rx_max_rec r1 = rx_max_rec r"
    "\<forall>j. live r j \<longrightarrow> rn_rec (rx_nodes r1 j) = rn_rec (rx_nodes r j)" using w(6) by (auto simp: ext_def)
  have la: "length (G1 a) = n" using w(4,5) length_tokens(1) [of G1 a] lk by simp
  show ?thesis
  proof (cases "n = k")
    case True
    then have "insert_prefix tic now ids idx r = Some (Inr (n, (k, a, None), r1))"
      using w(1) by (simp add: insert_prefix_def Let_def k_def)
    with w e True la lk show ?thesis
      by (intro exI [of _ n] exI [of _ a] exI [of _ r1] exI [of _ G1]) (auto simp: length_tokens)
  next
    case False
    let ?k = "drop n ?ids" and ?v = "drop n ?idx"
    let ?r = "leaf_state now a ?k ?v r1" and ?n = "rx_counter r1" and ?G = "G1(rx_counter r1 := G1 a @ zip ?k ?v)"
    have pn: "rx_page r dvd n" using page_dvd_G [OF t1 w(3)] la e(1) by simp
    have "n < k" using False w(5) lk by simp
    moreover have dl: "length ?k = k - n" "length ?v = k - n" by (simp_all only: length_drop lk)
    moreover have "rx_page r dvd k - n" using pn k(2) by (rule dvd_diff_nat [rotated])
    ultimately have "0 < length ?k" "rx_page r1 dvd length ?k" "length ?v = length ?k"
      using e(1) by simp_all
    then have kk: "?k \<noteq> []" "rx_page r1 dvd length ?k" "length ?v = length ?k" by blast+
    have none: "nkids r1 a (key_fn (rx_page r1) ?k) = None"
    proof (rule ccontr)
      assume "nkids r1 a (key_fn (rx_page r1) ?k) \<noteq> None"
      then obtain c where c: "nkids r1 a (key_fn (rx_page r1) ?k) = Some c" by blast
      note tc = tree_okD(6) [OF t1 w(3) c]
      with tree_okD(5) [OF t1, of c] have ec: "edge_ok r1 G1 c a" by (auto simp: edge_ok_def)
      then have pl: "rx_page r \<le> length (nkey r1 c)" using e(1) by (auto simp: edge_ok_def intro!: dvd_imp_le)
      have "length (G1 a) < length (G1 c)" using ec by (simp add: edge_ok_def)
      then have "c \<noteq> a" by auto
      with tc w(7) have lc: "live r c" by blast
      have pk: "rx_page r \<le> length ?k" by (metis dvd_imp_le e(1) kk(1,2) length_greater_0_conv)
      have tp: "take (rx_page r) ?k = take (rx_page r) (nkey r1 c)" using tc e(1) by (simp add: key_fn_def)
      have "take (n + rx_page r) (tokens G c) = take (n + rx_page r) ?ids"
      proof -
        have "tokens G c = take n ?ids @ nkey r1 c"
          using tokens_edge [OF ec] w(4) e(4) lc by (simp add: tokens_def)
        moreover have "length (take n ?ids) = n" using w(5) by simp
        ultimately have "take (n + rx_page r) (tokens G c) = take n ?ids @ take (rx_page r) (nkey r1 c)"
          by (simp del: take_take)
        also have "\<dots> = take (n + rx_page r) ?ids" unfolding tp [symmetric] take_add ..
        finally show ?thesis .
      qed
      moreover have "n + rx_page r \<le> length (G c)"
        using ec e(4) lc la pl by (simp add: edge_ok_def)
      ultimately have "shares r G ?ids c (n + rx_page r)"
        using lc pn pk w(5) lk by (auto simp: shares_def)
      with w(8) have "n + rx_page r \<le> n" by blast
      with T0 show False by simp
    qed
    note li = leaf_state_inv [OF w(2,3) kk none, of now]
    have an: "a \<noteq> ?n" using w(3) by (auto simp: live_def)
    have ins: "insert_prefix tic now ids idx r = Some (Inr (n, (k, ?n, None), ?r))"
    proof -
      have "insert_prefix tic now ids idx r = Some (Inr (n, (k, ?n, None),
          snd (snd (projr (the (insert_prefix tic now ids idx r))))))"
        using w(1) False kk(3) by (simp add: insert_prefix_def Let_def k_def new_node_def)
      moreover have "snd (snd (projr (the (insert_prefix tic now ids idx r)))) = ?r"
        using w(1) False kk(3) an
        by (simp add: insert_prefix_def Let_def k_def new_node_def set_key_value_def set_parent_def
            upd_node_def push_leaf_def is_root_def leaf_state_def fresh_node_def fun_eq_iff)
      ultimately show ?thesis by simp
    qed
    have tok: "tokens ?G ?n = take k ids"
    proof -
      have "tokens ?G ?n = tokens G1 a @ ?k" using kk(3) by (simp add: tokens_def)
      then show ?thesis unfolding w(4) append_take_drop_id .
    qed
    have sl: "slots ?G ?n = slots G1 a @ ?v" using kk(3) by (simp add: slots_def)
    have old: "live ?r j \<and> ?G j = G j" if "live r j" for j
      using that e(4) li(2) by (auto simp: live_def)
    have oth: "rx_evictable ?r = rx_evictable r + int (k - n)" "rx_protected ?r = rx_protected r" "rx_page ?r = rx_page r"
      using e lk by (simp_all add: leaf_state_def)
    have ln: "live ?r ?n" using li(2) by simp
    have nk: "n \<le> k" using w(5) lk by simp
    have sl': "\<exists>s. length s = n \<and> slots ?G ?n = s @ ?v"
      using sl la by (intro exI [of _ "slots G1 a"]) (simp only: length_tokens)
    have old': "\<forall>j. live r j \<longrightarrow> live ?r j \<and> ?G j = G j" using old by blast
    have rec: "rn_rec (rx_nodes ?r j) = (if j = ?n then None else rn_rec (rx_nodes r1 j))" for j
      using an by (simp add: leaf_state_def)
    have rc: "rx_rec_nodes ?r = rx_rec_nodes r" "rx_max_rec ?r = rx_max_rec r"
      using e by (simp_all add: leaf_state_def)
    have rr: "\<forall>j. live r j \<longrightarrow> rn_rec (rx_nodes ?r j) = rn_rec (rx_nodes r j)"
      using e(4,7) unfolding rec by (auto simp: live_def)
    have rn: "\<forall>j. live ?r j \<longrightarrow> \<not> live r j \<longrightarrow> rn_rec (rx_nodes ?r j) = None"
      using w(9) unfolding rec li(2) by auto
    show ?thesis
      by (intro exI [of _ n] exI [of _ ?n] exI [of _ ?r] exI [of _ ?G] conjI ins li(1) ln nk tok old' sl' oth w(8)
          rc rr rn w(10))
  qed
qed

subsection \<open>The lazy heap\<close>

definition evictable_leaf :: "'r radix \<Rightarrow> nat \<Rightarrow> bool" where
  "evictable_leaf r i \<longleftrightarrow> live r i \<and> i \<noteq> rx_root r \<and> is_leaf r i \<and> nref r i = 0"

abbreviation entry :: "'r radix \<Rightarrow> nat \<Rightarrow> int \<times> nat" where
  "entry r i \<equiv> (rn_time (rx_nodes r i), i)"

lemma heap_pop_least:
  assumes "h \<noteq> []"
  shows "fst (heap_pop h) \<in> set h" "\<forall>e \<in> set h. fst (heap_pop h) \<le> e"
    "snd (heap_pop h) = remove1 (fst (heap_pop h)) h"
proof -
  have "foldr min xs x \<le> x \<and> (\<forall>e \<in> set xs. foldr min xs x \<le> e)" for xs and x :: "int \<times> nat"
    by (induction xs) (auto simp: min_def intro: order_trans)
  then show "\<forall>e \<in> set h. fst (heap_pop h) \<le> e"
    using assms by (cases h) (auto simp: heap_pop_def Let_def)
  show "fst (heap_pop h) \<in> set h" using heap_pop_mem [OF assms] .
  show "snd (heap_pop h) = remove1 (fst (heap_pop h)) h" by (simp add: heap_pop_def Let_def)
qed

lemma pop_candidate_spec:
  "case pop_candidate r h of
     (None, h') \<Rightarrow> \<forall>e \<in> set h. stale r e
   | (Some i, h') \<Rightarrow> entry r i \<in> set h \<and> \<not> stale r (entry r i) \<and> set h' \<subseteq> set h
       \<and> (\<forall>e \<in> set h. \<not> stale r e \<longrightarrow> entry r i \<le> e \<and> (snd e \<noteq> i \<longrightarrow> e \<in> set h'))"
proof (induction r h rule: pop_candidate.induct)
  case (1 r h)
  show ?case
  proof (cases "h = []")
    case True
    then show ?thesis by (simp add: pop_candidate.simps)
  next
    case False
    note l = heap_pop_least [OF False]
    let ?e = "fst (heap_pop h)" and ?h = "snd (heap_pop h)"
    have sub: "set ?h \<subseteq> set h" unfolding l(3) by (rule set_remove1_subset)
    have keep: "e \<in> set ?h" if "e \<in> set h" "e \<noteq> ?e" for e
      using that unfolding l(3) by simp
    show ?thesis
    proof (cases "stale r ?e")
      case True
      have eq: "pop_candidate r h = pop_candidate r ?h"
        using False True by (subst pop_candidate.simps) simp
      have ns: "e \<in> set ?h" if "e \<in> set h" "\<not> stale r e" for e using keep that True by metis
      obtain c h' where ch: "pop_candidate r ?h = (c, h')" by (metis surj_pair)
      show ?thesis
      proof (cases c)
        case None
        then have "\<forall>e \<in> set ?h. stale r e" using "1.IH" [OF False True] ch by simp
        with None ch ns show ?thesis unfolding eq by auto
      next
        case (Some i)
        then have "entry r i \<in> set ?h \<and> \<not> stale r (entry r i) \<and> set h' \<subseteq> set ?h
          \<and> (\<forall>e \<in> set ?h. \<not> stale r e \<longrightarrow> entry r i \<le> e \<and> (snd e \<noteq> i \<longrightarrow> e \<in> set h'))"
          using "1.IH" [OF False True] ch by simp
        with ns sub have "entry r i \<in> set h \<and> \<not> stale r (entry r i) \<and> set h' \<subseteq> set h
          \<and> (\<forall>e \<in> set h. \<not> stale r e \<longrightarrow> entry r i \<le> e \<and> (snd e \<noteq> i \<longrightarrow> e \<in> set h'))" by blast
        with Some ch show ?thesis unfolding eq by simp
      qed
    next
      case valid: False
      have eq: "pop_candidate r h = (Some (snd ?e), ?h)"
        using False valid by (subst pop_candidate.simps) simp
      have "fst ?e = rn_time (rx_nodes r (snd ?e))" using valid by (simp add: stale_def)
      then have ee: "entry r (snd ?e) = ?e" by (metis prod.collapse)
      have "\<forall>e \<in> set h. \<not> stale r e \<longrightarrow> ?e \<le> e \<and> (snd e \<noteq> snd ?e \<longrightarrow> e \<in> set ?h)"
        using l(2) keep by metis
      with valid l(1) sub ee show ?thesis unfolding eq by simp
    qed
  qed
qed

lemma pop_candidate_leaf:
  assumes "radix_inv r G L" "pop_candidate r (rx_heap r) = (Some i, h)"
  shows "evictable_leaf r i" "\<forall>j. evictable_leaf r j \<longrightarrow> entry r i \<le> entry r j"
    and "set h \<subseteq> set (rx_heap r)" "\<forall>j. evictable_leaf r j \<longrightarrow> j \<noteq> i \<longrightarrow> entry r j \<in> set h"
proof -
  have inv: "tree_ok r G" "heap_ok r" using assms(1) by (auto simp: radix_inv_def)
  note s = pop_candidate_spec [where r = r and h = "rx_heap r", unfolded assms(2), simplified]
  have "i < rx_counter r" using s inv(2) by (fastforce simp: heap_ok_def)
  then have "live r i" using s by (simp add: live_def stale_def)
  then show "evictable_leaf r i"
    using s root_iff [OF inv(1)] by (auto simp: evictable_leaf_def stale_def)
  have ns: "entry r j \<in> set (rx_heap r) \<and> \<not> stale r (entry r j)" if "evictable_leaf r j" for j
    using that inv(2) root_iff [OF inv(1), of j] by (auto simp: evictable_leaf_def heap_ok_def stale_def live_def)
  show "\<forall>j. evictable_leaf r j \<longrightarrow> entry r i \<le> entry r j" using s ns by blast
  show "\<forall>j. evictable_leaf r j \<longrightarrow> j \<noteq> i \<longrightarrow> entry r j \<in> set h"
  proof (intro allI impI)
    fix j assume "evictable_leaf r j" "j \<noteq> i"
    then show "entry r j \<in> set h" using s ns [of j] by (metis snd_conv)
  qed
  show "set h \<subseteq> set (rx_heap r)" using s by blast
qed

text \<open>While anything is evictable, some leaf is: an unreferenced node's children are unreferenced.\<close>

lemma evictable_leaf_exists:
  assumes "radix_inv r G L" "0 < rx_evictable r"
  shows "\<exists>i. evictable_leaf r i"
proof -
  have inv: "tree_ok r G" "lock_ok r L" "size_ok r" using assms(1) by (auto simp: radix_inv_def)
  let ?S = "{i. live r i \<and> i \<noteq> rx_root r \<and> nref r i = 0}"
  have fin: "finite ?S" by (rule finite_subset [of _ "{..<rx_counter r}"]) (auto simp: live_def)
  have "?S \<noteq> {}"
  proof
    assume "?S = {}"
    then have "weight r (\<lambda>x. x = 0) i = 0" if "i < rx_counter r" for i
      using that by (auto simp: weight_def live_def)
    with inv(3) assms(2) show False by (simp add: size_ok_def)
  qed
  then obtain i where i: "i \<in> ?S" "\<And>j. j \<in> ?S \<Longrightarrow> length (G j) \<le> length (G i)"
    using Max_in [of "(\<lambda>i. length (G i)) ` ?S"] Max_ge [of "(\<lambda>i. length (G i)) ` ?S"] fin
    by (smt (verit) finite_imageI imageE image_eqI image_is_empty)
  have "is_leaf r i"
  proof (rule ccontr)
    assume "\<not> is_leaf r i"
    then have "nkids r i \<noteq> Map.empty" by (simp add: is_leaf_def)
    then obtain k c where "nkids r i k = Some c" by (auto simp: fun_eq_iff)
    with tree_okD(6) [OF inv(1)] i(1) have c: "live r c" "c \<noteq> rx_root r" "npar r c = Some i" by auto
    from tree_okD(5) [OF inv(1) c(1,2)] c(3) have len: "length (G i) < length (G c)"
      by (auto simp: edge_ok_def)
    have "onpath r c l \<Longrightarrow> onpath r i l" for l
      using c(3) by (meson onpath.self onpath.up onpath_trans)
    then have "size (filter_mset (onpath r c) L) \<le> size (filter_mset (onpath r i) L)"
      by (intro size_mset_mono filter_mset_mono_strong) auto
    moreover have "nref r c = int (size (filter_mset (onpath r c) L))"
      using lock_okD(2) [OF inv(2) c(1,2)] .
    moreover have "nref r i = int (size (filter_mset (onpath r i) L))"
      using lock_okD(2) [OF inv(2)] i(1) by blast
    moreover have "nref r i = 0" using i(1) by simp
    ultimately have "nref r c = 0" by linarith
    with c i(2) [of c] len show False by auto
  qed
  with i(1) show ?thesis by (auto simp: evictable_leaf_def)
qed

subsection \<open>One eviction\<close>

definition evict_state :: "nat \<Rightarrow> nat \<Rightarrow> 'r radix \<Rightarrow> 'r radix" where
  "evict_state i p r = r\<lparr>rx_evictable := rx_evictable r - int (length (nkey r i)),
     rx_nodes := (\<lambda>j.
       if j = i then (rx_nodes r i)\<lparr>rn_evicted := True, rn_rec := None\<rparr>
       else if j = p then (rx_nodes r p)\<lparr>rn_children :=
          AList.delete (key_fn (rx_page r) (nkey r i)) (rn_children (rx_nodes r p))\<rparr>
       else rx_nodes r j)\<rparr>"

lemma evict_node_eq:
  assumes "npar r i = Some p" "p \<noteq> i"
  shows "evict_node i r = (let r3 = evict_state i p r in if is_leaf r3 p \<and> nref r3 p = 0 then push_leaf p r3 else r3)"
proof -
  have "upd_node p (\<lambda>n. n\<lparr>rn_children := AList.delete (key_fn (rx_page r) (nkey r i)) (rn_children n)\<rparr>)
     ((upd_node i (\<lambda>n. n\<lparr>rn_evicted := True, rn_rec := None\<rparr>) r)
        \<lparr>rx_evictable := rx_evictable r - int (length (nkey r i))\<rparr>) = evict_state i p r"
    using assms by (simp add: upd_node_def evict_state_def fun_eq_iff)
  moreover have "nref (evict_state i p r) p = nref r p" using assms(2) by (simp add: evict_state_def)
  ultimately show ?thesis using assms by (simp add: evict_node_def Let_def upd_node_def)
qed

lemma evict_node_inv:
  assumes "radix_inv r G L" "evictable_leaf r i" "set h \<subseteq> set (rx_heap r)"
    and "\<forall>j. evictable_leaf r j \<longrightarrow> j \<noteq> i \<longrightarrow> entry r j \<in> set h"
  defines "r' \<equiv> evict_node i (r\<lparr>rx_heap := h\<rparr>)"
  shows "radix_inv r' G L" "live r' j \<longleftrightarrow> live r j \<and> j \<noteq> i"
    and "rx_evictable r' = rx_evictable r - int (length (nkey r i))" "rx_protected r' = rx_protected r"
    and "rx_page r' = rx_page r" "nkey r' j = nkey r j" "nval r' j = nval r j" "0 < length (nkey r i)"
    and "length (nval r i) = length (nkey r i)" "nref r' j = nref r j"
proof -
  have inv: "tree_ok r G" "lock_ok r L" "size_ok r" "heap_ok r" using assms(1) by (auto simp: radix_inv_def)
  note T = tree_okD [OF inv(1)]
  have i: "live r i" "i \<noteq> rx_root r" "is_leaf r i" "nref r i = 0" using assms(2) by (auto simp: evictable_leaf_def)
  from T(5) [OF i(1,2)] obtain p where e: "edge_ok r G i p" ..
  then have p: "npar r i = Some p" "live r p" "p \<noteq> i"
    and k: "0 < length (nkey r i)" "length (nval r i) = length (nkey r i)"
    by (auto simp: edge_ok_def)
  show "0 < length (nkey r i)" "length (nval r i) = length (nkey r i)" using k by auto
  let ?s = "evict_state i p (r\<lparr>rx_heap := h\<rparr>)"
  have r': "r' = (if is_leaf ?s p \<and> nref ?s p = 0 then push_leaf p ?s else ?s)"
    unfolding r'_def using evict_node_eq [of "r\<lparr>rx_heap := h\<rparr>" i p] p by (simp add: Let_def)
  note ns = r' evict_state_def push_leaf_def
  have f: "rx_counter r' = rx_counter r" "rx_page r' = rx_page r" "rx_root r' = rx_root r"
    "rx_evictable r' = rx_evictable r - int (length (nkey r i))" "rx_protected r' = rx_protected r"
    by (simp_all add: ns)
  have nodes: "rx_nodes r' j = (if j = i then (rx_nodes r i)\<lparr>rn_evicted := True, rn_rec := None\<rparr>
       else if j = p then (rx_nodes r p)\<lparr>rn_children :=
          AList.delete (key_fn (rx_page r) (nkey r i)) (rn_children (rx_nodes r p))\<rparr>
       else rx_nodes r j)" for j
    by (simp add: ns)
  have live: "live r' j \<longleftrightarrow> live r j \<and> j \<noteq> i" for j
    using p(3) by (auto simp: live_def nodes f)
  have fields: "npar r' j = npar r j" "nref r' j = nref r j" "nkey r' j = nkey r j" "nval r' j = nval r j"
    "rn_time (rx_nodes r' j) = rn_time (rx_nodes r j)" for j
    using p(3) by (simp_all add: nodes)
  show "live r' j \<longleftrightarrow> live r j \<and> j \<noteq> i" "rx_evictable r' = rx_evictable r - int (length (nkey r i))"
    "rx_protected r' = rx_protected r" "rx_page r' = rx_page r" "nkey r' j = nkey r j" "nval r' j = nval r j"
    "nref r' j = nref r j"
    using live f fields by auto
  have kids: "nkids r' j = (if j = p then (nkids r p)(key_fn (rx_page r) (nkey r i) := None) else nkids r j)" for j
    using p(3) by (auto simp: nodes delete_conv')
  have leaf: "is_leaf r' j \<Longrightarrow> j \<noteq> p \<Longrightarrow> is_leaf r j" for j
    by (simp add: is_leaf_def nodes split: if_splits)
  have "tree_ok r' G"
    unfolding tree_ok_def
  proof (intro conjI allI impI)
    show "0 < rx_page r'" "live r' (rx_root r')" "npar r' (rx_root r') = None" "G (rx_root r') = []"
      using T(1-4) f live fields(1) i(2) by auto
    show "\<exists>q. edge_ok r' G j q" if "live r' j" "j \<noteq> rx_root r'" for j
    proof -
      have j: "live r j" "j \<noteq> i" "j \<noteq> rx_root r" using that live f(3) by auto
      with T(5) obtain q where q: "edge_ok r G j q" by blast
      have "q \<noteq> i"
      proof
        assume "q = i"
        with q i(3) show False by (simp add: edge_ok_def is_leaf_def)
      qed
      moreover have "key_fn (rx_page r) (nkey r j) \<noteq> key_fn (rx_page r) (nkey r i)" if "q = p"
        using q e that j(2) by (auto simp: edge_ok_def)
      ultimately have "edge_ok r' G j q"
        using q unfolding edge_ok_def by (auto simp: live fields kids f(2))
      then show ?thesis by blast
    qed
    have "live r' c \<and> c \<noteq> rx_root r' \<and> npar r' c = Some q \<and> kk = key_fn (rx_page r') (nkey r' c)"
      if "live r' q" "nkids r' q kk = Some c" for q kk c
    proof -
      have c: "nkids r q kk = Some c" "\<not> (q = p \<and> kk = key_fn (rx_page r) (nkey r i))"
        using that(2) by (auto simp: kids split: if_splits)
      have "live r q" using that(1) live by blast
      note tc = T(6) [OF this c(1)]
      have "c \<noteq> i" using tc c(2) p(1) by auto
      with tc show ?thesis by (auto simp: live fields f)
    qed
    then show "live r' c" "c \<noteq> rx_root r'" "npar r' c = Some q" "kk = key_fn (rx_page r') (nkey r' c)"
      if "live r' q" "nkids r' q kk = Some c" for q kk c using that by blast+
  qed
  moreover have op: "onpath r' = onpath r" by (rule onpath_cong) (rule fields(1))
  have "i \<notin># L"
  proof
    assume "i \<in># L"
    then have "i \<in># filter_mset (onpath r i) L" by (simp add: onpath.self)
    moreover have "size (filter_mset (onpath r i) L) = 0" using lock_okD(2) [OF inv(2) i(1,2)] i(4) by simp
    then have "filter_mset (onpath r i) L = {#}" by (simp only: size_eq_0_iff_empty)
    ultimately show False by (metis empty_iff set_mset_empty)
  qed
  then have "lock_ok r' L"
    using inv(2) unfolding lock_ok_def op live f fields by auto
  moreover have "size_ok r'"
  proof -
    have w: "weight r' Q j = weight r Q j" if "j \<noteq> i" for Q j
      using that p(3) by (simp add: weight_def nodes f(3))
    have "sum (weight r' Q) {..<rx_counter r} = sum (weight r Q) {..<rx_counter r} - weight r Q i + weight r' Q i" for Q
      by (rule sum_lt_upd) (use i(1) w in \<open>auto simp: live_def\<close>)
    moreover have "weight r' Q i = 0" "weight r Q i = (if Q 0 then int (length (nkey r i)) else 0)" for Q
      using i by (simp_all add: weight_def nodes live_def)
    ultimately show ?thesis using inv(3) by (simp add: size_ok_def f)
  qed
  moreover have "heap_ok r'"
  proof -
    have hp: "set h \<subseteq> set (rx_heap r')" by (auto simp: ns)
    have pp: "entry r p \<in> set (rx_heap r')" if "is_leaf r' p" "nref r' p = 0" "p \<noteq> rx_root r"
    proof -
      have "\<not> is_root ?s p"
        using root_iff [OF inv(1) p(2)] that(3) p(3) by (simp add: is_root_def evict_state_def)
      moreover have "is_leaf ?s p" "nref ?s p = 0"
        using that by (auto simp: is_leaf_def nodes evict_state_def p(3) split: if_splits)
      ultimately show ?thesis using p(3) by (simp add: r' push_leaf_def evict_state_def)
    qed
    have "entry r' j \<in> set (rx_heap r')"
      if "live r' j" "j \<noteq> rx_root r'" "is_leaf r' j" "nref r' j = 0" for j
    proof (cases "j = p")
      case True
      with pp that f(3) show ?thesis by (simp add: fields)
    next
      case False
      then have "evictable_leaf r j" "j \<noteq> i"
        using that live leaf by (auto simp: evictable_leaf_def fields f)
      with assms(4) hp show ?thesis by (auto simp: fields)
    qed
    moreover have "snd x < rx_counter r'" if "x \<in> set (rx_heap r')" for x
    proof -
      have "x \<in> set h \<or> snd x = p" using that by (auto simp: ns split: if_splits)
      with assms(3) inv(4) p(2) f(1) show ?thesis by (auto simp: heap_ok_def live_def)
    qed
    ultimately show ?thesis by (auto simp: heap_ok_def)
  qed
  ultimately show "radix_inv r' G L" by (simp add: radix_inv_def)
qed

end
