(* ===== verification/Radix_Main.thy ===== *)
theory Radix_Main
  imports Radix_Ops
begin

section \<open>Correctness of the radix prefix cache\<close>

text \<open>
  The eviction loop, the recurrent cap of a match and the snapshot attachments, then the
  states a client can bring the cache into (\<open>radix_reach\<close>: it locks handles of live nodes
  and unlocks only what it locked) and the properties of every operation in those states.
\<close>

subsection \<open>The eviction loop\<close>

text \<open>\<open>lru_ok r vs\<close>: each of \<open>vs\<close> is, in its turn, the least recently used evictable leaf.\<close>

fun lru_ok :: "'r radix \<Rightarrow> nat list \<Rightarrow> bool" where
  "lru_ok r [] = True"
| "lru_ok r (i # vs) \<longleftrightarrow> evictable_leaf r i \<and> (\<forall>j. evictable_leaf r j \<longrightarrow> entry r i \<le> entry r j)
     \<and> lru_ok (evict_node i r) vs"

lemma evictable_leaf_heap [simp]: "evictable_leaf (r\<lparr>rx_heap := h\<rparr>) i = evictable_leaf r i"
  by (simp add: evictable_leaf_def live_def is_leaf_def)

lemma evict_node_heap: "\<exists>h'. evict_node i (r\<lparr>rx_heap := h\<rparr>) = (evict_node i r)\<lparr>rx_heap := h'\<rparr>"
  by (rule exI [of _ "rx_heap (evict_node i (r\<lparr>rx_heap := h\<rparr>))"])
    (simp add: evict_node_def Let_def upd_node_def push_leaf_def is_leaf_def is_root_def)

lemma lru_ok_heap [simp]: "lru_ok (r\<lparr>rx_heap := h\<rparr>) vs = lru_ok r vs"
proof (induction vs arbitrary: r h)
  case (Cons i vs)
  obtain h' where "evict_node i (r\<lparr>rx_heap := h\<rparr>) = (evict_node i r)\<lparr>rx_heap := h'\<rparr>"
    using evict_node_heap by blast
  with Cons show ?case by simp
qed simp

lemma evict_loop_spec:
  assumes "radix_inv r G L" "need - ev \<le> rx_evictable r"
  shows "\<exists>vs r'. evict_loop need ev out r = Some (Inr (out @ concat (map (nval r) vs), r'))
     \<and> radix_inv r' G L \<and> (\<forall>j. live r' j \<longleftrightarrow> live r j \<and> j \<notin> set vs) \<and> lru_ok r vs
     \<and> rx_evictable r' = rx_evictable r - int (length (concat (map (nval r) vs)))
     \<and> rx_protected r' = rx_protected r \<and> rx_page r' = rx_page r
     \<and> need \<le> ev + int (length (concat (map (nval r) vs)))
     \<and> (\<forall>v \<in> set vs. live r v \<and> v \<noteq> rx_root r \<and> nref r v = 0)"
  using assms
proof (induction "nat (need - ev)" arbitrary: ev out r rule: less_induct)
  case less
  show ?case
  proof (cases "ev < need")
    case False
    then have "evict_loop need ev out r = Some (Inr (out, r))" by (simp add: evict_loop.simps)
    with less.prems False show ?thesis by (intro exI [of _ "[]"] exI [of _ r]) simp
  next
    case True
    with less.prems(2) have "0 < rx_evictable r" by simp
    from evictable_leaf_exists [OF less.prems(1) this] obtain l where l: "evictable_leaf r l" ..
    obtain c h where ch: "pop_candidate r (rx_heap r) = (c, h)" by (metis surj_pair)
    have inv: "tree_ok r G" "heap_ok r" using less.prems(1) by (auto simp: radix_inv_def)
    have "c \<noteq> None"
    proof
      assume "c = None"
      with pop_candidate_spec [where r = r and h = "rx_heap r"] ch
      have "\<forall>e \<in> set (rx_heap r). stale r e" by simp
      moreover have "entry r l \<in> set (rx_heap r)" "\<not> stale r (entry r l)"
        using l inv(2) root_iff [OF inv(1), of l] by (auto simp: evictable_leaf_def heap_ok_def stale_def live_def)
      ultimately show False by blast
    qed
    then obtain i where "c = Some i" by blast
    with ch have pc: "pop_candidate r (rx_heap r) = (Some i, h)" by simp
    note lf = pop_candidate_leaf [OF less.prems(1) pc]
    let ?r = "evict_node i (r\<lparr>rx_heap := h\<rparr>)" and ?len = "int (length (nkey r i))"
    note ev = evict_node_inv [OF less.prems(1) lf(1,3,4)]
    have "live r i" "i \<noteq> rx_root r" using lf(1) by (auto simp: evictable_leaf_def)
    then obtain p where "edge_ok r G i p" using tree_okD(5) [OF inv(1)] by blast
    then have "listed i r" by (simp add: edge_ok_def listed_def)
    then have step: "evict_loop need ev out r = evict_loop need (ev + ?len) (out @ nval r i) ?r"
      using True pc by (subst evict_loop.simps) simp
    have "\<exists>vs r'. evict_loop need (ev + ?len) (out @ nval r i) ?r
          = Some (Inr ((out @ nval r i) @ concat (map (nval ?r) vs), r'))
     \<and> radix_inv r' G L \<and> (\<forall>j. live r' j \<longleftrightarrow> live ?r j \<and> j \<notin> set vs) \<and> lru_ok ?r vs
     \<and> rx_evictable r' = rx_evictable ?r - int (length (concat (map (nval ?r) vs)))
     \<and> rx_protected r' = rx_protected ?r \<and> rx_page r' = rx_page ?r
     \<and> need \<le> ev + ?len + int (length (concat (map (nval ?r) vs)))
     \<and> (\<forall>v \<in> set vs. live ?r v \<and> v \<noteq> rx_root ?r \<and> nref ?r v = 0)"
    proof (rule less.hyps)
      show "nat (need - (ev + ?len)) < nat (need - ev)" using True ev(8) by simp
      show "radix_inv ?r G L" by (rule ev(1))
      show "need - (ev + ?len) \<le> rx_evictable ?r" using less.prems(2) ev(3) by simp
    qed
    then obtain vs r' where r': "evict_loop need (ev + ?len) (out @ nval r i) ?r
          = Some (Inr ((out @ nval r i) @ concat (map (nval r) vs), r'))"
      "radix_inv r' G L" "\<And>j. live r' j \<longleftrightarrow> live ?r j \<and> j \<notin> set vs" "lru_ok ?r vs"
      "rx_evictable r' = rx_evictable ?r - int (length (concat (map (nval r) vs)))"
      "rx_protected r' = rx_protected ?r" "rx_page r' = rx_page ?r"
      "need \<le> ev + ?len + int (length (concat (map (nval r) vs)))"
      "\<And>v. v \<in> set vs \<Longrightarrow> live ?r v \<and> v \<noteq> rx_root ?r \<and> nref ?r v = 0"
      unfolding ev(7) by blast
    have lru: "lru_ok r (i # vs)"
    proof -
      obtain h' where "?r = (evict_node i r)\<lparr>rx_heap := h'\<rparr>" using evict_node_heap by blast
      with r'(4) lf(1,2) show ?thesis by simp
    qed
    have root: "rx_root ?r = rx_root r"
      by (simp add: evict_node_def Let_def upd_node_def push_leaf_def)
    have mem: "\<forall>v \<in> set (i # vs). live r v \<and> v \<noteq> rx_root r \<and> nref r v = 0"
      using lf(1) r'(9) ev(2,10) root by (auto simp: evictable_leaf_def)
    have "length (nval r i) = length (nkey r i)" by (rule ev(9))
    then show ?thesis
      using step r' ev(2,3,4,5) lru mem
      by (intro exI [of _ "i # vs"] exI [of _ r'] conjI) auto
  qed
qed

subsection \<open>The cap of a recurrent match\<close>

text \<open>Changes outside the tree, the counts, the times and the heap do not matter to the invariant.\<close>

lemma radix_inv_cong:
  assumes "same_tree r r'" "\<And>j. nref r' j = nref r j" "\<And>j. rn_time (rx_nodes r' j) = rn_time (rx_nodes r j)"
    and "rx_heap r' = rx_heap r" "rx_evictable r' = rx_evictable r" "rx_protected r' = rx_protected r"
  shows "radix_inv r' G L = radix_inv r G L"
proof -
  have "lock_ok r' L = lock_ok r L"
    unfolding lock_ok_def same_tree_live [OF assms(1)] same_treeD(3) [OF assms(1)]
      same_tree_onpath [OF assms(1)] assms(2) ..
  moreover have "size_ok r' = size_ok r"
    unfolding size_ok_def same_treeD(2) [OF assms(1)] assms(5,6)
      weight_cong [OF assms(1,2)] ..
  moreover have "heap_ok r' = heap_ok r"
    unfolding heap_ok_def same_tree_live [OF assms(1)] same_tree_leaf [OF assms(1)] same_treeD(2,3) [OF assms(1)]
      assms(2-4) ..
  ultimately show ?thesis by (simp add: radix_inv_def same_tree_ok [OF assms(1)])
qed

lemma rec_walk_spec:
  assumes "tree_ok r G" "live r i"
  shows "\<exists>cur. (\<forall>cap. rec_walk r i cap = Some (cur, cap - int (length (G i)) + int (length (G cur))))
     \<and> live r cur \<and> onpath r cur i \<and> (cur \<noteq> rx_root r \<longrightarrow> rn_rec (rx_nodes r cur) \<noteq> None)
     \<and> (\<forall>j. onpath r j i \<longrightarrow> j \<noteq> rx_root r \<longrightarrow> rn_rec (rx_nodes r j) \<noteq> None \<longrightarrow> length (G j) \<le> length (G cur))"
  using assms
proof (induction rule: live_induct)
  case root
  have "rec_walk r (rx_root r) cap = Some (rx_root r, cap)" for cap
    using tree_okD(3) [OF assms(1)] by (simp add: rec_walk.simps)
  then show ?case
    using tree_okD(2) [OF assms(1)] onpath_root [OF assms(1)]
    by (intro exI [of _ "rx_root r"]) (auto intro: onpath.self)
next
  case (node i p)
  show ?case
  proof (cases "rn_rec (rx_nodes r i) = None")
    case False
    then have "rec_walk r i cap = Some (i, cap)" for cap using node(4) by (simp add: rec_walk.simps)
    with False node(1) show ?thesis
      by (intro exI [of _ i]) (auto intro: onpath.self dest: onpath_prefix [OF assms(1) node(1)] prefix_length_le)
  next
    case True
    from node(6) obtain cur where c: "\<And>cap. rec_walk r p cap = Some (cur, cap - int (length (G p)) + int (length (G cur)))"
      "live r cur" "onpath r cur p" "cur \<noteq> rx_root r \<longrightarrow> rn_rec (rx_nodes r cur) \<noteq> None"
      "\<And>j. onpath r j p \<Longrightarrow> j \<noteq> rx_root r \<Longrightarrow> rn_rec (rx_nodes r j) \<noteq> None \<Longrightarrow> length (G j) \<le> length (G cur)"
      by blast
    have len: "length (G i) = length (G p) + length (nkey r i)" using node(3) by (simp add: edge_ok_def)
    have "rec_walk r i cap = Some (cur, cap - int (length (G i)) + int (length (G cur)))" for cap
      using True node(4) c(1) len by (subst rec_walk.simps) simp
    moreover have "onpath r cur i" using c(3) node(4) by (blast intro: onpath.up)
    moreover have "length (G j) \<le> length (G cur)"
      if "onpath r j i" "j \<noteq> rx_root r" "rn_rec (rx_nodes r j) \<noteq> None" for j
      using that True c(5) onpath_step [OF node(4), of j] by auto
    ultimately show ?thesis using c(2,4) by blast
  qed
qed

lemma match_prefix_spec:
  assumes "radix_inv r G L"
  shows "\<exists>n i s r' G'. match_prefix tic now ids r = Some (Inr ((n, i, s), r')) \<and> radix_inv r' G' L
     \<and> live r' i \<and> n \<le> length ids \<and> tokens G' i = take n ids \<and> ext r G r' G'
     \<and> (\<not> rx_recurrent r \<longrightarrow> s = None \<and> (\<forall>j m. shares r G ids j m \<longrightarrow> m \<le> n))
     \<and> (rx_recurrent r \<longrightarrow> s = (if i = rx_root r then None else rn_rec (rx_nodes r' i))
          \<and> (i \<noteq> rx_root r \<longrightarrow> rn_rec (rx_nodes r' i) \<noteq> None))
     \<and> (\<forall>j. live r' j \<longrightarrow> \<not> live r j \<longrightarrow> rn_rec (rx_nodes r' j) = None)"
proof -
  obtain a n r1 G1 where w: "walk tic now ids r = Some (Inr (a, n, r1))" "radix_inv r1 G1 L" "live r1 a"
    "tokens G1 a = take n ids" "n \<le> length ids" "ext r G r1 G1" "\<forall>j m. shares r G ids j m \<longrightarrow> m \<le> n"
    "\<forall>j. live r1 j \<longrightarrow> \<not> live r j \<longrightarrow> rn_rec (rx_nodes r1 j) = None"
    using walk_spec [OF assms] by metis
  let ?r = "r1\<lparr>rx_last_kv := n\<rparr>"
  have st: "same_tree r1 ?r" by (simp add: same_tree_def)
  have li: "live ?r j = live r1 j" "is_leaf ?r j = is_leaf r1 j" for j
    by (simp_all add: same_tree_live [OF st] same_tree_leaf [OF st])
  have inv: "radix_inv ?r G1 L"
    using w(2) by (subst radix_inv_cong [OF st]) simp_all
  have ex: "ext r G ?r G1" using w(6) by (simp add: ext_def li)
  have t: "tree_ok ?r G1" using inv by (simp add: radix_inv_def)
  have root: "rx_root ?r = rx_root r" "rx_recurrent r1 = rx_recurrent r" using w(6) by (auto simp: ext_def)
  have ln: "length (G1 a) = n" using w(4,5) length_tokens(1) [of G1 a] by simp
  show ?thesis
  proof (cases "rx_recurrent r")
    case False
    then have "match_prefix tic now ids r = Some (Inr ((n, a, None), ?r))"
      using w(1) root(2) by (simp add: match_prefix_def Let_def)
    with inv ex w False show ?thesis
      by (intro exI [of _ n] exI [of _ a] exI [of _ None] exI [of _ ?r] exI [of _ G1]) (simp add: li)
  next
    case True
    from rec_walk_spec [OF t, of a] w(3) li obtain cur where c:
      "rec_walk ?r a (int n) = Some (cur, int n - int (length (G1 a)) + int (length (G1 cur)))"
      "live ?r cur" "onpath ?r cur a" "cur \<noteq> rx_root ?r \<longrightarrow> rn_rec (rx_nodes ?r cur) \<noteq> None"
      by blast
    let ?m = "if cur = rx_root r then 0 else length (G1 cur)"
    have pre: "prefix (G1 cur) (G1 a)" using onpath_prefix [OF t _ c(3)] w(3) li by blast
    then have le: "length (G1 cur) \<le> n" using ln prefix_length_le by fastforce
    have m: "?m = length (G1 cur)" using tree_okD(4) [OF t] root(1) by simp
    have "take (length (G1 cur)) (tokens G1 a) = tokens G1 cur"
      using pre by (auto simp: prefix_def tokens_def)
    then have tok: "tokens G1 cur = take ?m ids" using w(4) le m by (simp add: min_def)
    have rw: "rec_walk ?r a (int n) = Some (cur, int (length (G1 cur)))" using c(1) ln by simp
    have "match_prefix tic now ids r =
        Some (Inr ((?m, cur, if cur = rx_root r then None else rn_rec (rx_nodes ?r cur)), ?r))"
      using w(1) True root rw root_iff [OF t c(2)]
      unfolding match_prefix_def by (simp del: rec_walk.simps)
    moreover have "?m \<le> length ids" using le w(5) m by simp
    ultimately show ?thesis
      using inv ex w(8) True c(2,4) tok root(1)
      by (intro exI [of _ ?m] exI [of _ cur] exI [of _ "if cur = rx_root r then None else rn_rec (rx_nodes ?r cur)"]
          exI [of _ ?r] exI [of _ G1]) (simp add: li)
  qed
qed

subsection \<open>Snapshots\<close>

text \<open>
  \<open>A\<close> records every (token prefix, snapshot) pair ever attached.  A live node's snapshot
  was attached for exactly its own prefix, snapshots sit only on listed nodes, and the list
  is within the cap.
\<close>

definition rec_ok :: "'r radix \<Rightarrow> (nat \<Rightarrow> (int \<times> int) list) \<Rightarrow> (int list \<times> 'r) set \<Rightarrow> bool" where
  "rec_ok r G A \<longleftrightarrow> (\<forall>i s. live r i \<longrightarrow> rn_rec (rx_nodes r i) = Some s \<longrightarrow>
        (tokens G i, s) \<in> A \<and> i \<in> set (rx_rec_nodes r))
     \<and> length (rx_rec_nodes r) \<le> rx_max_rec r"

lemma enforce_rec_cap_props:
  "same_tree r (enforce_rec_cap r)" "nref (enforce_rec_cap r) j = nref r j"
  "rn_time (rx_nodes (enforce_rec_cap r) j) = rn_time (rx_nodes r j)"
  "rx_heap (enforce_rec_cap r) = rx_heap r" "rx_evictable (enforce_rec_cap r) = rx_evictable r"
  "rx_protected (enforce_rec_cap r) = rx_protected r" "rx_max_rec (enforce_rec_cap r) = rx_max_rec r"
  "rx_recurrent (enforce_rec_cap r) = rx_recurrent r"
  "length (rx_rec_nodes (enforce_rec_cap r)) \<le> rx_max_rec r"
  by (auto simp: enforce_rec_cap_def Let_def same_tree_def)

lemma enforce_rec_cap_rec:
  assumes "rn_rec (rx_nodes (enforce_rec_cap r) i) = Some s"
  shows "rn_rec (rx_nodes r i) = Some s"
    and "i \<in> set (rx_rec_nodes r) \<Longrightarrow> i \<in> set (rx_rec_nodes (enforce_rec_cap r))"
proof -
  let ?keep = "filter (\<lambda>i. rn_rec (rx_nodes r i) \<noteq> None) (rx_rec_nodes r)"
  let ?e = "length ?keep - rx_max_rec r"
  have n: "i \<notin> set (take ?e ?keep)" "rn_rec (rx_nodes r i) = Some s"
    using assms by (auto simp: enforce_rec_cap_def Let_def split: if_splits)
  then show "rn_rec (rx_nodes r i) = Some s" by simp
  assume "i \<in> set (rx_rec_nodes r)"
  then have "i \<in> set ?keep" using n(2) by simp
  then have "i \<in> set (take ?e ?keep) \<union> set (drop ?e ?keep)" by (metis append_take_drop_id set_append)
  then have "i \<in> set (drop ?e ?keep)" using n(1) by blast
  then show "i \<in> set (rx_rec_nodes (enforce_rec_cap r))" by (simp add: enforce_rec_cap_def Let_def)
qed

lemma put_rec_inv:
  assumes "radix_inv r G L" "rec_ok r G A" "live r i"
  shows "radix_inv (put_rec i s r) G L" "same_tree r (put_rec i s r)"
    and "rec_ok (put_rec i s r) G (A \<union> (case s of None \<Rightarrow> {} | Some x \<Rightarrow> {(tokens G i, x)}))"
proof -
  let ?r1 = "upd_node i (\<lambda>n. n\<lparr>rn_rec := s\<rparr>) r"
  let ?r2 = "if rn_rec (rx_nodes r i) = None then ?r1\<lparr>rx_rec_nodes := rx_rec_nodes ?r1 @ [i]\<rparr> else ?r1"
  have p: "put_rec i s r = enforce_rec_cap ?r2" by (simp add: put_rec_def Let_def)
  have st2: "same_tree r ?r2" by (simp add: same_tree_def upd_node_def)
  have f2: "nref ?r2 j = nref r j" "rn_time (rx_nodes ?r2 j) = rn_time (rx_nodes r j)" "rx_heap ?r2 = rx_heap r"
    "rx_evictable ?r2 = rx_evictable r" "rx_protected ?r2 = rx_protected r" for j
    by (simp_all add: upd_node_def)
  show st: "same_tree r (put_rec i s r)"
    unfolding p using same_tree_trans [OF st2 enforce_rec_cap_props(1)] .
  show "radix_inv (put_rec i s r) G L"
    using assms(1) unfolding p
    by (subst radix_inv_cong [OF st [unfolded p]]) (simp_all only: enforce_rec_cap_props f2)
  show "rec_ok (put_rec i s r) G (A \<union> (case s of None \<Rightarrow> {} | Some x \<Rightarrow> {(tokens G i, x)}))"
    unfolding rec_ok_def
  proof (intro conjI allI impI)
    fix j x
    assume j: "live (put_rec i s r) j" "rn_rec (rx_nodes (put_rec i s r) j) = Some x"
    note e = enforce_rec_cap_rec [OF j(2) [unfolded p]]
    have lj: "live r j" using j(1) by (simp add: same_tree_live [OF st])
    have old: "rn_rec (rx_nodes r j) = Some x" if "j \<noteq> i" using e(1) that by (auto simp: upd_node_def split: if_splits)
    have new: "s = Some x" if "j = i" using e(1) that by (auto simp: upd_node_def split: if_splits)
    have mem: "j \<in> set (rx_rec_nodes ?r2)"
      using assms(2) lj old assms(3)
      by (cases "j = i"; cases "rn_rec (rx_nodes r i)") (auto simp: rec_ok_def upd_node_def)
    show "j \<in> set (rx_rec_nodes (put_rec i s r))" unfolding p using e(2) [OF mem] .
    show "(tokens G j, x) \<in> A \<union> (case s of None \<Rightarrow> {} | Some x \<Rightarrow> {(tokens G i, x)})"
      using assms(2) lj old new by (cases "j = i") (auto simp: rec_ok_def)
  next
    show "length (rx_rec_nodes (put_rec i s r)) \<le> rx_max_rec (put_rec i s r)"
      unfolding p enforce_rec_cap_props(7) by (rule enforce_rec_cap_props(9))
  qed
qed

text \<open>The chain from the root to a node, top down.\<close>

fun down :: "'r radix \<Rightarrow> (nat \<Rightarrow> (int \<times> int) list) \<Rightarrow> nat \<Rightarrow> nat list \<Rightarrow> bool" where
  "down r G a [] = True"
| "down r G a (n # ns) \<longleftrightarrow> live r n \<and> n \<noteq> rx_root r \<and> edge_ok r G n a \<and> down r G n ns"

lemma down_snoc: "down r G a (ns @ [n]) \<longleftrightarrow> down r G a ns \<and> live r n \<and> n \<noteq> rx_root r \<and> edge_ok r G n (last (a # ns))"
  by (induction ns arbitrary: a) auto

lemma chain_walk_spec:
  assumes "tree_ok r G" "live r i"
  shows "\<exists>ns. (\<forall>acc. chain_walk r i acc = Some (ns @ acc)) \<and> down r G (rx_root r) ns \<and> last (rx_root r # ns) = i"
  using assms
proof (induction rule: live_induct)
  case root
  have "chain_walk r (rx_root r) acc = Some acc" for acc
    using tree_okD(3) [OF assms(1)] by (simp add: chain_walk.simps)
  then show ?case by (intro exI [of _ "[]"]) simp
next
  case (node i p)
  then obtain ns where ns: "\<And>acc. chain_walk r p acc = Some (ns @ acc)" "down r G (rx_root r) ns"
    "last (rx_root r # ns) = p" by blast
  have "chain_walk r i acc = Some ((ns @ [i]) @ acc)" for acc
    using node(4) ns(1) by (subst chain_walk.simps) simp
  with node ns show ?case by (intro exI [of _ "ns @ [i]"]) (simp add: down_snoc)
qed

lemma down_prefix: "down r G a ns \<Longrightarrow> x \<in> set (a # ns) \<Longrightarrow> prefix (G x) (G (last (a # ns)))"
proof (induction ns arbitrary: a x)
  case (Cons n ns)
  have an: "prefix (G a) (G n)" using Cons.prems(1) by (simp add: edge_ok_def)
  have "prefix (G n) (G (last (n # ns)))" using Cons.IH [of n n] Cons.prems(1) by simp
  with an Cons show ?case by (auto intro: prefix_order.trans)
qed simp

lemma find_boundary_spec:
  assumes "radix_inv r G L" "live r a" "down r G a ns" "int (length (G a)) < b"
    and "b mod int (rx_page r) = 0" "b \<le> int (length (G (last (a # ns))))"
  shows "\<exists>t r1 G1. find_boundary now b (length (G a)) ns r = Inr (Some (t, r1)) \<and> radix_inv r1 G1 L
     \<and> live r1 t \<and> t \<noteq> rx_root r1 \<and> tokens G1 t = take (nat b) (tokens G (last (a # ns))) \<and> ext r G r1 G1
     \<and> (\<forall>j. live r1 j \<longrightarrow> \<not> live r j \<longrightarrow> rn_rec (rx_nodes r1 j) = None)"
  using assms
proof (induction ns arbitrary: a)
  case Nil
  then show ?case by simp
next
  case (Cons n ns)
  have n: "live r n" "n \<noteq> rx_root r" "edge_ok r G n a" "down r G n ns" using Cons.prems(3) by auto
  have t: "tree_ok r G" using Cons.prems(1) by (simp add: radix_inv_def)
  have lenG: "length (G n) = length (G a) + length (nkey r n)" using n(3) by (simp add: edge_ok_def)
  have pre: "prefix (G n) (G (last (a # n # ns)))" using down_prefix [OF Cons.prems(3), of n] by simp
  then have tp: "take (length (G n)) (tokens G (last (a # n # ns))) = tokens G n"
    by (auto simp: prefix_def tokens_def)
  consider "int (length (G n)) = b" | "int (length (G n)) > b" | "int (length (G n)) < b" by linarith
  then show ?case
  proof cases
    case 1
    then have "find_boundary now b (length (G a)) (n # ns) r = Inr (Some (n, r))"
      by (simp add: lenG Let_def)
    moreover have "tokens G n = take (nat b) (tokens G (last (a # n # ns)))" using 1 tp by (metis nat_int)
    ultimately show ?thesis using Cons.prems(1) n(1,2) by (blast intro: ext_refl)
  next
    case 2
    let ?pos = "nat b - length (G a)"
    have pos: "0 < ?pos" "?pos < length (nkey r n)" using 2 Cons.prems(4) lenG by auto
    have "int (rx_page r) dvd int (nat b)" using Cons.prems(4,5) by (simp add: dvd_eq_mod_eq_0)
    then have "rx_page r dvd nat b" by (simp only: int_dvd_int_iff)
    moreover have "rx_page r dvd length (G a)" by (rule page_dvd_G [OF t Cons.prems(2)])
    ultimately have dv: "rx_page r dvd ?pos" by (simp add: dvd_diff_nat)
    from split_at_inv [OF Cons.prems(1) n(1,2) pos dv, of now] n(3) obtain r1 G1 where
      sp: "split_at now n ?pos r = Inr (rx_counter r, r1)" "radix_inv r1 G1 L"
      "\<forall>j. j \<noteq> rx_counter r \<longrightarrow> G1 j = G j" "G1 (rx_counter r) = take (length (G a) + ?pos) (G n)"
      "\<forall>j. live r1 j \<longleftrightarrow> live r j \<or> j = rx_counter r"
      "rx_page r1 = rx_page r" "rx_root r1 = rx_root r" "rx_recurrent r1 = rx_recurrent r"
      "rx_evictable r1 = rx_evictable r" "rx_protected r1 = rx_protected r"
      "\<forall>j. j \<noteq> rx_counter r \<longrightarrow> rn_rec (rx_nodes r1 j) = rn_rec (rx_nodes r j)"
      "rx_rec_nodes r1 = rx_rec_nodes r" "rx_max_rec r1 = rx_max_rec r"
      "rn_rec (rx_nodes r1 (rx_counter r)) = None"
      by (auto simp: edge_ok_def)
    have old: "j \<noteq> rx_counter r" if "live r j" for j using that by (auto simp: live_def)
    have nb: "length (G a) + ?pos = nat b" using Cons.prems(4) by simp
    have "tokens G1 (rx_counter r) = take (nat b) (tokens G n)" unfolding tokens_def sp(4) nb by (simp add: take_map)
    also have "\<dots> = take (nat b) (tokens G (last (a # n # ns)))"
      using 2 unfolding tp [symmetric] by (simp add: min_def)
    finally have tt: "tokens G1 (rx_counter r) = take (nat b) (tokens G (last (a # n # ns)))" .
    have "ext r G r1 G1" using sp old by (auto simp: ext_def)
    moreover have "find_boundary now b (length (G a)) (n # ns) r = Inr (Some (rx_counter r, r1))"
      using 2 sp(1) by (simp add: lenG Let_def)
    moreover have "rx_counter r \<noteq> rx_root r1" using sp(7) tree_okD(2) [OF t] by (auto simp: live_def)
    moreover have "\<forall>j. live r1 j \<longrightarrow> \<not> live r j \<longrightarrow> rn_rec (rx_nodes r1 j) = None" using sp(5,14) by auto
    ultimately show ?thesis using sp(2,5) tt by blast
  next
    case 3
    have "find_boundary now b (length (G a)) (n # ns) r = find_boundary now b (length (G n)) ns r"
      using 3 by (simp add: lenG Let_def)
    with Cons.IH [OF Cons.prems(1) n(1,4) 3 Cons.prems(5)] Cons.prems(6) show ?thesis by simp
  qed
qed

lemma attach_rec_state_inv:
  assumes "radix_inv r G L" "rec_ok r G A" "live r i"
  shows "radix_inv (attach_rec_state (n, i, u) s r) G L"
    "rec_ok (attach_rec_state (n, i, u) s r) G (A \<union> (case s of None \<Rightarrow> {} | Some x \<Rightarrow> {(tokens G i, x)}))"
    "same_tree r (attach_rec_state (n, i, u) s r)"
  using assms put_rec_inv [OF assms] by (auto simp: attach_rec_state_def rec_ok_def)

lemma rec_ok_ext:
  assumes "rec_ok r G A" "ext r G r' G'" "\<forall>j. live r' j \<longrightarrow> \<not> live r j \<longrightarrow> rn_rec (rx_nodes r' j) = None"
  shows "rec_ok r' G' A"
  unfolding rec_ok_def
proof (intro conjI allI impI)
  fix i s
  assume i: "live r' i" "rn_rec (rx_nodes r' i) = Some s"
  with assms(3) have "live r i" by fastforce
  with assms(1,2) i show "(tokens G' i, s) \<in> A" "i \<in> set (rx_rec_nodes r')"
    by (auto simp: rec_ok_def ext_def tokens_def)
next
  show "length (rx_rec_nodes r') \<le> rx_max_rec r'" using assms(1,2) by (simp add: rec_ok_def ext_def)
qed

lemma attach_rec_state_at_inv:
  assumes "radix_inv r G L" "rec_ok r G A" "live r i" "n = length (G i)"
  shows "\<exists>ok r' G'. attach_rec_state_at now (n, i, u) b s r = Some (Inr (ok, r')) \<and> radix_inv r' G' L
     \<and> rec_ok r' G' (A \<union> (case s of None \<Rightarrow> {} | Some x \<Rightarrow> {(take (nat b) (tokens G i), x)}))
     \<and> (ok \<longleftrightarrow> rx_recurrent r \<and> 0 < b \<and> b < int n \<and> b mod int (rx_page r) = 0)
     \<and> (\<forall>j. live r j \<longrightarrow> live r' j \<and> G' j = G j)
     \<and> (ok \<longrightarrow> (\<exists>t. live r' t \<and> tokens G' t = take (nat b) (tokens G i)))"
proof -
  have t: "tree_ok r G" using assms(1) by (simp add: radix_inv_def)
  have ro: "is_root r i \<longleftrightarrow> i = rx_root r" using root_iff [OF t assms(3)] .
  show ?thesis
  proof (cases "rx_recurrent r \<and> 0 < b \<and> b < int n \<and> b mod int (rx_page r) = 0")
    case False
    have "i = rx_root r \<Longrightarrow> n = 0" using tree_okD(4) [OF t] assms(4) by simp
    then have "attach_rec_state_at now (n, i, u) b s r = Some (Inr (False, r))"
      using False ro by (auto simp: attach_rec_state_at_def Let_def)
    moreover have "rec_ok r G (A \<union> B)" for B using assms(2) by (auto simp: rec_ok_def)
    ultimately show ?thesis using assms(1) False by (metis (no_types, lifting))
  next
    case True
    have ni: "i \<noteq> rx_root r" using True tree_okD(4) [OF t] assms(4) by auto
    from chain_walk_spec [OF t assms(3)] obtain ns where ns: "chain_walk r i [] = Some ns"
      "down r G (rx_root r) ns" "last (rx_root r # ns) = i" by (metis append_Nil2)
    have l0: "length (G (rx_root r)) = 0" using tree_okD(4) [OF t] by simp
    from find_boundary_spec [OF assms(1) tree_okD(2) [OF t] ns(2), of b now] True ns(3) l0 assms(4)
    obtain x r1 G1 where fb: "find_boundary now b 0 ns r = Inr (Some (x, r1))" "radix_inv r1 G1 L"
      "live r1 x" "tokens G1 x = take (nat b) (tokens G i)" "ext r G r1 G1"
      "\<forall>j. live r1 j \<longrightarrow> \<not> live r j \<longrightarrow> rn_rec (rx_nodes r1 j) = None" by auto
    have "attach_rec_state_at now (n, i, u) b s r = Some (Inr (True, put_rec x s r1))"
      using True ni ro ns(1) fb(1) by (simp add: attach_rec_state_at_def Let_def)
    moreover note pr = put_rec_inv [OF fb(2) rec_ok_ext [OF assms(2) fb(5,6)] fb(3), of s]
    have "\<forall>j. live r j \<longrightarrow> live (put_rec x s r1) j \<and> G1 j = G j"
      using fb(5) by (simp add: ext_def same_tree_live [OF pr(2)])
    moreover have "\<exists>t. live (put_rec x s r1) t \<and> tokens G1 t = take (nat b) (tokens G i)"
      using fb(3,4) same_tree_live [OF pr(2)] by blast
    ultimately show ?thesis
      using True pr(1) pr(3) [unfolded fb(4)]
      by (intro exI [of _ True] exI [of _ "put_rec x s r1"] exI [of _ G1] conjI impI; (assumption | simp))
  qed
qed

subsection \<open>The states a client reaches\<close>

definition node_tokens :: "'r radix \<Rightarrow> nat \<Rightarrow> int list" where
  "node_tokens r i = (case chain_walk r i [] of None \<Rightarrow> [] | Some ns \<Rightarrow> concat (map (nkey r) ns))"

lemma down_tokens: "down r G a ns \<Longrightarrow> tokens G (last (a # ns)) = tokens G a @ concat (map (nkey r) ns)"
  by (induction ns arbitrary: a) (auto simp: tokens_edge)

lemma node_tokens_eq:
  assumes "tree_ok r G" "live r i"
  shows "node_tokens r i = tokens G i"
proof -
  from chain_walk_spec [OF assms] obtain ns where "chain_walk r i [] = Some ns" "down r G (rx_root r) ns"
    "last (rx_root r # ns) = i" by (metis append_Nil2)
  with down_tokens [of r G "rx_root r" ns] tree_okD(4) [OF assms(1)] show ?thesis
    by (simp add: node_tokens_def tokens_def)
qed

inductive radix_reach :: "'r radix \<Rightarrow> nat multiset \<Rightarrow> (int list \<times> 'r) set \<Rightarrow> bool" where
  init: "0 < page \<Longrightarrow> radix_reach (rx_init page rc mx now) {#} {}"
| match: "radix_reach r L A \<Longrightarrow> match_prefix tic now ids r = Some (Inr (h, r')) \<Longrightarrow> radix_reach r' L A"
| insert: "radix_reach r L A \<Longrightarrow> length ids = length idx \<Longrightarrow>
     insert_prefix tic now ids idx r = Some (Inr (n, h, r')) \<Longrightarrow> radix_reach r' L A"
| lock: "radix_reach r L A \<Longrightarrow> live r i \<Longrightarrow> lock_handle (n, i, s) False r = Some (Inr r') \<Longrightarrow>
     radix_reach r' (add_mset i L) A"
| unlock: "radix_reach r L A \<Longrightarrow> i \<in># L \<Longrightarrow> lock_handle (n, i, s) True r = Some (Inr r') \<Longrightarrow>
     radix_reach r' (L - {#i#}) A"
| evict: "radix_reach r L A \<Longrightarrow> evict need r = Some (Inr (out, r')) \<Longrightarrow> radix_reach r' L A"
| attach: "radix_reach r L A \<Longrightarrow> live r i \<Longrightarrow>
     radix_reach (attach_rec_state (n, i, u) s r) L
       (A \<union> (case s of None \<Rightarrow> {} | Some x \<Rightarrow> {(node_tokens r i, x)}))"
| attach_at: "radix_reach r L A \<Longrightarrow> live r i \<Longrightarrow>
     attach_rec_state_at now (length (node_tokens r i), i, u) b s r = Some (Inr (ok, r')) \<Longrightarrow>
     radix_reach r' L (A \<union> (case s of None \<Rightarrow> {} | Some x \<Rightarrow> {(take (nat b) (node_tokens r i), x)}))"

lemma rx_init_inv:
  assumes "0 < page"
  shows "radix_inv (rx_init page rc mx now) (\<lambda>_. []) {#}" "rec_ok (rx_init page rc mx now) (\<lambda>_. []) {}"
  using assms
  by (auto simp: radix_inv_def rx_init_def new_node_def upd_node_def Let_def tree_ok_def live_def
      fresh_node_def lock_ok_def size_ok_def weight_def heap_ok_def rec_ok_def)

definition same_rec :: "'r radix \<Rightarrow> 'r radix \<Rightarrow> bool" where
  "same_rec r r' \<longleftrightarrow> rx_rec_nodes r' = rx_rec_nodes r \<and> rx_max_rec r' = rx_max_rec r
     \<and> (\<forall>j. rn_rec (rx_nodes r' j) = rn_rec (rx_nodes r j) \<or> rn_rec (rx_nodes r' j) = None)"

lemma same_rec_trans: "same_rec a b \<Longrightarrow> same_rec b c \<Longrightarrow> same_rec a c"
  unfolding same_rec_def by metis

lemma lock1_same_rec: "same_rec r (lock1 r i)" "same_rec r (unlock1 r i)"
  by (auto simp: same_rec_def lock1_def unlock1_def upd_node_def Let_def push_leaf_def)

lemma lock_walk_same_rec:
  assumes "lock_walk u r i = Some (Inr r')"
  shows "same_rec r r'"
proof -
  have "\<forall>r'. y = Inr r' \<longrightarrow> same_rec r r'" if "lock_walk u r i = Some y" for y
    using that
  proof (rule lock_walk.raw_induct [where P = "\<lambda>u r i y. \<forall>r'. y = Inr r' \<longrightarrow> same_rec r r'", rotated])
    fix f :: "bool \<Rightarrow> 'a radix \<Rightarrow> nat \<Rightarrow> (py_error + 'a radix) option" and u r i y
    assume IH: "\<And>u r i y. f u r i = Some y \<Longrightarrow> \<forall>r'. y = Inr r' \<longrightarrow> same_rec r r'"
    assume eq: "(case npar r i of
       None \<Rightarrow> Some (Inr r)
     | Some p \<Rightarrow>
         (let s = rx_nodes r i; len = int (length (rn_key s))
          in if u
             then (let r1 = upd_node i (\<lambda>n. n\<lparr>rn_ref := rn_ref s - 1\<rparr>) r
                   in if rn_ref s - 1 < 0 then Some (Inl AssertionError)
                      else (let r2 = (if rn_ref s - 1 = 0
                                      then (let r3 = r1\<lparr>rx_evictable := rx_evictable r1 + len,
                                                        rx_protected := rx_protected r1 - len\<rparr>
                                            in if is_leaf r3 i then push_leaf i r3 else r3)
                                      else r1)
                            in f u r2 p))
             else (let r1 = (if rn_ref s = 0
                             then r\<lparr>rx_evictable := rx_evictable r - len,
                                    rx_protected := rx_protected r + len\<rparr> else r)
                   in f u (upd_node i (\<lambda>n. n\<lparr>rn_ref := rn_ref s + 1\<rparr>) r1) p))) = Some y"
    show "\<forall>r'. y = Inr r' \<longrightarrow> same_rec r r'"
    proof (cases "npar r i")
      case None
      with eq show ?thesis by (auto simp: same_rec_def)
    next
      case (Some p)
      consider "\<not> u" | "u" "nref r i - 1 < 0" | "u" "\<not> nref r i - 1 < 0" by blast
      then show ?thesis
      proof cases
        case 1
        with Some eq have "f u (lock1 r i) p = Some y" by (simp add: lock1_def Let_def)
        from IH [OF this] lock1_same_rec(1) show ?thesis by (blast intro: same_rec_trans)
      next
        case 2
        with Some eq show ?thesis by (auto simp: Let_def)
      next
        case 3
        with Some eq have "f u (unlock1 r i) p = Some y" by (simp add: unlock1_def Let_def)
        from IH [OF this] lock1_same_rec(2) show ?thesis by (blast intro: same_rec_trans)
      qed
    qed
  qed
  with assms show ?thesis by blast
qed

lemma evict_node_same_rec: "same_rec r (evict_node i (r\<lparr>rx_heap := h\<rparr>))"
  by (auto simp: same_rec_def evict_node_def upd_node_def Let_def push_leaf_def)

text \<open>What an eviction does to a state is a chain of single evictions.\<close>

lemma evict_loop_rule:
  assumes "evict_loop need ev out r = Some (Inr (out', r'))" "Q r out"
    and step: "\<And>r i h out. Q r out \<Longrightarrow> pop_candidate r (rx_heap r) = (Some i, h) \<Longrightarrow>
       Q (evict_node i (r\<lparr>rx_heap := h\<rparr>)) (out @ nval r i)"
  shows "Q r' out'"
proof -
  have "\<forall>o' r'. y = Inr (o', r') \<longrightarrow> Q r out \<longrightarrow> Q r' o'" if "evict_loop need ev out r = Some y" for y
    using that
  proof (rule evict_loop.raw_induct [where P = "\<lambda>need ev out r y. \<forall>o' r'. y = Inr (o', r') \<longrightarrow> Q r out \<longrightarrow> Q r' o'", rotated])
    fix f :: "int \<Rightarrow> int \<Rightarrow> int list \<Rightarrow> 'a radix \<Rightarrow> (py_error + (int list \<times> 'a radix)) option"
      and need ev out r y
    assume IH: "\<And>need ev out r y. f need ev out r = Some y \<Longrightarrow> \<forall>o' r'. y = Inr (o', r') \<longrightarrow> Q r out \<longrightarrow> Q r' o'"
    assume eq: "(if \<not> ev < need then Some (Inr (out, r))
      else (case fst (pop_candidate r (rx_heap r)) of
              None \<Rightarrow> Some (Inl AssertionError)
            | Some i \<Rightarrow>
                if \<not> listed i r then Some (Inl KeyError)
                else f need (ev + int (length (rn_key (rx_nodes r i))))
                  (out @ rn_value (rx_nodes r i))
                  (evict_node i (r\<lparr>rx_heap := snd (pop_candidate r (rx_heap r))\<rparr>)))) = Some y"
    show "\<forall>o' r'. y = Inr (o', r') \<longrightarrow> Q r out \<longrightarrow> Q r' o'"
    proof (cases "ev < need")
      case False
      with eq show ?thesis by auto
    next
      case True
      obtain c h where ch: "pop_candidate r (rx_heap r) = (c, h)" by force
      show ?thesis
      proof (cases c)
        case None
        with True eq ch show ?thesis by auto
      next
        case (Some i)
        show ?thesis
        proof (cases "listed i r")
          case l: True
          with True eq ch Some have "f need (ev + int (length (nkey r i))) (out @ nval r i)
              (evict_node i (r\<lparr>rx_heap := h\<rparr>)) = Some y" by simp
          from IH [OF this] step [of r out i h] ch Some show ?thesis by blast
        qed (use True eq ch Some in auto)
      qed
    qed
  qed
  with assms(1,2) show ?thesis by blast
qed

lemma evict_loop_same_rec:
  assumes "evict_loop need ev out r = Some (Inr (o', r'))"
  shows "same_rec r r'"
proof (rule evict_loop_rule [OF assms, where Q = "\<lambda>s _. same_rec r s"])
  show "same_rec r r" by (simp add: same_rec_def)
qed (blast intro: same_rec_trans evict_node_same_rec)

lemma rec_ok_same_rec:
  assumes "rec_ok r G A" "same_rec r r'" "\<forall>j. live r' j \<longrightarrow> live r j"
  shows "rec_ok r' G A"
  unfolding rec_ok_def
proof (intro conjI allI impI)
  fix i s
  assume i: "live r' i" "rn_rec (rx_nodes r' i) = Some s"
  with assms(2) have "rn_rec (rx_nodes r i) = Some s" by (metis option.distinct(1) same_rec_def)
  with i assms show "(tokens G i, s) \<in> A" "i \<in> set (rx_rec_nodes r')"
    by (auto simp: rec_ok_def same_rec_def)
next
  show "length (rx_rec_nodes r') \<le> rx_max_rec r'" using assms(1,2) by (simp add: rec_ok_def same_rec_def)
qed

lemma evict_spec:
  assumes "radix_inv r G L" "0 \<le> need" "need \<le> rx_evictable r"
  shows "\<exists>vs r'. evict need r = Some (Inr (concat (map (nval r) vs), r'))
     \<and> radix_inv r' G L \<and> (\<forall>j. live r' j \<longleftrightarrow> live r j \<and> j \<notin> set vs) \<and> lru_ok r vs \<and> same_rec r r'
     \<and> rx_evictable r' = rx_evictable r - int (length (concat (map (nval r) vs)))
     \<and> rx_protected r' = rx_protected r \<and> rx_page r' = rx_page r
     \<and> need \<le> int (length (concat (map (nval r) vs)))
     \<and> (\<forall>v \<in> set vs. live r v \<and> v \<noteq> rx_root r \<and> nref r v = 0)"
proof (cases "need = 0")
  case True
  then have "evict need r = Some (Inr ([], r))" by (simp add: evict_def)
  with assms True show ?thesis
    by (intro exI [of _ "[]"] exI [of _ r]) (simp add: same_rec_def)
next
  case False
  then have e: "evict need r = evict_loop need 0 [] r" using assms by (simp add: evict_def)
  from evict_loop_spec [OF assms(1), of need 0 "[]"] assms(3) obtain vs r' where
    r': "evict_loop need 0 [] r = Some (Inr (concat (map (nval r) vs), r'))" "radix_inv r' G L"
    "\<forall>j. live r' j \<longleftrightarrow> live r j \<and> j \<notin> set vs" "lru_ok r vs"
    "rx_evictable r' = rx_evictable r - int (length (concat (map (nval r) vs)))"
    "rx_protected r' = rx_protected r" "rx_page r' = rx_page r"
    "need \<le> int (length (concat (map (nval r) vs)))"
    "\<forall>v \<in> set vs. live r v \<and> v \<noteq> rx_root r \<and> nref r v = 0" by auto
  from evict_loop_same_rec [OF r'(1)] r' e show ?thesis by (intro exI [of _ vs] exI [of _ r']) simp
qed

lemma evict_Inr:
  assumes "evict need r = Some (Inr (out, r'))"
  shows "0 \<le> need \<and> need \<le> rx_evictable r \<or> r' = r"
  using assms by (auto simp: evict_def split: if_splits)

theorem radix_reach_inv:
  assumes "radix_reach r L A"
  shows "\<exists>G. radix_inv r G L \<and> rec_ok r G A"
  using assms
proof (induction rule: radix_reach.induct)
  case (init page rc mx now)
  then show ?case using rx_init_inv by blast
next
  case (match r L A tic now ids h r')
  then obtain G where G: "radix_inv r G L" "rec_ok r G A" by blast
  from match_prefix_spec [OF G(1), of tic now ids] match(2) obtain G' where
    "radix_inv r' G' L" "ext r G r' G'" "\<forall>j. live r' j \<longrightarrow> \<not> live r j \<longrightarrow> rn_rec (rx_nodes r' j) = None"
    by auto
  with rec_ok_ext [OF G(2)] show ?case by blast
next
  case (insert r L A ids idx tic now n h r')
  then obtain G where G: "radix_inv r G L" "rec_ok r G A" by blast
  from insert_prefix_spec [OF G(1) insert(2), of tic now] insert(3) obtain G' where
    i: "radix_inv r' G' L" "\<forall>j. live r j \<longrightarrow> live r' j \<and> G' j = G j"
    "rx_rec_nodes r' = rx_rec_nodes r" "rx_max_rec r' = rx_max_rec r"
    "\<forall>j. live r j \<longrightarrow> rn_rec (rx_nodes r' j) = rn_rec (rx_nodes r j)"
    "\<forall>j. live r' j \<longrightarrow> \<not> live r j \<longrightarrow> rn_rec (rx_nodes r' j) = None"
    by auto
  have "rec_ok r' G' A"
    unfolding rec_ok_def
  proof (intro conjI allI impI)
    fix j s
    assume j: "live r' j" "rn_rec (rx_nodes r' j) = Some s"
    with i(6) have "live r j" by fastforce
    with G(2) i j show "(tokens G' j, s) \<in> A" "j \<in> set (rx_rec_nodes r')"
      by (auto simp: rec_ok_def tokens_def)
  next
    show "length (rx_rec_nodes r') \<le> rx_max_rec r'" using G(2) i by (simp add: rec_ok_def)
  qed
  with i(1) show ?case by blast
next
  case (lock r L A i n s r')
  then obtain G where G: "radix_inv r G L" "rec_ok r G A" by blast
  from lock_handle_inv [OF G(1) lock(2), of n s] lock(3) have
    l: "radix_inv r' G (add_mset i L)" "same_tree r r'" by auto
  have "same_rec r r'" using lock(3) lock_walk_same_rec by (auto simp: lock_handle_def)
  with rec_ok_same_rec [OF G(2)] same_tree_live [OF l(2)] l(1) show ?case by blast
next
  case (unlock r L A i n s r')
  then obtain G where G: "radix_inv r G L" "rec_ok r G A" by blast
  from unlock_handle_inv [OF G(1) unlock(2), of n s] unlock(3) have
    l: "radix_inv r' G (L - {#i#})" "same_tree r r'" by auto
  have "same_rec r r'" using unlock(3) lock_walk_same_rec by (auto simp: lock_handle_def)
  with rec_ok_same_rec [OF G(2)] same_tree_live [OF l(2)] l(1) show ?case by blast
next
  case (evict r L A need out r')
  then obtain G where G: "radix_inv r G L" "rec_ok r G A" by blast
  show ?case
  proof (cases "r' = r")
    case False
    then have n: "0 \<le> need" "need \<le> rx_evictable r" using evict_Inr [OF evict(2)] by auto
    from evict_spec [OF G(1) n] evict(2) obtain vs where
      "radix_inv r' G L" "\<forall>j. live r' j \<longleftrightarrow> live r j \<and> j \<notin> set vs" "same_rec r r'" by auto
    with rec_ok_same_rec [OF G(2)] show ?thesis by blast
  qed (use G in blast)
next
  case (attach r L A i n u s)
  then obtain G where G: "radix_inv r G L" "rec_ok r G A" by blast
  then have t: "node_tokens r i = tokens G i" using attach(2) by (simp add: node_tokens_eq radix_inv_def)
  show ?case unfolding t using attach_rec_state_inv(1,2) [OF G attach(2), of n u s] by blast
next
  case (attach_at r L A i now u b s ok r')
  then obtain G where G: "radix_inv r G L" "rec_ok r G A" by blast
  then have t: "node_tokens r i = tokens G i" using attach_at(2) by (simp add: node_tokens_eq radix_inv_def)
  show ?case
    unfolding t using attach_rec_state_at_inv [OF G attach_at(2), of "length (node_tokens r i)" now u b s]
      attach_at(3) t by (fastforce simp: length_tokens)
qed

end
