(* ===== verification/Radix_Claims.thy ===== *)
theory Radix_Claims
  imports Radix_Main
begin

section \<open>What the radix prefix cache promises\<close>

text \<open>
  The properties of the reachable cache: no operation fails or loops, a match is the longest
  page-aligned cached prefix, an insertion is found again with its slots, the sizes count
  what they say, an eviction takes the least recently used unlocked leaves and leaves every
  locked handle readable, a resumed snapshot belongs to exactly the matched tokens.
\<close>

lemma reach_obtain:
  assumes "radix_reach r L A"
  obtains G where "radix_inv r G L" "rec_ok r G A" "tree_ok r G" "lock_ok r L" "size_ok r"
  using radix_reach_inv [OF assms] by (auto simp: radix_inv_def)

text \<open>A small cache with one inserted sequence, for the witnesses.\<close>

definition demo_cache :: "bool \<Rightarrow> nat radix" where
  "demo_cache rc = \<lparr>rx_page = 2,
     rx_nodes = (\<lambda>_. fresh_node 0)(0 := (fresh_node 5)\<lparr>rn_ref := 1, rn_children := [([1, 2], 1)]\<rparr>,
       1 := (fresh_node 8)\<lparr>rn_key := [1, 2, 3, 4], rn_value := [10, 11, 12, 13], rn_parent := Some 0\<rparr>),
     rx_counter = 2, rx_root = 0, rx_evictable = 4, rx_protected = 0, rx_heap = [(8, 1)],
     rx_recurrent = rc, rx_max_rec = 64, rx_rec_nodes = [], rx_last_kv = 0\<rparr>"

lemmas op_defs = upd_node_def is_root_def is_leaf_def new_node_def fresh_node_def set_key_value_def set_parent_def
  split_at_def rx_init_def push_leaf_def align_len_def align_down_def key_fn_def

lemma demo_insert: "insert_prefix 7 8 [1, 2, 3, 4, 5] [10, 11, 12, 13, 14] (rx_init 2 rc 64 5)
    = Some (Inr (0, (4, 1, None), demo_cache rc))"
  unfolding insert_prefix_def walk_def
  by (subst tree_walk.simps) (simp add: op_defs demo_cache_def fun_eq_iff)

lemma demo_reach: "radix_reach (demo_cache rc) {#} {}"
  by (rule radix_reach.insert [OF radix_reach.init [of 2] _ demo_insert]) auto

lemma demo_match: "\<exists>r'. match_prefix 9 10 [1, 2, 9] (demo_cache False) = Some (Inr ((2, 2, None), r'))"
  unfolding match_prefix_def walk_def
  by (subst tree_walk.simps) (simp add: op_defs demo_cache_def)

lemma demo_insert2: "\<exists>r'. insert_prefix 9 10 [1, 2, 7, 8] [20, 21, 22, 23] (demo_cache False)
    = Some (Inr (2, (4, 3, None), r'))"
  unfolding insert_prefix_def walk_def
  by (subst tree_walk.simps) (simp add: op_defs demo_cache_def)

lemma demo_match_rec: "\<exists>r'. match_prefix 9 10 [1, 2, 3, 4, 6]
    (attach_rec_state (4, 1, None) (Some 77) (demo_cache True)) = Some (Inr ((4, 1, Some 77), r'))"
  unfolding match_prefix_def walk_def
  apply (subst tree_walk.simps)
  apply (subst tree_walk.simps)
  apply (subst rec_walk.simps)
  apply (simp add: op_defs demo_cache_def attach_rec_state_def put_rec_def enforce_rec_cap_def)
  done

lemma demo_tokens: "node_tokens (demo_cache rc) 1 = [1, 2, 3, 4]"
  unfolding node_tokens_def
  apply (subst chain_walk.simps)
  apply (subst chain_walk.simps)
  apply (simp add: demo_cache_def fresh_node_def)
  done

text \<open>
  C3.  No operation of the cache fails an assertion, runs off the tree or loops: in every
  state a client reaches, matching, inserting as many slots as tokens, locking a live handle,
  unlocking a locked one and evicting at most the evictable size all return.
\<close>

theorem radix_never_fails:
  assumes "radix_reach r L A"
  shows "(\<exists>h r'. match_prefix tic now ids r = Some (Inr (h, r')))
     \<and> (length ids = length idx \<longrightarrow> (\<exists>n h r'. insert_prefix tic now ids idx r = Some (Inr (n, h, r'))))
     \<and> (live r i \<longrightarrow> (\<exists>r'. lock_handle (n, i, s) False r = Some (Inr r')))
     \<and> (i \<in># L \<longrightarrow> (\<exists>r'. lock_handle (n, i, s) True r = Some (Inr r')))
     \<and> (0 \<le> need \<and> need \<le> fst (size_info r) \<longrightarrow> (\<exists>out r'. evict need r = Some (Inr (out, r'))))"
proof -
  from assms obtain G where G: "radix_inv r G L" by (rule reach_obtain)
  show ?thesis
  proof (intro conjI impI)
    show "\<exists>h r'. match_prefix tic now ids r = Some (Inr (h, r'))"
      using match_prefix_spec [OF G, of tic now ids] by blast
    show "\<exists>n h r'. insert_prefix tic now ids idx r = Some (Inr (n, h, r'))" if "length ids = length idx"
      using insert_prefix_spec [OF G that, of tic now] by blast
    show "\<exists>r'. lock_handle (n, i, s) False r = Some (Inr r')" if "live r i"
      using lock_handle_inv [OF G that] by blast
    show "\<exists>r'. lock_handle (n, i, s) True r = Some (Inr r')" if "i \<in># L"
      using unlock_handle_inv [OF G that] by blast
    show "\<exists>out r'. evict need r = Some (Inr (out, r'))" if "0 \<le> need \<and> need \<le> fst (size_info r)"
      using evict_spec [OF G] that unfolding size_info_def by (metis fst_conv)
  qed
qed

theorem radix_never_fails_witness:
  "\<exists>h r'. match_prefix 9 10 [1, 2, 9] (demo_cache False) = Some (Inr (h, r'))"
  using radix_never_fails [OF demo_reach] by blast

text \<open>
  C5.  A match is the longest reusable prefix: in a cache without recurrent state, the node
  of the returned handle spells exactly the first \<open>cached_len\<close> tokens of the input, that
  length is a multiple of the page size, and no live node shares a longer page-aligned
  prefix with the input.
\<close>

theorem radix_match_longest:
  assumes "radix_reach r L A" "\<not> rx_recurrent r"
    and "match_prefix tic now ids r = Some (Inr ((n, i, s), r'))"
  shows "n \<le> length ids \<and> rx_page r dvd n \<and> live r' i \<and> node_tokens r' i = take n ids
     \<and> (\<forall>j m. live r j \<longrightarrow> rx_page r dvd m \<longrightarrow> m \<le> length ids \<longrightarrow> m \<le> length (node_tokens r j) \<longrightarrow>
          take m ids = take m (node_tokens r j) \<longrightarrow> m \<le> n)"
proof -
  from assms(1) obtain G where G: "radix_inv r G L" "tree_ok r G" by (rule reach_obtain)
  from match_prefix_spec [OF G(1), of tic now ids] assms(2,3) obtain G' where
    m: "radix_inv r' G' L" "live r' i" "n \<le> length ids" "tokens G' i = take n ids" "ext r G r' G'"
    "\<And>j m. shares r G ids j m \<Longrightarrow> m \<le> n" by auto
  have t: "tree_ok r' G'" using m(1) by (simp add: radix_inv_def)
  have "length (G' i) = n" using m(3,4) length_tokens(1) [of G' i] by simp
  then have "rx_page r dvd n" using page_dvd_G [OF t m(2)] m(5) by (simp add: ext_def)
  moreover have "node_tokens r' i = take n ids" using node_tokens_eq [OF t m(2)] m(4) by simp
  moreover have "m \<le> n" if "live r j" "rx_page r dvd m" "m \<le> length ids" "m \<le> length (node_tokens r j)"
      "take m ids = take m (node_tokens r j)" for j m
    using m(6) [of j m] that node_tokens_eq [OF G(2) that(1)] by (simp add: shares_def length_tokens)
  ultimately show ?thesis using m(2,3) by blast
qed

theorem radix_match_longest_witness:
  "\<exists>i s r'. match_prefix 9 10 [1, 2, 9] (demo_cache False) = Some (Inr ((2, i, s), r'))
     \<and> node_tokens r' i = [1, 2]"
proof -
  obtain r' where m: "match_prefix 9 10 [1, 2, 9] (demo_cache False) = Some (Inr ((2, 2, None), r'))"
    using demo_match by blast
  have "\<not> rx_recurrent (demo_cache False)" by (simp add: demo_cache_def)
  from radix_match_longest [OF demo_reach this m] m show ?thesis by auto
qed

text \<open>
  C10.  What is inserted is found again: the handle of an insertion spells the page-aligned part
  of the inserted tokens.  Its first \<open>cached_len\<close> indices are the ones the cache held: the
  cache had nodes spelling so many of the tokens and no more whole pages of them, and each of
  these nodes read exactly these indices; the others are the inserted slots.  Every node that
  was live keeps its tokens and its slots.
\<close>

theorem radix_insert_roundtrip:
  assumes "radix_reach r L A" "length ids = length idx"
    and "insert_prefix tic now ids idx r = Some (Inr (n, (k, i, s), r'))"
  defines "spells m j \<equiv> live r j \<and> m \<le> length (node_tokens r j) \<and> take m (node_tokens r j) = take m ids"
  shows "k = align_len (rx_page r) (length ids) \<and> n \<le> k \<and> live r' i \<and> node_tokens r' i = take k ids
     \<and> (\<forall>j m. spells m j \<longrightarrow> rx_page r dvd m \<longrightarrow> m \<le> k \<longrightarrow> m \<le> n)
     \<and> (\<exists>j v. spells n j \<and> (n \<noteq> 0 \<longrightarrow> get_matched_indices r (n, j, None) = Some (Inr v)))
     \<and> (k \<noteq> 0 \<longrightarrow> (\<exists>old. length old = n \<and>
          get_matched_indices r' (k, i, s) = Some (Inr (old @ drop n (take k idx)))
          \<and> (\<forall>j m t v. spells n j \<longrightarrow> get_matched_indices r (m, j, t) = Some (Inr v) \<longrightarrow> old = take n v)))
     \<and> (\<forall>j. live r j \<longrightarrow> live r' j \<and> node_tokens r' j = node_tokens r j
          \<and> (\<forall>h. fst (snd h) = j \<longrightarrow> get_matched_indices r' h = get_matched_indices r h))"
proof -
  from assms(1) obtain G where G: "radix_inv r G L" "tree_ok r G" by (rule reach_obtain)
  let ?k = "align_len (rx_page r) (length ids)"
  from insert_prefix_spec [OF G(1) assms(2), of tic now] assms(3) obtain G' where
    m: "k = ?k" "radix_inv r' G' L" "live r' i" "n \<le> ?k" "tokens G' i = take ?k ids"
    "\<forall>j. live r j \<longrightarrow> live r' j \<and> G' j = G j"
    "\<exists>s. length s = n \<and> slots G' i = s @ drop n (take ?k idx)" "rx_page r' = rx_page r"
    "\<forall>j m. shares r G (take ?k ids) j m \<longrightarrow> m \<le> n" "\<exists>j. shares r G (take ?k ids) j n" by auto
  have t: "tree_ok r' G'" using m(2) by (simp add: radix_inv_def)
  have T0: "0 < rx_page r" using tree_okD(1) [OF G(2)] .
  have gi: "get_matched_indices r' (k, i, s) = Some (Inr (slots G' i))" if "k \<noteq> 0"
  proof -
    have "length (tokens G' i) = k" using m(1,5) align_len_props(2) [OF T0, of "length ids"] by simp
    then have "i \<noteq> rx_root r'" using that tree_okD(4) [OF t] by (auto simp: tokens_def)
    then show ?thesis using get_matched_indices_spec [OF t m(3)] by blast
  qed
  have root: "rx_root r' = rx_root r"
  proof (rule ccontr)
    assume no: "rx_root r' \<noteq> rx_root r"
    have lr: "live r (rx_root r)" using tree_okD(2) [OF G(2)] .
    then have "live r' (rx_root r)" "G' (rx_root r) = []" using m(6) tree_okD(4) [OF G(2)] by auto
    with no edge_of [OF t, of "rx_root r"] show False by (metis list.size(3) not_less_zero)
  qed
  have same: "get_matched_indices r' h = get_matched_indices r h" if lv: "live r (fst (snd h))" for h
  proof -
    have l: "live r' (fst (snd h))" "G' (fst (snd h)) = G (fst (snd h))" using m(6) lv by auto
    obtain vs where v: "\<forall>acc. value_walk r (fst (snd h)) acc = Some (acc @ vs)"
      "concat (rev vs) = slots G (fst (snd h))" "vs = [] \<longleftrightarrow> fst (snd h) = rx_root r"
      using value_walk_spec [OF G(2) lv] by blast
    obtain vs' where v': "\<forall>acc. value_walk r' (fst (snd h)) acc = Some (acc @ vs')"
      "concat (rev vs') = slots G' (fst (snd h))" "vs' = [] \<longleftrightarrow> fst (snd h) = rx_root r'"
      using value_walk_spec [OF t l(1)] by blast
    show ?thesis using v v' l(2) root by (simp add: get_matched_indices_def slots_def)
  qed
  have nt: "node_tokens r' j = node_tokens r j" if "live r j" for j
    using that m(6) node_tokens_eq [OF G(2) that] node_tokens_eq [OF t, of j] by (simp add: tokens_def)
  have kl: "?k \<le> length ids" using align_len_props(2) [OF T0] by simp
  have sp: "spells m j \<longleftrightarrow> live r j \<and> m \<le> length (G j) \<and> take m (tokens G j) = take m ids" for m j
    using node_tokens_eq [OF G(2), of j] by (auto simp: spells_def length_tokens)
  have shp: "shares r G (take ?k ids) j m \<longleftrightarrow> spells m j \<and> rx_page r dvd m \<and> m \<le> ?k" for j m
    using kl by (auto simp: shares_def sp)
  have most: "\<forall>j m. spells m j \<longrightarrow> rx_page r dvd m \<longrightarrow> m \<le> k \<longrightarrow> m \<le> n" using m(1,9) shp by blast
  obtain c where c: "spells n c" "rx_page r dvd n" using m(10) shp by blast
  have some: "\<exists>j v. spells n j \<and> (n \<noteq> 0 \<longrightarrow> get_matched_indices r (n, j, None) = Some (Inr v))"
  proof (cases "n = 0")
    case False
    then have "c \<noteq> rx_root r" using c(1) tree_okD(4) [OF G(2)] by (auto simp: sp)
    then show ?thesis using get_matched_indices_spec [OF G(2)] c(1) sp by blast
  qed (use c in blast)
  obtain old where old: "length old = n" "slots G' i = old @ drop n (take ?k idx)" using m(7) by blast
  have held: "old = take n v" if j: "spells n j" and v: "get_matched_indices r (q, j, u) = Some (Inr v)" for j q u v
  proof -
    have jl: "live r j" "n \<le> length (G j)" "take n (tokens G j) = take n ids" using j sp by blast+
    have "v = slots G j"
      using value_walk_spec [OF G(2) jl(1)] v by (auto simp: get_matched_indices_def split: if_splits)
    moreover have "take n (G' i) = take n (G' j)"
    proof (rule same_way [OF t m(3)])
      show "live r' j" using m(6) jl(1) by blast
      show "rx_page r' dvd n" using c(2) m(8) by simp
      show "n \<le> length (G' i)" using arg_cong [OF m(5), of length] m(4) kl by (simp add: length_tokens)
      show "n \<le> length (G' j)" "take n (tokens G' i) = take n (tokens G' j)"
        using m(4,5,6) jl by (simp_all add: tokens_def)
    qed
    moreover have "G' j = G j" using m(6) jl(1) by blast
    ultimately have "take n (slots G' i) = take n v" by (metis slots_def take_map)
    with old show ?thesis by simp
  qed
  have mid: "\<exists>old. length old = n \<and> get_matched_indices r' (k, i, s) = Some (Inr (old @ drop n (take k idx)))
      \<and> (\<forall>j m t v. spells n j \<longrightarrow> get_matched_indices r (m, j, t) = Some (Inr v) \<longrightarrow> old = take n v)" if "k \<noteq> 0"
  proof (intro exI [of _ old] conjI)
    show "get_matched_indices r' (k, i, s) = Some (Inr (old @ drop n (take k idx)))"
      using gi [OF that] old(2) m(1) by simp
    show "\<forall>j m t v. spells n j \<longrightarrow> get_matched_indices r (m, j, t) = Some (Inr v) \<longrightarrow> old = take n v"
      using held by blast
  qed (fact old(1))
  show ?thesis
    using m(1,3,4) m(6) node_tokens_eq [OF t m(3)] m(5) most some mid same nt by simp
qed

theorem radix_insert_roundtrip_witness:
  "\<exists>i s r'. insert_prefix 9 10 [1, 2, 7, 8] [20, 21, 22, 23] (demo_cache False) = Some (Inr (2, (4, i, s), r'))
     \<and> node_tokens r' i = [1, 2, 7, 8]"
proof -
  obtain r' where m: "insert_prefix 9 10 [1, 2, 7, 8] [20, 21, 22, 23] (demo_cache False)
      = Some (Inr (2, (4, 3, None), r'))" using demo_insert2 by blast
  from radix_insert_roundtrip [OF demo_reach _ m] m show ?thesis by auto
qed

text \<open>
  C12.  The size accounting is exact: the evictable size is the number of tokens held by live
  nodes with no locked handle at or below them, the protected size the number held by the
  others.
\<close>

theorem radix_size_accounting:
  assumes "radix_reach r L A"
  shows "rx_evictable r = (\<Sum>i \<in> {i. live r i \<and> i \<noteq> rx_root r \<and> (\<forall>l \<in># L. \<not> onpath r i l)}. int (length (nkey r i)))
     \<and> rx_protected r = (\<Sum>i \<in> {i. live r i \<and> i \<noteq> rx_root r \<and> (\<exists>l \<in># L. onpath r i l)}. int (length (nkey r i)))"
proof -
  from assms obtain G where inv: "lock_ok r L" "size_ok r" by (rule reach_obtain)
  have z: "nref r i = 0 \<longleftrightarrow> (\<forall>l \<in># L. \<not> onpath r i l)" if "live r i" "i \<noteq> rx_root r" for i
    using lock_okD(2) [OF inv(1) that] by (auto simp: filter_mset_eq_conv)
  have s: "(\<Sum>i<rx_counter r. weight r P i) = (\<Sum>i \<in> {i. live r i \<and> i \<noteq> rx_root r \<and> P (nref r i)}. int (length (nkey r i)))" for P
    by (rule sum.mono_neutral_cong_right) (auto simp: live_def weight_def)
  have "{i. live r i \<and> i \<noteq> rx_root r \<and> nref r i = 0} = {i. live r i \<and> i \<noteq> rx_root r \<and> (\<forall>l \<in># L. \<not> onpath r i l)}"
    "{i. live r i \<and> i \<noteq> rx_root r \<and> nref r i \<noteq> 0} = {i. live r i \<and> i \<noteq> rx_root r \<and> (\<exists>l \<in># L. onpath r i l)}"
    using z by blast+
  with inv(2) s show ?thesis by (simp add: size_ok_def)
qed

theorem radix_size_accounting_witness:
  "rx_evictable (demo_cache False) =
     (\<Sum>i \<in> {i. live (demo_cache False) i \<and> i \<noteq> rx_root (demo_cache False)
         \<and> (\<forall>l \<in># {#}. \<not> onpath (demo_cache False) i l)}. int (length (nkey (demo_cache False) i)))"
  using radix_size_accounting [OF demo_reach] by blast

text \<open>
  C13.  Eviction is safe and fair: for any size up to the evictable size it frees at least that
  many slots, namely the slots of a sequence of nodes each of which was, in its turn, the
  unlocked leaf with the oldest timestamp; no other node disappears, no victim is on the
  path of a locked handle, and every locked handle reads the same slots as before.
\<close>

theorem radix_evict_lru:
  assumes "radix_reach r L A" "0 \<le> need" "need \<le> rx_evictable r"
  shows "\<exists>vs r'. evict need r = Some (Inr (concat (map (nval r) vs), r')) \<and> lru_ok r vs
     \<and> need \<le> int (length (concat (map (nval r) vs)))
     \<and> rx_evictable r' = rx_evictable r - int (length (concat (map (nval r) vs)))
     \<and> (\<forall>j. live r' j \<longleftrightarrow> live r j \<and> j \<notin> set vs)
     \<and> (\<forall>l \<in># L. live r' l \<and> (\<forall>v \<in> set vs. \<not> onpath r v l)
          \<and> (\<forall>n s. l \<noteq> rx_root r \<longrightarrow> get_matched_indices r' (n, l, s) = get_matched_indices r (n, l, s)))"
proof -
  from assms(1) obtain G where G: "radix_inv r G L" "tree_ok r G" "lock_ok r L" by (rule reach_obtain)
  from evict_spec [OF G(1) assms(2,3)] obtain vs r' where
    e: "evict need r = Some (Inr (concat (map (nval r) vs), r'))" "radix_inv r' G L"
    "\<forall>j. live r' j \<longleftrightarrow> live r j \<and> j \<notin> set vs" "lru_ok r vs"
    "rx_evictable r' = rx_evictable r - int (length (concat (map (nval r) vs)))"
    "need \<le> int (length (concat (map (nval r) vs)))"
    "\<forall>v \<in> set vs. live r v \<and> v \<noteq> rx_root r \<and> nref r v = 0" by blast
  have t: "tree_ok r' G" using e(2) by (simp add: radix_inv_def)
  have "lock_ok r' L" using e(2) by (simp add: radix_inv_def)
  then have ll: "live r' l" if "l \<in># L" for l using that by (rule lock_okD(1))
  have no: "\<not> onpath r v l" if "l \<in># L" "v \<in> set vs" for l v
  proof
    assume "onpath r v l"
    with that(1) have "l \<in># filter_mset (onpath r v) L" by simp
    moreover have "int (size (filter_mset (onpath r v) L)) = 0" using lock_okD(2) [OF G(3), of v] e(7) that(2) by auto
    then have "filter_mset (onpath r v) L = {#}" by (simp only: of_nat_eq_0_iff size_eq_0_iff_empty)
    ultimately show False by (metis empty_iff set_mset_empty)
  qed
  have read: "get_matched_indices r' (n, l, s) = get_matched_indices r (n, l, s)" if "l \<in># L" "l \<noteq> rx_root r" for l n s
  proof -
    have "rx_root r' = l \<Longrightarrow> False"
    proof -
      assume "rx_root r' = l"
      then have "G l = []" using tree_okD(4) [OF t] by simp
      with edge_of [OF G(2) lock_okD(1) [OF G(3) that(1)] that(2)] show False by (metis list.size(3) not_less_zero)
    qed
    then show ?thesis
      using get_matched_indices_spec [OF t ll [OF that(1)]] get_matched_indices_spec [OF G(2) lock_okD(1) [OF G(3) that(1)] that(2)]
      by metis
  qed
  show ?thesis using e ll no read by blast
qed

theorem radix_evict_lru_witness:
  "\<exists>vs r'. evict 3 (demo_cache False) = Some (Inr (concat (map (nval (demo_cache False)) vs), r'))
     \<and> lru_ok (demo_cache False) vs \<and> 3 \<le> int (length (concat (map (nval (demo_cache False)) vs)))"
proof -
  have "(3 :: int) \<le> rx_evictable (demo_cache False)" by (simp add: demo_cache_def)
  from radix_evict_lru [OF demo_reach _ this] show ?thesis by auto
qed

text \<open>
  C14.  A resumed recurrent state belongs to the reused tokens: when a match returns a snapshot,
  that snapshot was attached for exactly the first \<open>cached_len\<close> tokens of the input; and
  at most \<open>max_rec_snapshots\<close> live nodes hold one.
\<close>

theorem radix_snapshot_sound:
  assumes "radix_reach r L A" "match_prefix tic now ids r = Some (Inr ((n, i, Some s), r'))"
  shows "(take n ids, s) \<in> A \<and> n \<le> length ids \<and> node_tokens r' i = take n ids
     \<and> card {j. live r' j \<and> rn_rec (rx_nodes r' j) \<noteq> None} \<le> rx_max_rec r'"
proof -
  from assms(1) obtain G where G: "radix_inv r G L" "rec_ok r G A" by (rule reach_obtain)
  from match_prefix_spec [OF G(1), of tic now ids] assms(2) obtain G' where
    m: "radix_inv r' G' L" "live r' i" "n \<le> length ids" "tokens G' i = take n ids" "ext r G r' G'"
    "\<not> rx_recurrent r \<longrightarrow> Some s = None"
    "rx_recurrent r \<longrightarrow> Some s = (if i = rx_root r then None else rn_rec (rx_nodes r' i))"
    "\<forall>j. live r' j \<longrightarrow> \<not> live r j \<longrightarrow> rn_rec (rx_nodes r' j) = None" by auto
  have ok: "rec_ok r' G' A" using rec_ok_ext [OF G(2) m(5,8)] .
  have "rn_rec (rx_nodes r' i) = Some s" using m(6,7) by (auto split: if_splits)
  then have "(take n ids, s) \<in> A" using ok m(2,4) by (auto simp: rec_ok_def)
  moreover have "{j. live r' j \<and> rn_rec (rx_nodes r' j) \<noteq> None} \<subseteq> set (rx_rec_nodes r')"
    using ok by (auto simp: rec_ok_def)
  then have "card {j. live r' j \<and> rn_rec (rx_nodes r' j) \<noteq> None} \<le> card (set (rx_rec_nodes r'))"
    by (intro card_mono) auto
  then have "card {j. live r' j \<and> rn_rec (rx_nodes r' j) \<noteq> None} \<le> rx_max_rec r'"
    using card_length [of "rx_rec_nodes r'"] ok by (simp add: rec_ok_def)
  moreover have "node_tokens r' i = take n ids"
    using node_tokens_eq [of r' G' i] m(1,2,4) by (simp add: radix_inv_def)
  ultimately show ?thesis using m(3) by blast
qed

theorem radix_snapshot_sound_witness:
  "\<exists>r r'. radix_reach r {#} {([1, 2, 3, 4], 77 :: nat)}
     \<and> match_prefix 9 10 [1, 2, 3, 4, 6] r = Some (Inr ((4, 1, Some 77), r'))
     \<and> (take 4 [1 :: int, 2, 3, 4, 6], 77 :: nat) \<in> {([1, 2, 3, 4], 77)}"
proof -
  have l: "live (demo_cache True) 1" by (simp add: live_def demo_cache_def fresh_node_def)
  from radix_reach.attach [OF demo_reach l, of 4 None "Some 77"] demo_tokens [of True]
  have re: "radix_reach (attach_rec_state (4, 1, None) (Some 77) (demo_cache True)) {#} {([1, 2, 3, 4], 77)}" by simp
  obtain r' where m: "match_prefix 9 10 [1, 2, 3, 4, 6]
      (attach_rec_state (4, 1, None) (Some 77) (demo_cache True)) = Some (Inr ((4, 1, Some 77), r'))"
    using demo_match_rec by blast
  from radix_snapshot_sound [OF re m] re m show ?thesis by blast
qed

end
