(* ===== verification/Radix_Api.thy ===== *)
theory Radix_Api
  imports Radix_Cache Prefix_Iface
begin

section \<open>The radix cache as a prefix cache\<close>

text \<open>The methods of \<open>RadixPrefixCache\<close> behind \<open>BasePrefixCache\<close>; the proof that they keep its
  contract is in \<open>Radix_Pages\<close>.\<close>

declare value_walk.simps [code] lock_walk.simps [code] tree_walk.simps [code] rec_walk.simps [code]
  chain_walk.simps [code] evict_loop.simps [code]

definition radix_ops :: "('r radix, 'r handle) cache_ops" where
  "radix_ops = \<lparr>co_match = match_prefix, co_insert = insert_prefix, co_lock = lock_handle, co_evict = evict,
     co_size = size_info, co_len = fst, co_indices = get_matched_indices, co_rec = rx_recurrent\<rparr>"

end
