(* ===== verification/Request.thy ===== *)
theory Request
  imports Prelude
begin

section \<open>Requests and table slots (core.py, scheduler/table.py)\<close>

text \<open>
  \<open>req\<close> is the class \<open>Req\<close>: the host token buffer with its filled length (\<open>input_ids\<close> is
  the prefix view of it), the page-table row, the cached and device lengths, the longest
  length it may reach, its prefix-cache handle; \<open>rq_chunked\<close> marks a \<open>ChunkedReq\<close>.
  \<open>torch.empty\<close> is an argument: a list of the asked length with arbitrary contents.
\<close>

record 'h req =
  rq_buf :: "int list"
  rq_len :: nat
  rq_prompt :: nat
  rq_table :: nat
  rq_cached :: nat
  rq_device :: nat
  rq_max :: nat
  rq_uid :: int
  rq_cache_output :: bool
  rq_handle :: 'h
  rq_chunked :: bool

definition rq_ids :: "'h req \<Rightarrow> int list" where
  "rq_ids r = take (rq_len r) (rq_buf r)"

text \<open>\<open>buf[n:n + len(xs)] = xs\<close> inside the buffer.\<close>

definition slice_assign :: "int list \<Rightarrow> nat \<Rightarrow> int list \<Rightarrow> int list" where
  "slice_assign buf n xs = take n buf @ xs @ drop (n + length xs) buf"

definition make_req ::
    "(nat \<Rightarrow> int list) \<Rightarrow> bool \<Rightarrow> int list \<Rightarrow> nat \<Rightarrow> nat \<Rightarrow> nat \<Rightarrow> int \<Rightarrow> bool \<Rightarrow> 'h \<Rightarrow> py_error + 'h req" where
  "make_req mem chunked ids table cached output uid cache_output h =
     (let n = length ids; m = n + output
      in if \<not> (cached < n \<and> n \<le> m) then Inl AssertionError
         else Inr \<lparr>rq_buf = slice_assign (mem m) 0 ids, rq_len = n, rq_prompt = n, rq_table = table,
                   rq_cached = cached, rq_device = n, rq_max = m, rq_uid = uid,
                   rq_cache_output = cache_output, rq_handle = h, rq_chunked = chunked\<rparr>)"

definition generated_ids :: "'h req \<Rightarrow> int list" where
  "generated_ids r = drop (rq_prompt r) (take (rq_len r) (rq_buf r))"

definition remain_len :: "'h req \<Rightarrow> int" where
  "remain_len r = int (rq_max r) - int (rq_device r)"

definition extend_len :: "'h req \<Rightarrow> int" where
  "extend_len r = int (rq_device r) - int (rq_cached r)"

definition can_decode :: "'h req \<Rightarrow> bool" where
  "can_decode r \<longleftrightarrow> \<not> rq_chunked r \<and> remain_len r > 0"

definition complete_one :: "'h req \<Rightarrow> 'h req" where
  "complete_one r = r\<lparr>rq_cached := rq_device r, rq_device := rq_device r + 1\<rparr>"

definition append_host_ids :: "(nat \<Rightarrow> int list) \<Rightarrow> int list \<Rightarrow> 'h req \<Rightarrow> 'h req" where
  "append_host_ids mem toks r =
     (let n = rq_len r; e = n + length toks;
          buf = (if e > length (rq_buf r)
                 then slice_assign (mem (max e (length (rq_buf r) * 2))) 0 (take n (rq_buf r))
                 else rq_buf r)
      in r\<lparr>rq_buf := slice_assign buf n toks, rq_len := e\<rparr>)"

definition append_host :: "(nat \<Rightarrow> int list) \<Rightarrow> int list \<Rightarrow> 'h req \<Rightarrow> py_error + 'h req" where
  "append_host mem toks r =
     (if rq_chunked r then Inl NotImplementedError else Inr (append_host_ids mem toks r))"

fun append_all :: "(nat \<Rightarrow> int list) \<Rightarrow> int list list \<Rightarrow> 'h req \<Rightarrow> 'h req" where
  "append_all mem [] r = r"
| "append_all mem (ts # tss) r = append_all mem tss (append_host_ids mem ts r)"

text \<open>The buffer always holds what was committed, and the other fields do not move.\<close>

definition buf_ok :: "'h req \<Rightarrow> bool" where
  "buf_ok r \<longleftrightarrow> rq_len r \<le> length (rq_buf r) \<and> rq_prompt r \<le> rq_len r"

lemma append_host_ids_spec:
  fixes toks :: "int list"
  assumes "\<And>n. length (mem n) = n" "buf_ok r"
  defines "r' \<equiv> append_host_ids mem toks r"
  shows "buf_ok r'" "rq_ids r' = rq_ids r @ toks" "rq_prompt r' = rq_prompt r" "rq_len r' = rq_len r + length toks"
    "rq_cached r' = rq_cached r" "rq_device r' = rq_device r" "rq_max r' = rq_max r"
    "rq_table r' = rq_table r" "rq_handle r' = rq_handle r"
proof -
  define buf where "buf = (if rq_len r + length toks > length (rq_buf r)
      then slice_assign (mem (max (rq_len r + length toks) (length (rq_buf r) * 2))) 0 (take (rq_len r) (rq_buf r))
      else rq_buf r)"
  have r': "r' = r\<lparr>rq_buf := slice_assign buf (rq_len r) toks, rq_len := rq_len r + length toks\<rparr>"
    by (simp add: r'_def append_host_ids_def buf_def Let_def)
  have b: "take (rq_len r) buf = take (rq_len r) (rq_buf r)" "rq_len r + length toks \<le> length buf"
    using assms(2) by (auto simp: buf_def slice_assign_def assms(1) buf_ok_def)
  then show "buf_ok r'" using assms(2) by (auto simp: r' buf_ok_def slice_assign_def)
  have "length (take (rq_len r) (rq_buf r)) = rq_len r" using assms(2) by (simp add: buf_ok_def)
  with b show "rq_ids r' = rq_ids r @ toks" by (simp add: r' rq_ids_def slice_assign_def)
  show "rq_prompt r' = rq_prompt r" "rq_len r' = rq_len r + length toks" "rq_cached r' = rq_cached r"
    "rq_device r' = rq_device r" "rq_max r' = rq_max r" "rq_table r' = rq_table r" "rq_handle r' = rq_handle r"
    by (simp_all add: r')
qed

lemma make_req_spec:
  assumes "\<And>n. length (mem n) = n" "make_req mem chunked ids table cached output uid co h = Inr r"
  shows "buf_ok r" "rq_ids r = ids" "rq_prompt r = length ids" "rq_len r = length ids" "rq_device r = length ids"
    "rq_cached r = cached" "cached < length ids" "rq_max r = length ids + output" "rq_table r = table"
    "rq_handle r = h" "rq_chunked r = chunked" "rq_uid r = uid" "rq_cache_output r = co"
  using assms by (auto simp: make_req_def buf_ok_def rq_ids_def slice_assign_def Let_def split: if_splits)

text \<open>
  The preallocated host buffer behaves like concatenation: whatever is in fresh memory,
  after any sequence of commits, past the preallocated length or not, the request's
  \<open>input_ids\<close> are its prompt followed by all committed tokens and \<open>generated_ids\<close> are the
  committed tokens.
\<close>

theorem host_buffer_is_concatenation:
  assumes "\<And>n. length (mem n) = n" "make_req mem False ids table cached output uid co h = Inr r"
  shows "rq_ids (append_all mem tss r) = ids @ concat tss \<and> generated_ids (append_all mem tss r) = concat tss"
proof -
  have *: "rq_ids (append_all mem tss r) = rq_ids r @ concat tss \<and> rq_prompt (append_all mem tss r) = rq_prompt r"
    if "buf_ok r" for r :: "'h req"
    using that
  proof (induction tss arbitrary: r)
    case (Cons ts tss)
    note s = append_host_ids_spec [OF assms(1) Cons.prems, of ts]
    from Cons.IH [OF s(1)] s(2,3) show ?case by simp
  qed simp
  note m = make_req_spec [OF assms]
  from * [OF m(1)] m(2,3) show ?thesis by (simp add: generated_ids_def flip: rq_ids_def)
qed

text \<open>A request of two tokens that may decode one more, committing three.\<close>

theorem host_buffer_is_concatenation_witness:
  "\<exists>r. make_req (\<lambda>n. replicate n 77) False [5, 6] 0 0 1 1 True () = Inr r
     \<and> rq_ids (append_all (\<lambda>n. replicate n 77) [[7], [8, 9]] r) = [5, 6, 7, 8, 9]"
proof -
  obtain r where r: "make_req (\<lambda>n. replicate n 77) False [5, 6] 0 0 1 1 True () = Inr r"
    by (simp add: make_req_def)
  from host_buffer_is_concatenation [OF _ r, of "[[7], [8, 9]]"] r show ?thesis by simp
qed

subsection \<open>The request table\<close>

text \<open>\<open>tm_pool\<close> is the token pool by row and position; the page table is the cache manager's.\<close>

record table_mgr =
  tm_max :: nat
  tm_free :: "nat list"
  tm_pool :: "nat \<Rightarrow> nat \<Rightarrow> int"

definition tm_init :: "nat \<Rightarrow> table_mgr" where
  "tm_init n = \<lparr>tm_max = n, tm_free = [0..<n], tm_pool = (\<lambda>_ _. 0)\<rparr>"

definition tm_available :: "table_mgr \<Rightarrow> nat" where
  "tm_available t = length (tm_free t)"

definition tm_allocate :: "table_mgr \<Rightarrow> py_error + (nat \<times> table_mgr)" where
  "tm_allocate t = (if tm_free t = [] then Inl IndexError
                    else Inr (last (tm_free t), t\<lparr>tm_free := butlast (tm_free t)\<rparr>))"

definition tm_free_slot :: "nat \<Rightarrow> table_mgr \<Rightarrow> table_mgr" where
  "tm_free_slot s t = t\<lparr>tm_free := tm_free t @ [s]\<rparr>"

lemma tm_allocate_mset:
  "tm_allocate t = Inr (s, t') \<Longrightarrow> mset (tm_free t) = add_mset s (mset (tm_free t'))"
proof -
  assume "tm_allocate t = Inr (s, t')"
  then have "tm_free t = tm_free t' @ [s]" by (auto simp: tm_allocate_def split: if_splits)
  then show ?thesis by simp
qed

end
