(* ===== verification/Cache_Manager.thy ===== *)
theory Cache_Manager
  imports Request Prefix_Iface
begin

section \<open>The cache manager (scheduler/cache.py)\<close>

text \<open>
  Pages of the KV cache are handed out from \<open>free_slots\<close> (the first slot of each free page),
  backed by evictions from the prefix cache; a request's slots are recorded in its row of the
  page table and go back, or into the prefix cache, in \<open>cache_req\<close>.  The page table is a
  function of row and position.  The operations are over any prefix cache \<open>K\<close>; their
  lemmas are proved once, in the context of the interface.
\<close>

record 'c cache_mgr =
  cm_free :: "int list"
  cm_cache :: 'c
  cm_pages :: nat
  cm_page :: nat
  cm_table :: "nat \<Rightarrow> nat \<Rightarrow> int"

definition cdiv :: "nat \<Rightarrow> nat \<Rightarrow> nat" where
  "cdiv a b = (a + b - 1) div b"

definition cm_init :: "'c \<Rightarrow> nat \<Rightarrow> nat \<Rightarrow> (nat \<Rightarrow> nat \<Rightarrow> int) \<Rightarrow> 'c cache_mgr" where
  "cm_init c pages page table =
     \<lparr>cm_free = map (\<lambda>q. int q * int page) [0..<pages], cm_cache = c, cm_pages = pages,
      cm_page = page, cm_table = table\<rparr>"

definition cm_available :: "('c, 'h) cache_ops \<Rightarrow> 'c cache_mgr \<Rightarrow> int" where
  "cm_available K m = fst (co_size K (cm_cache m)) + int (length (cm_free m)) * int (cm_page m)"

definition cm_match_req :: "('c, 'h) cache_ops \<Rightarrow> int \<Rightarrow> int \<Rightarrow> int list \<Rightarrow> 'c cache_mgr \<Rightarrow> ('h \<times> 'c cache_mgr) run" where
  "cm_match_req K tic now ids m =
     (if \<not> length ids > 0 then Some (Inl AssertionError)
      else bindX (co_match K tic now (take (length ids - 1) ids) (cm_cache m))
             (\<lambda>(h, c). Some (Inr (h, m\<lparr>cm_cache := c\<rparr>))))"

definition cm_lock :: "('c, 'h) cache_ops \<Rightarrow> 'h \<Rightarrow> 'c cache_mgr \<Rightarrow> 'c cache_mgr run" where
  "cm_lock K h m = bindX (co_lock K h False (cm_cache m)) (\<lambda>c. Some (Inr (m\<lparr>cm_cache := c\<rparr>)))"

definition cm_unlock :: "('c, 'h) cache_ops \<Rightarrow> 'h \<Rightarrow> 'c cache_mgr \<Rightarrow> 'c cache_mgr run" where
  "cm_unlock K h m = bindX (co_lock K h True (cm_cache m)) (\<lambda>c. Some (Inr (m\<lparr>cm_cache := c\<rparr>)))"

definition cm_free_indices :: "int list \<Rightarrow> 'c cache_mgr \<Rightarrow> 'c cache_mgr" where
  "cm_free_indices xs m = (if length xs > 0 then m\<lparr>cm_free := cm_free m @ stride (cm_page m) xs\<rparr> else m)"

definition page_to_token :: "nat \<Rightarrow> int list \<Rightarrow> int list" where
  "page_to_token page ps =
     (if page = 1 then ps else concat (map (\<lambda>p. map (\<lambda>k. p + int k) [0..<page]) ps))"

definition cm_allocate :: "('c, 'h) cache_ops \<Rightarrow> nat \<Rightarrow> 'c cache_mgr \<Rightarrow> (int list \<times> 'c cache_mgr) run" where
  "cm_allocate K needed m =
     bindX (if needed > length (cm_free m)
            then bindX (co_evict K (int (needed - length (cm_free m)) * int (cm_page m)) (cm_cache m))
                   (\<lambda>(ev, c). let m1 = m\<lparr>cm_cache := c, cm_free := cm_free m @ stride (cm_page m) ev\<rparr>
                      in if length (cm_free m1) \<ge> needed then Some (Inr m1) else Some (Inl AssertionError))
            else Some (Inr m))
       (\<lambda>m1. Some (Inr (take needed (cm_free m1), m1\<lparr>cm_free := drop needed (cm_free m1)\<rparr>)))"

text \<open>\<open>_write_page_table\<close>: the host tensors of rows and positions, then one indexed store.\<close>

definition info_positions :: "nat \<Rightarrow> (nat \<times> nat \<times> nat) list \<Rightarrow> (nat \<times> nat) list" where
  "info_positions page info = concat (map (\<lambda>(t, f, l). map (Pair t) [f * page..<l * page]) info)"

definition write_page_table ::
    "nat \<Rightarrow> (nat \<Rightarrow> nat \<Rightarrow> int) \<Rightarrow> int list \<Rightarrow> (nat \<times> nat \<times> nat) list \<Rightarrow> py_error + (nat \<Rightarrow> nat \<Rightarrow> int)" where
  "write_page_table page T allocated info =
     (let ps = info_positions page info
      in if length ps \<noteq> length allocated then Inl AssertionError
         else Inr (foldl (\<lambda>T ((t, p), v). T(t := (T t)(p := v))) T (zip ps allocated)))"

definition allocation_info :: "nat \<Rightarrow> 'h req list \<Rightarrow> (nat \<times> nat \<times> nat) list" where
  "allocation_info page reqs = concat (map (\<lambda>r.
     let f = cdiv (rq_cached r) page; l = cdiv (rq_device r) page
     in if l > f then [(rq_table r, f, l)] else []) reqs)"

definition needed_pages :: "(nat \<times> nat \<times> nat) list \<Rightarrow> nat" where
  "needed_pages info = sum_list (map (\<lambda>(t, f, l). l - f) info)"

definition allocate_paged :: "('c, 'h) cache_ops \<Rightarrow> 'h req list \<Rightarrow> 'c cache_mgr \<Rightarrow> 'c cache_mgr run" where
  "allocate_paged K reqs m =
     (let info = allocation_info (cm_page m) reqs; needed = needed_pages info
      in if needed > 0
         then bindX (cm_allocate K needed m) (\<lambda>(ps, m1).
                case write_page_table (cm_page m1) (cm_table m1) (page_to_token (cm_page m1) ps) info of
                  Inl e \<Rightarrow> Some (Inl e)
                | Inr T \<Rightarrow> Some (Inr (m1\<lparr>cm_table := T\<rparr>)))
         else Some (Inr m))"

definition cache_req ::
    "('c, 'h) cache_ops \<Rightarrow> int \<Rightarrow> int \<Rightarrow> bool \<Rightarrow> 'h req \<Rightarrow> 'c cache_mgr \<Rightarrow> ('h \<times> 'h req \<times> 'c cache_mgr) run" where
  "cache_req K tic now finished r m =
     (let insert_ids = take (rq_cached r) (rq_ids r);
          row = map (cm_table m (rq_table r)) [0..<rq_cached r];
          old = rq_handle r
      in if finished \<and> \<not> rq_cache_output r
         then bindX (cm_unlock K old m) (\<lambda>m1. Some (Inr (old, r, cm_free_indices (drop (co_len K old) row) m1)))
         else bindX (co_insert K tic now insert_ids row (cm_cache m)) (\<lambda>(n, new, c).
                bindX (cm_unlock K old (m\<lparr>cm_cache := c\<rparr>)) (\<lambda>m1.
                  let m2 = cm_free_indices (drop (co_len K old) (take n row)) m1
                  in if finished
                     then Some (Inr (new, r, cm_free_indices (drop (co_len K new) row) m2))
                     else bindX (cm_lock K new m2) (\<lambda>m3. Some (Inr (new, r\<lparr>rq_handle := new\<rparr>, m3))))))"

definition cm_check_integrity :: "('c, 'h) cache_ops \<Rightarrow> 'c cache_mgr \<Rightarrow> py_error + unit" where
  "cm_check_integrity K m =
     (if int (length (cm_free m)) + total_size (co_size K (cm_cache m)) div int (cm_page m) \<noteq> int (cm_pages m)
      then Inl RuntimeError
      else if cm_page m > 1 \<and> \<not> (\<forall>p \<in> set (cm_free m). p mod int (cm_page m) = 0) then Inl AssertionError
      else Inr ())"

text \<open>
  \<open>lazy_free_region\<close>: inside the region \<open>_free\<close> collects the strided slices; leaving it
  appends them all.
\<close>

definition lazy_free_region :: "int list list \<Rightarrow> 'c cache_mgr \<Rightarrow> 'c cache_mgr" where
  "lazy_free_region xss m = m\<lparr>cm_free := cm_free m @ concat (map (stride (cm_page m)) xss)\<rparr>"

lemma cm_free_indices_eq: "cm_free_indices xs m = m\<lparr>cm_free := cm_free m @ stride (cm_page m) xs\<rparr>"
  by (cases xs) (simp_all add: cm_free_indices_def)

lemma lazy_free_region_eager: "lazy_free_region xss m = foldl (\<lambda>m xs. cm_free_indices xs m) m xss"
proof (induction xss arbitrary: m)
  case (Cons xs xss)
  show ?case unfolding foldl_Cons Cons [symmetric] by (simp add: lazy_free_region_def cm_free_indices_eq)
qed (simp add: lazy_free_region_def)

subsection \<open>Rows and pages\<close>

lemma cdiv_mult [simp]: "0 < pg \<Longrightarrow> cdiv (k * pg) pg = k"
proof -
  assume pg: "0 < pg"
  then have "k * pg + pg - 1 = (pg - 1) + k * pg" by simp
  then show ?thesis unfolding cdiv_def \<open>k * pg + pg - 1 = _\<close> by (subst div_mult_self1) (use pg in simp_all)
qed

lemma cdiv_mono: "a \<le> b \<Longrightarrow> cdiv a pg \<le> cdiv b pg"
  unfolding cdiv_def by (intro div_le_mono) simp

lemma cdiv_ge: "0 < pg \<Longrightarrow> a \<le> cdiv a pg * pg"
  unfolding cdiv_def using dividend_less_times_div [of pg "a + pg - 1"] by (simp add: mult.commute)

lemma cdiv_less: "0 < pg \<Longrightarrow> q < cdiv a pg \<longleftrightarrow> q * pg < a"
proof
  assume pg: "0 < pg"
  show "q * pg < a" if "q < cdiv a pg"
  proof -
    have "Suc q * pg \<le> a + pg - 1" using that pg unfolding cdiv_def
      by (metis Suc_leI less_eq_div_iff_mult_less_eq)
    then show ?thesis using pg by simp
  qed
  show "q < cdiv a pg" if "q * pg < a"
  proof (rule ccontr)
    assume "\<not> q < cdiv a pg"
    then have "cdiv a pg * pg \<le> q * pg" by simp
    with cdiv_ge [OF pg, of a] that show False by simp
  qed
qed

text \<open>The pages of a row segment that starts on a page.\<close>

definition row_pages :: "nat \<Rightarrow> (nat \<Rightarrow> int) \<Rightarrow> nat \<Rightarrow> nat \<Rightarrow> int list" where
  "row_pages pg f a b = map (\<lambda>q. f (q * pg)) [a div pg..<cdiv b pg]"

lemma stride_row:
  assumes "0 < pg" "pg dvd a"
  shows "stride pg (map f [a..<b]) = row_pages pg f a b"
  using assms(2)
proof (induction "b - a" arbitrary: a rule: less_induct)
  case less
  show ?case
  proof (cases "a < b")
    case False
    then have "cdiv b pg \<le> a div pg"
      using cdiv_mono [of b a pg] less(2) assms(1) by (metis cdiv_mult dvd_div_mult_self not_le_imp_less order_less_imp_le)
    with False show ?thesis by (simp add: row_pages_def)
  next
    case True
    have "stride pg (map f [a..<b]) = f a # stride pg (drop (pg - 1) (map f [Suc a..<b]))"
      using True by (simp add: upt_conv_Cons)
    also have "drop (pg - 1) (map f [Suc a..<b]) = map f [a + pg..<b]"
      using assms(1) by (simp add: drop_map)
    also have "stride pg (map f [a + pg..<b]) = row_pages pg f (a + pg) b"
      using less(1) [of "a + pg"] True assms(1) less(2) by simp
    also have "f a # \<dots> = row_pages pg f a b"
    proof -
      have "a div pg < cdiv b pg" using True less(2) cdiv_less [OF assms(1)] by simp
      moreover have "(a + pg) div pg = Suc (a div pg)" using assms(1) div_add_self2 [of pg a] by simp
      moreover have "a div pg * pg = a" using less(2) by simp
      ultimately show ?thesis by (simp add: row_pages_def upt_conv_Cons)
    qed
    finally show ?thesis .
  qed
qed

lemma row_pages_append:
  assumes "0 < pg" "a \<le> b" "b \<le> c" "pg dvd b"
  shows "row_pages pg f a c = row_pages pg f a b @ row_pages pg f b c"
proof -
  have "cdiv b pg = b div pg" using assms(1,4) by (metis cdiv_mult dvd_div_mult_self)
  moreover have "a div pg \<le> b div pg" "cdiv b pg \<le> cdiv c pg"
    using assms(2,3) by (auto intro: div_le_mono cdiv_mono)
  ultimately show ?thesis
    using upt_add_eq_append [of "a div pg" "b div pg" "cdiv c pg - b div pg"] by (simp add: row_pages_def)
qed


subsection \<open>Writing pages into the page table\<close>

definition table_puts :: "(nat \<Rightarrow> nat \<Rightarrow> int) \<Rightarrow> ((nat \<times> nat) \<times> int) list \<Rightarrow> nat \<Rightarrow> nat \<Rightarrow> int" where
  "table_puts T ws = foldl (\<lambda>T ((t, p), v). T(t := (T t)(p := v))) T ws"

lemma table_puts_append: "table_puts T (xs @ ys) = table_puts (table_puts T xs) ys"
  by (simp add: table_puts_def)

lemma table_puts_other: "(t, p) \<notin> fst ` set ws \<Longrightarrow> table_puts T ws t p = T t p"
  by (induction ws rule: rev_induct) (auto simp: table_puts_def split: prod.splits)

lemma table_puts_row:
  assumes "length vs = l - f" "q < l - f"
  shows "table_puts T (zip (map (Pair t) [f..<l]) vs) t (f + q) = vs ! q"
  using assms
proof (induction "l - f" arbitrary: l vs q)
  case (Suc n)
  then obtain l' where l: "l = Suc l'" "f \<le> l'" "n = l' - f" by (cases l) auto
  from Suc.prems l obtain ws v where vs: "vs = ws @ [v]" "length ws = l' - f"
    by (metis Suc.hyps(2) append_butlast_last_id diff_Suc_1 length_0_conv length_butlast nat.distinct(1))
  have "map (Pair t) [f..<l] = map (Pair t) [f..<l'] @ [(t, l')]" using l by simp
  then have *: "table_puts T (zip (map (Pair t) [f..<l]) vs) = table_puts (table_puts T (zip (map (Pair t) [f..<l']) ws)) [((t, l'), v)]"
    using vs(2) by (simp add: vs(1) table_puts_append)
  show ?case
  proof (cases "q = l' - f")
    case True
    then show ?thesis using * vs l by (simp add: table_puts_def nth_append)
  next
    case False
    then have q: "q < l' - f" using Suc.prems l by simp
    then have "f + q \<noteq> l'" by simp
    with Suc.hyps(1) [OF l(3) vs(2) q] * vs q show ?thesis by (simp add: table_puts_def nth_append)
  qed
qed simp

lemma page_to_token_length: "length (page_to_token pg ps) = pg * length ps"
proof (cases "pg = 1")
  case False
  have "length (concat (map (\<lambda>p. map (\<lambda>k. p + int k) [0..<pg]) ps)) = pg * length ps"
    by (induction ps) simp_all
  with False show ?thesis by (simp add: page_to_token_def)
qed (simp add: page_to_token_def)

lemma page_to_token_append: "page_to_token pg (ps @ qs) = page_to_token pg ps @ page_to_token pg qs"
  by (simp add: page_to_token_def)

lemma page_to_token_nth:
  assumes "0 < pg" "q < length ps" "k < pg"
  shows "page_to_token pg ps ! (q * pg + k) = ps ! q + int k"
  using assms(2)
proof (induction ps arbitrary: q)
  case (Cons p ps)
  have c: "page_to_token pg (p # ps) = page_to_token pg [p] @ page_to_token pg ps"
    using page_to_token_append [of pg "[p]" ps] by simp
  have l: "length (page_to_token pg [p]) = pg" using page_to_token_length [of pg "[p]"] by simp
  show ?case
  proof (cases q)
    case 0
    then show ?thesis using assms(3) l by (auto simp: c nth_append page_to_token_def)
  next
    case (Suc q')
    have i: "q * pg + k = length (page_to_token pg [p]) + (q' * pg + k)" using Suc l by simp
    have "page_to_token pg (p # ps) ! (q * pg + k) = page_to_token pg ps ! (q' * pg + k)"
      unfolding c i nth_append_length_plus ..
    with Cons Suc show ?thesis by simp
  qed
qed simp

lemma map_nth_upt: "n \<le> length xs \<Longrightarrow> map (\<lambda>q. xs ! (q - f)) [f..<f + n] = take n xs"
  by (auto intro!: nth_equalityI)

text \<open>Every new page goes to the pages of the rows it was allocated for, slot by slot.\<close>

lemma write_page_table_spec:
  assumes "0 < pg" "distinct (map fst info)" "\<forall>(t, f, l) \<in> set info. f \<le> l" "length ps = needed_pages info"
  shows "\<exists>T'. write_page_table pg T (page_to_token pg ps) info = Inr T'
     \<and> concat (map (\<lambda>(t, f, l). map (\<lambda>q. T' t (q * pg)) [f..<l]) info) = ps
     \<and> (\<forall>(t, f, l) \<in> set info. \<forall>q k. f \<le> q \<longrightarrow> q < l \<longrightarrow> k < pg \<longrightarrow> T' t (q * pg + k) = T' t (q * pg) + int k)
     \<and> (\<forall>t p. (\<forall>(t', f, l) \<in> set info. t = t' \<longrightarrow> p < f * pg \<or> l * pg \<le> p) \<longrightarrow> T' t p = T t p)"
  using assms(2-)
proof (induction info arbitrary: ps T)
  case Nil
  then show ?case by (simp add: write_page_table_def info_positions_def needed_pages_def page_to_token_def)
next
  case (Cons e info)
  obtain t f l where e: "e = (t, f, l)" by (cases e)
  let ?n = "l - f"
  have fl: "f \<le> l" using Cons.prems(2) e by simp
  define as bs where "as = take ?n ps" and "bs = drop ?n ps"
  have ps: "ps = as @ bs" "length as = ?n" "length bs = needed_pages info"
    using Cons.prems(3) by (auto simp: as_def bs_def needed_pages_def e)
  let ?w = "zip (map (Pair t) [f * pg..<l * pg]) (page_to_token pg as)"
  define T1 where "T1 = table_puts T ?w"
  have la: "length (page_to_token pg as) = l * pg - f * pg"
    using ps(2) by (simp add: page_to_token_length diff_mult_distrib mult.commute [of pg])
  have d: "distinct (map fst info)" "\<forall>(t', f, l) \<in> set info. t' \<noteq> t" "\<forall>(t, f, l) \<in> set info. f \<le> l"
    using Cons.prems(1,2) e by force+
  from Cons.IH [OF d(1,3) ps(3), of T1] obtain T' where
    T': "write_page_table pg T1 (page_to_token pg bs) info = Inr T'"
    "concat (map (\<lambda>(t, f, l). map (\<lambda>q. T' t (q * pg)) [f..<l]) info) = bs"
    "\<forall>(t, f, l) \<in> set info. \<forall>q k. f \<le> q \<longrightarrow> q < l \<longrightarrow> k < pg \<longrightarrow> T' t (q * pg + k) = T' t (q * pg) + int k"
    "\<forall>t p. (\<forall>(t', f, l) \<in> set info. t = t' \<longrightarrow> p < f * pg \<or> l * pg \<le> p) \<longrightarrow> T' t p = T1 t p" by blast
  have pos: "info_positions pg (e # info) = map (Pair t) [f * pg..<l * pg] @ info_positions pg info"
    by (simp add: info_positions_def e)
  have zip: "zip (info_positions pg (e # info)) (page_to_token pg ps) = ?w @ zip (info_positions pg info) (page_to_token pg bs)"
    unfolding pos ps(1) page_to_token_append by (subst zip_append) (simp_all add: la)
  have w: "write_page_table pg T (page_to_token pg ps) (e # info) = Inr T'"
    using T'(1) la zip unfolding write_page_table_def T1_def
    by (auto simp: Let_def pos ps(1) page_to_token_append table_puts_def split: if_splits)
  have row: "T' t p = T1 t p" for p using T'(4) d(2) by fastforce
  have at: "T1 t (q * pg + k) = as ! (q - f) + int k" if "f \<le> q" "q < l" "k < pg" for q k
  proof -
    have "f * pg \<le> q * pg" using that(1) by (rule mult_le_mono1)
    then have i: "q * pg + k = f * pg + ((q - f) * pg + k)" unfolding diff_mult_distrib by linarith
    have "(q - f) * pg + k < (q - f) * pg + pg" using that(3) by simp
    also have "\<dots> = Suc (q - f) * pg" by simp
    also have "\<dots> \<le> (l - f) * pg" using that by (intro mult_le_mono1) simp
    finally have "(q - f) * pg + k < l * pg - f * pg" by (simp add: diff_mult_distrib)
    from table_puts_row [OF la this, of T t] have "T1 t (q * pg + k) = page_to_token pg as ! ((q - f) * pg + k)"
      unfolding T1_def i .
    also have "\<dots> = as ! (q - f) + int k" using that ps(2) assms(1) by (intro page_to_token_nth) auto
    finally show ?thesis .
  qed
  have "map (\<lambda>q. T' t (q * pg)) [f..<l] = map (\<lambda>q. as ! (q - f)) [f..<l]"
    using at [where k = 0] assms(1) by (auto simp: row)
  also have "\<dots> = as" using map_nth_upt [of ?n as f] ps(2) fl by simp
  finally have c: "concat (map (\<lambda>(t, f, l). map (\<lambda>q. T' t (q * pg)) [f..<l]) (e # info)) = ps"
    using T'(2) ps(1) e by simp
  have slot: "\<forall>(t, f, l) \<in> set (e # info). \<forall>q k. f \<le> q \<longrightarrow> q < l \<longrightarrow> k < pg \<longrightarrow> T' t (q * pg + k) = T' t (q * pg) + int k"
    using T'(3) at at [where k = 0] assms(1) by (auto simp: e row)
  have "T' t' p = T t' p" if o: "\<forall>(t'', f, l) \<in> set (e # info). t' = t'' \<longrightarrow> p < f * pg \<or> l * pg \<le> p" for t' p
  proof -
    have "T' t' p = T1 t' p" using T'(4) o by auto
    also have "\<dots> = T t' p" unfolding T1_def
      using o e by (intro table_puts_other) (force dest: set_zip_leftD)
    finally show ?thesis .
  qed
  with w c slot show ?case by blast
qed


subsection \<open>The manager over any prefix cache\<close>

definition own_pages :: "('c, 'h) cache_ops \<Rightarrow> 'c cache_mgr \<Rightarrow> 'h req \<Rightarrow> nat \<Rightarrow> int list" where
  "own_pages K m r b = row_pages (cm_page m) (cm_table m (rq_table r)) (co_len K (rq_handle r)) b"

lemma needed_pages_eq: "needed_pages info = length (concat (map (\<lambda>(t, f, l). map (\<lambda>q. g t q) [f..<l]) info))"
  by (induction info) (auto simp: needed_pages_def split: prod.splits)

lemma allocation_info_concat:
  "concat (map (\<lambda>(t, f, l). map (\<lambda>q. T t (q * pg)) [f..<l]) (allocation_info pg reqs))
   = concat (map (\<lambda>r. map (\<lambda>q. T (rq_table r) (q * pg)) [cdiv (rq_cached r) pg..<cdiv (rq_device r) pg]) reqs)"
  by (induction reqs) (auto simp: allocation_info_def Let_def)

lemma allocation_info_set:
  "(t, f, l) \<in> set (allocation_info pg reqs) \<longleftrightarrow>
   (\<exists>r \<in> set reqs. t = rq_table r \<and> f = cdiv (rq_cached r) pg \<and> l = cdiv (rq_device r) pg \<and> f < l)"
  by (auto simp: allocation_info_def Let_def split: if_splits)

lemma allocation_info_distinct:
  "distinct (map rq_table reqs) \<Longrightarrow> distinct (map fst (allocation_info pg reqs))"
proof (induction reqs)
  case (Cons r reqs)
  have "rq_table r \<notin> fst ` set (allocation_info pg reqs)"
    using Cons.prems allocation_info_set [of _ _ _ pg reqs] by force
  moreover have "allocation_info pg (r # reqs) = (if cdiv (rq_device r) pg > cdiv (rq_cached r) pg
      then [(rq_table r, cdiv (rq_cached r) pg, cdiv (rq_device r) pg)] else []) @ allocation_info pg reqs"
    by (simp add: allocation_info_def Let_def)
  ultimately show ?case using Cons by simp
qed (simp add: allocation_info_def)

context prefix_cache
begin

lemma cm_allocate_spec:
  assumes "inv (cm_cache m) L P" "cm_page m = pg" "int (needed * pg) \<le> cm_available K m"
  shows "\<exists>ps m' Q. cm_allocate K needed m = Some (Inr (ps, m')) \<and> length ps = needed \<and> inv (cm_cache m') L Q
     \<and> mset ps + mset (cm_free m') + Q = mset (cm_free m) + P \<and> cm_table m' = cm_table m \<and> cm_page m' = pg
     \<and> cm_pages m' = cm_pages m \<and> (\<forall>g \<in># L. tok (cm_cache m') g = tok (cm_cache m) g)"
proof -
  have split: "mset (take needed xs) + mset (drop needed xs) = mset xs" for xs :: "int list"
    by (metis append_take_drop_id mset_append)
  show ?thesis
  proof (cases "needed > length (cm_free m)")
    case False
    then show ?thesis using assms split [of "cm_free m"]
      by (intro exI [of _ "take needed (cm_free m)"] exI [of _ "m\<lparr>cm_free := drop needed (cm_free m)\<rparr>"] exI [of _ P])
        (simp add: cm_allocate_def)
  next
    case True
    let ?need = "int (needed - length (cm_free m)) * int pg"
    have "0 \<le> ?need" by simp
    moreover have "?need \<le> fst (co_size K (cm_cache m))"
      using assms(2,3) True by (simp add: cm_available_def of_nat_diff algebra_simps)
    ultimately have n: "0 \<le> ?need" "?need \<le> fst (co_size K (cm_cache m))" .
    from evict_law [OF assms(1) n] obtain out c Q where e: "co_evict K ?need (cm_cache m) = Some (Inr (out, c))"
      "inv c L Q" "P = Q + mset (stride pg out)" "?need \<le> int (length out)" "pg dvd length out"
      "\<forall>g \<in># L. tok c g = tok (cm_cache m) g" by blast
    let ?free = "cm_free m @ stride pg out"
    have "int ((needed - length (cm_free m)) * pg) \<le> int (length (stride pg out) * pg)"
      using e(4) length_stride [OF page_pos [OF assms(1)] e(5)] by (simp add: mult.commute)
    then have "needed \<le> length ?free"
      using page_pos [OF assms(1)] by (simp only: of_nat_le_iff mult_le_cancel2) simp
    then show ?thesis using e True assms(2) split [of ?free]
      by (intro exI [of _ "take needed ?free"] exI [of _ "m\<lparr>cm_cache := c, cm_free := drop needed ?free\<rparr>"] exI [of _ Q])
        (auto simp: cm_allocate_def Let_def ac_simps)
  qed
qed

lemma allocate_paged_spec:
  assumes "inv (cm_cache m) L P" "cm_page m = pg" "distinct (map rq_table reqs)"
    and "int (needed_pages (allocation_info pg reqs) * pg) \<le> cm_available K m"
  shows "\<exists>m' Q. allocate_paged K reqs m = Some (Inr m') \<and> inv (cm_cache m') L Q
     \<and> mset (cm_free m') + Q + mset (concat (map (\<lambda>r.
          map (\<lambda>q. cm_table m' (rq_table r) (q * pg)) [cdiv (rq_cached r) pg..<cdiv (rq_device r) pg]) reqs))
       = mset (cm_free m) + P
     \<and> (\<forall>t p. (\<forall>r \<in> set reqs. t = rq_table r \<longrightarrow> p < cdiv (rq_cached r) pg * pg) \<longrightarrow> cm_table m' t p = cm_table m t p)
     \<and> cm_page m' = pg \<and> cm_pages m' = cm_pages m \<and> (\<forall>g \<in># L. tok (cm_cache m') g = tok (cm_cache m) g)"
proof -
  let ?info = "allocation_info pg reqs"
  have len: "needed_pages ?info = length (concat (map (\<lambda>r.
      map (\<lambda>q. T (rq_table r) (q * pg)) [cdiv (rq_cached r) pg..<cdiv (rq_device r) pg]) reqs))" for T :: "nat \<Rightarrow> nat \<Rightarrow> int"
    unfolding allocation_info_concat [symmetric] by (rule needed_pages_eq)
  show ?thesis
  proof (cases "needed_pages ?info > 0")
    case False
    then have "concat (map (\<lambda>r. map (\<lambda>q. cm_table m (rq_table r) (q * pg)) [cdiv (rq_cached r) pg..<cdiv (rq_device r) pg]) reqs) = []"
      using len [of "cm_table m"] by simp
    moreover have "allocate_paged K reqs m = Some (Inr m)"
      using False assms(2) by (simp add: allocate_paged_def)
    ultimately show ?thesis using assms(1,2) by (intro exI [of _ m] exI [of _ P]) (simp only: mset.simps add_0_right, simp)
  next
    case True
    from cm_allocate_spec [OF assms(1,2,4)] obtain ps m1 Q where
      a: "cm_allocate K (needed_pages ?info) m = Some (Inr (ps, m1))" "length ps = needed_pages ?info"
      "inv (cm_cache m1) L Q" "mset ps + mset (cm_free m1) + Q = mset (cm_free m) + P" "cm_table m1 = cm_table m"
      "cm_page m1 = pg" "cm_pages m1 = cm_pages m" "\<forall>g \<in># L. tok (cm_cache m1) g = tok (cm_cache m) g" by blast
    have fl: "\<forall>(t, f, l) \<in> set ?info. f \<le> l" by (auto simp: allocation_info_set)
    from write_page_table_spec [OF page_pos [OF assms(1)] allocation_info_distinct [OF assms(3)] fl a(2), of "cm_table m"]
    obtain T where T: "write_page_table pg (cm_table m) (page_to_token pg ps) ?info = Inr T"
      "concat (map (\<lambda>(t, f, l). map (\<lambda>q. T t (q * pg)) [f..<l]) ?info) = ps"
      "\<forall>t p. (\<forall>(t', f, l) \<in> set ?info. t = t' \<longrightarrow> p < f * pg \<or> l * pg \<le> p) \<longrightarrow> T t p = cm_table m t p" by blast
    have al: "allocate_paged K reqs m = Some (Inr (m1\<lparr>cm_table := T\<rparr>))"
      using True assms(2) a(1,5,6) T(1) by (simp add: allocate_paged_def Let_def)
    have "T t p = cm_table m t p" if "\<forall>r \<in> set reqs. t = rq_table r \<longrightarrow> p < cdiv (rq_cached r) pg * pg" for t p
      using T(3) that by (fastforce simp: allocation_info_set)
    then show ?thesis
      using al a(3,4,6,7,8) T(2) unfolding allocation_info_concat
      by (intro exI [of _ "m1\<lparr>cm_table := T\<rparr>"] exI [of _ Q]) (simp add: ac_simps)
  qed
qed

end


text \<open>
  What \<open>cache_req\<close> does to a request whose pages reach its cached length: nothing is lost,
  nothing appears twice.
\<close>

context prefix_cache
begin

lemma row_slice:
  assumes "inv c L P" "pg dvd a" "b \<le> n"
  shows "stride pg (drop a (take b (map f [0..<n]))) = row_pages pg f a b"
proof -
  have "drop a (take b (map f [0..<n])) = map f [a..<b]" using assms(3) by (simp add: drop_map take_map)
  then show ?thesis using stride_row [OF page_pos [OF assms(1)] assms(2)] by simp
qed

lemma cache_req_spec:
  assumes "inv (cm_cache m) L P" "cm_page m = pg" "rq_handle r \<in># L"
    and "co_len K (rq_handle r) \<le> rq_cached r" "rq_cached r \<le> length (rq_ids r)"
    and "tok (cm_cache m) (rq_handle r) = take (co_len K (rq_handle r)) (rq_ids r)"
  shows "\<exists>h r' m' Q. cache_req K tic now finished r m = Some (Inr (h, r', m')) \<and> cm_table m' = cm_table m
     \<and> cm_page m' = pg \<and> cm_pages m' = cm_pages m \<and> r' = r\<lparr>rq_handle := rq_handle r'\<rparr>
     \<and> inv (cm_cache m') (if finished then L - {#rq_handle r#} else add_mset (rq_handle r') (L - {#rq_handle r#})) Q
     \<and> (\<forall>g. ok (cm_cache m) g \<longrightarrow> tok (cm_cache m') g = tok (cm_cache m) g)
     \<and> (if finished then r' = r \<and> mset (cm_free m') + Q = mset (cm_free m) + P + mset (own_pages K m r (rq_cached r))
        else h = rq_handle r' \<and> co_len K h \<le> rq_cached r \<and> tok (cm_cache m') h = take (co_len K h) (rq_ids r)
          \<and> mset (cm_free m') + Q + mset (own_pages K m r' (rq_cached r))
            = mset (cm_free m) + P + mset (own_pages K m r (rq_cached r)))"
proof -
  let ?old = "rq_handle r" and ?f = "cm_table m (rq_table r)" and ?n = "rq_cached r"
  let ?row = "map ?f [0..<?n]" and ?ids = "take ?n (rq_ids r)"
  have pg: "0 < pg" using page_pos [OF assms(1)] .
  have od: "ok (cm_cache m) ?old" using locked_ok [OF assms(1,3)] .
  have dvd: "pg dvd co_len K ?old" using ok_len [OF assms(1) od] by blast
  have rest: "drop (co_len K g) ?row = drop (co_len K g) (take ?n ?row)" for g by simp
  show ?thesis
  proof (cases "finished \<and> \<not> rq_cache_output r")
    case True
    from unlock_law [OF assms(1,3)] obtain c where c: "co_lock K ?old True (cm_cache m) = Some (Inr c)"
      "inv c (L - {#?old#}) P" "\<forall>g. ok (cm_cache m) g \<longrightarrow> ok c g \<and> tok c g = tok (cm_cache m) g" by blast
    let ?m = "cm_free_indices (drop (co_len K ?old) ?row) (m\<lparr>cm_cache := c\<rparr>)"
    have "mset (cm_free ?m) = mset (cm_free m) + mset (own_pages K m r ?n)"
      using row_slice [OF assms(1) dvd, of ?n ?n ?f] assms(2)
      by (simp add: cm_free_indices_eq own_pages_def rest [symmetric])
    then show ?thesis using True c assms(2)
      by (intro exI [of _ ?old] exI [of _ r] exI [of _ ?m] exI [of _ P])
        (simp add: cache_req_def cm_unlock_def Let_def cm_free_indices_eq ac_simps)
  next
    case caching: False
    have "length ?ids = length ?row" using assms(5) by simp
    from insert_law [OF assms(1) this, of tic now] obtain n new c1 where
      i: "co_insert K tic now ?ids ?row (cm_cache m) = Some (Inr (n, new, c1))" "ok c1 new"
      "inv c1 L (P + mset (stride pg (drop n (take (co_len K new) ?row))))"
      "n \<le> co_len K new" "co_len K new \<le> length ?ids" "pg dvd n" "tok c1 new = take (co_len K new) ?ids"
      "\<forall>g. ok (cm_cache m) g \<longrightarrow> ok c1 g \<and> tok c1 g = tok (cm_cache m) g"
      "\<forall>g. ok (cm_cache m) g \<longrightarrow> co_len K g \<le> length ?ids \<longrightarrow> tok (cm_cache m) g = take (co_len K g) ?ids \<longrightarrow> co_len K g \<le> n"
      by blast
    have nl: "co_len K new \<le> ?n" using i(5) by simp
    have on: "co_len K ?old \<le> n" using i(9) od assms(4,5,6) by simp
    have nd: "pg dvd co_len K new" using ok_len [OF i(3,2)] by blast
    from unlock_law [OF i(3) assms(3)] obtain c2 where c2: "co_lock K ?old True c1 = Some (Inr c2)"
      "inv c2 (L - {#?old#}) (P + mset (stride pg (drop n (take (co_len K new) ?row))))"
      "\<forall>g. ok c1 g \<longrightarrow> ok c2 g \<and> tok c2 g = tok c1 g" by blast
    let ?Q = "P + mset (row_pages pg ?f n (co_len K new))"
    have inv2: "inv c2 (L - {#?old#}) ?Q" using c2(2) row_slice [OF assms(1) i(6) nl, where f = ?f] by simp
    let ?m2 = "m\<lparr>cm_cache := c2, cm_free := cm_free m @ row_pages pg ?f (co_len K ?old) n\<rparr>"
    have m2: "cm_free_indices (drop (co_len K ?old) (take n ?row)) (m\<lparr>cm_cache := c2\<rparr>) = ?m2"
      using row_slice [OF assms(1) dvd order_trans [OF i(4) nl], where f = ?f] assms(2) by (simp add: cm_free_indices_eq)
    have own: "own_pages K m r ?n = row_pages pg ?f (co_len K ?old) n @ row_pages pg ?f n (co_len K new)
        @ row_pages pg ?f (co_len K new) ?n"
      using row_pages_append [OF pg on order_trans [OF i(4) nl] i(6)] row_pages_append [OF pg i(4) nl nd] assms(2)
      by (simp add: own_pages_def)
    have keep: "\<forall>g. ok (cm_cache m) g \<longrightarrow> ok c2 g \<and> tok c2 g = tok (cm_cache m) g" using i(8) c2(3) by simp
    have tn: "tok c2 new = take (co_len K new) (rq_ids r)" using i(2,7) c2(3) nl by simp
    show ?thesis
    proof (cases finished)
      case True
      let ?m3 = "?m2\<lparr>cm_free := cm_free ?m2 @ row_pages pg ?f (co_len K new) ?n\<rparr>"
      have "cm_free_indices (drop (co_len K new) ?row) ?m2 = ?m3"
        using row_slice [OF assms(1) nd, of ?n ?n ?f] assms(2) by (simp add: cm_free_indices_eq rest [symmetric])
      then have "cache_req K tic now finished r m = Some (Inr (new, r, ?m3))"
        using i(1) c2(1) True caching m2 by (simp add: cache_req_def cm_unlock_def Let_def del: take_map drop_map)
      with True inv2 keep own assms(2) show ?thesis
        by (intro exI [of _ new] exI [of _ r] exI [of _ ?m3] exI [of _ ?Q]) (simp add: ac_simps)
    next
      case False
      have "ok c2 new" using i(2) c2(3) by blast
      from lock_law [OF inv2 this] obtain c3 where c3: "co_lock K new False c2 = Some (Inr c3)"
        "inv c3 (add_mset new (L - {#?old#})) ?Q" "\<forall>g. ok c2 g \<longrightarrow> ok c3 g \<and> tok c3 g = tok c2 g" by blast
      let ?r = "r\<lparr>rq_handle := new\<rparr>" and ?m3 = "?m2\<lparr>cm_cache := c3\<rparr>"
      have cr: "cache_req K tic now finished r m = Some (Inr (new, ?r, ?m3))"
        using i(1) c2(1) c3(1) False m2 by (simp add: cache_req_def cm_unlock_def cm_lock_def Let_def del: take_map drop_map)
      have "own_pages K m ?r ?n = row_pages pg ?f (co_len K new) ?n" using assms(2) by (simp add: own_pages_def)
      moreover have "tok c3 new = take (co_len K new) (rq_ids r)" using tn c3(3) \<open>ok c2 new\<close> by simp
      moreover have "\<forall>g. ok (cm_cache m) g \<longrightarrow> tok c3 g = tok (cm_cache m) g" using keep c3(3) by simp
      ultimately show ?thesis using cr False c3(2) own nl assms(2)
        by (intro exI [of _ new] exI [of _ ?r] exI [of _ ?m3] exI [of _ ?Q]) (simp add: ac_simps)
    qed
  qed
qed

end

end
