(* ===== verification/Prefill.thy ===== *)
theory Prefill
  imports Cache_Manager
begin

section \<open>Prefill scheduling (scheduler/prefill.py, scheduler/utils.py, multimodal.py)\<close>

text \<open>
  \<open>pending\<close> is \<open>PendingReq\<close> (its image state reduced to the image spans), \<open>adder\<close> is
  \<open>PrefillAdder\<close> with the managers it mutates, \<open>prefill_mgr\<close> is \<open>PrefillManager\<close>.
  \<open>chunk_size\<close> collects the successive roundings of \<open>_add_one_req\<close>.  The clock readings of
  successive cache operations are given by \<open>clk\<close>.
\<close>

record 'h pending =
  pd_uid :: int
  pd_ids :: "int list"
  pd_output :: nat
  pd_cache_output :: bool
  pd_chunked :: "'h req option"
  pd_mm :: "(int \<times> int) list option"

record 'c adder =
  pa_budget :: int
  pa_reserved :: int
  pa_cache :: "'c cache_mgr"
  pa_table :: table_mgr
  pa_others :: nat
  pa_gran :: int

definition SHORT_REQ_RESERVE :: int where
  "SHORT_REQ_RESERVE = 256"

definition MIN_CHUNK :: int where
  "MIN_CHUNK = 256"

fun clip_chunk_end :: "(int \<times> int) list \<Rightarrow> int \<Rightarrow> int \<Rightarrow> int" where
  "clip_chunk_end [] start e = e"
| "clip_chunk_end ((a, b) # spans) start e =
     (if a < e \<and> e < b then (if a > start then a else b) else clip_chunk_end spans start e)"

definition clip_chunk :: "(int \<times> int) list option \<Rightarrow> int \<Rightarrow> int \<Rightarrow> int \<Rightarrow> int" where
  "clip_chunk mm input_len cached c =
     (case mm of None \<Rightarrow> c
      | Some spans \<Rightarrow> if cached + c < input_len then clip_chunk_end spans cached (cached + c) - cached else c)"

definition chunk_size ::
    "bool \<Rightarrow> int \<Rightarrow> int \<Rightarrow> nat \<Rightarrow> int \<Rightarrow> (int \<times> int) list option \<Rightarrow> int \<Rightarrow> int \<Rightarrow> int option" where
  "chunk_size recurrent page gran others budget mm input_len cached =
     (let remain = input_len - cached;
          c0 = min budget remain;
          c1 = (if others > 0 \<and> c0 < remain \<and> budget > SHORT_REQ_RESERVE + MIN_CHUNK
                then min c0 (budget - SHORT_REQ_RESERVE) else c0);
          e1 = align_down (cached + c1) page;
          c2 = (if recurrent \<and> cached < e1 \<and> e1 < input_len then e1 - cached else c1);
          e2 = align_down (cached + c2) gran
      in if gran > 1 \<and> cached + c2 < input_len
         then (if e2 \<le> cached then None else Some (clip_chunk mm input_len cached (e2 - cached)))
         else Some (clip_chunk mm input_len cached c2))"

definition copy_row :: "nat \<Rightarrow> nat \<Rightarrow> int list \<Rightarrow> (nat \<Rightarrow> nat \<Rightarrow> int) \<Rightarrow> nat \<Rightarrow> nat \<Rightarrow> int" where
  "copy_row t a xs T = T(t := (\<lambda>p. if a \<le> p \<and> p < a + length xs then xs ! (p - a) else T t p))"

definition try_allocate_one ::
    "('c, 'h) cache_ops \<Rightarrow> int \<times> int \<Rightarrow> 'h pending \<Rightarrow> 'c adder \<Rightarrow> (('h \<times> nat) option \<times> 'c adder) run" where
  "try_allocate_one K clk p ad =
     (if tm_available (pa_table ad) = 0 then Some (Inr (None, ad))
      else bindX (cm_match_req K (fst clk) (snd clk) (pd_ids p) (pa_cache ad)) (\<lambda>(h, m).
        let est = int (length (pd_ids p)) - int (co_len K h) + int (pd_output p)
        in if est + pa_reserved ad > cm_available K m then Some (Inr (None, ad\<lparr>pa_cache := m\<rparr>))
           else bindX (cm_lock K h m) (\<lambda>m1.
             if est + pa_reserved ad > cm_available K m1
             then bindX (cm_unlock K h m1) (\<lambda>m2. Some (Inr (None, ad\<lparr>pa_cache := m2\<rparr>)))
             else case tm_allocate (pa_table ad) of
               Inl e \<Rightarrow> Some (Inl e)
             | Inr (t, tm) \<Rightarrow>
                 if co_len K h > 0
                 then bindX (co_indices K (cm_cache m1) h) (\<lambda>idx.
                        Some (Inr (Some (h, t), ad\<lparr>
                          pa_cache := m1\<lparr>cm_table := copy_row t 0 idx (cm_table m1)\<rparr>,
                          pa_table := tm\<lparr>tm_pool := copy_row t 0 (take (co_len K h) (pd_ids p)) (tm_pool tm)\<rparr>\<rparr>)))
                 else Some (Inr (Some (h, t), ad\<lparr>pa_cache := m1, pa_table := tm\<rparr>)))))"

definition add_one_req ::
    "('c, 'h) cache_ops \<Rightarrow> (nat \<Rightarrow> int list) \<Rightarrow> 'h pending \<Rightarrow> 'h \<Rightarrow> nat \<Rightarrow> nat \<Rightarrow> 'c adder \<Rightarrow> ('h req option \<times> 'c adder) run" where
  "add_one_req K mem p h t cached ad =
     (let remain = int (length (pd_ids p)) - int cached
      in case chunk_size (co_rec K (cm_cache (pa_cache ad))) (int (cm_page (pa_cache ad))) (pa_gran ad) (pa_others ad)
                (pa_budget ad) (pd_mm p) (int (length (pd_ids p))) (int cached) of
           None \<Rightarrow> Some (Inr (None, ad))
         | Some c \<Rightarrow>
             (case make_req mem (c < remain) (take (nat (int cached + c)) (pd_ids p)) t cached (pd_output p)
                     (pd_uid p) (pd_cache_output p) h of
                Inl e \<Rightarrow> Some (Inl e)
              | Inr r \<Rightarrow> Some (Inr (Some r, ad\<lparr>
                  pa_budget := pa_budget ad - c,
                  pa_reserved := pa_reserved ad + remain + int (pd_output p),
                  pa_table := (pa_table ad)\<lparr>tm_pool :=
                    copy_row t cached (take (nat c) (drop cached (pd_ids p))) (tm_pool (pa_table ad))\<rparr>\<rparr>))))"

definition try_add_one ::
    "('c, 'h) cache_ops \<Rightarrow> (nat \<Rightarrow> int list) \<Rightarrow> int \<times> int \<Rightarrow> 'h pending \<Rightarrow> 'c adder \<Rightarrow> ('h req option \<times> 'c adder) run" where
  "try_add_one K mem clk p ad =
     (if pa_budget ad \<le> 0 then Some (Inr (None, ad))
      else case pd_chunked p of
        Some r \<Rightarrow> add_one_req K mem p (rq_handle r) (rq_table r) (rq_cached r) ad
      | None \<Rightarrow> bindX (try_allocate_one K clk p ad) (\<lambda>(res, ad1). case res of
          None \<Rightarrow> Some (Inr (None, ad1))
        | Some (h, t) \<Rightarrow> bindX (add_one_req K mem p h t (co_len K h) ad1) (\<lambda>(q, ad2). case q of
            None \<Rightarrow> bindX (cm_unlock K h (pa_cache ad2)) (\<lambda>m.
                      Some (Inr (None, ad2\<lparr>pa_cache := m, pa_table := tm_free_slot t (pa_table ad2)\<rparr>)))
          | Some r \<Rightarrow> Some (Inr (Some r, ad2)))))"

record 'h prefill_mgr =
  pm_pending :: "'h pending list"
  pm_hit :: nat
  pm_prompt :: nat
  pm_gran :: int

definition pm_add_one_req :: "'h pending \<Rightarrow> 'h prefill_mgr \<Rightarrow> 'h prefill_mgr" where
  "pm_add_one_req p pm = pm\<lparr>pm_pending := pm_pending pm @ [p]\<rparr>"

text \<open>The packing loop: the admitted requests, the ones to continue, the hit counters.\<close>

fun pack ::
    "('c, 'h) cache_ops \<Rightarrow> (nat \<Rightarrow> int list) \<Rightarrow> (nat \<Rightarrow> int \<times> int) \<Rightarrow> nat \<Rightarrow> 'h pending list \<Rightarrow> 'c adder \<Rightarrow>
     'h req list \<Rightarrow> 'h pending list \<Rightarrow> nat \<Rightarrow> nat \<Rightarrow> ('h req list \<times> 'h pending list \<times> nat \<times> nat \<times> 'c adder) run" where
  "pack K mem clk i [] ad reqs chunked hit prompt = Some (Inr (reqs, chunked, hit, prompt, ad))"
| "pack K mem clk i (p # ps) ad reqs chunked hit prompt =
     bindX (try_add_one K mem (clk i) p ad) (\<lambda>(q, ad1). case q of
       None \<Rightarrow> Some (Inr (reqs, chunked, hit, prompt, ad1))
     | Some r \<Rightarrow>
         (let fresh = (pd_chunked p = None)
          in pack K mem clk (Suc i) ps ad1 (reqs @ [r])
               (if rq_chunked r then chunked @ [p\<lparr>pd_chunked := Some r\<rparr>] else chunked)
               (if fresh then hit + rq_cached r else hit)
               (if fresh then prompt + length (pd_ids p) else prompt)))"

definition schedule_prefill ::
    "('c, 'h) cache_ops \<Rightarrow> (nat \<Rightarrow> int list) \<Rightarrow> (nat \<Rightarrow> int \<times> int) \<Rightarrow> int \<Rightarrow> int \<Rightarrow> 'h prefill_mgr \<Rightarrow> 'c cache_mgr \<Rightarrow>
     table_mgr \<Rightarrow> ('h req list option \<times> 'h prefill_mgr \<times> 'c cache_mgr \<times> table_mgr) run" where
  "schedule_prefill K mem clk budget inflight pm m tm =
     (if pm_pending pm = [] then Some (Inr (None, pm, m, tm))
      else bindX (pack K mem clk 0 (pm_pending pm)
             \<lparr>pa_budget = budget, pa_reserved = inflight, pa_cache = m, pa_table = tm,
              pa_others = length (pm_pending pm) - 1, pa_gran = pm_gran pm\<rparr> [] [] (pm_hit pm) (pm_prompt pm))
        (\<lambda>(reqs, chunked, hit, prompt, ad).
           let pm1 = pm\<lparr>pm_hit := hit, pm_prompt := prompt\<rparr>
           in if reqs = [] then Some (Inr (None, pm1, pa_cache ad, pa_table ad))
              else Some (Inr (Some reqs, pm1\<lparr>pm_pending := chunked @ drop (length reqs) (pm_pending pm)\<rparr>,
                              pa_cache ad, pa_table ad))))"

fun abort_pending :: "int \<Rightarrow> 'h pending list \<Rightarrow> 'h req option \<times> 'h pending list" where
  "abort_pending uid [] = (None, [])"
| "abort_pending uid (p # ps) =
     (if pd_uid p = uid then (pd_chunked p, ps)
      else (let (r, qs) = abort_pending uid ps in (r, p # qs)))"

definition pm_abort_req :: "int \<Rightarrow> 'h prefill_mgr \<Rightarrow> 'h req option \<times> 'h prefill_mgr" where
  "pm_abort_req uid pm = (let (r, ps) = abort_pending uid (pm_pending pm) in (r, pm\<lparr>pm_pending := ps\<rparr>))"

end
