(* ===== verification/Page_System.thy ===== *)
theory Page_System
  imports Prefill
begin

section \<open>Pages through the life of requests\<close>

text \<open>
  The composition of the scheduler's memory: admission by \<open>try_add_one\<close>, chunk continuation,
  page allocation for a batch, a forward pass, committed tokens, and \<open>cache_req\<close> with or
  without the end of the request.  A live request comes with the length its pages reach: its
  cached length, or its device length between allocation and forward.  The invariant: every
  page is free, or in the prefix cache, or in exactly one live request's row.
\<close>

record ('c, 'h) sys =
  sy_mgr :: "'c cache_mgr"
  sy_tab :: table_mgr
  sy_live :: "('h req \<times> nat) list"

inductive sys_step :: "('c, 'h) cache_ops \<Rightarrow> (nat \<Rightarrow> int list) \<Rightarrow> ('c, 'h) sys \<Rightarrow> ('c, 'h) sys \<Rightarrow> bool"
  for K mem where
  admit: "pd_chunked p = None \<Longrightarrow> pd_ids p \<noteq> [] \<Longrightarrow> pa_cache ad = sy_mgr s \<Longrightarrow> pa_table ad = sy_tab s \<Longrightarrow>
    try_add_one K mem clk p ad = Some (Inr (Some r, ad')) \<Longrightarrow>
    sys_step K mem s \<lparr>sy_mgr = pa_cache ad', sy_tab = pa_table ad', sy_live = (r, rq_cached r) # sy_live s\<rparr>"
| refuse: "pd_chunked p = None \<Longrightarrow> pd_ids p \<noteq> [] \<Longrightarrow> pa_cache ad = sy_mgr s \<Longrightarrow> pa_table ad = sy_tab s \<Longrightarrow>
    try_add_one K mem clk p ad = Some (Inr (None, ad')) \<Longrightarrow>
    sys_step K mem s (s\<lparr>sy_mgr := pa_cache ad', sy_tab := pa_table ad'\<rparr>)"
| continue: "sy_live s = xs @ (r0, rq_cached r0) # ys \<Longrightarrow> pd_chunked p = Some r0 \<Longrightarrow>
    rq_ids r0 = take (length (rq_ids r0)) (pd_ids p) \<Longrightarrow> rq_cached r0 \<le> length (rq_ids r0) \<Longrightarrow>
    pa_cache ad = sy_mgr s \<Longrightarrow> pa_table ad = sy_tab s \<Longrightarrow>
    try_add_one K mem clk p ad = Some (Inr (Some r, ad')) \<Longrightarrow>
    sys_step K mem s \<lparr>sy_mgr = pa_cache ad', sy_tab = pa_table ad', sy_live = xs @ (r, rq_cached r) # ys\<rparr>"
| allocate: "mset (sy_live s) = mset (map (\<lambda>r. (r, rq_cached r)) bs) + mset rest \<Longrightarrow>
    allocate_paged K bs (sy_mgr s) = Some (Inr m) \<Longrightarrow>
    int (needed_pages (allocation_info (cm_page (sy_mgr s)) bs) * cm_page (sy_mgr s)) \<le> cm_available K (sy_mgr s) \<Longrightarrow>
    sys_step K mem s (s\<lparr>sy_mgr := m, sy_live := map (\<lambda>r. (r, rq_device r)) bs @ rest\<rparr>)"
| forward: "sy_live s = xs @ (r, rq_device r) # ys \<Longrightarrow>
    sys_step K mem s (s\<lparr>sy_live := xs @ (complete_one r, rq_device r) # ys\<rparr>)"
| commit: "sy_live s = xs @ (r, a) # ys \<Longrightarrow> append_host mem toks r = Inr r' \<Longrightarrow>
    sys_step K mem s (s\<lparr>sy_live := xs @ (r', a) # ys\<rparr>)"
| cache: "sy_live s = xs @ (r, rq_cached r) # ys \<Longrightarrow> rq_cached r \<le> length (rq_ids r) \<Longrightarrow>
    cache_req K tic now False r (sy_mgr s) = Some (Inr (h, r', m)) \<Longrightarrow>
    sys_step K mem s (s\<lparr>sy_mgr := m, sy_live := xs @ (r', rq_cached r) # ys\<rparr>)"
| finish: "sy_live s = xs @ (r, rq_cached r) # ys \<Longrightarrow> rq_cached r \<le> length (rq_ids r) \<Longrightarrow>
    cache_req K tic now True r (sy_mgr s) = Some (Inr (h, r', m)) \<Longrightarrow>
    sys_step K mem s (s\<lparr>sy_mgr := m, sy_tab := tm_free_slot (rq_table r) (sy_tab s), sy_live := xs @ ys\<rparr>)"

inductive sys_reach :: "('c, 'h) cache_ops \<Rightarrow> (nat \<Rightarrow> int list) \<Rightarrow> ('c, 'h) sys \<Rightarrow> ('c, 'h) sys \<Rightarrow> bool"
  for K mem s0 where
  start: "sys_reach K mem s0 s0"
| step: "sys_reach K mem s0 s \<Longrightarrow> sys_step K mem s s' \<Longrightarrow> sys_reach K mem s0 s'"

definition sys_init :: "'c \<Rightarrow> nat \<Rightarrow> nat \<Rightarrow> nat \<Rightarrow> (nat \<Rightarrow> nat \<Rightarrow> int) \<Rightarrow> ('c, 'h) sys" where
  "sys_init c pages page rows table =
     \<lparr>sy_mgr = cm_init c pages page table, sy_tab = tm_init rows, sy_live = []\<rparr>"

definition live_pages :: "('c, 'h) cache_ops \<Rightarrow> 'c cache_mgr \<Rightarrow> ('h req \<times> nat) list \<Rightarrow> int multiset" where
  "live_pages K m xs = mset (concat (map (\<lambda>(r, a). own_pages K m r a) xs))"

definition all_pages :: "nat \<Rightarrow> nat \<Rightarrow> int multiset" where
  "all_pages pages page = mset (map (\<lambda>q. int q * int page) [0..<pages])"

lemma live_pages_simps [simp]:
  "live_pages K m [] = {#}"
  "live_pages K m ((r, a) # xs) = mset (own_pages K m r a) + live_pages K m xs"
  "live_pages K m (xs @ ys) = live_pages K m xs + live_pages K m ys"
  by (simp_all add: live_pages_def)

lemma live_pages_mset: "live_pages K m xs = (\<Sum>(r, a) \<in># mset xs. mset (own_pages K m r a))"
  by (induction xs) auto

lemma live_pages_cong:
  assumes "\<And>r a. (r, a) \<in> set xs \<Longrightarrow> own_pages K m' r a = own_pages K m r a"
  shows "live_pages K m' xs = live_pages K m xs"
  using assms by (induction xs) auto

lemma own_pages_cong:
  assumes "cm_page m' = cm_page m" "0 < cm_page m"
    and "\<And>p. p < a \<Longrightarrow> cm_table m' (rq_table r) p = cm_table m (rq_table r) p"
  shows "own_pages K m' r a = own_pages K m r a"
proof -
  have "cm_table m' (rq_table r) (q * cm_page m) = cm_table m (rq_table r) (q * cm_page m)" if "q < cdiv a (cm_page m)" for q
    using that cdiv_less [OF assms(2)] assms(3) by blast
  then show ?thesis by (simp add: own_pages_def row_pages_def assms(1))
qed

text \<open>What holds of one live request, and of its row.\<close>

definition req_ok :: "('c, 'h) cache_ops \<Rightarrow> ('c \<Rightarrow> 'h \<Rightarrow> int list) \<Rightarrow> 'c \<Rightarrow> 'h req \<times> nat \<Rightarrow> bool" where
  "req_ok K tok c x = (case x of (r, a) \<Rightarrow>
     buf_ok r \<and> co_len K (rq_handle r) \<le> rq_cached r \<and> rq_cached r \<le> rq_device r \<and> (a = rq_cached r \<or> a = rq_device r)
     \<and> co_len K (rq_handle r) \<le> length (rq_ids r)
     \<and> tok c (rq_handle r) = take (co_len K (rq_handle r)) (rq_ids r))"

definition handles :: "('h req \<times> nat) list \<Rightarrow> 'h multiset" where
  "handles xs = mset (map (rq_handle \<circ> fst) xs)"

definition rows :: "('h req \<times> nat) list \<Rightarrow> nat multiset" where
  "rows xs = mset (map (rq_table \<circ> fst) xs)"

lemma handles_simps [simp]:
  "handles [] = {#}" "handles (x # xs) = add_mset (rq_handle (fst x)) (handles xs)"
  "handles (xs @ ys) = handles xs + handles ys"
  by (simp_all add: handles_def)

lemma rows_simps [simp]:
  "rows [] = {#}" "rows (x # xs) = add_mset (rq_table (fst x)) (rows xs)"
  "rows (xs @ ys) = rows xs + rows ys"
  by (simp_all add: rows_def)


subsection \<open>The steps, over any prefix cache\<close>

lemma add_one_reqD:
  assumes "add_one_req K mem p h t cached ad = Some (Inr (q, ad'))" "\<And>n. length (mem n) = n"
  shows "pa_cache ad' = pa_cache ad \<and> tm_free (pa_table ad') = tm_free (pa_table ad)
     \<and> tm_max (pa_table ad') = tm_max (pa_table ad)
     \<and> (case q of None \<Rightarrow> True | Some r \<Rightarrow> buf_ok r \<and> rq_handle r = h \<and> rq_table r = t \<and> rq_cached r = cached
          \<and> cached < rq_device r \<and> rq_device r = length (rq_ids r)
          \<and> rq_ids r = take (length (rq_ids r)) (pd_ids p))"
proof -
  from assms(1) consider "q = None" "ad' = ad" | c r where "q = Some r"
      "make_req mem (c < int (length (pd_ids p)) - int cached) (take (nat (int cached + c)) (pd_ids p)) t cached
         (pd_output p) (pd_uid p) (pd_cache_output p) h = Inr r"
      "pa_cache ad' = pa_cache ad" "tm_free (pa_table ad') = tm_free (pa_table ad)" "tm_max (pa_table ad') = tm_max (pa_table ad)"
    by (auto simp: add_one_req_def Let_def split: option.splits sum.splits)
  then show ?thesis
  proof cases
    case (2 c r)
    note m = make_req_spec [OF assms(2) 2(2)]
    have "take (length (take k xs)) xs = take k xs" for k and xs :: "int list" by (simp add: min_def)
    then have "rq_ids r = take (length (rq_ids r)) (pd_ids p)" using m(2) by metis
    with 2 m show ?thesis by simp
  qed simp
qed

context prefix_cache
begin

lemma try_allocate_one_spec:
  assumes "inv (cm_cache (pa_cache ad)) L P" "pd_ids p \<noteq> []"
  shows "\<exists>res ad' c'. try_allocate_one K clk p ad = Some (Inr (res, ad')) \<and> cm_cache (pa_cache ad') = c'
     \<and> cm_free (pa_cache ad') = cm_free (pa_cache ad) \<and> cm_page (pa_cache ad') = cm_page (pa_cache ad)
     \<and> cm_pages (pa_cache ad') = cm_pages (pa_cache ad) \<and> tm_max (pa_table ad') = tm_max (pa_table ad)
     \<and> (\<forall>g. ok (cm_cache (pa_cache ad)) g \<longrightarrow> tok c' g = tok (cm_cache (pa_cache ad)) g)
     \<and> (case res of None \<Rightarrow> inv c' L P \<and> tm_free (pa_table ad') = tm_free (pa_table ad)
            \<and> cm_table (pa_cache ad') = cm_table (pa_cache ad)
        | Some (h, t) \<Rightarrow> inv c' (add_mset h L) P \<and> ok c' h \<and> co_len K h < length (pd_ids p)
            \<and> tok c' h = take (co_len K h) (pd_ids p)
            \<and> tm_free (pa_table ad) = tm_free (pa_table ad') @ [t]
            \<and> (\<forall>u. u \<noteq> t \<longrightarrow> cm_table (pa_cache ad') u = cm_table (pa_cache ad) u)
            \<and> pa_reserved ad + int (length (pd_ids p)) - int (co_len K h) + int (pd_output p)
               \<le> cm_available K (pa_cache ad'))"
proof (cases "tm_available (pa_table ad) = 0")
  case True
  then show ?thesis using assms(1) by (simp add: try_allocate_one_def)
next
  case avail: False
  let ?m = "pa_cache ad" and ?ids = "pd_ids p"
  from match_law [OF assms(1), of "fst clk" "snd clk" "take (length ?ids - 1) ?ids"] obtain h c1 where
    m: "co_match K (fst clk) (snd clk) (take (length ?ids - 1) ?ids) (cm_cache ?m) = Some (Inr (h, c1))"
    "inv c1 L P" "ok c1 h" "co_len K h \<le> length (take (length ?ids - 1) ?ids)"
    "tok c1 h = take (co_len K h) (take (length ?ids - 1) ?ids)" "\<forall>g. ok (cm_cache ?m) g \<longrightarrow> ok c1 g \<and> tok c1 g = tok (cm_cache ?m) g"
    by blast
  have len: "co_len K h < length ?ids" using m(4) assms(2) by (cases ?ids) auto
  have "co_len K h \<le> length ?ids - 1" using m(4) by simp
  then have th: "tok c1 h = take (co_len K h) ?ids" using m(5) by (simp only: take_take min.absorb1)
  define est where "est = int (length ?ids) - int (co_len K h) + int (pd_output p)"
  let ?m1 = "?m\<lparr>cm_cache := c1\<rparr>"
  have mr: "cm_match_req K (fst clk) (snd clk) ?ids ?m = Some (Inr (h, ?m1))"
    using m(1) assms(2) by (simp add: cm_match_req_def)
  note un = try_allocate_one_def
  show ?thesis
  proof (cases "est + pa_reserved ad > cm_available K ?m1")
    case True
    then have "try_allocate_one K clk p ad = Some (Inr (None, ad\<lparr>pa_cache := ?m1\<rparr>))"
      using avail mr by (simp add: un Let_def est_def)
    then show ?thesis using m(2,6) by simp
  next
    case fits: False
    from lock_law [OF m(2,3)] obtain c2 where c2: "co_lock K h False c1 = Some (Inr c2)" "inv c2 (add_mset h L) P"
      "\<forall>g. ok c1 g \<longrightarrow> ok c2 g \<and> tok c2 g = tok c1 g" by blast
    let ?m2 = "?m\<lparr>cm_cache := c2\<rparr>"
    have lk: "cm_lock K h ?m1 = Some (Inr ?m2)" using c2(1) by (simp add: cm_lock_def)
    show ?thesis
    proof (cases "est + pa_reserved ad > cm_available K ?m2")
      case True
      from unlock_law [OF c2(2), of h] obtain c3 where c3: "co_lock K h True c2 = Some (Inr c3)" "inv c3 L P"
        "\<forall>g. ok c2 g \<longrightarrow> ok c3 g \<and> tok c3 g = tok c2 g" by auto
      have "try_allocate_one K clk p ad = Some (Inr (None, ad\<lparr>pa_cache := ?m\<lparr>cm_cache := c3\<rparr>\<rparr>))"
        using avail mr fits lk True c3(1) by (simp add: un Let_def est_def cm_unlock_def)
      then show ?thesis using m(6) c2(3) c3(2,3) by simp
    next
      case fits2: False
      from avail obtain t tm where t: "tm_allocate (pa_table ad) = Inr (t, tm)"
        by (auto simp: tm_available_def tm_allocate_def)
      then have free: "tm_free (pa_table ad) = tm_free tm @ [t]" "tm_max tm = tm_max (pa_table ad)"
        by (auto simp: tm_allocate_def split: if_splits)
      have kept: "\<forall>g. ok (cm_cache ?m) g \<longrightarrow> tok c2 g = tok (cm_cache ?m) g" using m(6) c2(3) by simp
      have h: "ok c2 h" "tok c2 h = take (co_len K h) ?ids" using c2(3) m(3) th by auto
      have av: "cm_available K ?m2 = cm_available K (?m2\<lparr>cm_table := T\<rparr>)" for T by (simp add: cm_available_def)
      have bud: "pa_reserved ad + int (length ?ids) - int (co_len K h) + int (pd_output p) \<le> cm_available K ?m2"
        using fits2 by (simp add: est_def)
      show ?thesis
      proof (cases "co_len K h > 0")
        case True
        from indices_law [OF c2(2) h(1) True] obtain xs where
          xs: "co_indices K c2 h = Some (Inr xs)" "length xs = co_len K h" by blast
        let ?ad = "ad\<lparr>pa_cache := ?m2\<lparr>cm_table := copy_row t 0 xs (cm_table ?m2)\<rparr>,
            pa_table := tm\<lparr>tm_pool := copy_row t 0 (take (co_len K h) ?ids) (tm_pool tm)\<rparr>\<rparr>"
        have "try_allocate_one K clk p ad = Some (Inr (Some (h, t), ?ad))"
          using avail mr fits lk fits2 t True xs(1) by (simp add: un Let_def est_def)
        moreover have "\<forall>u. u \<noteq> t \<longrightarrow> copy_row t 0 xs (cm_table ?m) u = cm_table ?m u" by (simp add: copy_row_def)
        ultimately show ?thesis using c2(2) kept h len free bud av
          by (intro exI [of _ "Some (h, t)"] exI [of _ ?ad] exI [of _ c2]) simp
      next
        case False
        then have "try_allocate_one K clk p ad = Some (Inr (Some (h, t), ad\<lparr>pa_cache := ?m2, pa_table := tm\<rparr>))"
          using avail mr fits lk fits2 t by (simp add: un Let_def est_def)
        then show ?thesis using c2(2) kept h len free bud
          by (intro exI [of _ "Some (h, t)"] exI [of _ "ad\<lparr>pa_cache := ?m2, pa_table := tm\<rparr>"] exI [of _ c2]) simp
      qed
    qed
  qed
qed

end


subsection \<open>The invariant\<close>

definition sys_ok :: "('c, 'h) cache_ops \<Rightarrow> ('c \<Rightarrow> 'h multiset \<Rightarrow> int multiset \<Rightarrow> bool) \<Rightarrow> ('c \<Rightarrow> 'h \<Rightarrow> int list) \<Rightarrow>
    nat \<Rightarrow> nat \<Rightarrow> ('c, 'h) sys \<Rightarrow> int multiset \<Rightarrow> bool" where
  "sys_ok K I tok pg N s P \<longleftrightarrow>
     I (cm_cache (sy_mgr s)) (handles (sy_live s)) P \<and> cm_page (sy_mgr s) = pg \<and> cm_pages (sy_mgr s) = N
     \<and> mset (cm_free (sy_mgr s)) + P + live_pages K (sy_mgr s) (sy_live s) = all_pages N pg
     \<and> mset (tm_free (sy_tab s)) + rows (sy_live s) = mset [0..<tm_max (sy_tab s)]
     \<and> (\<forall>x \<in> set (sy_live s). req_ok K tok (cm_cache (sy_mgr s)) x)"

lemma mset_sub_distinct: "mset xs + A = mset ys \<Longrightarrow> distinct ys \<Longrightarrow> distinct xs"
  by (metis distinct_append mset_append ex_mset mset_eq_imp_distinct_iff)

lemma count_upt: "count (mset [0..<n]) x \<le> 1"
  using distinct_count_atmost_1 [of "[0..<n]"] by simp

lemma rows_in: "(r, a) \<in> set xs \<Longrightarrow> rq_table r \<in># rows xs"
  by (force simp: rows_def)

lemma rows_split:
  assumes "F + rows (xs @ (r, a) # ys) = mset [0..<n]" "(q, b) \<in> set (xs @ ys)"
  shows "rq_table q \<noteq> rq_table r"
proof
  assume eq: "rq_table q = rq_table r"
  have "rq_table q \<in># rows (xs @ ys)" using rows_in [OF assms(2)] .
  then obtain M where M: "rows (xs @ ys) = add_mset (rq_table r) M" by (metis eq mset_add)
  from assms(1) have "mset [0..<n] = F + add_mset (rq_table r) (add_mset (rq_table r) M)"
    using M by (simp add: ac_simps)
  then have "2 \<le> count (mset [0..<n]) (rq_table r)" by simp
  moreover have "count (mset [0..<n]) (rq_table r) \<le> 1" by (rule count_upt)
  ultimately show False by simp
qed

lemma row_fresh:
  assumes "mset (F @ [u]) + rows xs = mset [0..<n]"
  shows "u \<notin># rows xs"
proof
  assume "u \<in># rows xs"
  then obtain M where "rows xs = add_mset u M" by (metis mset_add)
  then have "mset [0..<n] = mset F + add_mset u (add_mset u M)" using assms by simp
  then have "2 \<le> count (mset [0..<n]) u" by simp
  moreover have "count (mset [0..<n]) u \<le> 1" by (rule count_upt)
  ultimately show False by simp
qed

lemma req_ok_keep:
  assumes "req_ok K tok c (r, a)" "tok c' (rq_handle r) = tok c (rq_handle r)"
  shows "req_ok K tok c' (r, a)"
  using assms by (simp add: req_ok_def)

lemma row_pages_self: "0 < pg \<Longrightarrow> pg dvd a \<Longrightarrow> row_pages pg f a a = []"
  by (metis cdiv_mult dvd_div_mult_self list.simps(8) row_pages_def upt_rec less_irrefl)

lemma row_pages_extend:
  assumes "0 < pg" "pg dvd a" "a \<le> b" "b \<le> c" "\<And>p. p < cdiv b pg * pg \<Longrightarrow> g p = f p"
  shows "row_pages pg g a c = row_pages pg f a b @ map (\<lambda>q. g (q * pg)) [cdiv b pg..<cdiv c pg]"
proof -
  have "a div pg \<le> cdiv b pg" using cdiv_mono [OF assms(3), of pg] assms(1,2) by (metis cdiv_mult dvd_div_mult_self)
  then have "[a div pg..<cdiv c pg] = [a div pg..<cdiv b pg] @ [cdiv b pg..<cdiv c pg]"
    using upt_add_eq_append [of "a div pg" "cdiv b pg" "cdiv c pg - cdiv b pg"] cdiv_mono [OF assms(4), of pg] by simp
  then show ?thesis using assms(1,5) by (simp add: row_pages_def)
qed

context prefix_cache
begin

lemma req_okD:
  assumes "sys_ok K inv tok pg N s P" "(r, a) \<in> set (sy_live s)"
  shows "ok (cm_cache (sy_mgr s)) (rq_handle r)" "pg dvd co_len K (rq_handle r)" "rq_handle r \<in># handles (sy_live s)"
proof -
  show h: "rq_handle r \<in># handles (sy_live s)" using assms(2) by (force simp: handles_def)
  have i: "inv (cm_cache (sy_mgr s)) (handles (sy_live s)) P" using assms(1) by (simp add: sys_ok_def)
  show o: "ok (cm_cache (sy_mgr s)) (rq_handle r)" using locked_ok [OF i h] .
  show "pg dvd co_len K (rq_handle r)" using ok_len [OF i o] by blast
qed

lemma admit_ok:
  assumes "sys_ok K inv tok pg N s P" "\<And>n. length (mem n) = n" "pd_chunked p = None" "pd_ids p \<noteq> []"
    and "pa_cache ad = sy_mgr s" "pa_table ad = sy_tab s" "try_add_one K mem clk p ad = Some (Inr (q, ad'))"
  shows "case q of
      None \<Rightarrow> sys_ok K inv tok pg N (s\<lparr>sy_mgr := pa_cache ad', sy_tab := pa_table ad'\<rparr>) P
    | Some r \<Rightarrow> sys_ok K inv tok pg N \<lparr>sy_mgr = pa_cache ad', sy_tab = pa_table ad', sy_live = (r, rq_cached r) # sy_live s\<rparr> P"
proof -
  let ?m = "sy_mgr s" and ?L = "handles (sy_live s)"
  note S = assms(1) [unfolded sys_ok_def]
  have pg: "0 < pg" using S page_pos by blast
  have i: "inv (cm_cache (pa_cache ad)) ?L P" using S assms(5) by simp
  from try_allocate_one_spec [OF i assms(4), of clk] obtain res ad1 c' where
    t: "try_allocate_one K clk p ad = Some (Inr (res, ad1))" "cm_cache (pa_cache ad1) = c'"
    "cm_free (pa_cache ad1) = cm_free (pa_cache ad)" "cm_page (pa_cache ad1) = cm_page (pa_cache ad)"
    "cm_pages (pa_cache ad1) = cm_pages (pa_cache ad)" "tm_max (pa_table ad1) = tm_max (pa_table ad)"
    "\<forall>g. ok (cm_cache (pa_cache ad)) g \<longrightarrow> tok c' g = tok (cm_cache (pa_cache ad)) g" and
    cs: "case res of None \<Rightarrow> inv c' ?L P \<and> tm_free (pa_table ad1) = tm_free (pa_table ad)
            \<and> cm_table (pa_cache ad1) = cm_table (pa_cache ad)
        | Some (h, t) \<Rightarrow> inv c' (add_mset h ?L) P \<and> ok c' h \<and> co_len K h < length (pd_ids p)
            \<and> tok c' h = take (co_len K h) (pd_ids p)
            \<and> tm_free (pa_table ad) = tm_free (pa_table ad1) @ [t]
            \<and> (\<forall>u. u \<noteq> t \<longrightarrow> cm_table (pa_cache ad1) u = cm_table (pa_cache ad) u)
            \<and> pa_reserved ad + int (length (pd_ids p)) - int (co_len K h) + int (pd_output p)
               \<le> cm_available K (pa_cache ad1)" by blast
  have ad: "cm_free (pa_cache ad1) = cm_free ?m" "cm_page (pa_cache ad1) = pg" "cm_pages (pa_cache ad1) = N"
    "tm_max (pa_table ad1) = tm_max (sy_tab s)" "\<forall>g. ok (cm_cache ?m) g \<longrightarrow> tok c' g = tok (cm_cache ?m) g"
    using t S assms(5,6) by auto
  note t = t(1,2) ad
  have n: "res = None \<Longrightarrow> inv c' ?L P \<and> tm_free (pa_table ad1) = tm_free (sy_tab s) \<and> cm_table (pa_cache ad1) = cm_table ?m"
    using cs assms(5,6) by simp
  have h: "res = Some (h, u) \<Longrightarrow> inv c' (add_mset h ?L) P \<and> ok c' h \<and> co_len K h < length (pd_ids p)
            \<and> tok c' h = take (co_len K h) (pd_ids p) \<and> tm_free (sy_tab s) = tm_free (pa_table ad1) @ [u]
            \<and> (\<forall>v. v \<noteq> u \<longrightarrow> cm_table (pa_cache ad1) v = cm_table ?m v)" for h u
    using cs assms(5,6) by simp
  have old: "req_ok K tok c' x" if "x \<in> set (sy_live s)" for x
  proof (cases x)
    case (Pair r a)
    with that show ?thesis
      using S req_okD(1) [OF assms(1), of r a] t(7) by (auto intro: req_ok_keep)
  qed
  have same: "live_pages K m' (sy_live s) = live_pages K ?m (sy_live s)"
    if "cm_page m' = pg" "\<And>v. v \<in># rows (sy_live s) \<Longrightarrow> cm_table m' v = cm_table ?m v" for m' :: "'c cache_mgr"
    by (rule live_pages_cong) (use that S pg in \<open>auto intro!: own_pages_cong dest: rows_in\<close>)
  consider "q = None" "ad' = ad" | "res = None" "q = None" "ad' = ad1"
    | ha u ad2 where "res = Some (ha, u)" "add_one_req K mem p ha u (co_len K ha) ad1 = Some (Inr (q, ad2))"
      "q \<noteq> None" "ad' = ad2"
    | ha u ad2 m3 where "res = Some (ha, u)" "add_one_req K mem p ha u (co_len K ha) ad1 = Some (Inr (None, ad2))"
      "q = None" "cm_unlock K ha (pa_cache ad2) = Some (Inr m3)" "ad' = ad2\<lparr>pa_cache := m3, pa_table := tm_free_slot u (pa_table ad2)\<rparr>"
    using assms(7,3) t(1) unfolding try_add_one_def by (auto simp: bindX_Inr split: if_splits option.splits)
  then show ?thesis
  proof cases
    case 1
    have "s\<lparr>sy_mgr := sy_mgr s, sy_tab := sy_tab s\<rparr> = s" by simp
    with 1 assms(1,5,6) show ?thesis by simp
  next
    case 2
    with t n [OF 2(1)] old S same [OF t(4)] show ?thesis by (simp add: sys_ok_def)
  next
    case (3 ha u ad2)
    then obtain r where r: "q = Some r" by blast
    note A = add_one_reqD [OF 3(2) assms(2), unfolded r option.case]
    note H = h [OF 3(1)]
    have nu: "u \<notin># rows (sy_live s)" by (rule row_fresh [where F = "tm_free (pa_table ad1)" and n = "tm_max (sy_tab s)"]) (use S H in simp)
    have "pg dvd co_len K ha" using ok_len [of c' "add_mset ha ?L" P ha] H by blast
    then have own: "own_pages K (pa_cache ad1) r (rq_cached r) = []"
      using A t(4) row_pages_self [OF pg] by (simp add: own_pages_def)
    have "live_pages K (pa_cache ad1) (sy_live s) = live_pages K ?m (sy_live s)"
      using same [OF t(4)] H nu by metis
    moreover have "rq_ids r = take (length (rq_ids r)) (pd_ids p)" "co_len K ha \<le> length (rq_ids r)" using A by auto
    then have "take (co_len K ha) (pd_ids p) = take (co_len K ha) (rq_ids r)" by (metis min.absorb1 take_take)
    then have "req_ok K tok c' (r, rq_cached r)" using A H by (simp add: req_ok_def)
    ultimately show ?thesis using r 3(4) A H t S old own
      by (simp add: sys_ok_def ac_simps)
  next
    case (4 ha u ad2 m3)
    note A = add_one_reqD [OF 4(2) assms(2)]
    note H = h [OF 4(1)]
    from unlock_law [of c' "add_mset ha ?L" P ha] H obtain c3 where c3: "co_lock K ha True c' = Some (Inr c3)"
      "inv c3 ?L P" "\<forall>g. ok c' g \<longrightarrow> ok c3 g \<and> tok c3 g = tok c' g" by auto
    have m3: "m3 = (pa_cache ad1)\<lparr>cm_cache := c3\<rparr>" using 4(4) c3(1) A t(2) by (auto simp: cm_unlock_def)
    have "live_pages K m3 (sy_live s) = live_pages K ?m (sy_live s)"
    proof (rule same)
      fix v assume v: "v \<in># rows (sy_live s)"
      have "u \<notin># rows (sy_live s)" by (rule row_fresh [where F = "tm_free (pa_table ad1)" and n = "tm_max (sy_tab s)"]) (use S H in simp)
      with v H show "cm_table m3 v = cm_table ?m v" by (auto simp: m3)
    qed (simp add: m3 t(4))
    moreover have "req_ok K tok c3 x" if "x \<in> set (sy_live s)" for x
    proof (cases x)
      case (Pair r a)
      have "ok c' (rq_handle r)"
        using locked_ok [of c' "add_mset ha ?L" P "rq_handle r"] H req_okD(3) [OF assms(1), of r a] that Pair by simp
      with old [OF that] c3(3) Pair show ?thesis by (auto intro: req_ok_keep)
    qed
    ultimately show ?thesis using 4 A H t S c3(2) by (simp add: sys_ok_def m3 tm_free_slot_def ac_simps)
  qed
qed

end


context prefix_cache
begin

lemma continue_ok:
  assumes "sys_ok K inv tok pg N s P" "\<And>n. length (mem n) = n"
    and "sy_live s = xs @ (r0, rq_cached r0) # ys" "pd_chunked p = Some r0"
    and "rq_ids r0 = take (length (rq_ids r0)) (pd_ids p)" "rq_cached r0 \<le> length (rq_ids r0)"
    and "pa_cache ad = sy_mgr s" "pa_table ad = sy_tab s" "try_add_one K mem clk p ad = Some (Inr (Some r, ad'))"
  shows "sys_ok K inv tok pg N \<lparr>sy_mgr = pa_cache ad', sy_tab = pa_table ad', sy_live = xs @ (r, rq_cached r) # ys\<rparr> P"
proof -
  have "add_one_req K mem p (rq_handle r0) (rq_table r0) (rq_cached r0) ad = Some (Inr (Some r, ad'))"
    using assms(4,9) by (auto simp: try_add_one_def split: if_splits)
  note A = add_one_reqD [OF this assms(2), unfolded option.case]
  have r0: "req_ok K tok (cm_cache (sy_mgr s)) (r0, rq_cached r0)" using assms(1,3) by (simp add: sys_ok_def)
  have "co_len K (rq_handle r0) \<le> length (rq_ids r)" using A r0 by (simp add: req_ok_def)
  moreover have "take (co_len K (rq_handle r0)) (rq_ids r0) = take (co_len K (rq_handle r0)) (pd_ids p)"
    using r0 assms(5) by (metis (no_types, lifting) case_prod_conv min.absorb1 req_ok_def take_take)
  moreover have "take (co_len K (rq_handle r0)) (rq_ids r) = take (co_len K (rq_handle r0)) (pd_ids p)"
    using A calculation(1) by (metis min.absorb1 take_take)
  ultimately have "req_ok K tok (cm_cache (sy_mgr s)) (r, rq_cached r)" using A r0 by (simp add: req_ok_def)
  moreover have "own_pages K (sy_mgr s) r (rq_cached r) = own_pages K (sy_mgr s) r0 (rq_cached r0)"
    using A by (simp add: own_pages_def)
  ultimately show ?thesis using assms(1,3,7,8) A by (simp add: sys_ok_def)
qed

lemma forward_ok:
  assumes "sys_ok K inv tok pg N s P" "sy_live s = xs @ (r, rq_device r) # ys"
  shows "sys_ok K inv tok pg N (s\<lparr>sy_live := xs @ (complete_one r, rq_device r) # ys\<rparr>) P"
proof -
  have "req_ok K tok (cm_cache (sy_mgr s)) (complete_one r, rq_device r)"
    using assms by (auto simp: sys_ok_def req_ok_def complete_one_def buf_ok_def rq_ids_def)
  moreover have "own_pages K (sy_mgr s) (complete_one r) (rq_device r) = own_pages K (sy_mgr s) r (rq_device r)"
    "rq_table (complete_one r) = rq_table r" "rq_handle (complete_one r) = rq_handle r"
    by (simp_all add: own_pages_def complete_one_def)
  ultimately show ?thesis using assms by (simp add: sys_ok_def)
qed

lemma commit_ok:
  assumes "sys_ok K inv tok pg N s P" "\<And>n. length (mem n) = n" "sy_live s = xs @ (r, a) # ys"
    and "append_host mem toks r = Inr r'"
  shows "sys_ok K inv tok pg N (s\<lparr>sy_live := xs @ (r', a) # ys\<rparr>) P"
proof -
  have r: "req_ok K tok (cm_cache (sy_mgr s)) (r, a)" using assms(1,3) by (simp add: sys_ok_def)
  then have "buf_ok r" by (simp add: req_ok_def)
  note h = append_host_ids_spec [OF assms(2) this, of toks]
  have r': "r' = append_host_ids mem toks r" using assms(4) by (auto simp: append_host_def split: if_splits)
  have "req_ok K tok (cm_cache (sy_mgr s)) (r', a)" using r h by (simp add: req_ok_def r')
  moreover have "own_pages K (sy_mgr s) r' a = own_pages K (sy_mgr s) r a" using h by (simp add: own_pages_def r')
  moreover have "rq_table r' = rq_table r" "rq_handle r' = rq_handle r" using h by (simp_all add: r')
  ultimately show ?thesis using assms(1,3) by (simp add: sys_ok_def)
qed

lemma cache_step_ok:
  assumes "sys_ok K inv tok pg N s P" "sy_live s = xs @ (r, rq_cached r) # ys" "rq_cached r \<le> length (rq_ids r)"
    and "cache_req K tic now finished r (sy_mgr s) = Some (Inr (h, r', m))"
  shows "\<exists>Q. if finished
     then sys_ok K inv tok pg N (s\<lparr>sy_mgr := m, sy_tab := tm_free_slot (rq_table r) (sy_tab s), sy_live := xs @ ys\<rparr>) Q
     else sys_ok K inv tok pg N (s\<lparr>sy_mgr := m, sy_live := xs @ (r', rq_cached r) # ys\<rparr>) Q"
proof -
  note S = assms(1) [unfolded sys_ok_def]
  let ?L = "handles (sy_live s)"
  have r: "req_ok K tok (cm_cache (sy_mgr s)) (r, rq_cached r)" using S assms(2) by simp
  have m: "(r, rq_cached r) \<in> set (sy_live s)" using assms(2) by simp
  from cache_req_spec [of "sy_mgr s" ?L P r tic now finished] S r req_okD(3) [OF assms(1) m] assms(3,4) obtain Q where
    c: "cm_table m = cm_table (sy_mgr s)" "cm_page m = pg" "cm_pages m = N" "r' = r\<lparr>rq_handle := rq_handle r'\<rparr>"
     "inv (cm_cache m) (if finished then ?L - {#rq_handle r#} else add_mset (rq_handle r') (?L - {#rq_handle r#})) Q"
     "\<forall>g. ok (cm_cache (sy_mgr s)) g \<longrightarrow> tok (cm_cache m) g = tok (cm_cache (sy_mgr s)) g"
     "if finished then r' = r \<and> mset (cm_free m) + Q = mset (cm_free (sy_mgr s)) + P + mset (own_pages K (sy_mgr s) r (rq_cached r))
        else h = rq_handle r' \<and> co_len K h \<le> rq_cached r \<and> tok (cm_cache m) h = take (co_len K h) (rq_ids r)
          \<and> mset (cm_free m) + Q + mset (own_pages K (sy_mgr s) r' (rq_cached r))
            = mset (cm_free (sy_mgr s)) + P + mset (own_pages K (sy_mgr s) r (rq_cached r))"
    by (auto simp: req_ok_def)
  have own: "own_pages K m q b = own_pages K (sy_mgr s) q b" for q b using c(1,2) S by (simp add: own_pages_def)
  then have lp: "live_pages K m zs = live_pages K (sy_mgr s) zs" for zs by (intro live_pages_cong) simp
  have L: "?L - {#rq_handle r#} = handles (xs @ ys)" using assms(2) by simp
  have others: "req_ok K tok (cm_cache m) x" if "x \<in> set (xs @ ys)" for x
  proof (cases x)
    case (Pair q b)
    have "(q, b) \<in> set (sy_live s)" using that Pair assms(2) by auto
    with S req_okD(1) [OF assms(1) this] c(6) Pair show ?thesis by (auto intro: req_ok_keep)
  qed
  show ?thesis
  proof (cases finished)
    case True
    with c own lp L others S assms(2) show ?thesis
      by (intro exI [of _ Q]) (simp add: sys_ok_def tm_free_slot_def ac_simps)
  next
    case False
    have f: "rq_table r' = rq_table r" "rq_ids r' = rq_ids r" "buf_ok r' = buf_ok r" "rq_cached r' = rq_cached r" "rq_device r' = rq_device r"
      by (subst c(4), simp add: rq_ids_def buf_ok_def)+
    have "req_ok K tok (cm_cache m) (r', rq_cached r)"
      using r c(7) False f assms(3) by (auto simp: req_ok_def)
    moreover have "inv (cm_cache m) (handles (xs @ (r', rq_cached r) # ys)) Q"
      using c(5) False L by simp
    moreover have "mset (cm_free m) + Q + live_pages K m (xs @ (r', rq_cached r) # ys) = all_pages N pg"
    proof -
      let ?o = "live_pages K (sy_mgr s) xs + live_pages K (sy_mgr s) ys"
      have e: "mset (cm_free m) + Q + mset (own_pages K (sy_mgr s) r' (rq_cached r))
          = mset (cm_free (sy_mgr s)) + P + mset (own_pages K (sy_mgr s) r (rq_cached r))" using c(7) False by simp
      have "mset (cm_free m) + Q + live_pages K m (xs @ (r', rq_cached r) # ys)
          = mset (cm_free m) + Q + mset (own_pages K (sy_mgr s) r' (rq_cached r)) + ?o"
        by (simp add: own lp ac_simps)
      also have "\<dots> = mset (cm_free (sy_mgr s)) + P + live_pages K (sy_mgr s) (sy_live s)"
        unfolding e assms(2) by (simp add: ac_simps)
      finally show ?thesis using S by simp
    qed
    ultimately show ?thesis
      using c(2,3) others S assms(2) False f(1)
      by (intro exI [of _ Q]) (simp add: sys_ok_def)
  qed
qed

lemma allocate_ok:
  assumes "sys_ok K inv tok pg N s P"
    and "mset (sy_live s) = mset (map (\<lambda>r. (r, rq_cached r)) bs) + mset rest"
    and "allocate_paged K bs (sy_mgr s) = Some (Inr m)"
    and "int (needed_pages (allocation_info (cm_page (sy_mgr s)) bs) * cm_page (sy_mgr s)) \<le> cm_available K (sy_mgr s)"
  shows "\<exists>Q. sys_ok K inv tok pg N (s\<lparr>sy_mgr := m, sy_live := map (\<lambda>r. (r, rq_device r)) bs @ rest\<rparr>) Q"
proof -
  note S = assms(1) [unfolded sys_ok_def]
  let ?m = "sy_mgr s" and ?old = "map (\<lambda>r. (r, rq_cached r)) bs"
  have pg: "0 < pg" using S page_pos by blast
  have mem: "(r, a) \<in> set (sy_live s) \<longleftrightarrow> (r, a) \<in> set ?old \<or> (r, a) \<in> set rest" for r a
    using arg_cong [OF assms(2), of set_mset] by auto
  have rw: "rows (sy_live s) = mset (map rq_table bs) + rows rest"
  proof -
    have "rows (sy_live s) = image_mset (rq_table \<circ> fst) (mset (sy_live s))" by (simp add: rows_def)
    then show ?thesis unfolding assms(2) by (simp add: rows_def image_mset.compositionality o_def)
  qed
  have hd: "handles (sy_live s) = handles (map (\<lambda>r. (r, rq_device r)) bs @ rest)"
  proof -
    have "handles (sy_live s) = image_mset (rq_handle \<circ> fst) (mset (sy_live s))" by (simp add: handles_def)
    then show ?thesis unfolding assms(2) by (simp add: handles_def image_mset.compositionality o_def)
  qed
  have tabs: "mset (tm_free (sy_tab s)) + mset (map rq_table bs) + rows rest = mset [0..<tm_max (sy_tab s)]"
    using S rw by (simp add: ac_simps)
  have dist: "distinct (map rq_table bs)"
    by (rule mset_sub_distinct [where A = "mset (tm_free (sy_tab s)) + rows rest" and ys = "[0..<tm_max (sy_tab s)]"])
      (use tabs in \<open>simp_all add: ac_simps\<close>)
  have sep: "rq_table q \<noteq> rq_table r" if rb: "r \<in> set bs" and qb: "(q, b) \<in> set rest" for q r b
  proof
    assume eq: "rq_table q = rq_table r"
    from split_list [OF rb] obtain us vs where "bs = us @ r # vs" by blast
    moreover obtain M where "rows rest = add_mset (rq_table r) M" using rows_in [OF qb] eq by (metis mset_add)
    ultimately have "2 \<le> count (mset [0..<tm_max (sy_tab s)]) (rq_table r)" unfolding tabs [symmetric] by simp
    with count_upt [of "tm_max (sy_tab s)" "rq_table r"] show False by simp
  qed
  have av: "int (needed_pages (allocation_info pg bs) * pg) \<le> cm_available K ?m" using assms(4) S by simp
  from allocate_paged_spec [of ?m "handles (sy_live s)" P bs] S dist av assms(3) obtain Q where
    Q: "inv (cm_cache m) (handles (sy_live s)) Q"
    "mset (cm_free m) + Q + mset (concat (map (\<lambda>r.
          map (\<lambda>q. cm_table m (rq_table r) (q * pg)) [cdiv (rq_cached r) pg..<cdiv (rq_device r) pg]) bs))
       = mset (cm_free ?m) + P"
    "\<forall>t p. (\<forall>r \<in> set bs. t = rq_table r \<longrightarrow> p < cdiv (rq_cached r) pg * pg) \<longrightarrow> cm_table m t p = cm_table ?m t p"
    "cm_page m = pg" "cm_pages m = N" "\<forall>g \<in># handles (sy_live s). tok (cm_cache m) g = tok (cm_cache ?m) g"
    by auto
  have req: "req_ok K tok (cm_cache m) (r, a)" if "(r, a) \<in> set (sy_live s)" for r a
    using S that Q(6) req_okD(3) [OF assms(1) that] by (auto intro: req_ok_keep)
  have old: "req_ok K tok (cm_cache m) (r, rq_cached r)" if "r \<in> set bs" for r using req that mem by auto
  have new: "own_pages K m r (rq_device r) = own_pages K ?m r (rq_cached r)
      @ map (\<lambda>q. cm_table m (rq_table r) (q * pg)) [cdiv (rq_cached r) pg..<cdiv (rq_device r) pg]" if r: "r \<in> set bs" for r
  proof -
    have l: "(r, rq_cached r) \<in> set (sy_live s)" using r mem by auto
    have "cm_table m (rq_table r) p = cm_table ?m (rq_table r) p" if p: "p < cdiv (rq_cached r) pg * pg" for p
    proof -
      have "q = r" if "q \<in> set bs" "rq_table r = rq_table q" for q
        using dist that r by (metis distinct_map inj_onD)
      with Q(3) p show ?thesis by blast
    qed
    then show ?thesis
      unfolding own_pages_def Q(4) using S old [OF r] req_okD(2) [OF assms(1) l]
      by (subst row_pages_extend [OF pg, where b = "rq_cached r" and f = "cm_table ?m (rq_table r)"])
        (auto simp: req_ok_def)
  qed
  have "live_pages K m (map (\<lambda>r. (r, rq_device r)) bs) = live_pages K ?m ?old + mset (concat (map (\<lambda>r.
          map (\<lambda>q. cm_table m (rq_table r) (q * pg)) [cdiv (rq_cached r) pg..<cdiv (rq_device r) pg]) bs))"
    using new by (induction bs) (auto simp: ac_simps)
  moreover have "live_pages K m rest = live_pages K ?m rest"
    by (rule live_pages_cong) (use sep Q(3,4) S pg in \<open>auto intro!: own_pages_cong\<close>)
  moreover have "live_pages K ?m (sy_live s) = live_pages K ?m ?old + live_pages K ?m rest"
    unfolding live_pages_mset assms(2) by simp
  ultimately have "mset (cm_free m) + Q + live_pages K m (map (\<lambda>r. (r, rq_device r)) bs @ rest)
      = mset (cm_free ?m) + P + live_pages K ?m (sy_live s)"
    unfolding Q(2) [symmetric] by (simp add: ac_simps)
  moreover have "req_ok K tok (cm_cache m) (r, rq_device r)" if "r \<in> set bs" for r
    using old [OF that] by (simp add: req_ok_def)
  moreover have "req_ok K tok (cm_cache m) x" if "x \<in> set rest" for x
    using req mem that by (cases x) auto
  moreover have "rows (map (\<lambda>r. (r, rq_device r)) bs @ rest) = rows (sy_live s)"
    unfolding rw by (simp add: rows_def o_def)
  ultimately show ?thesis using S Q(1,4,5) hd
    by (intro exI [of _ Q]) (auto simp: sys_ok_def)
qed

lemma sys_step_ok:
  assumes "sys_step K mem s s'" "sys_ok K inv tok pg N s P" "\<And>n. length (mem n) = n"
  shows "\<exists>Q. sys_ok K inv tok pg N s' Q"
  using assms(1)
proof cases
  case (admit p ad clk r ad')
  then show ?thesis using admit_ok [OF assms(2,3) admit(2-6)] by auto
next
  case (refuse p ad clk ad')
  then show ?thesis using admit_ok [OF assms(2,3) refuse(2-6)] by auto
next
  case (continue xs r0 ys p ad clk r ad')
  then show ?thesis using continue_ok [OF assms(2,3) continue(2-8)] by auto
next
  case (allocate bs rest m)
  then show ?thesis using allocate_ok [OF assms(2) allocate(2-4)] by auto
next
  case (forward xs r ys)
  then show ?thesis using forward_ok [OF assms(2) forward(2)] by auto
next
  case (commit xs r a ys toks r')
  then show ?thesis using commit_ok [OF assms(2,3) commit(2,3)] by auto
next
  case (cache xs r ys tic now h r' m)
  then show ?thesis using cache_step_ok [OF assms(2) cache(2-4)] by auto
next
  case (finish xs r ys tic now h r' m)
  then show ?thesis using cache_step_ok [OF assms(2) finish(2-4)] by auto
qed

lemma sys_reach_ok:
  assumes "sys_reach K mem (sys_init c N pg R T) s" "inv c {#} {#}" "\<And>n. length (mem n) = n"
  shows "\<exists>P. sys_ok K inv tok pg N s P"
  using assms(1)
proof (induction rule: sys_reach.induct)
  case start
  show ?case using assms(2)
    by (intro exI [of _ "{#}"]) (simp add: sys_ok_def sys_init_def cm_init_def tm_init_def all_pages_def)
next
  case (step s s')
  then show ?case using sys_step_ok [OF step(2) _ assms(3)] by blast
qed

text \<open>In a reachable state \<open>cache_req\<close> always succeeds, and with no live request the check passes.\<close>

lemma sys_cache_total:
  assumes "sys_ok K inv tok pg N s P" "(r, rq_cached r) \<in> set (sy_live s)" "rq_cached r \<le> length (rq_ids r)"
  shows "\<exists>h r' m. cache_req K tic now finished r (sy_mgr s) = Some (Inr (h, r', m))"
proof -
  have r: "req_ok K tok (cm_cache (sy_mgr s)) (r, rq_cached r)" using assms(1,2) by (simp add: sys_ok_def)
  then show ?thesis
    using cache_req_spec [of "sy_mgr s" "handles (sy_live s)" P r tic now finished] assms req_okD(3) [OF assms(1,2)]
    by (auto simp: sys_ok_def req_ok_def)
qed

lemma sys_idle_integrity:
  assumes "sys_ok K inv tok pg N s P" "sy_live s = []"
  shows "cm_check_integrity K (sy_mgr s) = Inr ()"
proof -
  let ?m = "sy_mgr s"
  note S = assms(1) [unfolded sys_ok_def]
  have i: "inv (cm_cache ?m) {#} P" and pg: "0 < pg" using S assms(2) page_pos by auto
  have f: "mset (cm_free ?m) + P = all_pages N pg" using S assms(2) by simp
  then have "size (mset (cm_free ?m)) + size P = N" by (metis all_pages_def diff_zero length_map length_upt size_mset size_union)
  moreover have "total_size (co_size K (cm_cache ?m)) div int pg = int (size P)"
    using size_law [OF i] pg by simp
  moreover have "p mod int pg = 0" if "p \<in> set (cm_free ?m)" for p
  proof -
    have "p \<in># all_pages N pg" using that f by (metis set_mset_mset union_iff)
    then show ?thesis by (auto simp: all_pages_def)
  qed
  ultimately show ?thesis using S by (auto simp: cm_check_integrity_def)
qed

end

end
