(* ===== verification/Radix_Pages.thy ===== *)
theory Radix_Pages
  imports Radix_Claims Radix_Api Page_System
begin

section \<open>The pages the radix cache holds\<close>

text \<open>
  The cache manager works in pages: it keeps the first slot of each free page and turns a run
  of slots into pages with the slice \<open>[::page_size]\<close>.  \<open>rx_pages\<close> is the multiset of
  pages stored in the tree.  A walk does not change it, however it splits nodes; an insertion
  adds exactly the pages of the part it did not find; an eviction takes out exactly the pages
  of the slots it returns; and the two size counters together count it.
\<close>

subsection \<open>The multiset of pages\<close>

definition node_pages :: "'r radix \<Rightarrow> nat \<Rightarrow> int multiset" where
  "node_pages r i = (if live r i \<and> i \<noteq> rx_root r then mset (stride (rx_page r) (nval r i)) else {#})"

definition rx_pages :: "'r radix \<Rightarrow> int multiset" where
  "rx_pages r = (\<Sum>i<rx_counter r. node_pages r i)"

lemma rx_pages_same_tree:
  assumes "same_tree r r'"
  shows "rx_pages r' = rx_pages r"
  unfolding rx_pages_def node_pages_def same_treeD [OF assms] same_tree_live [OF assms] ..

lemma rx_pages_size:
  assumes "radix_inv r G L"
  shows "rx_evictable r + rx_protected r = int (rx_page r * size (rx_pages r))"
proof -
  have inv: "tree_ok r G" "size_ok r" using assms by (auto simp: radix_inv_def)
  have "int (rx_page r * size (node_pages r i)) = weight r (\<lambda>x. x = 0) i + weight r (\<lambda>x. x \<noteq> 0) i"
    if "i < rx_counter r" for i
  proof (cases "live r i \<and> i \<noteq> rx_root r")
    case True
    then obtain p where "edge_ok r G i p" using tree_okD(5) [OF inv(1)] by blast
    then have "rx_page r dvd length (nval r i)" "length (nval r i) = length (nkey r i)" by (auto simp: edge_ok_def)
    with length_stride [OF tree_okD(1) [OF inv(1)], of "nval r i"] True show ?thesis
      by (auto simp: node_pages_def weight_def live_def simp flip: of_nat_mult)
  next
    case False
    with that show ?thesis by (auto simp: node_pages_def weight_def live_def)
  qed
  then have "(\<Sum>i<rx_counter r. int (rx_page r * size (node_pages r i)))
     = (\<Sum>i<rx_counter r. weight r (\<lambda>x. x = 0) i) + (\<Sum>i<rx_counter r. weight r (\<lambda>x. x \<noteq> 0) i)"
    by (simp add: sum.distrib)
  with inv(2) show ?thesis
    by (simp add: size_ok_def rx_pages_def size_multiset_sum sum_distrib_left)
qed

subsection \<open>A walk\<close>

text \<open>What a walk does to a state is a chain of touches, ended by at most one split.\<close>

lemma tree_walk_rule:
  assumes "tree_walk tic now ids a n r = Some (Inr (a', n', r'))" "Q r a"
    and touch: "\<And>r a k c. Q r a \<Longrightarrow> nkids r a k = Some c \<Longrightarrow> Q (touch tic c r) c"
    and split: "\<And>r a k c m b r'. Q r a \<Longrightarrow> nkids r a k = Some c \<Longrightarrow>
       split_at now c (align_len (rx_page r) m) r = Inr (b, r') \<Longrightarrow> Q (touch tic b r') b"
  shows "Q r' a'"
proof -
  have "\<forall>a' n' r'. y = Inr (a', n', r') \<longrightarrow> tic = tic0 \<and> now = now0 \<longrightarrow> Q r a \<longrightarrow> Q r' a'"
    if "tree_walk tic now ids a n r = Some y" "tic0 = tic" "now0 = now" for y tic0 now0
    using that(1)
  proof (rule tree_walk.raw_induct [where P = "\<lambda>tic now ids a n r y.
      \<forall>a' n' r'. y = Inr (a', n', r') \<longrightarrow> tic = tic0 \<and> now = now0 \<longrightarrow> Q r a \<longrightarrow> Q r' a'", rotated])
    fix f :: "int \<Rightarrow> int \<Rightarrow> int list \<Rightarrow> nat \<Rightarrow> nat \<Rightarrow> 'a radix \<Rightarrow> (py_error + (nat \<times> nat \<times> 'a radix)) option"
      and tic1 now1 ids node plen r y
    assume IH: "\<And>tic now ids a n r y. f tic now ids a n r = Some y \<Longrightarrow>
        \<forall>a' n' r'. y = Inr (a', n', r') \<longrightarrow> tic = tic0 \<and> now = now0 \<longrightarrow> Q r a \<longrightarrow> Q r' a'"
    assume eq: "(if \<not> plen < length ids then Some (Inr (node, plen, r))
      else case map_of (rn_children (rx_nodes r node)) (key_fn (rx_page r) (drop plen ids)) of
        None \<Rightarrow> Some (Inr (node, plen, r))
      | Some c \<Rightarrow>
          (let m = align_len (rx_page r) (compare_key (rn_key (rx_nodes r c)) (drop plen ids))
           in if m \<noteq> length (rn_key (rx_nodes r c))
              then (case split_at now1 c m r of
                      Inl e \<Rightarrow> Some (Inl e)
                    | Inr (n, r1) \<Rightarrow>
                        (let r2 = upd_node n (\<lambda>s. s\<lparr>rn_time := tic1\<rparr>) r1
                         in Some (Inr (n, plen + m, if is_leaf r2 n then push_leaf n r2 else r2))))
              else (let r1 = upd_node c (\<lambda>s. s\<lparr>rn_time := tic1\<rparr>) r
                    in f tic1 now1 ids c (plen + m) (if is_leaf r1 c then push_leaf c r1 else r1)))) = Some y"
    show "\<forall>a' n' r'. y = Inr (a', n', r') \<longrightarrow> tic1 = tic0 \<and> now1 = now0 \<longrightarrow> Q r node \<longrightarrow> Q r' a'"
    proof (cases "plen < length ids \<and> nkids r node (key_fn (rx_page r) (drop plen ids)) \<noteq> None")
      case False
      with eq show ?thesis by (auto split: if_splits option.splits)
    next
      case True
      then obtain c where c: "plen < length ids" "nkids r node (key_fn (rx_page r) (drop plen ids)) = Some c" by blast
      let ?m = "align_len (rx_page r) (compare_key (nkey r c) (drop plen ids))"
      show ?thesis
      proof (cases "?m = length (nkey r c)")
        case full: True
        with c eq have "f tic1 now1 ids c (plen + ?m) (touch tic1 c r) = Some y"
          by (simp add: touch_def Let_def)
        from IH [OF this] touch [OF _ c(2)] that show ?thesis by blast
      next
        case part: False
        show ?thesis
        proof (cases "split_at now1 c ?m r")
          case (Inl e)
          with part c eq show ?thesis by (auto simp: Let_def)
        next
          case (Inr nr)
          obtain b r1 where nr: "nr = (b, r1)" by force
          with Inr part c eq have "y = Inr (b, plen + ?m, touch tic1 b r1)"
            by (simp add: touch_def Let_def)
          with split [OF _ c(2)] Inr nr that show ?thesis by blast
        qed
      qed
    qed
  qed
  with assms(1,2) show ?thesis by blast
qed


lemma touch_pages:
  assumes "radix_inv r G L" "live r c" "c \<noteq> rx_root r"
  shows "radix_inv (touch tic c r) G L" "live (touch tic c r) c" "rx_pages (touch tic c r) = rx_pages r"
    "rx_page (touch tic c r) = rx_page r"
  using touch_inv(1) [OF assms] assms(2) rx_pages_same_tree [OF touch_same] same_tree_live [OF touch_same]
    same_treeD(1) [OF touch_same] by blast+

lemma split_pages:
  assumes "radix_inv r G L" "live r i" "i \<noteq> rx_root r" "rx_page r dvd pos"
    and "split_at now i pos r = Inr (n, r')"
  shows "rx_pages r' = rx_pages r"
proof -
  have inv: "tree_ok r G" using assms(1) by (simp add: radix_inv_def)
  have pos: "0 < pos" "pos < length (nkey r i)" using assms(5) by (auto simp: split_at_def Let_def split: if_splits)
  from tree_okD(5) [OF inv assms(2,3)] obtain p where p: "edge_ok r G i p" ..
  let ?n = "rx_counter r"
  have d: "i \<noteq> p" "p \<noteq> ?n" "i \<noteq> ?n" using assms(2) p by (auto simp: live_def edge_ok_def)
  have r': "r' = split_state now i p pos r"
    using assms(5) split_at_eq [of r i p pos now] p pos d by (simp add: edge_ok_def)
  have l: "live r' j \<longleftrightarrow> live r j \<or> j = ?n" for j
    using assms(2) p d by (auto simp: r' split_state_def live_def edge_ok_def)
  have np: "node_pages r' j = node_pages r j" if "j < ?n" "j \<noteq> i" for j
    unfolding node_pages_def l using that by (simp add: r' split_state_def)
  have rn: "rx_root r \<noteq> ?n" using tree_okD(2) [OF inv] by (simp add: live_def)
  have "node_pages r' i + node_pages r' ?n = node_pages r i"
  proof -
    have "stride (rx_page r) (nval r i) = stride (rx_page r) (take pos (nval r i)) @ stride (rx_page r) (drop pos (nval r i))"
      using stride_append [of "rx_page r" "take pos (nval r i)" "drop pos (nval r i)"] tree_okD(1) [OF inv] assms(4) p pos
      by (simp add: edge_ok_def)
    then show ?thesis
      unfolding node_pages_def l using assms(2,3) d rn by (simp add: r' split_state_def)
  qed
  moreover have "(\<Sum>j\<in>{..<?n} - {i}. node_pages r' j) = (\<Sum>j\<in>{..<?n} - {i}. node_pages r j)"
    by (rule sum.cong) (use np in auto)
  moreover have "(\<Sum>j<?n. f j) = f i + (\<Sum>j\<in>{..<?n} - {i}. f j)" for f :: "nat \<Rightarrow> int multiset"
    using assms(2) by (intro sum.remove) (auto simp: live_def)
  moreover have "rx_pages r' = (\<Sum>j<?n. node_pages r' j) + node_pages r' ?n"
    by (simp add: rx_pages_def r' split_state_def)
  ultimately show ?thesis unfolding rx_pages_def by (metis add.assoc add.commute)
qed

lemma walk_pages:
  assumes "radix_inv r G L" "walk tic now ids r = Some (Inr (a, n, r'))"
  shows "rx_pages r' = rx_pages r"
proof -
  let ?Q = "\<lambda>r' a. (\<exists>G. radix_inv r' G L) \<and> live r' a \<and> rx_pages r' = rx_pages r"
  have child: "live s c" "c \<noteq> rx_root s" if "radix_inv s G L" "live s b" "nkids s b k = Some c" for s b k c G
    using tree_okD(6) [of s G b k c] that by (auto simp: radix_inv_def)
  have "?Q r' a"
    using assms(2) unfolding walk_def
  proof (rule tree_walk_rule [where Q = ?Q])
    show "?Q r (rx_root r)" using assms(1) tree_okD(2) by (auto simp: radix_inv_def)
  next
    fix s b k c
    assume q: "?Q s b" and k: "nkids s b k = Some c"
    then obtain G where G: "radix_inv s G L" by blast
    from touch_pages [OF G child [OF G _ k]] q show "?Q (touch tic c s) c" by auto
  next
    fix s b k c m e s'
    assume q: "?Q s b" and k: "nkids s b k = Some c"
      and sp: "split_at now c (align_len (rx_page s) m) s = Inr (e, s')"
    then obtain G where G: "radix_inv s G L" by blast
    note c = child [OF G _ k]
    have "0 < rx_page s" using G by (simp add: radix_inv_def tree_ok_def)
    then have d: "rx_page s dvd align_len (rx_page s) m" by (rule align_len_props)
    have pos: "0 < align_len (rx_page s) m" "align_len (rx_page s) m < length (nkey s c)"
      using sp by (auto simp: split_at_def Let_def split: if_splits)
    from split_at_inv [OF G c pos d, of now] q sp obtain G' where
      s': "radix_inv s' G' L" "e = rx_counter s" "\<forall>j. live s' j \<longleftrightarrow> live s j \<or> j = rx_counter s"
      "rx_root s' = rx_root s" by auto
    have "rx_root s' \<noteq> e" using s'(2,4) tree_okD(2) [of s G] G by (auto simp: radix_inv_def live_def)
    with touch_pages [OF s'(1), of e] s' split_pages [OF G c d sp] q show "?Q (touch tic e s') e" by auto
  qed
  then show ?thesis by blast
qed


subsection \<open>Insertion and eviction\<close>

lemma leaf_pages:
  assumes "radix_inv r G L" "live r a"
  shows "rx_pages (leaf_state now a k v r) = rx_pages r + mset (stride (rx_page r) v)"
proof -
  let ?r = "leaf_state now a k v r" and ?n = "rx_counter r"
  have inv: "tree_ok r G" using assms(1) by (simp add: radix_inv_def)
  have an: "a \<noteq> ?n" using assms(2) by (simp add: live_def)
  have rn: "rx_root r \<noteq> ?n" using tree_okD(2) [OF inv] by (simp add: live_def)
  have "live ?r j \<longleftrightarrow> live r j \<or> j = ?n" for j
    using assms(2) an by (auto simp: leaf_state_def live_def)
  then have "node_pages ?r j = (if j = ?n then mset (stride (rx_page r) v) else node_pages r j)" for j
    unfolding node_pages_def using an rn by (simp add: leaf_state_def)
  then have "(\<Sum>j<?n. node_pages ?r j) = (\<Sum>j<?n. node_pages r j)" "node_pages ?r ?n = mset (stride (rx_page r) v)"
    by simp_all
  then show ?thesis by (simp add: rx_pages_def leaf_state_def)
qed

lemma insert_pages:
  assumes "radix_inv r G L" "insert_prefix tic now ids idx r = Some (Inr (n, h, r'))"
  defines "k \<equiv> align_len (rx_page r) (length ids)"
  shows "rx_pages r' = rx_pages r + (if n = k then {#} else mset (stride (rx_page r) (drop n (take k idx))))"
proof -
  obtain a m r1 G1 where w: "walk tic now (take k ids) r = Some (Inr (a, m, r1))" "radix_inv r1 G1 L" "live r1 a" "ext r G r1 G1"
    using walk_spec [OF assms(1)] by metis
  have p: "rx_pages r1 = rx_pages r" "rx_page r1 = rx_page r" using walk_pages [OF assms(1) w(1)] w(4) by (auto simp: ext_def)
  show ?thesis
  proof (cases "m = k")
    case True
    then show ?thesis using assms(2) w(1) p by (simp add: insert_prefix_def Let_def k_def)
  next
    case False
    have an: "a \<noteq> rx_counter r1" using w(3) by (simp add: live_def)
    have len: "length (drop m (take k idx)) = length (drop m (take k ids))" "n = m"
      using assms(2) w(1) False by (auto simp: insert_prefix_def Let_def k_def new_node_def split: if_splits)
    have "snd (snd (projr (the (insert_prefix tic now ids idx r)))) = leaf_state now a (drop m (take k ids)) (drop m (take k idx)) r1"
      using w(1) False len(1) an
      by (simp add: insert_prefix_def Let_def k_def new_node_def set_key_value_def set_parent_def
            upd_node_def push_leaf_def is_root_def leaf_state_def fresh_node_def fun_eq_iff)
    then have "r' = leaf_state now a (drop m (take k ids)) (drop m (take k idx)) r1" using assms(2) by simp
    with leaf_pages [OF w(2,3)] p len False show ?thesis by simp
  qed
qed

lemma evict_node_pages:
  assumes "live r i" "i \<noteq> rx_root r" "npar r i = Some p" "p \<noteq> i"
  shows "rx_pages r = rx_pages (evict_node i r) + mset (stride (rx_page r) (nval r i))"
proof -
  let ?s = "evict_state i p r"
  have "same_tree ?s (evict_node i r)"
    using evict_node_eq [OF assms(3,4)] by (simp add: Let_def same_tree_def push_leaf_def)
  then have e: "rx_pages (evict_node i r) = rx_pages ?s" by (rule rx_pages_same_tree)
  have l: "live ?s j \<longleftrightarrow> live r j \<and> j \<noteq> i" for j
    by (auto simp: evict_state_def live_def)
  have np: "node_pages ?s j = (if j = i then {#} else node_pages r j)" for j
    unfolding node_pages_def l by (simp add: evict_state_def)
  have "(\<Sum>j<rx_counter r. f j) = f i + (\<Sum>j\<in>{..<rx_counter r} - {i}. f j)" for f :: "nat \<Rightarrow> int multiset"
    using assms(1) by (intro sum.remove) (auto simp: live_def)
  moreover have "(\<Sum>j\<in>{..<rx_counter r} - {i}. node_pages ?s j) = (\<Sum>j\<in>{..<rx_counter r} - {i}. node_pages r j)"
    by (rule sum.cong) (auto simp: np)
  moreover have "rx_counter ?s = rx_counter r" by (simp add: evict_state_def)
  ultimately have "rx_pages r = rx_pages ?s + node_pages r i"
    unfolding rx_pages_def by (metis add.commute add.left_neutral np)
  then show ?thesis using e assms(1,2) by (simp add: node_pages_def)
qed


lemma evict_pages:
  assumes "radix_inv r G L" "evict need r = Some (Inr (out, r'))"
  shows "rx_pages r' + mset (stride (rx_page r) out) = rx_pages r" "rx_page r dvd length out"
proof -
  let ?Q = "\<lambda>s out. radix_inv s G L \<and> rx_page s = rx_page r \<and> rx_page r dvd length out
     \<and> rx_pages s + mset (stride (rx_page r) out) = rx_pages r"
  have T0: "0 < rx_page r" using assms(1) by (simp add: radix_inv_def tree_ok_def)
  have "?Q r' out"
  proof (cases "need = 0")
    case True
    with assms show ?thesis by (simp add: evict_def)
  next
    case False
    with assms(2) have "evict_loop need 0 [] r = Some (Inr (out, r'))" by (auto simp: evict_def split: if_splits)
    then show ?thesis
    proof (rule evict_loop_rule [where Q = ?Q])
      fix s i h out
      assume q: "?Q s out" and pc: "pop_candidate s (rx_heap s) = (Some i, h)"
      then have inv: "radix_inv s G L" by blast
      note lf = pop_candidate_leaf [OF inv pc]
      note ev = evict_node_inv [OF inv lf(1,3,4)]
      let ?s = "s\<lparr>rx_heap := h\<rparr>"
      have t: "tree_ok s G" using inv by (simp add: radix_inv_def)
      have i: "live s i" "i \<noteq> rx_root s" using lf(1) by (auto simp: evictable_leaf_def)
      from tree_okD(5) [OF t i] obtain p where p: "edge_ok s G i p" ..
      then have "npar s i = Some p" "p \<noteq> i" "rx_page r dvd length (nval s i)"
        using q by (auto simp: edge_ok_def)
      moreover have "rx_pages ?s = rx_pages s" by (rule rx_pages_same_tree) (simp add: same_tree_def)
      ultimately have "rx_pages s = rx_pages (evict_node i ?s) + mset (stride (rx_page r) (nval s i))"
        using evict_node_pages [of ?s i p] i q by (simp add: live_def)
      with q ev(1,5) stride_append [OF T0, of out "nval s i"] \<open>rx_page r dvd length (nval s i)\<close>
      show "?Q (evict_node i ?s) (out @ nval s i)" by (auto simp: ac_simps)
    qed (use assms in simp)
  qed
  then show "rx_pages r' + mset (stride (rx_page r) out) = rx_pages r" "rx_page r dvd length out" by blast+
qed


subsection \<open>The radix cache provides the prefix cache interface\<close>

abbreviation hnode :: "'r handle \<Rightarrow> nat" where
  "hnode h \<equiv> fst (snd h)"

definition radix_ok :: "'r radix \<Rightarrow> 'r handle \<Rightarrow> bool" where
  "radix_ok r h \<longleftrightarrow> live r (hnode h) \<and> length (node_tokens r (hnode h)) = fst h"

definition radix_state :: "nat \<Rightarrow> 'r radix \<Rightarrow> 'r handle multiset \<Rightarrow> int multiset \<Rightarrow> bool" where
  "radix_state pg r L P \<longleftrightarrow> (\<exists>G. radix_inv r G (image_mset hnode L)) \<and> (\<forall>h \<in># L. radix_ok r h)
     \<and> P = rx_pages r \<and> rx_page r = pg"

lemma radix_okD:
  assumes "radix_inv r G L"
  shows "radix_ok r h \<longleftrightarrow> live r (hnode h) \<and> length (G (hnode h)) = fst h"
  using assms node_tokens_eq [of r G "hnode h"] length_tokens(1) [of G "hnode h"]
  by (auto simp: radix_ok_def radix_inv_def)

lemma radix_kept:
  assumes "radix_inv r G L" "radix_inv r' G' L'" "\<forall>j. live r j \<longrightarrow> live r' j \<and> G' j = G j" "radix_ok r h"
  shows "radix_ok r' h \<and> node_tokens r' (hnode h) = node_tokens r (hnode h)"
proof -
  have l: "live r (hnode h)" using assms(4) by (simp add: radix_ok_def)
  with assms(3) have l': "live r' (hnode h)" "G' (hnode h) = G (hnode h)" by blast+
  have t: "tree_ok r G" "tree_ok r' G'" using assms(1,2) by (auto simp: radix_inv_def)
  show ?thesis
    using assms(4) l' node_tokens_eq [OF t(1) l] node_tokens_eq [OF t(2) l'(1)]
    unfolding radix_okD [OF assms(1)] radix_okD [OF assms(2)] by (simp add: tokens_def)
qed

lemma radix_stateE:
  assumes "radix_state pg r L P"
  obtains G where "radix_inv r G (image_mset hnode L)" "tree_ok r G" "\<forall>h \<in># L. radix_ok r h"
    "P = rx_pages r" "rx_page r = pg" "0 < pg"
  using assms by (auto simp: radix_state_def radix_inv_def tree_ok_def)

lemma radix_stateI:
  assumes "radix_inv r G (image_mset hnode L)" "\<forall>h \<in># L. radix_ok r h" "rx_page r = pg" "P = rx_pages r"
  shows "radix_state pg r L P"
  using assms by (auto simp: radix_state_def)

lemma radix_evictable_page:
  assumes "radix_inv r G L"
  shows "0 \<le> rx_evictable r" "int (rx_page r) dvd rx_evictable r"
proof -
  have inv: "tree_ok r G" "size_ok r" using assms by (auto simp: radix_inv_def)
  have w: "0 \<le> weight r (\<lambda>x. x = 0) i \<and> int (rx_page r) dvd weight r (\<lambda>x. x = 0) i" if "i < rx_counter r" for i
  proof (cases "live r i \<and> i \<noteq> rx_root r")
    case True
    then obtain p where "edge_ok r G i p" using tree_okD(5) [OF inv(1)] by blast
    then show ?thesis by (auto simp: weight_def edge_ok_def)
  next
    case False
    with that show ?thesis by (auto simp: weight_def live_def)
  qed
  show "0 \<le> rx_evictable r" using inv(2) w unfolding size_ok_def by (metis lessThan_iff sum_nonneg)
  show "int (rx_page r) dvd rx_evictable r" using inv(2) w unfolding size_ok_def by (metis dvd_sum lessThan_iff)
qed


lemma radix_match_law:
  assumes "radix_state pg r L P"
  shows "\<exists>h r'. match_prefix tic now ids r = Some (Inr (h, r')) \<and> radix_state pg r' L P \<and> radix_ok r' h
     \<and> fst h \<le> length ids \<and> node_tokens r' (hnode h) = take (fst h) ids \<and> size_info r' = size_info r
     \<and> (\<forall>g. radix_ok r g \<longrightarrow> radix_ok r' g \<and> node_tokens r' (hnode g) = node_tokens r (hnode g))"
proof -
  from assms obtain G where G: "radix_inv r G (image_mset hnode L)" "tree_ok r G" "\<forall>h \<in># L. radix_ok r h"
    "P = rx_pages r" "rx_page r = pg" "0 < pg" by (rule radix_stateE)
  from match_prefix_spec [OF G(1), of tic now ids] obtain n i s r' G' where
    m: "match_prefix tic now ids r = Some (Inr ((n, i, s), r'))" "radix_inv r' G' (image_mset hnode L)"
    "live r' i" "n \<le> length ids" "tokens G' i = take n ids" "ext r G r' G'" by blast
  have e: "\<forall>j. live r j \<longrightarrow> live r' j \<and> G' j = G j" "rx_page r' = pg" "size_info r' = size_info r"
    using m(6) G(5) by (auto simp: ext_def size_info_def)
  note kept = radix_kept [OF G(1) m(2) e(1)]
  have nt: "node_tokens r' i = take n ids" using node_tokens_eq [OF _ m(3)] m(2,5) by (auto simp: radix_inv_def)
  have ok: "radix_ok r' (n, i, s)" using m(3,4) nt by (simp add: radix_ok_def)
  have "rx_pages r' = rx_pages r"
  proof -
    obtain a k r1 where w: "walk tic now ids r = Some (Inr (a, k, r1))" using walk_spec [OF G(1)] by metis
    have "same_tree r1 r'"
      using m(1) w by (auto simp: match_prefix_def Let_def same_tree_def split: if_splits option.splits)
    with rx_pages_same_tree walk_pages [OF G(1) w] show ?thesis by metis
  qed
  then have "radix_state pg r' L P" using m(2) e(2) G(3,4) kept by (intro radix_stateI) auto
  with m(1,4) nt ok e(3) kept show ?thesis by (intro exI [of _ "(n, i, s)"] exI [of _ r']) auto
qed

lemma radix_insert_law:
  assumes "radix_state pg r L P" "length ids = length idx"
  shows "\<exists>n h r'. insert_prefix tic now ids idx r = Some (Inr (n, h, r')) \<and> radix_ok r' h
     \<and> radix_state pg r' L (P + mset (stride pg (drop n (take (fst h) idx))))
     \<and> n \<le> fst h \<and> fst h \<le> length ids \<and> pg dvd n \<and> node_tokens r' (hnode h) = take (fst h) ids
     \<and> (\<forall>g. radix_ok r g \<longrightarrow> radix_ok r' g \<and> node_tokens r' (hnode g) = node_tokens r (hnode g))
     \<and> (\<forall>g. radix_ok r g \<longrightarrow> fst g \<le> length ids \<longrightarrow> node_tokens r (hnode g) = take (fst g) ids \<longrightarrow> fst g \<le> n)"
proof -
  from assms(1) obtain G where G: "radix_inv r G (image_mset hnode L)" "tree_ok r G" "\<forall>h \<in># L. radix_ok r h"
    "P = rx_pages r" "rx_page r = pg" "0 < pg" by (rule radix_stateE)
  let ?k = "align_len (rx_page r) (length ids)"
  from insert_prefix_spec [OF G(1) assms(2), of tic now] obtain n i r' G' s where
    m: "insert_prefix tic now ids idx r = Some (Inr (n, (?k, i, None), r'))" "radix_inv r' G' (image_mset hnode L)"
    "live r' i" "n \<le> ?k" "tokens G' i = take ?k ids" "\<forall>j. live r j \<longrightarrow> live r' j \<and> G' j = G j"
    "rx_page r' = rx_page r" "\<forall>j m. shares r G (take ?k ids) j m \<longrightarrow> m \<le> n"
    "length s = n" "slots G' i = s @ drop n (take ?k idx)" by blast
  have k: "?k \<le> length ids" "rx_page r dvd ?k"
    "\<And>m. rx_page r dvd m \<Longrightarrow> m \<le> length ids \<Longrightarrow> m \<le> ?k"
    using align_len_props [of "rx_page r"] G(5,6) by auto
  note kept = radix_kept [OF G(1) m(2,6)]
  have nt: "node_tokens r' i = take ?k ids" using node_tokens_eq [OF _ m(3)] m(2,5) by (auto simp: radix_inv_def)
  have ok: "radix_ok r' (?k, i, None)" using m(3) k(1) nt by (simp add: radix_ok_def)
  have pg: "rx_pages r' = rx_pages r + mset (stride pg (drop n (take ?k idx)))"
    using insert_pages [OF G(1) m(1)] G(5) by auto
  have dn: "pg dvd n"
  proof -
    obtain a b r1 G1 where w: "walk tic now (take ?k ids) r = Some (Inr (a, b, r1))" "radix_inv r1 G1 (image_mset hnode L)"
      "live r1 a" "tokens G1 a = take b (take ?k ids)" "b \<le> length (take ?k ids)" "ext r G r1 G1"
      using walk_spec [OF G(1)] by metis
    have "n = b" using m(1) w(1) by (auto simp: insert_prefix_def Let_def new_node_def split: if_splits)
    moreover have "length (G1 a) = b" using w(4,5) length_tokens(1) [of G1 a] by simp
    ultimately show ?thesis using page_dvd_G [of r1 G1 a] w(2,3,6) G(5) by (auto simp: ext_def radix_inv_def)
  qed
  have st: "radix_state pg r' L (P + mset (stride pg (drop n (take ?k idx))))"
    using m(2,7) G(3,4,5) kept pg by (intro radix_stateI) auto
  have cover: "fst g \<le> n" if g: "radix_ok r g" "fst g \<le> length ids" "node_tokens r (hnode g) = take (fst g) ids" for g
  proof -
    have lg: "live r (hnode g)" "length (G (hnode g)) = fst g" using g(1) radix_okD [OF G(1)] by blast+
    have "rx_page r dvd fst g" using page_dvd_G [OF G(2) lg(1)] lg(2) by simp
    moreover have "fst g \<le> ?k" using k(3) g(2) calculation by blast
    moreover have "tokens G (hnode g) = take (fst g) ids" using node_tokens_eq [OF G(2) lg(1)] g(3) by simp
    ultimately have "shares r G (take ?k ids) (hnode g) (fst g)"
      using lg g(2) by (simp add: shares_def min_def)
    with m(8) show ?thesis by blast
  qed
  show ?thesis
    using m(1) ok st m(4) k(1) dn nt kept cover
    by (intro exI [of _ n] exI [of _ "(?k, i, None)"] exI [of _ r']) simp
qed


lemma radix_lock_law:
  assumes "radix_state pg r L P" "radix_ok r h"
  shows "\<exists>r'. lock_handle h False r = Some (Inr r') \<and> radix_state pg r' (add_mset h L) P
     \<and> (\<forall>g. radix_ok r g \<longrightarrow> radix_ok r' g \<and> node_tokens r' (hnode g) = node_tokens r (hnode g))"
proof -
  from assms(1) obtain G where G: "radix_inv r G (image_mset hnode L)" "tree_ok r G" "\<forall>h \<in># L. radix_ok r h"
    "P = rx_pages r" "rx_page r = pg" "0 < pg" by (rule radix_stateE)
  obtain n i s where h: "h = (n, i, s)" by (cases h)
  then have "live r i" using assms(2) by (simp add: radix_ok_def)
  from lock_handle_inv [OF G(1) this, of n s] obtain r' where
    r': "lock_handle h False r = Some (Inr r')" "radix_inv r' G (image_mset hnode (add_mset h L))" "same_tree r r'"
    by (auto simp: h)
  have "\<forall>j. live r j \<longrightarrow> live r' j \<and> G j = G j" using same_tree_live [OF r'(3)] by blast
  note kept = radix_kept [OF G(1) r'(2) this]
  have "radix_state pg r' (add_mset h L) P"
    using r'(2) G(3,4,5) kept assms(2) rx_pages_same_tree [OF r'(3)] same_treeD(1) [OF r'(3)]
    by (intro radix_stateI) auto
  with r'(1) kept show ?thesis by blast
qed

lemma radix_unlock_law:
  assumes "radix_state pg r L P" "h \<in># L"
  shows "\<exists>r'. lock_handle h True r = Some (Inr r') \<and> radix_state pg r' (L - {#h#}) P
     \<and> (\<forall>g. radix_ok r g \<longrightarrow> radix_ok r' g \<and> node_tokens r' (hnode g) = node_tokens r (hnode g))"
proof -
  from assms(1) obtain G where G: "radix_inv r G (image_mset hnode L)" "tree_ok r G" "\<forall>h \<in># L. radix_ok r h"
    "P = rx_pages r" "rx_page r = pg" "0 < pg" by (rule radix_stateE)
  obtain n i s where h: "h = (n, i, s)" by (cases h)
  have "i \<in># image_mset hnode L" using assms(2) h by force
  moreover have "image_mset hnode (L - {#h#}) = image_mset hnode L - {#i#}"
    using assms(2) h by (simp add: image_mset_Diff)
  ultimately obtain r' where
    r': "lock_handle h True r = Some (Inr r')" "radix_inv r' G (image_mset hnode (L - {#h#}))" "same_tree r r'"
    using unlock_handle_inv [OF G(1), of i n s] by (auto simp: h)
  have "\<forall>j. live r j \<longrightarrow> live r' j \<and> G j = G j" using same_tree_live [OF r'(3)] by blast
  note kept = radix_kept [OF G(1) r'(2) this]
  have "radix_state pg r' (L - {#h#}) P"
    using r'(2) G(3,4,5) kept rx_pages_same_tree [OF r'(3)] same_treeD(1) [OF r'(3)]
    by (intro radix_stateI) (auto dest: in_diffD)
  with r'(1) kept show ?thesis by blast
qed

lemma radix_evict_law:
  assumes "radix_state pg r L P" "0 \<le> need" "need \<le> fst (size_info r)"
  shows "\<exists>out r' Q. evict need r = Some (Inr (out, r')) \<and> radix_state pg r' L Q \<and> P = Q + mset (stride pg out)
     \<and> need \<le> int (length out) \<and> pg dvd length out
     \<and> (\<forall>g \<in># L. node_tokens r' (hnode g) = node_tokens r (hnode g))"
proof -
  from assms(1) obtain G where G: "radix_inv r G (image_mset hnode L)" "tree_ok r G" "\<forall>h \<in># L. radix_ok r h"
    "P = rx_pages r" "rx_page r = pg" "0 < pg" by (rule radix_stateE)
  have "need \<le> rx_evictable r" using assms(3) by (simp add: size_info_def)
  from evict_spec [OF G(1) assms(2) this] obtain vs r' where
    e: "evict need r = Some (Inr (concat (map (nval r) vs), r'))" "radix_inv r' G (image_mset hnode L)"
    "rx_page r' = rx_page r" "need \<le> int (length (concat (map (nval r) vs)))" by blast
  note pages = evict_pages [OF G(1) e(1)]
  have kept: "radix_ok r' g \<and> node_tokens r' (hnode g) = node_tokens r (hnode g)" if "g \<in># L" for g
  proof -
    have t: "tree_ok r' G" "lock_ok r' (image_mset hnode L)" using e(2) by (auto simp: radix_inv_def)
    have l: "live r' (hnode g)" using lock_okD(1) [OF t(2)] that by simp
    have g: "radix_ok r g" using G(3) that by blast
    then show ?thesis
      using l node_tokens_eq [OF G(2), of "hnode g"] node_tokens_eq [OF t(1) l]
      unfolding radix_okD [OF G(1)] radix_okD [OF e(2)] by simp
  qed
  have "radix_state pg r' L (rx_pages r')" using e(2,3) G(5) kept by (intro radix_stateI) auto
  with e(1,4) pages G(4,5) kept show ?thesis by metis
qed

lemma radix_indices_law:
  assumes "radix_state pg r L P" "radix_ok r h" "0 < fst h"
  shows "\<exists>xs. get_matched_indices r h = Some (Inr xs) \<and> length xs = fst h"
proof -
  from assms(1) obtain G where G: "radix_inv r G (image_mset hnode L)" "tree_ok r G" by (rule radix_stateE)
  obtain n i s where h: "h = (n, i, s)" by (cases h)
  have l: "live r i" "length (G i) = n" using assms(2) radix_okD [OF G(1)] h by auto
  then have "i \<noteq> rx_root r" using assms(3) h tree_okD(4) [OF G(2)] by auto
  from get_matched_indices_spec [OF G(2) l(1) this, of n s] show ?thesis
    using h l(2) length_tokens(2) [of G i] by simp
qed

lemma radix_ops_sel [simp]:
  "co_match radix_ops = match_prefix" "co_insert radix_ops = insert_prefix" "co_lock radix_ops = lock_handle"
  "co_evict radix_ops = evict" "co_size radix_ops = size_info" "co_len radix_ops = fst"
  "co_indices radix_ops = get_matched_indices" "co_rec radix_ops = rx_recurrent"
  by (simp_all add: radix_ops_def)

interpretation radix_pc: prefix_cache radix_ops pg "radix_state pg" radix_ok "\<lambda>r h. node_tokens r (hnode h)"
proof unfold_locales
  fix c :: "'a radix" and L :: "'a handle multiset" and P :: "int multiset" and h :: "'a handle"
    and ids idx :: "int list" and tic now need :: int
  assume st: "radix_state pg c L P"
  then obtain G where G: "radix_inv c G (image_mset hnode L)" "tree_ok c G" "\<forall>h \<in># L. radix_ok c h"
    "P = rx_pages c" "rx_page c = pg" "0 < pg" by (rule radix_stateE)
  show "0 < pg" by (rule G)
  show "radix_ok c h" if "h \<in># L" using G(3) that by blast
  show "length (node_tokens c (hnode h)) = co_len radix_ops h \<and> pg dvd co_len radix_ops h" if "radix_ok c h"
  proof -
    have "live c (hnode h)" "length (G (hnode h)) = fst h" using that radix_okD [OF G(1)] by blast+
    then show ?thesis using page_dvd_G [OF G(2), of "hnode h"] G(5) that by (simp add: radix_ok_def)
  qed
  show "0 \<le> fst (co_size radix_ops c) \<and> int pg dvd fst (co_size radix_ops c)
       \<and> total_size (co_size radix_ops c) = int (pg * size P)"
    using radix_evictable_page [OF G(1)] rx_pages_size [OF G(1)] G(4,5) by (simp add: size_info_def total_size_def)
qed (unfold radix_ops_sel, (rule radix_match_law radix_insert_law radix_lock_law radix_unlock_law radix_evict_law
    radix_indices_law; assumption)+)

end
