(* ===== verification/Prefill_Claims.thy ===== *)
theory Prefill_Claims
  imports Naive_Cache Radix_Pages
begin

section \<open>Properties of prefill scheduling\<close>

text \<open>
  Where a chunk may end, and what the admission test promises about pages.
\<close>

definition outside_spans :: "(int \<times> int) list \<Rightarrow> int \<Rightarrow> bool" where
  "outside_spans spans x \<longleftrightarrow> (\<forall>(a, b) \<in> set spans. \<not> (a < x \<and> x < b))"

text \<open>Images are laid out one after another in the prompt.\<close>

definition spans_ok :: "(int \<times> int) list \<Rightarrow> int \<Rightarrow> bool" where
  "spans_ok spans n \<longleftrightarrow> (\<forall>(a, b) \<in> set spans. 0 \<le> a \<and> a < b \<and> b \<le> n)
     \<and> (\<forall>(a, b) \<in> set spans. \<forall>(c, d) \<in> set spans. (a, b) = (c, d) \<or> b \<le> c \<or> d \<le> a)"

lemma clip_chunk_end_spec:
  assumes "spans_ok all n" "set spans \<subseteq> set all" "start < e" "e \<le> n"
    and "\<forall>(a, b) \<in> set all - set spans. \<not> (a < e \<and> e < b)"
  defines "x \<equiv> clip_chunk_end spans start e"
  shows "start < x \<and> x \<le> n \<and> outside_spans all x"
  using assms(2,5) unfolding x_def
proof (induction spans)
  case Nil
  then show ?case using assms(3,4) by (auto simp: outside_spans_def)
next
  case (Cons s spans)
  obtain a b where s: "s = (a, b)" by (cases s)
  have m: "(a, b) \<in> set all" using Cons.prems(1) s by auto
  show ?case
  proof (cases "a < e \<and> e < b")
    case True
    have "outside_spans all a \<and> outside_spans all b"
      using assms(1) m by (fastforce simp: outside_spans_def spans_ok_def)
    moreover have "b \<le> n" using assms(1) m by (auto simp: spans_ok_def)
    ultimately show ?thesis using True s assms(3) by auto
  next
    case False
    with Cons s show ?thesis by auto
  qed
qed

lemma clip_chunk_spec:
  assumes "case mm of None \<Rightarrow> True | Some spans \<Rightarrow> spans_ok spans n" "0 < c" "cached + c \<le> n"
  shows "0 < clip_chunk mm n cached c \<and> cached + clip_chunk mm n cached c \<le> n
     \<and> (case mm of None \<Rightarrow> clip_chunk mm n cached c = c | Some spans \<Rightarrow>
          cached + clip_chunk mm n cached c < n \<longrightarrow> outside_spans spans (cached + clip_chunk mm n cached c))"
proof (cases mm)
  case (Some spans)
  then have "cached < clip_chunk_end spans cached (cached + c) \<and> clip_chunk_end spans cached (cached + c) \<le> n
     \<and> outside_spans spans (clip_chunk_end spans cached (cached + c))"
    using assms by (intro clip_chunk_end_spec) auto
  with Some assms show ?thesis by (auto simp: clip_chunk_def)
qed (use assms in \<open>simp add: clip_chunk_def\<close>)

text \<open>
  C29.  Every chunk makes progress and ends where it may, for image spans in the prompt that do
  not overlap: it is not empty, does not pass the end of the prompt, and a non-final one does
  not end inside an image.  Without images it also stays within the step's budget, and a
  non-final chunk ends on the hard granularity if there is one (above 1); if there is none, in
  a recurrent cache it ends on a page or there was no page boundary it could have ended on.
  (With a hard granularity that is no multiple of the page the page boundary is given up.)
\<close>

theorem chunk_ends_where_it_may:
  assumes "0 < budget" "0 \<le> cached" "cached < n" "0 < page"
    and "case mm of None \<Rightarrow> True | Some spans \<Rightarrow> spans_ok spans n"
    and "chunk_size recurrent page gran others budget mm n cached = Some c"
  shows "0 < c \<and> cached + c \<le> n
     \<and> (cached + c < n \<longrightarrow> (case mm of Some spans \<Rightarrow> outside_spans spans (cached + c)
         | None \<Rightarrow> (gran > 1 \<longrightarrow> gran dvd cached + c)
             \<and> (recurrent \<and> gran \<le> 1 \<longrightarrow> page dvd cached + c
                  \<or> (\<forall>k. page dvd k \<longrightarrow> cached < k \<longrightarrow> \<not> k \<le> cached + c))))
     \<and> (mm = None \<longrightarrow> c \<le> budget)"
proof -
  define c1 where "c1 = (if others > 0 \<and> min budget (n - cached) < n - cached \<and> budget > SHORT_REQ_RESERVE + MIN_CHUNK
      then min (min budget (n - cached)) (budget - SHORT_REQ_RESERVE) else min budget (n - cached))"
  define e1 where "e1 = align_down (cached + c1) page"
  define c2 where "c2 = (if recurrent \<and> cached < e1 \<and> e1 < n then e1 - cached else c1)"
  define e2 where "e2 = align_down (cached + c2) gran"
  define c3 where "c3 = (if gran > 1 \<and> cached + c2 < n then e2 - cached else c2)"
  have c1: "0 < c1" "c1 \<le> budget" "cached + c1 \<le> n" using assms(1-3) by (auto simp: c1_def SHORT_REQ_RESERVE_def MIN_CHUNK_def)
  have "e1 \<le> cached + c1" unfolding e1_def using assms(4) by (rule align_down_le)
  then have c2: "0 < c2" "c2 \<le> c1" using c1 by (auto simp: c2_def)
  have eq: "chunk_size recurrent page gran others budget mm n cached =
      (if gran > 1 \<and> cached + c2 < n then (if e2 \<le> cached then None else Some (clip_chunk mm n cached (e2 - cached)))
       else Some (clip_chunk mm n cached c2))"
    by (simp only: chunk_size_def Let_def c1_def c2_def e1_def e2_def)
  have cs: "c = clip_chunk mm n cached c3" "gran > 1 \<and> cached + c2 < n \<longrightarrow> cached < e2"
    using assms(6) unfolding eq c3_def by (auto split: if_splits)
  have e2: "gran > 1 \<longrightarrow> e2 \<le> cached + c2 \<and> gran dvd e2"
    unfolding e2_def using align_down_le [of gran] align_down_dvd by auto
  have c3: "0 < c3" "c3 \<le> c2" using c2 cs(2) e2 by (auto simp: c3_def)
  with c1 c2 have "cached + c3 \<le> n" "c3 \<le> budget" by auto
  with clip_chunk_spec [OF assms(5) c3(1)] have
    cl: "0 < c" "cached + c \<le> n" "mm = None \<longrightarrow> c = c3"
      "\<forall>spans. mm = Some spans \<longrightarrow> cached + c < n \<longrightarrow> outside_spans spans (cached + c)"
    using cs(1) by (auto split: option.splits)
  have page: "page dvd cached + c2 \<or> (\<forall>k. page dvd k \<longrightarrow> cached < k \<longrightarrow> \<not> k \<le> cached + c2)"
    if "recurrent" "cached + c2 < n"
  proof (cases "cached < e1 \<and> e1 < n")
    case True
    then show ?thesis using that align_down_dvd by (simp add: c2_def e1_def)
  next
    case False
    then have "c2 = c1" by (auto simp: c2_def)
    moreover have "\<not> cached < e1" using False that(2) \<open>e1 \<le> cached + c1\<close> calculation by auto
    ultimately show ?thesis using align_down_greatest [OF assms(4), of _ "cached + c1"] by (force simp: e1_def)
  qed
  have "gran dvd cached + c" if "mm = None" "cached + c < n" "gran > 1"
  proof -
    have "cached + c2 < n" using that cl(3) c3_def by (auto split: if_splits)
    with that cl(3) e2 show ?thesis by (auto simp: c3_def)
  qed
  moreover have "page dvd cached + c \<or> (\<forall>k. page dvd k \<longrightarrow> cached < k \<longrightarrow> \<not> k \<le> cached + c)"
    if "mm = None" "cached + c < n" "recurrent" "gran \<le> 1"
    using that page cl(3) by (simp add: c3_def)
  ultimately show ?thesis using cl \<open>c3 \<le> budget\<close> by (auto split: option.splits)
qed

text \<open>A prompt of 40 with 3 cached and a budget of 20: the chunk stops before the image at 16..30.\<close>

theorem chunk_ends_where_it_may_witness:
  "chunk_size True 4 1 0 20 (Some [(16, 30)]) 40 3 = Some 13 \<and> outside_spans [(16, 30)] (3 + 13)"
proof -
  have c: "chunk_size True 4 1 0 20 (Some [(16, 30)]) 40 3 = Some 13"
    by (simp add: chunk_size_def clip_chunk_def align_down_def Let_def)
  have s: "spans_ok [(16, 30)] (40 :: int)" by (simp add: spans_ok_def)
  from chunk_ends_where_it_may [OF _ _ _ _ _ c] c s show ?thesis by simp
qed


subsection \<open>Every page is somewhere\<close>

lemma radix_init_state:
  assumes "0 < pg"
  shows "radix_state pg (rx_init pg rc mx now) {#} {#}"
proof -
  have "rx_pages (rx_init pg rc mx now) = {#}"
    by (simp add: rx_pages_def rx_init_def new_node_def upd_node_def node_pages_def)
  then show ?thesis using rx_init_inv(1) [OF assms, of rc mx now]
    by (intro radix_stateI) (auto simp: rx_init_def new_node_def upd_node_def)
qed

text \<open>
  C1.  Pages are conserved: whatever sequence of admissions, chunk continuations, allocations
  with their evictions, forward passes, commits and \<open>cache_req\<close> calls a scheduler makes over
  the radix cache, the free list, the tree and the rows of the live requests together hold
  each page of the pool exactly once: no page leaks, none is freed twice, no two requests or
  a request and the cache own the same page.
\<close>

theorem pages_conserved:
  assumes "sys_reach radix_ops mem (sys_init (rx_init pg rc mx now) N pg R T) s" "0 < pg" "\<And>n. length (mem n) = n"
  shows "mset (cm_free (sy_mgr s)) + rx_pages (cm_cache (sy_mgr s)) + live_pages radix_ops (sy_mgr s) (sy_live s)
    = all_pages N pg"
proof -
  from radix_pc.sys_reach_ok [OF assms(1) radix_init_state [OF assms(2)] assms(3)] obtain P where
    "sys_ok radix_ops (radix_state pg) (\<lambda>r h. node_tokens r (hnode h)) pg N s P" by blast
  then show ?thesis by (auto simp: sys_ok_def radix_state_def)
qed

definition demo_pend :: "nat handle pending" where
  "demo_pend = \<lparr>pd_uid = 1, pd_ids = [1, 2, 3], pd_output = 2, pd_cache_output = True, pd_chunked = None, pd_mm = None\<rparr>"

definition demo_sys :: "(nat radix, nat handle) sys" where
  "demo_sys = sys_init (rx_init 2 False 64 5) 4 2 8 (\<lambda>_ _. 0)"

definition demo_adder :: "nat radix adder" where
  "demo_adder = \<lparr>pa_budget = 100, pa_reserved = 0, pa_cache = sy_mgr demo_sys, pa_table = sy_tab demo_sys,
     pa_others = 0, pa_gran = 1\<rparr>"

lemma demo_match_empty: "match_prefix 9 10 [1, 2] (rx_init 2 False 64 5) = Some (Inr ((0, 0, None), rx_init 2 False 64 5))"
  unfolding match_prefix_def walk_def by (subst tree_walk.simps) (simp add: op_defs)

lemma demo_lock_root: "lock_handle (0, 0, None) False (rx_init 2 False 64 5) = Some (Inr (rx_init 2 False 64 5))"
  unfolding lock_handle_def by (subst lock_walk.simps) (simp add: op_defs)

lemma demo_evictable [simp]: "rx_evictable (rx_init pg rc mx now) = 0"
  by (simp add: op_defs)

lemma demo_try: "\<exists>tm. try_allocate_one radix_ops (9, 10) demo_pend demo_adder
    = Some (Inr (Some ((0, 0, None), 7), demo_adder\<lparr>pa_table := tm\<rparr>))"
  by (simp add: try_allocate_one_def cm_match_req_def demo_adder_def demo_sys_def sys_init_def cm_init_def demo_pend_def
      demo_match_empty cm_available_def size_info_def cm_lock_def demo_lock_root tm_init_def tm_available_def
      tm_allocate_def upt_rec)

lemma demo_admit:
  "\<exists>r ad'. try_add_one radix_ops (\<lambda>n. replicate n 0) (9, 10) demo_pend demo_adder = Some (Inr (Some r, ad'))
     \<and> rq_cached r = 0"
proof -
  obtain tm where t: "try_allocate_one radix_ops (9, 10) demo_pend demo_adder
    = Some (Inr (Some ((0, 0, None), 7), demo_adder\<lparr>pa_table := tm\<rparr>))" using demo_try by blast
  have "cm_page (pa_cache demo_adder) = 2" "\<not> rx_recurrent (cm_cache (pa_cache demo_adder))"
    by (simp_all add: demo_adder_def demo_sys_def sys_init_def cm_init_def rx_init_def new_node_def upd_node_def)
  then have "chunk_size (rx_recurrent (cm_cache (pa_cache demo_adder))) (int (cm_page (pa_cache demo_adder))) 1 0 100 None 3 0 = Some 3"
    by (simp add: chunk_size_def clip_chunk_def)
  then obtain r ad' where "add_one_req radix_ops (\<lambda>n. replicate n 0) demo_pend (0, 0, None) 7 0 (demo_adder\<lparr>pa_table := tm\<rparr>)
      = Some (Inr (Some r, ad'))" "rq_cached r = 0"
    by (simp add: add_one_req_def demo_pend_def make_req_def demo_adder_def)
  with t show ?thesis by (simp add: try_add_one_def demo_adder_def demo_pend_def)
qed

lemma demo_reach_admitted:
  obtains s r where "sys_reach radix_ops (\<lambda>n. replicate n 0) demo_sys s" "sy_live s = [(r, rq_cached r)]" "rq_cached r = 0"
proof -
  obtain r ad' where a: "try_add_one radix_ops (\<lambda>n. replicate n 0) (9, 10) demo_pend demo_adder = Some (Inr (Some r, ad'))" "rq_cached r = 0" using demo_admit by blast
  let ?s = "\<lparr>sy_mgr = pa_cache ad', sy_tab = pa_table ad', sy_live = (r, rq_cached r) # sy_live demo_sys\<rparr>"
  have "sys_step radix_ops (\<lambda>n. replicate n 0) demo_sys ?s"
    by (rule sys_step.admit [OF _ _ _ _ a(1)]) (simp_all add: demo_pend_def demo_adder_def)
  then have "sys_reach radix_ops (\<lambda>n. replicate n 0) demo_sys ?s" by (blast intro: sys_reach.intros)
  with a(2) show thesis by (intro that [of ?s r]) (simp_all add: demo_sys_def sys_init_def)
qed

theorem pages_conserved_witness:
  "\<exists>s. sys_reach radix_ops (\<lambda>n. replicate n 0) demo_sys s \<and> sy_live s \<noteq> []
     \<and> mset (cm_free (sy_mgr s)) + rx_pages (cm_cache (sy_mgr s)) + live_pages radix_ops (sy_mgr s) (sy_live s) = all_pages 4 2"
proof -
  obtain s r where s: "sys_reach radix_ops (\<lambda>n. replicate n 0) demo_sys s" "sy_live s = [(r, rq_cached r)]"
    by (rule demo_reach_admitted)
  from pages_conserved [OF s(1) [unfolded demo_sys_def]] s show ?thesis by (intro exI [of _ s]) simp
qed

text \<open>
  C24.  \<open>check_integrity\<close> holds whenever the scheduler is idle: in a state reached by the steps of
  \<open>sys_step\<close> (admission, chunk continuation, an allocation that fits, forward pass, commit,
  \<open>cache_req\<close> of a live request) and with no live request, the free pages and the cached pages
  add up to the pool and every free slot is the first of a page.  The normal loop keeps to
  these steps; an abort under the overlap loop does not, see \<open>Scheduler_Abort\<close>.
\<close>

theorem idle_integrity_check:
  assumes "sys_reach radix_ops mem (sys_init (rx_init pg rc mx now) N pg R T) s" "0 < pg" "\<And>n. length (mem n) = n"
    and "sy_live s = []"
  shows "cm_check_integrity radix_ops (sy_mgr s) = Inr ()"
  using radix_pc.sys_reach_ok [OF assms(1) radix_init_state [OF assms(2)] assms(3)]
    radix_pc.sys_idle_integrity [OF _ assms(4)] by blast

text \<open>One request is admitted and finished.\<close>

lemma demo_reach_finished:
  obtains s r s' where "sys_reach radix_ops (\<lambda>n. replicate n 0) demo_sys s" "sy_live s = [(r, rq_cached r)]"
    "sys_step radix_ops (\<lambda>n. replicate n 0) s s'" "sy_live s' = []"
proof -
  obtain s r where s: "sys_reach radix_ops (\<lambda>n. replicate n 0) demo_sys s" "sy_live s = [(r, rq_cached r)]" "rq_cached r = 0"
    by (rule demo_reach_admitted)
  then have m: "(r, rq_cached r) \<in> set (sy_live s)" "rq_cached r \<le> length (rq_ids r)" by simp_all
  from radix_pc.sys_reach_ok [OF s(1) [unfolded demo_sys_def] radix_init_state] obtain P where
    "sys_ok radix_ops (radix_state 2) (\<lambda>r h. node_tokens r (hnode h)) 2 4 s P" by auto
  from radix_pc.sys_cache_total [OF this m, of 20 21 True] obtain h r' m' where
    c: "cache_req radix_ops 20 21 True r (sy_mgr s) = Some (Inr (h, r', m'))" by blast
  have "sys_step radix_ops (\<lambda>n. replicate n 0) s
      (s\<lparr>sy_mgr := m', sy_tab := tm_free_slot (rq_table r) (sy_tab s), sy_live := [] @ []\<rparr>)"
    by (rule sys_step.finish [OF _ m(2) c]) (simp add: s(2))
  with s that show thesis by fastforce
qed

theorem idle_integrity_check_witness:
  "\<exists>s s'. sys_reach radix_ops (\<lambda>n. replicate n 0) demo_sys s \<and> sy_live s \<noteq> []
     \<and> sys_step radix_ops (\<lambda>n. replicate n 0) s s' \<and> cm_check_integrity radix_ops (sy_mgr s') = Inr ()"
proof -
  obtain s r s' where s: "sys_reach radix_ops (\<lambda>n. replicate n 0) demo_sys s" "sy_live s = [(r, rq_cached r)]"
    "sys_step radix_ops (\<lambda>n. replicate n 0) s s'" "sy_live s' = []" by (rule demo_reach_finished)
  then have "sys_reach radix_ops (\<lambda>n. replicate n 0) demo_sys s'" by (blast intro: sys_reach.step)
  from idle_integrity_check [OF this [unfolded demo_sys_def] _ _ s(4)] s show ?thesis by auto
qed

text \<open>
  C23.  \<open>cache_req\<close> never fails on a live request whose pages reach its cached length: the
  insertion is accepted, the unlock and the new lock succeed, finished or not.
\<close>

theorem cache_req_total:
  assumes "sys_reach radix_ops mem (sys_init (rx_init pg rc mx now) N pg R T) s" "0 < pg" "\<And>n. length (mem n) = n"
    and "(r, rq_cached r) \<in> set (sy_live s)" "rq_cached r \<le> length (rq_ids r)"
  shows "\<exists>h r' m. cache_req radix_ops tic now' finished r (sy_mgr s) = Some (Inr (h, r', m))"
  using radix_pc.sys_reach_ok [OF assms(1) radix_init_state [OF assms(2)] assms(3)]
    radix_pc.sys_cache_total [OF _ assms(4,5)] by blast

theorem cache_req_total_witness:
  "\<exists>s r h r' m. sys_reach radix_ops (\<lambda>n. replicate n 0) demo_sys s \<and> (r, rq_cached r) \<in> set (sy_live s)
     \<and> cache_req radix_ops 20 21 True r (sy_mgr s) = Some (Inr (h, r', m))"
proof -
  obtain s r where s: "sys_reach radix_ops (\<lambda>n. replicate n 0) demo_sys s" "sy_live s = [(r, rq_cached r)]" "rq_cached r = 0"
    by (rule demo_reach_admitted)
  then have m: "(r, rq_cached r) \<in> set (sy_live s)" "rq_cached r \<le> length (rq_ids r)" by simp_all
  from cache_req_total [OF s(1) [unfolded demo_sys_def] _ _ m, of 20 21 True] s(1) m(1) show ?thesis by fastforce
qed


subsection \<open>The admission test\<close>

text \<open>
  A request admitted with nothing else reserved fits for its whole life, at any page size:
  the pages from its cached prefix to its prompt and full output are available.
\<close>

theorem lone_admission_fits:
  assumes "sys_reach radix_ops mem (sys_init (rx_init pg rc mx now) N pg R T) s" "0 < pg" "\<And>n. length (mem n) = n"
    and "pa_cache ad = sy_mgr s" "pa_reserved ad = 0" "pd_chunked p = None" "pd_ids p \<noteq> []"
    and "try_add_one radix_ops mem clk p ad = Some (Inr (Some r, ad'))"
  shows "int (cdiv (length (pd_ids p) + pd_output p) pg * pg) - int (cdiv (rq_cached r) pg * pg)
    \<le> cm_available radix_ops (pa_cache ad')"
proof -
  from radix_pc.sys_reach_ok [OF assms(1) radix_init_state [OF assms(2)] assms(3)] obtain P where
    S: "sys_ok radix_ops (radix_state pg) (\<lambda>r h. node_tokens r (hnode h)) pg N s P" by blast
  then have i: "radix_state pg (cm_cache (pa_cache ad)) (handles (sy_live s)) P" "cm_page (pa_cache ad) = pg"
    using assms(4) by (auto simp: sys_ok_def)
  from radix_pc.try_allocate_one_spec [OF i(1) assms(7), of clk] obtain res ad1 where
    t: "try_allocate_one radix_ops clk p ad = Some (Inr (res, ad1))" "cm_page (pa_cache ad1) = pg" and
    h: "case res of None \<Rightarrow> True | Some (h, t) \<Rightarrow>
      radix_state pg (cm_cache (pa_cache ad1)) (add_mset h (handles (sy_live s))) P \<and> radix_ok (cm_cache (pa_cache ad1)) h
      \<and> int (length (pd_ids p)) - int (fst h) + int (pd_output p) \<le> cm_available radix_ops (pa_cache ad1)"
    using i(2) assms(5) by (auto split: option.splits)
  from assms(6,8) t(1) obtain ha u where u: "res = Some (ha, u)"
    "add_one_req radix_ops mem p ha u (fst ha) ad1 = Some (Inr (Some r, ad'))"
    unfolding try_add_one_def by (auto simp: bindX_Inr split: if_splits option.splits)
  note A = add_one_reqD [OF u(2) assms(3), unfolded option.case]
  let ?av = "cm_available radix_ops (pa_cache ad1)"
  have h: "radix_state pg (cm_cache (pa_cache ad1)) (add_mset ha (handles (sy_live s))) P" "radix_ok (cm_cache (pa_cache ad1)) ha"
    "int (length (pd_ids p)) - int (fst ha) + int (pd_output p) \<le> ?av" using h u(1) by auto
  have "int pg dvd ?av" using radix_pc.size_law [OF h(1)] t(2) by (simp add: cm_available_def)
  then obtain k where k: "?av = int pg * k" by (rule dvdE)
  obtain c where c: "fst ha = pg * c" using radix_pc.ok_len [OF h(1,2)] by (auto elim: dvdE)
  have "k \<ge> 0" using k h(3) A c assms(2) u(2) radix_pc.size_law [OF h(1)] t(2)
    by (simp add: cm_available_def) (smt (verit) mult_neg_pos of_nat_0_less_iff of_nat_0_le_iff zero_le_mult_iff)
  then obtain k' where k': "k = int k'" using nonneg_int_cases by blast
  have "length (pd_ids p) + pd_output p \<le> (k' + c) * pg"
    using h(3) unfolding k k' c by (simp add: algebra_simps flip: of_nat_mult of_nat_add)
  from cdiv_mono [OF this, of pg] have "cdiv (length (pd_ids p) + pd_output p) pg \<le> k' + c"
    unfolding cdiv_mult [OF assms(2)] .
  then have "cdiv (length (pd_ids p) + pd_output p) pg * pg \<le> (k' + c) * pg" by simp
  moreover have "cdiv (rq_cached r) pg = c" using A c assms(2) by (simp add: mult.commute)
  moreover have "cm_available radix_ops (pa_cache ad') = ?av" using A by simp
  ultimately show ?thesis unfolding k k' by (simp add: algebra_simps flip: of_nat_mult of_nat_add)
qed

theorem lone_admission_fits_witness:
  "\<exists>r ad'. try_add_one radix_ops (\<lambda>n. replicate n 0) (9, 10) demo_pend demo_adder = Some (Inr (Some r, ad'))
     \<and> int (cdiv 5 2 * 2) - int (cdiv (rq_cached r) 2 * 2) \<le> cm_available radix_ops (pa_cache ad')"
proof -
  obtain r ad' where a: "try_add_one radix_ops (\<lambda>n. replicate n 0) (9, 10) demo_pend demo_adder = Some (Inr (Some r, ad'))"
    using demo_admit by blast
  have s: "sys_reach radix_ops (\<lambda>n. replicate n 0) (sys_init (rx_init 2 False 64 5) 4 2 8 (\<lambda>_ _. 0)) demo_sys"
    unfolding demo_sys_def by (rule sys_reach.start)
  have l: "length (pd_ids demo_pend) + pd_output demo_pend = 5" by (simp add: demo_pend_def)
  have "int (cdiv 5 2 * 2) - int (cdiv (rq_cached r) 2 * 2) \<le> cm_available radix_ops (pa_cache ad')"
    unfolding l [symmetric] by (rule lone_admission_fits [OF s _ _ _ _ _ _ a]) (simp_all add: demo_adder_def demo_pend_def)
  with a show ?thesis by blast
qed

text \<open>
  Two admissions can overcommit: the test adds token counts and never the slack to the
  next page, so with one free page of 16 two prompts of 2 tokens with one output token each
  are both admitted in one step, and allocating their pages fails.
\<close>

definition short_pend :: "int \<Rightarrow> naive_handle pending" where
  "short_pend uid = \<lparr>pd_uid = uid, pd_ids = [1, 2], pd_output = 1, pd_cache_output = True, pd_chunked = None, pd_mm = None\<rparr>"

theorem admission_overcommits_pages:
  "case schedule_prefill naive_ops (\<lambda>n. replicate n 0) (\<lambda>_. (0, 0)) 2048 0
       \<lparr>pm_pending = [short_pend 1, short_pend 2], pm_hit = 0, pm_prompt = 0, pm_gran = 1\<rparr>
       (cm_init () 1 16 (\<lambda>_ _. 0)) (tm_init 4) of
     Some (Inr (Some reqs, pm, m, tm)) \<Rightarrow> length reqs = 2 \<and> pm_pending pm = []
       \<and> (case allocate_paged naive_ops reqs m of Some (Inl e) \<Rightarrow> e = NotImplementedError | _ \<Rightarrow> False)
   | _ \<Rightarrow> False"
  by code_simp

end
