(* ===== verification/Decode_Manager.thy ===== *)
theory Decode_Manager
  imports Request "HOL-Library.AList"
begin

section \<open>The decode manager (scheduler/decode.py)\<close>

text \<open>
  \<open>running_reqs\<close> is a dict from uid to request object; objects are addresses into a store
  \<open>S\<close> (requests advance between calls, their uids do not).  \<open>dm_ordered\<close> is the sorted view
  kept until the membership changes.  A python dict is an association list in insertion order.
\<close>

record decode_mgr =
  dm_page :: nat
  dm_running :: "(int \<times> nat) list"
  dm_ordered :: "nat list option"

definition dm_init :: "nat \<Rightarrow> decode_mgr" where
  "dm_init page = \<lparr>dm_page = page, dm_running = [], dm_ordered = None\<rparr>"

definition ordered_view :: "(nat \<Rightarrow> 'h req) \<Rightarrow> decode_mgr \<Rightarrow> nat list \<times> decode_mgr" where
  "ordered_view S dm = (case dm_ordered dm of
     Some xs \<Rightarrow> (xs, dm)
   | None \<Rightarrow> (let xs = sort_key (\<lambda>x. rq_uid (S x)) (map snd (dm_running dm)) in (xs, dm\<lparr>dm_ordered := Some xs\<rparr>)))"

definition dm_pop :: "int \<Rightarrow> decode_mgr \<Rightarrow> nat option \<times> decode_mgr" where
  "dm_pop uid dm = (case map_of (dm_running dm) uid of
     None \<Rightarrow> (None, dm)
   | Some x \<Rightarrow> (Some x, dm\<lparr>dm_running := AList.delete uid (dm_running dm), dm_ordered := None\<rparr>))"

definition filter_one :: "(nat \<Rightarrow> 'h req) \<Rightarrow> nat \<Rightarrow> decode_mgr \<Rightarrow> decode_mgr" where
  "filter_one S x dm =
     (let uid = rq_uid (S x)
      in if can_decode (S x)
         then (if map_of (dm_running dm) uid = None
               then dm\<lparr>dm_running := dm_running dm @ [(uid, x)], dm_ordered := None\<rparr> else dm)
         else snd (dm_pop uid dm))"

definition filter_reqs :: "(nat \<Rightarrow> 'h req) \<Rightarrow> nat list \<Rightarrow> decode_mgr \<Rightarrow> decode_mgr" where
  "filter_reqs S xs dm = foldl (\<lambda>dm x. filter_one S x dm) dm xs"

definition remove_req :: "(nat \<Rightarrow> 'h req) \<Rightarrow> nat \<Rightarrow> decode_mgr \<Rightarrow> decode_mgr" where
  "remove_req S x dm = snd (dm_pop (rq_uid (S x)) dm)"

definition abort_req :: "int \<Rightarrow> decode_mgr \<Rightarrow> nat option \<times> decode_mgr" where
  "abort_req uid dm = dm_pop uid dm"

definition inflight_tokens :: "(nat \<Rightarrow> 'h req) \<Rightarrow> decode_mgr \<Rightarrow> int" where
  "inflight_tokens S dm = sum_list (map (\<lambda>(uid, x). remain_len (S x)) (dm_running dm))
     + (int (dm_page dm) - 1) * int (length (dm_running dm))"

definition dm_runnable :: "decode_mgr \<Rightarrow> bool" where
  "dm_runnable dm \<longleftrightarrow> length (dm_running dm) > 0"

definition dm_schedule :: "(nat \<Rightarrow> 'h req) \<Rightarrow> decode_mgr \<Rightarrow> nat list option \<times> decode_mgr" where
  "dm_schedule S dm = (if \<not> dm_runnable dm then (None, dm)
                       else (let (xs, dm1) = ordered_view S dm in (Some xs, dm1)))"

subsection \<open>The cached order\<close>

text \<open>One call of the manager, with the store as it is at that time.\<close>

datatype 'h dm_op = Filter "nat \<Rightarrow> 'h req" "nat list" | Remove "nat \<Rightarrow> 'h req" nat | Abort int
  | View "nat \<Rightarrow> 'h req" | Schedule "nat \<Rightarrow> 'h req"

fun dm_do :: "'h dm_op \<Rightarrow> decode_mgr \<Rightarrow> decode_mgr" where
  "dm_do (Filter S xs) dm = filter_reqs S xs dm"
| "dm_do (Remove S x) dm = remove_req S x dm"
| "dm_do (Abort uid) dm = snd (abort_req uid dm)"
| "dm_do (View S) dm = snd (ordered_view S dm)"
| "dm_do (Schedule S) dm = snd (dm_schedule S dm)"

fun op_uids :: "(nat \<Rightarrow> int) \<Rightarrow> 'h dm_op \<Rightarrow> bool" where
  "op_uids uid (Filter S xs) = (\<forall>x. rq_uid (S x) = uid x)"
| "op_uids uid (Remove S x) = (\<forall>x. rq_uid (S x) = uid x)"
| "op_uids uid (Abort u) = True"
| "op_uids uid (View S) = (\<forall>x. rq_uid (S x) = uid x)"
| "op_uids uid (Schedule S) = (\<forall>x. rq_uid (S x) = uid x)"

definition dm_ok :: "(nat \<Rightarrow> int) \<Rightarrow> decode_mgr \<Rightarrow> bool" where
  "dm_ok uid dm \<longleftrightarrow> distinct (map fst (dm_running dm)) \<and> (\<forall>(u, x) \<in> set (dm_running dm). u = uid x)
     \<and> (\<forall>xs. dm_ordered dm = Some xs \<longrightarrow> xs = sort_key uid (map snd (dm_running dm)))"

lemma dm_pop_ok:
  assumes "dm_ok uid dm"
  shows "dm_ok uid (snd (dm_pop u dm))"
    and "set (dm_running (snd (dm_pop u dm))) = {e \<in> set (dm_running dm). fst e \<noteq> u}"
proof -
  have "map_of (dm_running dm) u = None \<longleftrightarrow> u \<notin> fst ` set (dm_running dm)" by (simp add: map_of_eq_None_iff)
  moreover have "set (AList.delete u (dm_running dm)) = {e \<in> set (dm_running dm). fst e \<noteq> u}"
    by (auto simp: AList.delete_eq)
  ultimately show "dm_ok uid (snd (dm_pop u dm))"
    "set (dm_running (snd (dm_pop u dm))) = {e \<in> set (dm_running dm). fst e \<noteq> u}"
    using assms by (force simp: dm_pop_def dm_ok_def AList.distinct_delete split: option.splits)+
qed

lemma filter_one_ok:
  assumes "dm_ok uid dm" "\<forall>x. rq_uid (S x) = uid x"
  shows "dm_ok uid (filter_one S x dm)"
    and "set (dm_running (filter_one S x dm)) =
      (if can_decode (S x) then set (dm_running dm) \<union> (if uid x \<in> fst ` set (dm_running dm) then {} else {(uid x, x)})
       else {e \<in> set (dm_running dm). fst e \<noteq> uid x})"
  using assms dm_pop_ok [OF assms(1), of "uid x"]
  by (auto simp: filter_one_def dm_ok_def map_of_eq_None_iff Let_def)

lemma filter_reqs_ok:
  assumes "dm_ok uid dm" "\<forall>x. rq_uid (S x) = uid x"
  shows "dm_ok uid (filter_reqs S xs dm)"
  using assms(1) unfolding filter_reqs_def
  by (induction xs arbitrary: dm) (auto simp: filter_one_ok(1) [OF _ assms(2)])

lemma ordered_view_ok:
  assumes "dm_ok uid dm" "\<forall>x. rq_uid (S x) = uid x"
  shows "fst (ordered_view S dm) = sort_key uid (map snd (dm_running dm))" "dm_ok uid (snd (ordered_view S dm))"
    "dm_running (snd (ordered_view S dm)) = dm_running dm"
  using assms by (auto simp: ordered_view_def dm_ok_def Let_def split: option.splits)

lemma dm_do_ok: "dm_ok uid dm \<Longrightarrow> op_uids uid c \<Longrightarrow> dm_ok uid (dm_do c dm)"
  by (cases c) (auto simp: filter_reqs_ok remove_req_def abort_req_def dm_pop_ok ordered_view_ok dm_schedule_def
      split: prod.splits dest: ordered_view_ok(2))

text \<open>
  The cached order is never stale: after any sequence of calls, with the requests advancing
  in between, the ordered view (and the batch scheduled from it) is what sorting the running
  requests by uid would give.
\<close>

theorem decode_order_never_stale:
  fixes page :: nat
  assumes "\<forall>c \<in> set cs. op_uids uid c" "\<forall>x. rq_uid (S x) = uid x"
  defines "dm \<equiv> foldl (\<lambda>dm c. dm_do c dm) (dm_init page) cs"
  shows "fst (ordered_view S dm) = sort_key (\<lambda>x. rq_uid (S x)) (map snd (dm_running dm))
     \<and> fst (dm_schedule S dm) = (if dm_running dm = [] then None
          else Some (sort_key (\<lambda>x. rq_uid (S x)) (map snd (dm_running dm))))"
proof -
  have "dm_ok uid d \<Longrightarrow> dm_ok uid (foldl (\<lambda>dm c. dm_do c dm) d cs)" for d
    using assms(1) by (induction cs arbitrary: d) (auto simp: dm_do_ok)
  moreover have "dm_ok uid (dm_init page)" by (simp add: dm_ok_def dm_init_def)
  ultimately have "dm_ok uid dm" unfolding dm_def by blast
  moreover have "(\<lambda>x. rq_uid (S x)) = uid" using assms(2) by auto
  ultimately have "fst (ordered_view S dm) = sort_key (\<lambda>x. rq_uid (S x)) (map snd (dm_running dm))"
    using ordered_view_ok(1) [OF _ assms(2)] by simp
  then show ?thesis by (cases "ordered_view S dm") (simp add: dm_schedule_def dm_runnable_def)
qed

definition demo_store :: "nat \<Rightarrow> unit req" where
  "demo_store x = \<lparr>rq_buf = [], rq_len = 0, rq_prompt = 0, rq_table = x, rq_cached = 1, rq_device = 2,
     rq_max = (if x = 3 then 2 else 9), rq_uid = - int x, rq_cache_output = True, rq_handle = (), rq_chunked = False\<rparr>"

theorem decode_order_never_stale_witness:
  "fst (ordered_view demo_store (foldl (\<lambda>dm c. dm_do c dm) (dm_init 1)
      [Filter demo_store [1, 2], View demo_store, Filter demo_store [4]])) = [4, 2, 1]"
proof -
  have "\<forall>c \<in> set [Filter demo_store [1, 2], View demo_store, Filter demo_store [4]]. op_uids (\<lambda>x. - int x) c"
    by (simp add: demo_store_def)
  from decode_order_never_stale [OF this, of demo_store 1] show ?thesis
    by (simp add: demo_store_def dm_init_def filter_reqs_def filter_one_def can_decode_def remain_len_def
        ordered_view_def Let_def)
qed

text \<open>
  Folding only the forwarded batch into the running set gives the same set as filtering the
  whole union: when every running request outside the batch can still decode and distinct
  requests have distinct uids, the running requests after \<open>filter_reqs\<close> are those of the old
  set and the batch that can decode.
\<close>

theorem filter_reqs_is_set_filter:
  assumes "dm_ok uid dm" "\<forall>x. rq_uid (S x) = uid x" "inj_on uid (snd ` set (dm_running dm) \<union> set xs)"
    and "\<forall>x \<in> snd ` set (dm_running dm) - set xs. can_decode (S x)"
  shows "snd ` set (dm_running (filter_reqs S xs dm)) = {x \<in> snd ` set (dm_running dm) \<union> set xs. can_decode (S x)}"
proof -
  have "snd ` set (dm_running (filter_reqs S xs dm))
      = {x \<in> snd ` set (dm_running dm). x \<in> set xs \<longrightarrow> can_decode (S x)} \<union> {x \<in> set xs. can_decode (S x)}"
    using assms(1,3) unfolding filter_reqs_def
  proof (induction xs arbitrary: dm)
    case (Cons x xs)
    let ?d = "filter_one S x dm"
    have o: "dm_ok uid ?d" by (rule filter_one_ok [OF Cons.prems(1) assms(2)])
    have key: "u = uid y" if "(u, y) \<in> set (dm_running dm)" for u y using Cons.prems(1) that by (auto simp: dm_ok_def)
    have in_run: "uid x \<in> fst ` set (dm_running dm) \<longleftrightarrow> x \<in> snd ` set (dm_running dm)"
    proof
      assume "uid x \<in> fst ` set (dm_running dm)"
      then obtain y where y: "(uid x, y) \<in> set (dm_running dm)" by auto
      then have "uid x = uid y" by (rule key)
      moreover have "y \<in> snd ` set (dm_running dm)" using y by force
      ultimately have "x = y" using Cons.prems(2) by (auto dest: inj_onD)
      with y show "x \<in> snd ` set (dm_running dm)" by force
    next
      assume "x \<in> snd ` set (dm_running dm)"
      then show "uid x \<in> fst ` set (dm_running dm)" using key by force
    qed
    have run: "snd ` set (dm_running ?d) = (if can_decode (S x) then insert x (snd ` set (dm_running dm))
        else snd ` set (dm_running dm) - {x})"
    proof (cases "can_decode (S x)")
      case True
      then show ?thesis using in_run by (auto simp: filter_one_ok(2) [OF Cons.prems(1) assms(2)])
    next
      case False
      have "y \<noteq> x \<longleftrightarrow> u \<noteq> uid x" if "(u, y) \<in> set (dm_running dm)" for u y
      proof -
        have "y \<in> snd ` set (dm_running dm)" using that by force
        then have "uid y = uid x \<longrightarrow> y = x" using inj_onD [OF Cons.prems(2), of y x] by simp
        with key [OF that] show ?thesis by auto
      qed
      then have "snd ` {e \<in> set (dm_running dm). fst e \<noteq> uid x} = snd ` set (dm_running dm) - {x}" by force
      with False show ?thesis by (simp add: filter_one_ok(2) [OF Cons.prems(1) assms(2)])
    qed
    have "inj_on uid (snd ` set (dm_running ?d) \<union> set xs)"
      by (rule inj_on_subset [OF Cons.prems(2)]) (auto simp: run)
    from Cons.IH [OF o this] show ?case unfolding run by auto
  qed auto
  with assms(4) show ?thesis by auto
qed

theorem filter_reqs_is_set_filter_witness:
  "snd ` set (dm_running (filter_reqs demo_store [3, 4] \<lparr>dm_page = 1, dm_running = [(-3, 3), (-5, 5)], dm_ordered = None\<rparr>))
     = {4, 5}"
proof -
  let ?d = "\<lparr>dm_page = 1, dm_running = [(-3, 3), (-5, 5)], dm_ordered = None\<rparr>"
  have "snd ` set (dm_running (filter_reqs demo_store [3, 4] ?d))
      = {x \<in> snd ` set (dm_running ?d) \<union> set [3, 4]. can_decode (demo_store x)}"
    by (rule filter_reqs_is_set_filter [where uid = "\<lambda>x. - int x"])
      (auto simp: dm_ok_def demo_store_def can_decode_def remain_len_def inj_on_def)
  also have "\<dots> = {4, 5}" by (auto simp: demo_store_def can_decode_def remain_len_def)
  finally show ?thesis .
qed

end
