(* ===== verification/Slru.thy ===== *)
theory Slru
  imports Prelude
begin

section \<open>The segmented LRU policy of the expert cache\<close>

text \<open>
  \<open>_SLRU\<close> of \<open>python/minisgl/weights/expert_cache.py\<close>.  Its two dicts are insertion
  ordered and hold no values, so each is a list of distinct keys, oldest first.  The locale
  \<open>evict_policy\<close> states what the cache asks of its policy (which keys are resident, how
  many fit, who leaves) and proves the argument of \<open>_reclaim\<close>: taking victims and putting
  some of them back never evicts.  It is interpreted on the segmented LRU.
\<close>

subsection \<open>Dicts used as ordered sets\<close>

definition dict_add :: "nat \<Rightarrow> nat list \<Rightarrow> nat list" where
  "dict_add k xs = (if k \<in> set xs then xs else xs @ [k])"

lemma set_dict_add [simp]: "set (dict_add k xs) = insert k (set xs)"
  by (auto simp: dict_add_def)

lemma distinct_dict_add [simp]: "distinct (dict_add k xs) = distinct xs"
  by (auto simp: dict_add_def)

subsection \<open>The policy\<close>

record slru =
  s_cap :: nat
  prot_cap :: nat
  probation :: "nat list"
  protected :: "nat list"

text \<open>\<open>prot_cap\<close> is \<open>int(cap * protected_frac)\<close>, a float product the constructor truncates;
  here its result is the second argument.\<close>

definition slru_init :: "nat \<Rightarrow> nat \<Rightarrow> slru" where
  "slru_init c pc = \<lparr>s_cap = c, prot_cap = pc, probation = [], protected = []\<rparr>"

definition slru_mem :: "slru \<Rightarrow> nat \<Rightarrow> bool" where
  "slru_mem p k = (k \<in> set (probation p) \<or> k \<in> set (protected p))"

definition slru_len :: "slru \<Rightarrow> nat" where
  "slru_len p = length (probation p) + length (protected p)"

definition touch :: "nat \<Rightarrow> slru \<Rightarrow> slru" where
  "touch k p =
     (if k \<in> set (protected p) then p\<lparr>protected := dict_add k (remove1 k (protected p))\<rparr>
      else if k \<in> set (probation p) then
        (let pb = remove1 k (probation p); pr = dict_add k (protected p)
         in if prot_cap p < length pr
            then p\<lparr>probation := dict_add (hd pr) pb, protected := tl pr\<rparr>
            else p\<lparr>probation := pb, protected := pr\<rparr>)
      else p)"

definition take_victim :: "slru \<Rightarrow> slru \<times> nat option" where
  "take_victim p =
     (case probation p of v # vs \<Rightarrow> (p\<lparr>probation := vs\<rparr>, Some v)
      | [] \<Rightarrow> (case protected p of v # vs \<Rightarrow> (p\<lparr>protected := vs\<rparr>, Some v)
             | [] \<Rightarrow> (p, None)))"

text \<open>\<open>admit\<close> makes room exactly as \<open>take_victim\<close> does; with both segments empty the cache
  has no capacity, which the constructor of the cache excludes.\<close>

definition admit :: "nat \<Rightarrow> slru \<Rightarrow> slru \<times> nat option" where
  "admit k p =
     (let (p', victim) =
        (if s_cap p \<le> length (probation p) + length (protected p) then
           (case probation p of v # vs \<Rightarrow> (p\<lparr>probation := vs\<rparr>, Some v)
            | [] \<Rightarrow> (case protected p of v # vs \<Rightarrow> (p\<lparr>protected := vs\<rparr>, Some v)
                   | [] \<Rightarrow> (p, None)))
         else (p, None))
      in (p'\<lparr>probation := dict_add k (probation p')\<rparr>, victim))"

definition evict_key :: "nat \<Rightarrow> slru \<Rightarrow> slru" where
  "evict_key k p = p\<lparr>probation := remove1 k (probation p), protected := remove1 k (protected p)\<rparr>"

subsection \<open>What the cache asks of a policy\<close>

locale evict_policy =
  fixes keys :: "'p \<Rightarrow> nat set"
    and room :: "'p \<Rightarrow> nat"
    and ok :: "'p \<Rightarrow> bool"
    and hit :: "nat \<Rightarrow> 'p \<Rightarrow> 'p"
    and adm :: "nat \<Rightarrow> 'p \<Rightarrow> 'p \<times> nat option"
    and take1 :: "'p \<Rightarrow> 'p \<times> nat option"
    and drop1 :: "nat \<Rightarrow> 'p \<Rightarrow> 'p"
  assumes fin: "ok p \<Longrightarrow> finite (keys p)"
    and bound: "ok p \<Longrightarrow> card (keys p) \<le> room p"
    and hit_law: "ok p \<Longrightarrow> ok (hit k p) \<and> keys (hit k p) = keys p \<and> room (hit k p) = room p"
    and adm_law: "ok p \<Longrightarrow> k \<notin> keys p \<Longrightarrow> card (keys p) < room p \<Longrightarrow> adm k p = (p', v) \<Longrightarrow>
          ok p' \<and> v = None \<and> keys p' = insert k (keys p) \<and> room p' = room p"
    and take_law: "ok p \<Longrightarrow> take1 p = (p', v) \<Longrightarrow>
          ok p' \<and> room p' = room p \<and>
          (case v of None \<Rightarrow> keys p = {} \<and> keys p' = {} | Some x \<Rightarrow> x \<in> keys p \<and> keys p' = keys p - {x})"
    and drop_law: "ok p \<Longrightarrow> ok (drop1 k p) \<and> keys (drop1 k p) = keys p - {k} \<and> room (drop1 k p) = room p"
begin

lemma take_SomeD:
  assumes "ok p" "take1 p = (p', Some x)"
  shows "ok p'" "room p' = room p" "x \<in> keys p" "keys p' = keys p - {x}"
        "card (keys p') < room p'"
proof -
  note * = take_law [OF assms, simplified]
  show 1: "ok p'" "room p' = room p" "x \<in> keys p" "keys p' = keys p - {x}" by (simp_all add: *)
  have "card (keys p - {x}) < card (keys p)" by (rule card_Diff1_less [OF fin [OF assms(1)] 1(3)])
  with bound [OF assms(1)] 1 show "card (keys p') < room p'" by simp
qed

text \<open>Putting back keys that left, while there is room for all of them, never evicts.\<close>

lemma readmit:
  assumes "ok p" "distinct ks" "set ks \<inter> keys p = {}" "card (keys p) + length ks \<le> room p"
  shows "\<exists>p'. foldl (\<lambda>(q, vs) k. let (q', v) = adm k q in (q', vs @ [v])) (p, us) ks = (p', us @ map (\<lambda>_. None) ks)
          \<and> ok p' \<and> keys p' = keys p \<union> set ks \<and> room p' = room p"
  using assms
proof (induction ks arbitrary: p us)
  case (Cons k ks)
  obtain p1 v where e: "adm k p = (p1, v)" by force
  have a: "ok p1" "v = None" "keys p1 = insert k (keys p)" "room p1 = room p"
    using adm_law [OF Cons.prems(1) _ _ e] Cons.prems by auto
  have "\<exists>p'. foldl (\<lambda>(q, vs) k. let (q', v) = adm k q in (q', vs @ [v])) (p1, us @ [None]) ks
          = (p', (us @ [None]) @ map (\<lambda>_. None) ks) \<and> ok p' \<and> keys p' = keys p1 \<union> set ks \<and> room p' = room p1"
    by (rule Cons.IH) (use a Cons.prems fin [OF Cons.prems(1)] in auto)
  then show ?case using a e by auto
qed simp

end

subsection \<open>The segmented LRU is such a policy\<close>

definition slru_keys :: "slru \<Rightarrow> nat set" where
  "slru_keys p = set (probation p) \<union> set (protected p)"

definition slru_ok :: "slru \<Rightarrow> bool" where
  "slru_ok p = (distinct (probation p @ protected p) \<and> slru_len p \<le> s_cap p
                \<and> length (protected p) \<le> prot_cap p)"

lemma slru_keys_mem: "slru_mem p k \<longleftrightarrow> k \<in> slru_keys p"
  by (simp add: slru_mem_def slru_keys_def)

lemma slru_card: "slru_ok p \<Longrightarrow> card (slru_keys p) = slru_len p"
  by (simp add: slru_ok_def slru_keys_def slru_len_def card_Un_disjoint distinct_card)

lemma dict_add_new [simp]: "k \<notin> set xs \<Longrightarrow> dict_add k xs = xs @ [k]"
  by (simp add: dict_add_def)

lemma dict_add_old [simp]: "k \<in> set xs \<Longrightarrow> dict_add k xs = xs"
  by (simp add: dict_add_def)

lemma len_remove1: "k \<in> set xs \<Longrightarrow> length xs = Suc (length (remove1 k xs))"
  using length_pos_if_in_set [of k xs] by (simp add: length_remove1)

lemma slru_ok_parts:
  "slru_ok p \<longleftrightarrow> distinct (probation p) \<and> distinct (protected p) \<and> set (probation p) \<inter> set (protected p) = {}
     \<and> length (probation p) + length (protected p) \<le> s_cap p \<and> length (protected p) \<le> prot_cap p"
  by (simp add: slru_ok_def slru_len_def)

lemma touch_ok:
  assumes ok: "slru_ok p"
  shows "slru_ok (touch k p) \<and> slru_keys (touch k p) = slru_keys p \<and> s_cap (touch k p) = s_cap p"
proof -
  note o = ok [unfolded slru_ok_parts]
  consider (prot) "k \<in> set (protected p)" | (prob) "k \<notin> set (protected p)" "k \<in> set (probation p)"
    | (out) "k \<notin> set (protected p)" "k \<notin> set (probation p)" by blast
  then show ?thesis
  proof cases
    case prot
    let ?r = "remove1 k (protected p)"
    have r: "set ?r = set (protected p) - {k}" "distinct ?r" "length (protected p) = Suc (length ?r)"
      using o len_remove1 [OF prot] by (simp_all add: set_remove1_eq)
    from r(1) have "k \<notin> set ?r" by simp
    then have e: "touch k p = p\<lparr>protected := ?r @ [k]\<rparr>" using prot by (simp add: touch_def)
    have "set (?r @ [k]) = set (protected p)" using r(1) prot by auto
    then show ?thesis using o r \<open>k \<notin> set ?r\<close>
      unfolding e slru_ok_parts slru_keys_def by simp
  next
    case prob
    let ?r = "remove1 k (probation p)"
    have r: "set ?r = set (probation p) - {k}" "distinct ?r" "length (probation p) = Suc (length ?r)"
      using o len_remove1 [OF prob(2)] by (simp_all add: set_remove1_eq)
    obtain h ts where ht: "protected p @ [k] = h # ts" by (cases "protected p @ [k]") auto
    have d: "distinct (h # ts)" "length ts = length (protected p)" "set (h # ts) = insert k (set (protected p))"
      using o prob(1) arg_cong [OF ht, of distinct] arg_cong [OF ht, of length] arg_cong [OF ht, of set] by simp_all
    have h: "h \<notin> set ?r" using d(3) r(1) o by auto
    have e: "touch k p = (if prot_cap p < Suc (length (protected p)) then p\<lparr>probation := ?r @ [h], protected := ts\<rparr>
                          else p\<lparr>probation := ?r, protected := protected p @ [k]\<rparr>)"
      using prob h ht d(2) by (simp add: touch_def Let_def)
    have t: "set ts = insert k (set (protected p)) - {h}" using d(1,3) by auto
    have "set ts \<inter> insert h (set ?r) = {}" using r(1) o by (auto simp: t)
    moreover have "insert h (set ?r) \<union> set ts = set (probation p) \<union> set (protected p)"
      using d(3) r(1) prob(2) by (auto simp: t)
    moreover have "set ?r \<union> insert k (set (protected p)) = set (probation p) \<union> set (protected p)"
      using r(1) prob(2) by auto
    ultimately show ?thesis using o r(2,3) h d prob(1)
      unfolding e slru_ok_parts slru_keys_def by (auto simp: r(1))
  next
    case out
    then show ?thesis using ok by (simp add: touch_def)
  qed
qed

lemma take_ok:
  assumes "slru_ok p" "take_victim p = (p', v)"
  shows "slru_ok p' \<and> s_cap p' = s_cap p \<and>
    (case v of None \<Rightarrow> slru_keys p = {} \<and> slru_keys p' = {} | Some x \<Rightarrow> x \<in> slru_keys p \<and> slru_keys p' = slru_keys p - {x})"
  using assms by (auto simp: take_victim_def slru_ok_parts slru_keys_def split: list.splits)

lemma slru_admit_ok:
  assumes "slru_ok p" "k \<notin> slru_keys p" "card (slru_keys p) < s_cap p" "admit k p = (p', v)"
  shows "slru_ok p' \<and> v = None \<and> slru_keys p' = insert k (slru_keys p) \<and> s_cap p' = s_cap p"
proof -
  from assms(1,3) have "length (probation p) + length (protected p) < s_cap p"
    by (simp add: slru_card slru_len_def)
  moreover have "v = None" "p' = p\<lparr>probation := probation p @ [k]\<rparr>"
    using assms(2,4) calculation by (auto simp: admit_def slru_keys_def)
  ultimately show ?thesis using assms(1,2) by (auto simp: slru_ok_parts slru_keys_def)
qed

lemma evict_ok:
  assumes "slru_ok p"
  shows "slru_ok (evict_key k p) \<and> slru_keys (evict_key k p) = slru_keys p - {k} \<and> s_cap (evict_key k p) = s_cap p"
proof -
  have "set (remove1 k (probation p)) = set (probation p) - {k}" "set (remove1 k (protected p)) = set (protected p) - {k}"
    using assms by (simp_all add: set_remove1_eq slru_ok_parts)
  moreover have "length (remove1 k (probation p)) \<le> length (probation p)" "length (remove1 k (protected p)) \<le> length (protected p)"
    by (simp_all add: length_remove1)
  ultimately show ?thesis using assms unfolding slru_ok_parts evict_key_def slru_keys_def by auto
qed

interpretation slru_policy: evict_policy slru_keys s_cap slru_ok touch admit take_victim evict_key
proof unfold_locales
  show "slru_ok p \<Longrightarrow> finite (slru_keys p)" for p by (simp add: slru_keys_def)
  show "card (slru_keys p) \<le> s_cap p" if "slru_ok p" for p
    using that slru_card [OF that] by (simp add: slru_ok_def)
qed (fact touch_ok slru_admit_ok take_ok evict_ok)+

text \<open>A full policy admits by evicting: from probation while it has keys, so that an expert
  with one reference never pushes out one with two.\<close>

lemma admit_full:
  assumes "slru_ok p" "k \<notin> slru_keys p" "s_cap p \<le> slru_len p" "probation p = v # vs"
  shows "admit k p = (p\<lparr>probation := vs @ [k]\<rparr>, Some v)"
  using assms by (auto simp: admit_def slru_len_def slru_keys_def)

end
