(* ===== verification/Expert_Cache.thy ===== *)
theory Expert_Cache
  imports Slru
begin

section \<open>The expert residency cache: model\<close>

text \<open>
  \<open>ExpertResidencyCache\<close> of \<open>python/minisgl/weights/expert_cache.py\<close> with both of its
  threads and the two GPU streams they enqueue on.  Host state is the record \<open>ec\<close>, field for
  field; a method of the class is a function on it.  The GPU is explicit: the compute stream
  and the copy stream are queues, \<open>dev_table\<close> is what a kernel reads (all layers' \<open>slot_of\<close>
  tensors as one map from the global key \<open>layer * num_experts + expert\<close>), \<open>slab p s\<close> is the
  expert whose bytes row \<open>s\<close> of plane \<open>p\<close> holds, and \<open>evdone\<close> are the completed events.  One
  promotion enqueues on the copy stream a wait, the copies of both planes and an event: a
  \<open>Job\<close>.  \<open>apply_pending\<close> is composed of the parts between which it does not hold the lock;
  \<open>Expert_Cache_Run\<close> lets the manager and the GPU progress between any two of them.
\<close>

subsection \<open>State\<close>

datatype plane = Gate_Up | Down

definition planes :: "plane list" where
  "planes = [Gate_Up, Down]"

datatype job = Job (jwait: "nat option") (jkey: nat) (jslot: nat) (jtodo: "plane list") (jdone: nat)

datatype cop = CSet nat int | CRecord nat | CWait nat | CLaunch

datatype stat = Hits | Misses | Promotions | Evictions | Dropped_refs | Manager_batches | Ticks
  | Admit_deferred | Skipped_capture | Throttled | Deferred | Pending_dropped | Abandoned
  | Stale_publishes_dropped | Reclaim_skipped_inflight

type_synonym entry = "nat \<times> nat \<times> nat \<times> nat"  \<comment> \<open>key, slot, event, age\<close>

record ec =
  num_experts :: nat
  slots :: nat
  cuda :: bool
  q_max :: nat
  low_water :: nat
  max_inflight :: nat
  inflight_max_age :: nat
  admit_second_ref :: bool
  candidate_cap :: nat
  pending_cap :: nat
  layers :: "nat list"
  threaded :: bool
  capturing :: bool
  policy :: slru
  slot_of_key :: "nat \<Rightarrow> nat option"
  key_of_slot :: "int list"
  free :: "nat list"
  to_retract :: "(nat \<times> nat) list"
  retract_ev :: "nat \<Rightarrow> nat option"
  inflight :: "entry list"
  candidates :: "nat list"
  pend :: "nat list"
  pend_set :: "nat set"
  refq :: "(nat \<times> nat list) list"
  stats :: "stat \<Rightarrow> nat"
  compute :: "cop list"
  copyq :: "job list"
  dev_table :: "nat \<Rightarrow> int"
  slab :: "plane \<Rightarrow> nat \<Rightarrow> nat option"
  evdone :: "nat set"
  nextev :: nat

definition bump_by :: "stat \<Rightarrow> nat \<Rightarrow> ec \<Rightarrow> ec" where
  "bump_by c n st = st\<lparr>stats := (stats st)(c := stats st c + n)\<rparr>"

abbreviation bump :: "stat \<Rightarrow> ec \<Rightarrow> ec" where
  "bump c \<equiv> bump_by c (Suc 0)"

subsection \<open>Construction\<close>

text \<open>The knobs read by \<open>_env_int\<close>: \<open>None\<close> for an unset, empty or unparsable variable.\<close>

record knobs =
  k_queue :: "int option"
  k_low_water :: "int option"
  k_max_inflight :: "int option"
  k_inflight_age :: "int option"
  k_admit_second :: "int option"
  k_candidates :: "int option"
  k_pending :: "int option"

definition env_int :: "int option \<Rightarrow> int \<Rightarrow> int" where
  "env_int raw dflt = (case raw of None \<Rightarrow> dflt | Some v \<Rightarrow> v)"

definition ec_init :: "knobs \<Rightarrow> nat \<Rightarrow> int \<Rightarrow> int \<Rightarrow> bool \<Rightarrow> nat \<Rightarrow> py_error + ec" where
  "ec_init kn ne budget expert_bytes dev_cuda prot =
     (let n = budget div max 1 expert_bytes;
          lw = max 8 (env_int (k_low_water kn) (n div 200));
          cap = max 8 (n div 3);
          mi0 = max 8 (env_int (k_max_inflight kn) 64);
          mi = (if mi0 > cap then cap else mi0)
      in if n < 1 then Inl RuntimeError
         else Inr \<lparr>num_experts = ne, slots = nat n, cuda = dev_cuda,
           q_max = nat (max 64 (env_int (k_queue kn) 4096)),
           low_water = nat lw, max_inflight = nat mi,
           inflight_max_age = nat (max 4 (env_int (k_inflight_age kn) 64)),
           admit_second_ref = (env_int (k_admit_second kn) 1 \<noteq> 0),
           candidate_cap = nat (max 256 (env_int (k_candidates kn) (n * 2))),
           pending_cap = nat (max 64 (env_int (k_pending kn) (8 * mi))),
           layers = [], threaded = False, capturing = False,
           policy = slru_init (nat n) prot,
           slot_of_key = Map.empty, key_of_slot = replicate (nat n) (-1), free = [0..<nat n],
           to_retract = [], retract_ev = Map.empty, inflight = [], candidates = [],
           pend = [], pend_set = {}, refq = [], stats = (\<lambda>_. 0),
           compute = [], copyq = [], dev_table = (\<lambda>_. -1), slab = (\<lambda>_ _. None),
           evdone = {}, nextev = 0\<rparr>)"

text \<open>\<open>register_layer\<close> binds one layer's host tensors; the row counts of the two weights are
  its arguments here, the \<open>slot_of\<close> tensor it allocates is all \<open>-1\<close>.\<close>

definition new_table :: "nat \<Rightarrow> nat \<Rightarrow> (nat \<Rightarrow> int) \<Rightarrow> nat \<Rightarrow> int" where
  "new_table ne l t k = (if k div ne = l then -1 else t k)"

definition register_layer :: "nat \<Rightarrow> nat \<Rightarrow> nat \<Rightarrow> ec \<Rightarrow> py_error + ec" where
  "register_layer l gu_rows dn_rows st =
     (if l \<in> set (layers st) then Inl RuntimeError
      else if gu_rows \<noteq> num_experts st \<or> dn_rows \<noteq> num_experts st then Inl RuntimeError
      else Inr (st\<lparr>layers := layers st @ [l],
                   dev_table := new_table (num_experts st) l (dev_table st)\<rparr>))"

definition start :: "ec \<Rightarrow> ec" where
  "start st = (if threaded st \<or> \<not> cuda st then st else st\<lparr>threaded := True\<rparr>)"

text \<open>\<open>install\<close> hands the map of a registered layer to the kernel, and none otherwise.\<close>

definition install :: "nat \<Rightarrow> ec \<Rightarrow> (nat \<Rightarrow> int) option" where
  "install l st = (if l \<in> set (layers st) then Some (\<lambda>e. dev_table st (l * num_experts st + e)) else None)"

subsection \<open>The manager\<close>

definition write_table :: "nat \<Rightarrow> int \<Rightarrow> ec \<Rightarrow> ec" where
  "write_table k v st =
     (if cuda st then st\<lparr>compute := compute st @ [CSet k v]\<rparr>
      else st\<lparr>dev_table := (dev_table st)(k := v)\<rparr>)"

definition queue_retract :: "nat \<Rightarrow> ec \<Rightarrow> bool \<times> ec" where
  "queue_retract victim st =
     (case slot_of_key st victim of
        None \<Rightarrow> (False, st)
      | Some slot \<Rightarrow> (True, bump Evictions (st\<lparr>slot_of_key := (slot_of_key st)(victim := None),
            key_of_slot := (key_of_slot st)[slot := -1],
            to_retract := to_retract st @ [(victim, slot)]\<rparr>)))"

text \<open>\<open>while len(self._pending) >= self._pending_cap: popleft()\<close>: what is dropped and what is kept.\<close>

fun drop_oldest :: "nat \<Rightarrow> nat list \<Rightarrow> nat list \<times> nat list" where
  "drop_oldest c [] = ([], [])"
| "drop_oldest c (x # xs) =
     (if c \<le> length (x # xs) then (let (d, r) = drop_oldest c xs in (x # d, r)) else ([], x # xs))"

definition defer_ref :: "nat \<Rightarrow> ec \<Rightarrow> ec" where
  "defer_ref key st =
     (if key \<in> pend_set st \<or> slot_of_key st key \<noteq> None then st
      else (let (d, r) = drop_oldest (pending_cap st) (pend st)
            in bump_by Pending_dropped (length d)
                 (st\<lparr>pend := r @ [key], pend_set := insert key (pend_set st - set d)\<rparr>)))"

definition admit_ok_ref :: "nat \<Rightarrow> ec \<Rightarrow> bool \<times> ec" where
  "admit_ok_ref key st =
     (if \<not> admit_second_ref st then (True, st)
      else if key \<in> set (candidates st) then (True, st\<lparr>candidates := remove1 key (candidates st)\<rparr>)
      else (let seen = candidates st @ [key];
                seen' = (if candidate_cap st < length seen then tl seen else seen)
            in (False, bump Admit_deferred (st\<lparr>candidates := seen'\<rparr>))))"

text \<open>The second half of \<open>_promote\<close>, holding a slot: admit, fence and copy, claim, and either
  queue the publication (threaded) or publish.\<close>

definition place_room :: "nat \<Rightarrow> ec \<Rightarrow> ec" where
  "place_room key st =
     (case admit key (policy st) of
        (pol, None) \<Rightarrow> st\<lparr>policy := pol\<rparr>
      | (pol, Some victim) \<Rightarrow> snd (queue_retract victim (st\<lparr>policy := pol\<rparr>)))"

definition place_copy :: "nat \<Rightarrow> nat \<Rightarrow> ec \<Rightarrow> ec" where
  "place_copy key slot st =
     (if cuda st
      then st\<lparr>copyq := copyq st @ [Job (retract_ev st slot) key slot planes (nextev st)],
              retract_ev := (retract_ev st)(slot := None), nextev := Suc (nextev st)\<rparr>
      else st\<lparr>slab := (\<lambda>p. (slab st p)(slot := Some key))\<rparr>)"

definition place_done :: "nat \<Rightarrow> nat \<Rightarrow> nat \<Rightarrow> ec \<Rightarrow> ec" where
  "place_done key slot ev st =
     (if threaded st \<and> cuda st then st\<lparr>inflight := inflight st @ [(key, slot, ev, 0)]\<rparr>
      else bump Promotions (write_table key (int slot)
             (if cuda st then st\<lparr>compute := compute st @ [CWait ev]\<rparr> else st)))"

definition place_claim :: "nat \<Rightarrow> nat \<Rightarrow> nat \<Rightarrow> ec \<Rightarrow> ec" where
  "place_claim key slot ev st =
     place_done key slot ev (st\<lparr>slot_of_key := (slot_of_key st)(key := Some slot),
                               key_of_slot := (key_of_slot st)[slot := int key]\<rparr>)"

definition place_in :: "nat \<Rightarrow> nat \<Rightarrow> ec \<Rightarrow> ec" where
  "place_in key slot st = place_claim key slot (nextev st) (place_copy key slot st)"

definition place :: "nat \<Rightarrow> nat \<Rightarrow> ec \<Rightarrow> ec" where
  "place key slot st = place_in key slot (place_room key st)"

lemmas place_defs = place_def place_in_def place_claim_def place_done_def place_copy_def place_room_def

text \<open>The slot of an inline eviction, the unthreaded path of \<open>_promote\<close>.\<close>

definition evict_inline :: "ec \<Rightarrow> nat option \<times> ec" where
  "evict_inline st =
     (case take_victim (policy st) of
        (pol, None) \<Rightarrow> (None, st\<lparr>policy := pol\<rparr>)
      | (pol, Some victim) \<Rightarrow>
          (case slot_of_key st victim of
             None \<Rightarrow> (None, st\<lparr>policy := pol\<rparr>)
           | Some vslot \<Rightarrow> (Some vslot, bump Evictions
               ((write_table victim (-1) (st\<lparr>policy := pol, slot_of_key := (slot_of_key st)(victim := None)\<rparr>))
                 \<lparr>key_of_slot := (key_of_slot st)[vslot := -1]\<rparr>))))"

definition promote :: "nat \<Rightarrow> ec \<Rightarrow> ec" where
  "promote key st =
     (if key div num_experts st \<notin> set (layers st) then st
      else if cuda st \<and> capturing st then bump Skipped_capture st
      else if max_inflight st \<le> length (inflight st) then defer_ref key (bump Throttled st)
      else if free st \<noteq> [] then place key (last (free st)) (st\<lparr>free := butlast (free st)\<rparr>)
      else if \<not> (threaded st \<and> cuda st) then
        (case evict_inline st of (None, st') \<Rightarrow> st' | (Some slot, st') \<Rightarrow> place key slot st')
      else defer_ref key (bump Deferred st))"

definition observe_one :: "nat \<Rightarrow> ec \<Rightarrow> ec" where
  "observe_one key st =
     (if slru_mem (policy st) key then bump Hits (st\<lparr>policy := touch key (policy st)\<rparr>)
      else (let (ok, st') = admit_ok_ref key (bump Misses st) in if ok then promote key st' else st'))"

fun observe_keys :: "nat \<Rightarrow> nat list \<Rightarrow> ec \<Rightarrow> ec" where
  "observe_keys base [] st = st"
| "observe_keys base (e # ids) st = observe_keys base ids (observe_one (base + e) st)"

definition observe_now :: "nat \<Rightarrow> nat list \<Rightarrow> ec \<Rightarrow> ec" where
  "observe_now layer ids st = observe_keys (layer * num_experts st) ids st"

text \<open>\<open>observe\<close>, on the scheduler thread: a bounded queue that forgets its oldest entry.\<close>

definition observe :: "nat \<Rightarrow> nat list \<Rightarrow> ec \<Rightarrow> ec" where
  "observe layer ids st =
     (if \<not> threaded st then observe_now layer ids st
      else if length (refq st) = q_max st
           then bump_by Dropped_refs (length ids) (st\<lparr>refq := tl (refq st) @ [(layer, ids)]\<rparr>)
           else st\<lparr>refq := refq st @ [(layer, ids)]\<rparr>)"

text \<open>\<open>_reclaim\<close>: take victims, retract those whose copy is not in flight, put the others back.\<close>

fun reclaim_loop :: "nat set \<Rightarrow> nat \<Rightarrow> ec \<Rightarrow> nat list \<Rightarrow> ec \<times> nat list" where
  "reclaim_loop fl 0 st held = (st, held)"
| "reclaim_loop fl (Suc n) st held =
     (case take_victim (policy st) of
        (pol, None) \<Rightarrow> (st\<lparr>policy := pol\<rparr>, held)
      | (pol, Some victim) \<Rightarrow>
          if victim \<in> fl
          then reclaim_loop fl n (bump Reclaim_skipped_inflight (st\<lparr>policy := pol\<rparr>)) (held @ [victim])
          else reclaim_loop fl n (snd (queue_retract victim (st\<lparr>policy := pol\<rparr>))) held)"

definition readmit_one :: "ec \<Rightarrow> nat \<Rightarrow> ec" where
  "readmit_one st victim =
     (let (pol, displaced) = admit victim (policy st); st' = st\<lparr>policy := pol\<rparr>
      in case displaced of None \<Rightarrow> st' | Some d \<Rightarrow> snd (queue_retract d st'))"

definition reclaim :: "nat \<Rightarrow> ec \<Rightarrow> ec" where
  "reclaim want st =
     (let (st', held) = reclaim_loop (fst ` set (inflight st)) want st []
      in foldl readmit_one st' held)"

subsection \<open>What a placement does to the queues\<close>

lemma bump_by_simps [simp]:
  "num_experts (bump_by c n st) = num_experts st" "slots (bump_by c n st) = slots st"
  "cuda (bump_by c n st) = cuda st" "low_water (bump_by c n st) = low_water st"
  "max_inflight (bump_by c n st) = max_inflight st" "inflight_max_age (bump_by c n st) = inflight_max_age st"
  "layers (bump_by c n st) = layers st" "threaded (bump_by c n st) = threaded st"
  "capturing (bump_by c n st) = capturing st" "policy (bump_by c n st) = policy st"
  "slot_of_key (bump_by c n st) = slot_of_key st" "key_of_slot (bump_by c n st) = key_of_slot st"
  "free (bump_by c n st) = free st" "to_retract (bump_by c n st) = to_retract st"
  "retract_ev (bump_by c n st) = retract_ev st" "inflight (bump_by c n st) = inflight st"
  "candidates (bump_by c n st) = candidates st" "pend (bump_by c n st) = pend st"
  "pend_set (bump_by c n st) = pend_set st" "refq (bump_by c n st) = refq st"
  "compute (bump_by c n st) = compute st" "copyq (bump_by c n st) = copyq st"
  "dev_table (bump_by c n st) = dev_table st" "slab (bump_by c n st) = slab st"
  "evdone (bump_by c n st) = evdone st" "nextev (bump_by c n st) = nextev st"
  "pending_cap (bump_by c n st) = pending_cap st" "candidate_cap (bump_by c n st) = candidate_cap st"
  by (simp_all add: bump_by_def)

lemma queue_retract_pend [simp]: "pend (snd (queue_retract v st)) = pend st"
  by (simp add: queue_retract_def split: option.splits)

lemma write_table_pend [simp]: "pend (write_table k v st) = pend st"
  by (simp add: write_table_def)

lemma place_pend [simp]: "pend (place key slot st) = pend st"
  by (simp add: place_defs split: prod.splits option.splits)

lemma promote_pend:
  "free st \<noteq> [] \<Longrightarrow> length (inflight st) < max_inflight st \<Longrightarrow> pend (promote key st) = pend st"
  by (simp add: promote_def)

text \<open>\<open>_service\<close>: place what waits while there is a slot and room on the link, newest first.
  A placement defers nothing when a slot is free, so every turn shortens the backlog.\<close>

definition can_place :: "ec \<Rightarrow> bool" where
  "can_place st = (pend st \<noteq> [] \<and> free st \<noteq> [] \<and> length (inflight st) < max_inflight st)"

definition service_pop :: "ec \<Rightarrow> ec" where
  "service_pop st =
     (let key = last (pend st);
          st' = st\<lparr>pend := butlast (pend st), pend_set := pend_set st - {key}\<rparr>
      in if slru_mem (policy st') key then st' else promote key st')"

function service_loop :: "ec \<Rightarrow> ec" where
  "service_loop st = (if can_place st then service_loop (service_pop st) else st)"
  by pat_completeness auto
termination
  by (relation "measure (\<lambda>st. length (pend st))") (auto simp: promote_pend Let_def service_pop_def can_place_def)

declare service_loop.simps [simp del]

definition service_want :: "ec \<Rightarrow> nat" where
  "service_want st = (if pend st = [] then low_water st
                      else max (low_water st) (min (length (pend st)) (max_inflight st)))"

definition top_up :: "ec \<Rightarrow> ec" where
  "top_up st =
     (let short = int (service_want st) - int (length (free st)) - int (length (to_retract st))
      in if 0 < short then reclaim (nat short) st else st)"

definition service :: "ec \<Rightarrow> ec" where
  "service st = top_up (service_loop st)"

text \<open>One turn of \<open>_run_loop\<close>'s inner loop, and its tail on an empty queue.\<close>

definition run_batch :: "nat \<Rightarrow> nat list \<Rightarrow> ec \<Rightarrow> ec" where
  "run_batch layer ids st = service (bump Manager_batches (observe_now layer ids st))"

definition manager_batch :: "ec \<Rightarrow> ec" where
  "manager_batch st =
     (case refq st of [] \<Rightarrow> st
      | r # rest \<Rightarrow> run_batch (fst r) (snd r) (st\<lparr>refq := rest\<rparr>))"

definition manager_wake :: "ec \<Rightarrow> ec" where
  "manager_wake st = service ((manager_batch ^^ length (refq st)) st)"

subsection \<open>The scheduler's half of the handshake\<close>

definition apply_take :: "ec \<Rightarrow> (nat \<times> nat) list \<times> entry list \<times> ec" where
  "apply_take st = (let st1 = bump Ticks st
     in (to_retract st1, inflight st1, st1\<lparr>to_retract := [], inflight := []\<rparr>))"

definition apply_retract :: "(nat \<times> nat) list \<Rightarrow> ec \<Rightarrow> ec" where
  "apply_retract retract st =
     (if retract = [] then st
      else (let ev = nextev st
            in st\<lparr>compute := compute st
                     @ map (\<lambda>(v, s). CSet v (-1)) (filter (\<lambda>(v, s). v div num_experts st \<in> set (layers st)) retract)
                     @ [CRecord ev],
                  retract_ev := override_on (retract_ev st) (\<lambda>_. Some ev) (snd ` set retract),
                  free := free st @ map snd retract, nextev := Suc ev\<rparr>))"

definition settle :: "entry \<Rightarrow> ec \<times> entry list \<Rightarrow> ec \<times> entry list" where
  "settle entry acc =
     (case (entry, acc) of ((key, slot, ev, age0), (st, still)) \<Rightarrow>
        let age = age0 + 1 in
        if ev \<notin> evdone st then
          (if inflight_max_age st < age then
             (let st1 = bump Abandoned st;
                  st2 = (if slot_of_key st1 key = Some slot
                         then st1\<lparr>slot_of_key := (slot_of_key st1)(key := None),
                                  key_of_slot := (key_of_slot st1)[slot := -1],
                                  policy := evict_key key (policy st1)\<rparr>
                         else st1)
              in (st2\<lparr>free := free st2 @ [slot]\<rparr>, still))
           else (st, still @ [(key, slot, ev, age)]))
        else if key div num_experts st \<notin> set (layers st) then (st, still)
        else if slot_of_key st key \<noteq> Some slot then (bump Stale_publishes_dropped st, still)
        else (bump Promotions (write_table key (int slot) st), still))"

fun settle_all :: "entry list \<Rightarrow> ec \<times> entry list \<Rightarrow> ec \<times> entry list" where
  "settle_all [] acc = acc"
| "settle_all (e # es) acc = settle_all es (settle e acc)"

definition apply_finish :: "(nat \<times> nat) list \<Rightarrow> entry list \<Rightarrow> ec \<Rightarrow> ec" where
  "apply_finish retract fl st =
     (case settle_all fl (apply_retract retract st, []) of
        (st2, still) \<Rightarrow> st2\<lparr>inflight := inflight st2 @ still\<rparr>)"

definition apply_pending :: "ec \<Rightarrow> ec" where
  "apply_pending st =
     (if \<not> cuda st then st
      else (let (retract, fl, st1) = apply_take st in apply_finish retract fl st1))"

subsection \<open>The GPU\<close>

text \<open>A stream executes its head; a wait blocks it until the event has completed.\<close>

definition compute_step :: "ec \<Rightarrow> ec option" where
  "compute_step st =
     (case compute st of [] \<Rightarrow> None
      | CSet k v # r \<Rightarrow> Some (st\<lparr>compute := r, dev_table := (dev_table st)(k := v)\<rparr>)
      | CRecord e # r \<Rightarrow> Some (st\<lparr>compute := r, evdone := insert e (evdone st)\<rparr>)
      | CWait e # r \<Rightarrow> (if e \<in> evdone st then Some (st\<lparr>compute := r\<rparr>) else None)
      | CLaunch # r \<Rightarrow> Some (st\<lparr>compute := r\<rparr>))"

definition job_ready :: "ec \<Rightarrow> job \<Rightarrow> bool" where
  "job_ready st j = (case jwait j of None \<Rightarrow> True | Some e \<Rightarrow> e \<in> evdone st)"

definition copy_step :: "ec \<Rightarrow> ec option" where
  "copy_step st =
     (case copyq st of [] \<Rightarrow> None
      | j # r \<Rightarrow>
          if \<not> job_ready st j then None
          else (case jtodo j of
              p # ps \<Rightarrow> Some (st\<lparr>slab := (slab st)(p := (slab st p)(jslot j := Some (jkey j))),
                                copyq := Job (jwait j) (jkey j) (jslot j) ps (jdone j) # r\<rparr>)
            | [] \<Rightarrow> Some (st\<lparr>copyq := r, evdone := insert (jdone j) (evdone st)\<rparr>)))"

text \<open>Work lost around a capture boundary: the rest of a copy vanishes and its event never fires.\<close>

definition copy_lost :: "ec \<Rightarrow> ec option" where
  "copy_lost st = (case copyq st of [] \<Rightarrow> None
      | j # r \<Rightarrow> if job_ready st j then Some (st\<lparr>copyq := r\<rparr>) else None)"

text \<open>The definitions that evaluate a concrete run.\<close>

lemmas slru_eval = touch_def take_victim_def admit_def evict_key_def slru_mem_def slru_len_def slru_init_def dict_add_def

lemmas ec_eval = ec_init_def env_int_def register_layer_def new_table_def start_def write_table_def queue_retract_def
  defer_ref_def admit_ok_ref_def place_defs evict_inline_def promote_def observe_one_def observe_now_def observe_def
  readmit_one_def reclaim_def service_loop.simps service_pop_def can_place_def service_want_def top_up_def service_def run_batch_def manager_batch_def
  apply_take_def apply_retract_def override_on_def settle_def apply_finish_def apply_pending_def compute_step_def
  job_ready_def copy_step_def copy_lost_def planes_def slru_eval bump_by_def Let_def

end
