(* ===== verification/Expert_Cache_Inv.thy ===== *)
theory Expert_Cache_Inv
  imports Expert_Cache
begin

section \<open>The expert residency cache: its invariant\<close>

text \<open>
  Who owns a slot (\<open>slots_ok\<close>), what the policy holds (\<open>pol_ok\<close>), which claims are in flight
  (\<open>flight_ok\<close>), and what the device may see (\<open>dev_ok\<close>): a slot the compute stream can still
  reach under a key holds that key's bytes, and a copy into it waits for an event recorded
  after the table stopped pointing there.  Each part is preserved by each host operation and
  each step of a stream; the claims are in \<open>Expert_Cache_Claims\<close>.
\<close>

subsection \<open>What the compute stream will have written\<close>

definition exec1 :: "cop \<Rightarrow> (nat \<Rightarrow> int) \<Rightarrow> nat \<Rightarrow> int" where
  "exec1 c t = (case c of CSet k v \<Rightarrow> t(k := v) | _ \<Rightarrow> t)"

lemma exec1_simps [simp]:
  "exec1 (CSet k v) t = t(k := v)" "exec1 (CRecord e) t = t" "exec1 (CWait e) t = t" "exec1 CLaunch t = t"
  by (simp_all add: exec1_def)

primrec exec_c :: "cop list \<Rightarrow> (nat \<Rightarrow> int) \<Rightarrow> nat \<Rightarrow> int" where
  "exec_c [] t = t"
| "exec_c (c # r) t = exec_c r (exec1 c t)"

lemma exec_c_append [simp]: "exec_c (a @ b) t = exec_c b (exec_c a t)"
  by (induction a arbitrary: t) simp_all

lemma exec_c_cases: "exec_c cs t k = t k \<or> CSet k (exec_c cs t k) \<in> set cs"
proof (induction cs arbitrary: t)
  case (Cons c cs)
  then show ?case using Cons.IH [of "exec1 c t"] by (cases c) (auto simp: fun_upd_def split: if_splits)
qed simp

definition visible :: "ec \<Rightarrow> nat \<Rightarrow> nat \<Rightarrow> bool" where
  "visible st k s = (dev_table st k = int s \<or> CSet k (int s) \<in> set (compute st))"

definition ftable :: "ec \<Rightarrow> nat \<Rightarrow> int" where
  "ftable st = exec_c (compute st) (dev_table st)"

lemma ftable_visible: "ftable st k = int s \<Longrightarrow> visible st k s"
  using exec_c_cases [of "compute st" "dev_table st" k] by (auto simp: ftable_def visible_def)

definition hidden :: "ec \<Rightarrow> nat \<Rightarrow> bool" where
  "hidden st s = (\<forall>k. \<not> visible st k s)"

text \<open>Event \<open>ev\<close> is recorded after the last moment a launch can see slot \<open>s\<close>.\<close>

definition fence :: "ec \<Rightarrow> nat \<Rightarrow> nat \<Rightarrow> bool" where
  "fence st s ev = (ev \<notin> evdone st \<and> (\<exists>A B. compute st = A @ CRecord ev # B \<and> CRecord ev \<notin> set A
      \<and> (\<forall>k. exec_c A (dev_table st) k \<noteq> int s) \<and> (\<forall>k. CSet k (int s) \<notin> set B)))"

definition guarded :: "ec \<Rightarrow> nat \<Rightarrow> nat option set \<Rightarrow> bool" where
  "guarded st s W = (hidden st s \<or> (\<exists>ev. Some ev \<in> W \<and> fence st s ev))"

lemma guarded_mono: "guarded st s W \<Longrightarrow> W \<subseteq> W' \<Longrightarrow> guarded st s W'"
  by (auto simp: guarded_def)

lemma guarded_ready: "guarded st s {w} \<Longrightarrow> (case w of None \<Rightarrow> True | Some e \<Rightarrow> e \<in> evdone st) \<Longrightarrow> hidden st s"
  by (auto simp: guarded_def fence_def)

subsection \<open>The parts of the invariant\<close>

definition slots_ok :: "ec \<Rightarrow> bool" where
  "slots_ok st = (distinct (free st @ map snd (to_retract st))
     \<and> inj_on (slot_of_key st) (dom (slot_of_key st))
     \<and> ran (slot_of_key st) \<inter> (set (free st) \<union> snd ` set (to_retract st)) = {}
     \<and> ran (slot_of_key st) \<union> set (free st) \<union> snd ` set (to_retract st) = {..<slots st})"

definition kos_ok :: "ec \<Rightarrow> bool" where
  "kos_ok st = (length (key_of_slot st) = slots st
     \<and> (\<forall>k s. slot_of_key st k = Some s \<longrightarrow> key_of_slot st ! s = int k)
     \<and> (\<forall>s < slots st. s \<notin> ran (slot_of_key st) \<longrightarrow> key_of_slot st ! s = -1))"

definition pol_ok :: "nat set \<Rightarrow> ec \<Rightarrow> bool" where
  "pol_ok hk st = (slru_ok (policy st) \<and> s_cap (policy st) = slots st \<and> hk \<subseteq> dom (slot_of_key st)
     \<and> slru_keys (policy st) = dom (slot_of_key st) - hk)"

definition flying :: "ec \<Rightarrow> nat set" where
  "flying st = fst ` set (inflight st)"

definition flight_ok :: "ec \<Rightarrow> bool" where
  "flight_ok st = ((\<forall>(k, s, ev, a) \<in> set (inflight st). slot_of_key st k = Some s)
     \<and> distinct (map fst (inflight st))
     \<and> (\<forall>(v, s) \<in> set (to_retract st). v \<in> dom (slot_of_key st) \<longrightarrow> v \<in> flying st)
     \<and> (\<forall>k \<in> dom (slot_of_key st) \<union> fst ` set (to_retract st). k div num_experts st \<in> set (layers st)))"

definition events_ok :: "ec \<Rightarrow> bool" where
  "events_ok st = (distinct (map jdone (copyq st))
     \<and> (\<forall>j \<in> set (copyq st). jdone j < nextev st \<and> jdone j \<notin> evdone st \<and> CRecord (jdone j) \<notin> set (compute st))
     \<and> (\<forall>e. CRecord e \<in> set (compute st) \<longrightarrow> e < nextev st)
     \<and> (\<forall>e \<in> evdone st. e < nextev st)
     \<and> (\<forall>(k, s, ev, a) \<in> set (inflight st). ev < nextev st \<and> CRecord ev \<notin> set (compute st)))"

text \<open>The job of an in-flight claim: the copies started so far are in place, no later job
  touches the slot.\<close>

definition queued :: "ec \<Rightarrow> nat \<Rightarrow> nat \<Rightarrow> nat \<Rightarrow> bool" where
  "queued st k s ev = (\<exists>A j B. copyq st = A @ j # B \<and> jkey j = k \<and> jslot j = s \<and> jdone j = ev
      \<and> (\<forall>p. p \<notin> set (jtodo j) \<longrightarrow> slab st p s = Some k) \<and> (A \<noteq> [] \<longrightarrow> jtodo j = planes)
      \<and> (\<forall>j' \<in> set B. jslot j' \<noteq> s))"

lemma queuedI:
  assumes "copyq st = A @ j # B" "jkey j = k" "jslot j = s" "jdone j = ev"
    "\<And>p. p \<notin> set (jtodo j) \<Longrightarrow> slab st p s = Some k" "A \<noteq> [] \<Longrightarrow> jtodo j = planes"
    "\<And>j'. j' \<in> set B \<Longrightarrow> jslot j' \<noteq> s"
  shows "queued st k s ev"
  unfolding queued_def by (intro exI [of _ A] exI [of _ j] exI [of _ B] conjI allI ballI impI assms) (use assms in auto)

lemma queuedE:
  assumes "queued st k s ev"
  obtains A j B where "copyq st = A @ j # B" "jkey j = k" "jslot j = s" "jdone j = ev"
    "\<And>p. p \<notin> set (jtodo j) \<Longrightarrow> slab st p s = Some k" "A \<noteq> [] \<Longrightarrow> jtodo j = planes"
    "\<And>j'. j' \<in> set B \<Longrightarrow> jslot j' \<noteq> s"
  using assms unfolding queued_def by blast

definition landing :: "ec \<Rightarrow> nat \<Rightarrow> nat \<Rightarrow> nat \<Rightarrow> bool" where
  "landing st k s ev =
     (if ev \<in> evdone st then (\<forall>p. slab st p s = Some k) \<and> (\<forall>j \<in> set (copyq st). jslot j \<noteq> s)
      else queued st k s ev \<or> ((\<forall>j \<in> set (copyq st). jdone j \<noteq> ev) \<and> hidden st s))"

definition dev_ok :: "ec \<Rightarrow> bool" where
  "dev_ok st = ((\<forall>k s. visible st k s \<longrightarrow> (\<forall>p. slab st p s = Some k))
     \<and> (\<forall>A j B. copyq st = A @ j # B \<longrightarrow> guarded st (jslot j) (jwait ` set (A @ [j])))
     \<and> (\<forall>s \<in> set (free st). guarded st s (insert (retract_ev st s) (jwait ` set (copyq st))))
     \<and> (\<forall>(k, s, ev, a) \<in> set (inflight st). landing st k s ev)
     \<and> (\<forall>k s. slot_of_key st k = Some s \<longrightarrow> k \<notin> flying st \<longrightarrow> ftable st k = int s)
     \<and> (\<forall>(v, s) \<in> set (to_retract st). ftable st v = int s))"

definition ec_inv :: "nat set \<Rightarrow> ec \<Rightarrow> bool" where
  "ec_inv hk st = (cuda st \<and> threaded st \<and> slots_ok st \<and> kos_ok st \<and> pol_ok hk st \<and> flight_ok st \<and> events_ok st \<and> dev_ok st)"

lemmas ec_inv_defs = ec_inv_def slots_ok_def kos_ok_def pol_ok_def flight_ok_def events_ok_def dev_ok_def

text \<open>The invariant reads only part of the state.\<close>

lemma guarded_cong:
  assumes "compute st' = compute st" "dev_table st' = dev_table st" "evdone st' = evdone st"
  shows "visible st' = visible st" "ftable st' = ftable st" "hidden st' = hidden st" "fence st' = fence st" "guarded st' = guarded st"
proof -
  show v: "visible st' = visible st" by (intro ext) (simp add: visible_def assms)
  show "ftable st' = ftable st" by (intro ext) (simp add: ftable_def assms)
  show h: "hidden st' = hidden st" by (intro ext) (simp add: hidden_def v)
  show f: "fence st' = fence st" by (intro ext) (simp add: fence_def assms)
  show "guarded st' = guarded st" by (intro ext) (simp add: guarded_def h f)
qed

lemma landing_cong:
  assumes "compute st' = compute st" "dev_table st' = dev_table st" "evdone st' = evdone st"
    "copyq st' = copyq st" "slab st' = slab st"
  shows "landing st' = landing st"
  by (intro ext) (simp add: landing_def queued_def assms guarded_cong [OF assms(1-3)])

definition same_slots :: "ec \<Rightarrow> ec \<Rightarrow> bool" where
  "same_slots st st' = (cuda st' = cuda st \<and> threaded st' = threaded st \<and> num_experts st' = num_experts st
     \<and> slots st' = slots st \<and> layers st' = layers st \<and> slot_of_key st' = slot_of_key st
     \<and> key_of_slot st' = key_of_slot st \<and> free st' = free st \<and> to_retract st' = to_retract st
     \<and> retract_ev st' = retract_ev st \<and> inflight st' = inflight st \<and> compute st' = compute st
     \<and> copyq st' = copyq st \<and> dev_table st' = dev_table st \<and> slab st' = slab st
     \<and> evdone st' = evdone st \<and> nextev st' = nextev st)"

lemma same_slots_inv:
  assumes "pol_ok hk' st'" "ec_inv hk st" "same_slots st st'"
  shows "ec_inv hk' st'"
proof -
  note s = assms(3) [unfolded same_slots_def]
  have f: "flying st' = flying st" using s by (simp add: flying_def)
  have g: "visible st' = visible st" "ftable st' = ftable st" "guarded st' = guarded st" "landing st' = landing st"
    by (intro guarded_cong landing_cong; simp add: s)+
  have "slots_ok st' = slots_ok st" "kos_ok st' = kos_ok st" by (simp_all only: slots_ok_def kos_ok_def s)
  moreover have "flight_ok st' = flight_ok st" "events_ok st' = events_ok st"
    by (simp_all only: flight_ok_def events_ok_def s f)
  moreover have "dev_ok st' = dev_ok st" by (simp only: dev_ok_def s f g)
  ultimately show ?thesis using assms(1,2) s by (simp add: ec_inv_def)
qed

text \<open>While \<open>apply_pending\<close> works it has the retractions \<open>R\<close> and the in-flight entries \<open>out\<close> in
  its hands; \<open>aside R out\<close> is the state with both put back, for which the invariant is stated.\<close>

definition aside :: "(nat \<times> nat) list \<Rightarrow> entry list \<Rightarrow> ec \<Rightarrow> ec" where
  "aside R out st = st\<lparr>to_retract := R @ to_retract st, inflight := out @ inflight st\<rparr>"

lemma aside_simps [simp]:
  "inflight (aside R out st) = out @ inflight st" "to_retract (aside R out st) = R @ to_retract st"
  "num_experts (aside R out st) = num_experts st" "slots (aside R out st) = slots st"
  "cuda (aside R out st) = cuda st" "layers (aside R out st) = layers st" "threaded (aside R out st) = threaded st"
  "policy (aside R out st) = policy st" "slot_of_key (aside R out st) = slot_of_key st"
  "key_of_slot (aside R out st) = key_of_slot st" "free (aside R out st) = free st"
  "retract_ev (aside R out st) = retract_ev st" "compute (aside R out st) = compute st"
  "copyq (aside R out st) = copyq st" "dev_table (aside R out st) = dev_table st"
  "slab (aside R out st) = slab st" "evdone (aside R out st) = evdone st" "nextev (aside R out st) = nextev st"
  by (simp_all add: aside_def)

lemma aside_nil [simp]: "aside [] [] st = st"
  by (simp add: aside_def)

lemma aside_policy: "(aside R out st)\<lparr>policy := p\<rparr> = aside R out (st\<lparr>policy := p\<rparr>)"
  by (simp add: aside_def)

lemma aside_bump: "bump_by c n (aside R out st) = aside R out (bump_by c n st)"
  by (simp add: aside_def bump_by_def)

lemma aside_queue_retract: "snd (queue_retract v (aside R out st)) = aside R out (snd (queue_retract v st))"
  by (simp add: aside_def queue_retract_def bump_by_def split: option.splits)

lemma aside_owner:
  "(aside R out st)\<lparr>slot_of_key := m, key_of_slot := l\<rparr> = aside R out (st\<lparr>slot_of_key := m, key_of_slot := l\<rparr>)"
  by (simp add: aside_def)

lemma aside_place_room: "place_room k (aside R out st) = aside R out (place_room k st)"
  by (simp add: place_room_def aside_policy aside_queue_retract split: prod.splits option.splits)

lemma aside_place_copy: "place_copy k s (aside R out st) = aside R out (place_copy k s st)"
  by (simp add: place_copy_def aside_def)

lemma aside_place_done: "place_done k s ev (aside R out st) = aside R out (place_done k s ev st)"
  by (simp add: place_done_def write_table_def aside_def bump_by_def)

lemma aside_place: "place k s (aside R out st) = aside R out (place k s st)"
  by (simp add: place_def place_in_def place_claim_def aside_owner aside_place_room aside_place_copy aside_place_done)

lemma aside_readmit: "readmit_one (aside R out st) v = aside R out (readmit_one st v)"
  by (simp add: readmit_one_def aside_policy aside_queue_retract Let_def split: prod.splits option.splits)

lemma aside_readmits: "foldl readmit_one (aside R out st) held = aside R out (foldl readmit_one st held)"
  by (induction held arbitrary: st) (simp_all add: aside_readmit)

lemma aside_reclaim_loop:
  "reclaim_loop fl n (aside R out st) held = apfst (aside R out) (reclaim_loop fl n st held)"
  by (induction n arbitrary: st held)
     (simp_all add: aside_policy aside_queue_retract aside_bump split: prod.splits option.splits)

lemma same_aside: "same_slots a b \<Longrightarrow> same_slots (aside R out a) (aside R out b)"
  by (simp add: same_slots_def)

subsection \<open>The manager's primitives\<close>

lemma ec_invD:
  assumes "ec_inv hk st"
  shows "cuda st" "threaded st" "slots_ok st" "kos_ok st" "pol_ok hk st" "flight_ok st" "events_ok st" "dev_ok st"
  using assms by (simp_all add: ec_inv_def)

lemma slot_inj:
  assumes "slots_ok st" "slot_of_key st k = Some s" "slot_of_key st k' = Some s"
  shows "k = k'"
  using assms inj_onD [of "slot_of_key st" "dom (slot_of_key st)" k k'] by (auto simp: slots_ok_def)

lemma ran_remove:
  assumes "slots_ok st" "slot_of_key st v = Some s"
  shows "ran ((slot_of_key st)(v := None)) = ran (slot_of_key st) - {s}"
proof -
  have "k \<noteq> v \<longleftrightarrow> x \<noteq> s" if "slot_of_key st k = Some x" for k x
    using that assms slot_inj [OF assms(1)] by auto
  then show ?thesis by (auto simp: ran_def)
qed

lemma retract_slots:
  assumes "slots_ok st" "slot_of_key st v = Some s"
  shows "slots_ok (snd (queue_retract v st))"
proof -
  have s: "s \<in> ran (slot_of_key st)" using assms(2) by (simp add: ranI)
  have i: "inj_on ((slot_of_key st)(v := None)) (dom ((slot_of_key st)(v := None)))"
    using slot_inj [OF assms(1)] by (intro inj_onI) (auto split: if_splits)
  have "s \<notin> set (free st) \<union> snd ` set (to_retract st)" using assms s by (auto simp: slots_ok_def)
  with i s assms ran_remove [OF assms] show ?thesis
    by (auto simp: slots_ok_def queue_retract_def)
qed

lemma retract_kos:
  assumes "slots_ok st" "kos_ok st" "slot_of_key st v = Some s"
  shows "kos_ok (snd (queue_retract v st))"
proof -
  have "s < slots st" using assms by (auto simp: slots_ok_def ran_def)
  moreover have "\<not> (\<exists>k. k \<noteq> v \<and> slot_of_key st k = Some s)" using slot_inj [OF assms(1,3)] by auto
  ultimately show ?thesis using assms ran_remove [OF assms(1,3)]
    by (auto simp: kos_ok_def queue_retract_def nth_list_update)
qed

lemma retract_inv:
  assumes inv: "ec_inv hk st" and v: "v \<in> hk" "v \<notin> flying st"
  shows "ec_inv (hk - {v}) (snd (queue_retract v st))"
proof -
  note i = ec_invD [OF inv]
  from v(1) i(5) obtain s where s: "slot_of_key st v = Some s" by (auto simp: pol_ok_def)
  let ?t = "snd (queue_retract v st)"
  have e: "?t = bump Evictions (st\<lparr>slot_of_key := (slot_of_key st)(v := None),
            key_of_slot := (key_of_slot st)[s := -1], to_retract := to_retract st @ [(v, s)]\<rparr>)"
    using s by (simp add: queue_retract_def)
  have f: "flying ?t = flying st" by (simp add: e flying_def)
  have g: "visible ?t = visible st" "ftable ?t = ftable st" "guarded ?t = guarded st" "landing ?t = landing st"
    by (intro guarded_cong landing_cong; simp add: e)+
  have 1: "pol_ok (hk - {v}) ?t" using i(5) v by (auto simp: pol_ok_def e)
  have nf: "k \<noteq> v" if "(k, x) \<in> set (inflight st)" for k x
    using v(2) that by (force simp: flying_def)
  have 2: "flight_ok ?t" using i(6) s unfolding flight_ok_def f by (auto simp: e dest: nf)
  have 3: "events_ok ?t" using i(7) by (simp add: events_ok_def e)
  have 4: "dev_ok ?t" using i(8) v(2) s unfolding dev_ok_def f g by (auto simp: e)
  show ?thesis using i 1 2 3 4 retract_slots [OF i(3) s] retract_kos [OF i(3,4) s]
    by (simp add: ec_inv_def e)
qed

lemma take_inv:
  assumes inv: "ec_inv hk st" and t: "take_victim (policy st) = (pol, Some v)"
  shows "ec_inv (insert v hk) (st\<lparr>policy := pol\<rparr>)" "v \<in> dom (slot_of_key st)" "v \<notin> hk"
proof -
  note i = ec_invD [OF inv]
  note p = i(5) [unfolded pol_ok_def]
  note l = slru_policy.take_SomeD [OF conjunct1 [OF p] t]
  show "v \<in> dom (slot_of_key st)" "v \<notin> hk" using l p by auto
  with l p have "pol_ok (insert v hk) (st\<lparr>policy := pol\<rparr>)" by (auto simp: pol_ok_def)
  then show "ec_inv (insert v hk) (st\<lparr>policy := pol\<rparr>)"
    by (rule same_slots_inv [OF _ inv]) (simp add: same_slots_def)
qed

lemma take_none_inv:
  assumes "ec_inv hk st" "take_victim (policy st) = (pol, None)"
  shows "ec_inv hk (st\<lparr>policy := pol\<rparr>)"
proof -
  note i = ec_invD [OF assms(1)]
  have "pol_ok hk (st\<lparr>policy := pol\<rparr>)"
    using i(5) slru_policy.take_law [OF _ assms(2)] by (simp add: pol_ok_def)
  then show ?thesis by (rule same_slots_inv [OF _ assms(1)]) (simp add: same_slots_def)
qed

lemma owned_card:
  assumes "slots_ok st"
  shows "finite (dom (slot_of_key st))"
    and "card (dom (slot_of_key st)) + length (free st) + length (to_retract st) = slots st"
proof -
  note o = assms [unfolded slots_ok_def]
  let ?K = "slot_of_key st"
  have r: "ran ?K = the ` ?K ` dom ?K" by (auto simp: ran_def image_iff dom_def)
      (metis option.sel domI)+
  have ij: "inj_on (the \<circ> ?K) (dom ?K)" using slot_inj [OF assms] by (intro inj_onI) force
  have fr: "finite (ran ?K)" by (rule finite_subset [of _ "{..<slots st}"]) (use o in auto)
  from fr r ij show f: "finite (dom ?K)" by (metis finite_image_iff image_comp)
  have c: "card (ran ?K) = card (dom ?K)" using r ij by (metis card_image image_comp)
  have d: "card (set (free st) \<union> snd ` set (to_retract st)) = length (free st) + length (to_retract st)"
    using o distinct_card [of "free st @ map snd (to_retract st)"] by simp
  have "card (ran ?K \<union> (set (free st) \<union> snd ` set (to_retract st))) = slots st"
    using o by (simp add: Un_assoc)
  then show "card (dom ?K) + length (free st) + length (to_retract st) = slots st"
    using card_Un_disjoint [of "ran ?K" "set (free st) \<union> snd ` set (to_retract st)"] o fr c d by simp
qed

lemma readmit_inv:
  assumes inv: "ec_inv hk st" and v: "v \<in> hk"
  shows "ec_inv (hk - {v}) (readmit_one st v)" "flying (readmit_one st v) = flying st"
proof -
  note i = ec_invD [OF inv]
  note p = i(5) [unfolded pol_ok_def]
  obtain pol d where a: "admit v (policy st) = (pol, d)" by force
  have "v \<in> dom (slot_of_key st)" using v p by blast
  then have "card (dom (slot_of_key st) - hk) < card (dom (slot_of_key st))"
    using v owned_card(1) [OF i(3)] by (intro psubset_card_mono) auto
  then have c: "card (slru_keys (policy st)) < s_cap (policy st)" using p owned_card(2) [OF i(3)] by simp
  have l: "slru_ok pol \<and> d = None \<and> slru_keys pol = insert v (slru_keys (policy st)) \<and> s_cap pol = s_cap (policy st)"
    by (rule slru_policy.adm_law [OF _ _ c a]) (use p v in auto)
  then have e: "readmit_one st v = st\<lparr>policy := pol\<rparr>" by (simp add: readmit_one_def a)
  have "pol_ok (hk - {v}) (st\<lparr>policy := pol\<rparr>)" using p l v by (auto simp: pol_ok_def)
  then show "ec_inv (hk - {v}) (readmit_one st v)" unfolding e
    by (rule same_slots_inv [OF _ inv]) (simp add: same_slots_def)
  show "flying (readmit_one st v) = flying st" by (simp add: e flying_def)
qed

lemma readmits_inv:
  "ec_inv (set held) st \<Longrightarrow> distinct held \<Longrightarrow> ec_inv {} (foldl readmit_one st held)"
proof (induction held arbitrary: st)
  case (Cons v held)
  from readmit_inv(1) [OF Cons.prems(1), of v] Cons.prems(2)
  have "ec_inv (set held) (readmit_one st v)" by (simp add: insert_Diff_if)
  with Cons show ?case by simp
qed simp

lemma reclaim_loop_grows: "set (to_retract st) \<subseteq> set (to_retract (fst (reclaim_loop fl n st held)))"
proof (induction n arbitrary: st held)
  case (Suc n)
  have q: "set (to_retract st) \<subseteq> set (to_retract (snd (queue_retract v (st\<lparr>policy := pol\<rparr>))))" for v pol
    by (auto simp: queue_retract_def split: option.splits)
  show ?case
    using Suc [of "bump Reclaim_skipped_inflight (st\<lparr>policy := _\<rparr>)"] order_trans [OF q Suc]
    by (simp split: prod.splits option.splits)
qed simp

lemma reclaim_loop_inv:
  assumes "ec_inv (set held) st" "distinct held" "flying st \<subseteq> fl \<union> out"
    "out \<inter> fst ` (set (to_retract (fst (reclaim_loop fl n st held))) - set (to_retract st)) = {}"
  shows "case reclaim_loop fl n st held of (st', held') \<Rightarrow> ec_inv (set held') st' \<and> distinct held'"
  using assms
proof (induction n arbitrary: st held)
  case (Suc n)
  obtain pol w where t: "take_victim (policy st) = (pol, w)" by force
  show ?case
  proof (cases w)
    case None
    with Suc.prems t take_none_inv [OF Suc.prems(1)] show ?thesis by simp
  next
    case (Some v)
    let ?s = "st\<lparr>policy := pol\<rparr>"
    note k = take_inv [OF Suc.prems(1) t [unfolded Some]]
    show ?thesis
    proof (cases "v \<in> fl")
      case True
      let ?b = "bump Reclaim_skipped_inflight ?s"
      have "ec_inv (set (held @ [v])) ?b"
        by (rule same_slots_inv [of _ _ "insert v (set held)" ?s]) (use k ec_invD(5) [OF k(1)] in \<open>simp_all add: same_slots_def pol_ok_def\<close>)
      moreover have "flying ?b \<subseteq> fl \<union> out" using Suc.prems(3) by (simp add: flying_def)
      ultimately show ?thesis using Suc.IH [of "held @ [v]" ?b] Suc.prems k t Some True by simp
    next
      case False
      let ?r = "snd (queue_retract v ?s)"
      obtain s where s: "slot_of_key st v = Some s" using k(2) by auto
      then have tr: "to_retract ?r = to_retract st @ [(v, s)]" by (simp add: queue_retract_def)
      from s have sr: "s \<in> ran (slot_of_key st)" by (rule ranI)
      have "(v, s) \<in> set (to_retract (fst (reclaim_loop fl n ?r held)))"
        using reclaim_loop_grows [of ?r fl n held] by (auto simp: tr)
      moreover have "(v, s) \<notin> set (to_retract st)"
        using ec_invD(3) [OF Suc.prems(1)] sr by (force simp: slots_ok_def)
      ultimately have o: "v \<notin> out" using Suc.prems(4) t Some False by force
      have "ec_inv (insert v (set held) - {v}) ?r"
        by (rule retract_inv [OF k(1)]) (use False o Suc.prems(3) in \<open>auto simp: flying_def\<close>)
      moreover have "insert v (set held) - {v} = set held" using k(3) by auto
      moreover have "flying ?r \<subseteq> fl \<union> out" using Suc.prems(3)
        by (simp add: flying_def queue_retract_def split: option.splits)
      moreover have "out \<inter> fst ` (set (to_retract (fst (reclaim_loop fl n ?r held))) - set (to_retract ?r)) = {}"
        using Suc.prems(4) t Some False tr by auto
      ultimately show ?thesis using Suc.IH [of held ?r] Suc.prems t Some False by simp
    qed
  qed
qed simp

lemma readmit_retract: "set (to_retract (fst x)) \<subseteq> set (to_retract (foldl readmit_one (fst x) held))"
proof (induction held arbitrary: x)
  case (Cons v held)
  have "set (to_retract (fst x)) \<subseteq> set (to_retract (readmit_one (fst x) v))"
    by (auto simp: readmit_one_def queue_retract_def Let_def split: prod.splits option.splits)
  then show ?case using Cons [of "(readmit_one (fst x) v, snd x)"] by auto
qed simp

text \<open>What is set aside must not be retracted: \<open>_reclaim\<close> only looks at the shared list.\<close>

lemma reclaim_inv:
  assumes inv: "ec_inv {} (aside R out st)"
    and a: "fst ` set out \<inter> fst ` set (to_retract (reclaim n st)) = {}"
  shows "ec_inv {} (aside R out (reclaim n st))"
proof -
  let ?fl = "fst ` set (inflight st)"
  obtain st' held where l: "reclaim_loop ?fl n st [] = (st', held)" by force
  have g: "reclaim_loop ?fl n (aside R out st) [] = (aside R out st', held)"
    by (simp add: aside_reclaim_loop l)
  have e: "reclaim n st = foldl readmit_one st' held" by (simp add: reclaim_def l)
  have "fst ` set out \<inter> fst ` set (to_retract st') = {}"
    using a readmit_retract [of "(st', ())" held] unfolding e by auto
  then have "fst ` set out \<inter> fst ` (set (R @ to_retract st') - set (R @ to_retract st)) = {}" by auto
  with reclaim_loop_inv [of "[]" "aside R out st" ?fl "fst ` set out" n] inv
  have "ec_inv (set held) (aside R out st')" "distinct held"
    by (auto simp: g flying_def)
  from readmits_inv [OF this] show ?thesis by (simp add: e aside_readmits)
qed

subsection \<open>Placing an expert in a free slot\<close>

lemma all_planes [simp]: "p \<in> set planes"
  by (cases p) (simp_all add: planes_def)

lemma place_eq:
  assumes inv: "ec_inv {} st" and f: "free st \<noteq> []" and k: "slot_of_key st k = None"
  obtains pol where
    "place k (last (free st)) (st\<lparr>free := butlast (free st)\<rparr>)
       = st\<lparr>free := butlast (free st), policy := pol,
           copyq := copyq st @ [Job (retract_ev st (last (free st))) k (last (free st)) planes (nextev st)],
           retract_ev := (retract_ev st)(last (free st) := None), nextev := Suc (nextev st),
           slot_of_key := (slot_of_key st)(k := Some (last (free st))),
           key_of_slot := (key_of_slot st)[last (free st) := int k],
           inflight := inflight st @ [(k, last (free st), nextev st, 0)]\<rparr>"
    and "slru_ok pol" "s_cap pol = slots st" "slru_keys pol = insert k (dom (slot_of_key st))"
proof -
  note i = ec_invD [OF inv]
  note p = i(5) [unfolded pol_ok_def]
  obtain pol d where a: "admit k (policy st) = (pol, d)" by force
  have "card (slru_keys (policy st)) < s_cap (policy st)"
    using p owned_card(2) [OF i(3)] f by (cases "free st") auto
  then have l: "slru_ok pol \<and> d = None \<and> slru_keys pol = insert k (slru_keys (policy st)) \<and> s_cap pol = s_cap (policy st)"
    using slru_policy.adm_law [OF _ _ _ a] p k by auto
  show ?thesis
    by (rule that [of pol]) (use l p a i(1,2) in \<open>simp_all add: place_defs\<close>)
qed

lemma snoc_split:
  "xs @ [x] = A @ y # B \<longleftrightarrow> (A = xs \<and> y = x \<and> B = []) \<or> (\<exists>B'. B = B' @ [x] \<and> xs = A @ y # B')"
  by (cases B rule: rev_cases) auto

lemma landing_snoc:
  assumes "landing st k s ev" "jslot j \<noteq> s" "jdone j \<noteq> ev"
    "compute st' = compute st" "dev_table st' = dev_table st" "evdone st' = evdone st"
    "copyq st' = copyq st @ [j]" "slab st' = slab st"
  shows "landing st' k s ev"
proof -
  have h: "hidden st' = hidden st" by (rule guarded_cong) (fact assms)+
  show ?thesis
  proof (cases "ev \<in> evdone st")
    case True
    then show ?thesis using assms by (simp add: landing_def)
  next
    case False
    have "queued st' k s ev" if "queued st k s ev"
      using that
    proof (rule queuedE)
      fix A i B
      assume q: "copyq st = A @ i # B" "jkey i = k" "jslot i = s" "jdone i = ev"
        "\<And>p. p \<notin> set (jtodo i) \<Longrightarrow> slab st p s = Some k" "A \<noteq> [] \<Longrightarrow> jtodo i = planes"
        "\<And>j'. j' \<in> set B \<Longrightarrow> jslot j' \<noteq> s"
      show ?thesis
        by (rule queuedI [of _ A i "B @ [j]"]) (use q assms in auto)
    qed
    with False assms h show ?thesis unfolding landing_def by auto
  qed
qed

lemma place_slots:
  assumes "slots_ok st" "free st \<noteq> []" "slot_of_key st k = None"
  shows "slots_ok (st\<lparr>free := butlast (free st), slot_of_key := (slot_of_key st)(k := Some (last (free st)))\<rparr>)"
proof -
  obtain F s where F: "free st = F @ [s]" using assms(2) by (cases "free st" rule: rev_cases) auto
  have s: "s \<notin> ran (slot_of_key st)" "s \<notin> set F" "s \<notin> snd ` set (to_retract st)"
    using assms(1) F by (auto simp: slots_ok_def)
  have "inj_on ((slot_of_key st)(k := Some s)) (dom ((slot_of_key st)(k := Some s)))"
    using s(1) slot_inj [OF assms(1)] by (intro inj_onI) (auto split: if_splits simp: ranI)
  with assms(1,3) s F show ?thesis by (auto simp: slots_ok_def ran_map_upd)
qed

lemma place_kos:
  assumes "slots_ok st" "kos_ok st" "free st \<noteq> []" "slot_of_key st k = None"
  shows "kos_ok (st\<lparr>slot_of_key := (slot_of_key st)(k := Some (last (free st))),
                   key_of_slot := (key_of_slot st)[last (free st) := int k]\<rparr>)"
proof -
  have s: "last (free st) \<notin> ran (slot_of_key st)" "last (free st) < slots st"
    using assms(1,3) last_in_set [OF assms(3)] by (auto simp: slots_ok_def)
  have "slot_of_key st k' \<noteq> Some (last (free st))" for k' using s(1) by (metis ranI)
  with s assms(2,4) show ?thesis by (auto simp: kos_ok_def nth_list_update ran_map_upd)
qed

lemma place_inv:
  assumes inv: "ec_inv {} st" and f: "free st \<noteq> []" and k: "slot_of_key st k = None"
    and l: "k div num_experts st \<in> set (layers st)"
  shows "ec_inv {} (place k (last (free st)) (st\<lparr>free := butlast (free st)\<rparr>))"
proof -
  note i = ec_invD [OF inv]
  define s where "s = last (free st)"
  define j where "j = Job (retract_ev st s) k s planes (nextev st)"
  obtain pol where e: "place k (last (free st)) (st\<lparr>free := butlast (free st)\<rparr>)
       = st\<lparr>free := butlast (free st), policy := pol, copyq := copyq st @ [j],
           retract_ev := (retract_ev st)(s := None), nextev := Suc (nextev st),
           slot_of_key := (slot_of_key st)(k := Some s), key_of_slot := (key_of_slot st)[s := int k],
           inflight := inflight st @ [(k, s, nextev st, 0)]\<rparr>" (is "_ = ?t")
    and p: "slru_ok pol" "s_cap pol = slots st" "slru_keys pol = insert k (dom (slot_of_key st))"
    by (rule place_eq [OF inv f k]) (simp only: s_def j_def)
  obtain F where F: "free st = F @ [s]" using f s_def by (metis append_butlast_last_id)
  have sF: "s \<notin> set F" "s \<notin> ran (slot_of_key st)" using i(3) F by (auto simp: slots_ok_def)
  have g: "visible ?t = visible st" "ftable ?t = ftable st" "guarded ?t = guarded st"
    by (intro guarded_cong; simp)+
  have fl: "flying ?t = insert k (flying st)" by (auto simp: flying_def)
  have nk: "k \<notin> flying st" using i(6) k by (fastforce simp: flying_def flight_ok_def)
  have 1: "slots_ok ?t" using place_slots [OF i(3) f k] by (simp add: slots_ok_def s_def)
  have 2: "kos_ok ?t" using place_kos [OF i(3,4) f k] by (simp add: kos_ok_def s_def)
  have 3: "pol_ok {} ?t" using p by (auto simp: pol_ok_def)
  have 4: "flight_ok ?t"
  proof -
    have "(k, x) \<notin> set (inflight st)" for x using nk by (force simp: flying_def)
    then show ?thesis using i(6) nk l k unfolding flight_ok_def fl
      by (auto simp: flying_def)
  qed
  have 5: "events_ok ?t" using i(7) unfolding events_ok_def j_def by (fastforce simp: less_Suc_eq)
  have d: "dev_ok st" by (fact i)
  have land: "landing ?t k' s' ev" if "(k', s', ev, a) \<in> set (inflight st)" for k' s' ev a
  proof (rule landing_snoc [where j = j])
    show "landing st k' s' ev" using d that by (auto simp: dev_ok_def)
    have "slot_of_key st k' = Some s'" using i(6) that by (auto simp: flight_ok_def)
    then show "jslot j \<noteq> s'" using sF(2) by (auto simp: j_def ran_def)
    show "jdone j \<noteq> ev" using i(7) that by (auto simp: events_ok_def j_def)
  qed simp_all
  have new: "landing ?t k s (nextev st)"
  proof -
    have "nextev st \<notin> evdone st" using i(7) by (auto simp: events_ok_def)
    moreover have "queued ?t k s (nextev st)"
      by (rule queuedI [of _ "copyq st" j "[]"]) (simp_all add: j_def)
    ultimately show ?thesis by (simp add: landing_def)
  qed
  have gd: "guarded st s (insert (jwait j) (jwait ` set (copyq st)))"
    using d F by (auto simp: dev_ok_def j_def)
  have 6: "dev_ok ?t" unfolding dev_ok_def g fl
  proof (intro conjI)
    show "\<forall>k s. visible st k s \<longrightarrow> (\<forall>p. slab ?t p s = Some k)" using d by (simp add: dev_ok_def)
    show "\<forall>A j' B. copyq ?t = A @ j' # B \<longrightarrow> guarded st (jslot j') (jwait ` set (A @ [j']))"
      using d gd by (auto simp: snoc_split dev_ok_def j_def)
    show "\<forall>s' \<in> set (free ?t). guarded st s' (insert (retract_ev ?t s') (jwait ` set (copyq ?t)))"
    proof
      fix s' assume "s' \<in> set (free ?t)"
      then have "s' \<in> set F" "s' \<noteq> s" using F sF by auto
      then have "guarded st s' (insert (retract_ev st s') (jwait ` set (copyq st)))"
        using d F by (simp add: dev_ok_def)
      then show "guarded st s' (insert (retract_ev ?t s') (jwait ` set (copyq ?t)))"
        by (rule guarded_mono) (use \<open>s' \<noteq> s\<close> in auto)
    qed
    show "\<forall>(k, s, ev, a) \<in> set (inflight ?t). landing ?t k s ev" using land new by auto
    show "\<forall>k' s. slot_of_key ?t k' = Some s \<longrightarrow> k' \<notin> insert k (flying st) \<longrightarrow> ftable st k' = int s"
      using d by (simp add: dev_ok_def)
    show "\<forall>(v, s) \<in> set (to_retract ?t). ftable st v = int s" using d by (simp add: dev_ok_def)
  qed
  show ?thesis unfolding e using i(1,2) 1 2 3 4 5 6 by (simp add: ec_inv_def)
qed

subsection \<open>The manager's operations\<close>

lemma bookkeeping_inv:
  assumes "ec_inv hk st" "same_slots st st'" "policy st' = policy st"
  shows "ec_inv hk st'"
  by (rule same_slots_inv [OF _ assms(1,2)])
     (use ec_invD(5) [OF assms(1)] assms(2,3) in \<open>simp add: pol_ok_def same_slots_def\<close>)

lemma bump_same [simp]: "same_slots st (bump_by c n st)"
  by (simp add: same_slots_def)

lemma defer_same: "same_slots st (defer_ref k st)" "policy (defer_ref k st) = policy st"
  by (simp_all add: defer_ref_def same_slots_def split: prod.splits)

lemma admit_ref_same:
  "same_slots st (snd (admit_ok_ref k st))" "policy (snd (admit_ok_ref k st)) = policy st"
  by (simp_all add: admit_ok_ref_def same_slots_def Let_def)

lemma same_trans: "same_slots a b \<Longrightarrow> same_slots b c \<Longrightarrow> same_slots a c"
  by (simp add: same_slots_def)

lemma promote_inv:
  assumes "ec_inv {} (aside R out st)" "slot_of_key st k = None"
  shows "ec_inv {} (aside R out (promote k st))"
proof -
  let ?g = "aside R out st"
  note i = ec_invD [OF assms(1)]
  have b: "ec_inv {} (aside R out t)" if "same_slots st t" "policy t = policy st" for t
    by (rule bookkeeping_inv [OF assms(1) same_aside]) (simp_all add: that)
  have d: "ec_inv {} (aside R out (defer_ref k (bump c st)))" for c
    by (rule b [OF same_trans [OF bump_same defer_same(1)]]) (simp add: defer_same(2))
  have f: "aside R out (st\<lparr>free := F\<rparr>) = ?g\<lparr>free := F\<rparr>" for F by (simp add: aside_def)
  have p: "ec_inv {} (aside R out (place k (last (free st)) (st\<lparr>free := butlast (free st)\<rparr>)))"
    if "free st \<noteq> []" "k div num_experts st \<in> set (layers st)"
    using place_inv [OF assms(1), of k] that assms(2) by (simp add: aside_place [symmetric] f)
  show ?thesis using i(1,2) d b p assms by (simp add: promote_def)
qed

lemma not_held:
  assumes "ec_inv {} (aside R out st)" "\<not> slru_mem (policy st) k"
  shows "slot_of_key st k = None"
  using ec_invD(5) [OF assms(1)] assms(2) by (auto simp: pol_ok_def slru_keys_mem)

lemma observe_one_inv:
  assumes inv: "ec_inv {} (aside R out st)"
  shows "ec_inv {} (aside R out (observe_one k st))"
proof (cases "slru_mem (policy st) k")
  case True
  let ?t = "aside R out (st\<lparr>policy := touch k (policy st)\<rparr>)"
  have "pol_ok {} ?t"
    using ec_invD(5) [OF inv] slru_policy.hit_law [of "policy st" k] by (simp add: pol_ok_def)
  then have "ec_inv {} ?t" by (rule same_slots_inv [OF _ inv]) (simp add: same_slots_def)
  then have "ec_inv {} (bump Hits ?t)" by (rule bookkeeping_inv) simp_all
  with True show ?thesis by (simp add: observe_one_def aside_bump)
next
  case False
  let ?t = "snd (admit_ok_ref k (bump Misses st))"
  have s: "same_slots st ?t" "policy ?t = policy st"
    by (rule same_trans [OF bump_same admit_ref_same(1)]) (simp add: admit_ref_same(2))
  have "ec_inv {} (aside R out ?t)" by (rule bookkeeping_inv [OF inv same_aside [OF s(1)]]) (simp add: s(2))
  moreover have "slot_of_key ?t k = None"
    using not_held [OF inv False] s(1) by (simp add: same_slots_def)
  ultimately show ?thesis using False promote_inv
    by (auto simp: observe_one_def split: prod.splits)
qed

lemma observe_inv:
  assumes "ec_inv {} st"
  shows "ec_inv {} (observe l ids st)"
proof -
  have "same_slots st (observe l ids st)" "policy (observe l ids st) = policy st"
    using ec_invD(2) [OF assms] by (simp_all add: observe_def same_slots_def)
  then show ?thesis by (rule bookkeeping_inv [OF assms])
qed

lemma service_pop_inv:
  assumes inv: "ec_inv {} (aside R out st)"
  shows "ec_inv {} (aside R out (service_pop st))"
proof -
  let ?t = "st\<lparr>pend := butlast (pend st), pend_set := pend_set st - {last (pend st)}\<rparr>"
  have t: "ec_inv {} (aside R out ?t)" by (rule bookkeeping_inv [OF inv]) (simp_all add: same_slots_def)
  show ?thesis using t promote_inv [OF t not_held [OF t]] by (simp add: service_pop_def Let_def)
qed

lemma top_up_inv:
  assumes "ec_inv {} (aside R out st)" "fst ` set out \<inter> fst ` set (to_retract (top_up st)) = {}"
  shows "ec_inv {} (aside R out (top_up st))"
  using assms reclaim_inv by (simp add: top_up_def Let_def split: if_splits)

subsection \<open>The streams\<close>

lemma compute_cases:
  assumes "compute_step st = Some st'"
  obtains c r where "compute st = c # r" "st' = st\<lparr>compute := r, dev_table := exec1 c (dev_table st),
      evdone := (case c of CRecord e \<Rightarrow> insert e (evdone st) | _ \<Rightarrow> evdone st)\<rparr>"
  using assms by (auto simp: compute_step_def split: list.splits cop.splits if_splits)

lemma compute_visible:
  assumes "compute st = c # r" "compute st' = r" "dev_table st' = exec1 c (dev_table st)" "visible st' k s"
  shows "visible st k s"
  using assms by (cases c) (auto simp: visible_def split: if_splits)

lemma compute_guarded:
  assumes c: "compute st = c # r" "compute st' = r" "dev_table st' = exec1 c (dev_table st)"
      "evdone st' = (case c of CRecord e \<Rightarrow> insert e (evdone st) | _ \<Rightarrow> evdone st)"
    and g: "guarded st s W"
  shows "guarded st' s W"
proof -
  from g consider (h) "hidden st s" | (f) ev where "Some ev \<in> W" "fence st s ev"
    by (auto simp: guarded_def)
  then show ?thesis
  proof cases
    case h
    then show ?thesis using compute_visible [OF c(1-3)] by (auto simp: guarded_def hidden_def)
  next
    case f
    from f(2) obtain A B where ab: "ev \<notin> evdone st" "compute st = A @ CRecord ev # B" "CRecord ev \<notin> set A"
      "\<forall>k. exec_c A (dev_table st) k \<noteq> int s" "\<forall>k. CSet k (int s) \<notin> set B"
      by (auto simp: fence_def)
    show ?thesis
    proof (cases A)
      case Nil
      then have "hidden st' s" using ab c by (auto simp: hidden_def visible_def)
      then show ?thesis by (simp add: guarded_def)
    next
      case (Cons a A')
      with ab c(1) have a: "a = c" "r = A' @ CRecord ev # B" "c \<noteq> CRecord ev" "CRecord ev \<notin> set A'" by auto
      have "ev \<notin> evdone st'" using a(3) ab(1) c(4) by (cases c) auto
      moreover have "\<forall>k. exec_c A' (dev_table st') k \<noteq> int s" using ab(4) Cons a(1) c(3) by simp
      ultimately have "fence st' s ev" using a ab(5) c(2) unfolding fence_def by blast
      with f(1) show ?thesis by (auto simp: guarded_def)
    qed
  qed
qed

lemma compute_inv:
  assumes inv: "ec_inv {} st" and step: "compute_step st = Some st'"
  shows "ec_inv {} st'"
proof -
  note i = ec_invD [OF inv]
  from step obtain c r where c: "compute st = c # r"
    and e: "st' = st\<lparr>compute := r, dev_table := exec1 c (dev_table st),
      evdone := (case c of CRecord e \<Rightarrow> insert e (evdone st) | _ \<Rightarrow> evdone st)\<rparr>"
    by (rule compute_cases)
  have f: "flying st' = flying st" by (simp add: e flying_def)
  have v: "visible st' k s \<Longrightarrow> visible st k s" for k s by (rule compute_visible [OF c]) (simp_all add: e)
  have g: "guarded st s W \<Longrightarrow> guarded st' s W" for s W by (rule compute_guarded [OF c]) (simp_all add: e)
  have h: "hidden st s \<Longrightarrow> hidden st' s" for s using v by (auto simp: hidden_def)
  have ft: "ftable st' = ftable st" by (intro ext) (simp add: e ftable_def c)
  have ev: "ev \<in> evdone st' \<longleftrightarrow> ev \<in> evdone st" if "CRecord ev \<notin> set (compute st)" for ev
    using that c by (auto simp: e split: cop.splits)
  have 1: "slots_ok st'" "kos_ok st'" "pol_ok {} st'" using i by (simp_all add: slots_ok_def kos_ok_def pol_ok_def e)
  have 2: "flight_ok st'" using i(6) unfolding flight_ok_def f by (simp add: e)
  have 3: "events_ok st'" using i(7) c unfolding events_ok_def by (auto simp: e split: cop.splits)
  have l: "landing st' k s ev" if "(k, s, ev, a) \<in> set (inflight st)" for k s ev a
  proof -
    have "landing st k s ev" "CRecord ev \<notin> set (compute st)" using i(7,8) that by (auto simp: dev_ok_def events_ok_def)
    moreover have "queued st' k s ev = queued st k s ev" by (simp add: queued_def e)
    ultimately show ?thesis using ev h by (auto simp: landing_def e split: if_splits)
  qed
  have 4: "dev_ok st'" using i(8) v g l unfolding dev_ok_def f ft by (auto simp: e)
  show ?thesis using i(1,2) 1 2 3 4 by (simp add: ec_inv_def e)
qed

lemma guarded_drop:
  assumes "guarded st s (insert (jwait j) W)" "job_ready st j"
  shows "guarded st s W"
proof -
  have "Some ev = jwait j \<Longrightarrow> \<not> fence st s ev" for ev
    using assms(2) by (auto simp: fence_def job_ready_def split: option.splits)
  with assms(1) show ?thesis unfolding guarded_def by blast
qed

lemma head_hidden:
  assumes "dev_ok st" "copyq st = j # r" "job_ready st j"
  shows "hidden st (jslot j)"
proof -
  have "guarded st (jslot j) (jwait ` set ([] @ [j]))" using assms by (fastforce simp: dev_ok_def)
  then have "guarded st (jslot j) {jwait j}" by simp
  from guarded_ready [OF this] assms(3) show ?thesis by (simp add: job_ready_def)
qed

lemma hd_split: "x # xs = A @ y # B \<longleftrightarrow> (A = [] \<and> y = x \<and> B = xs) \<or> (\<exists>A'. A = x # A' \<and> xs = A' @ y # B)"
  by (cases A) auto

lemma copy_write_inv:
  assumes inv: "ec_inv {} st" and q: "copyq st = j # r" and rdy: "job_ready st j" and td: "jtodo j = p # ps"
  shows "ec_inv {} (st\<lparr>slab := (slab st)(p := (slab st p)(jslot j := Some (jkey j))),
            copyq := Job (jwait j) (jkey j) (jslot j) ps (jdone j) # r\<rparr>)" (is "ec_inv {} ?t")
proof -
  note i = ec_invD [OF inv]
  let ?j = "Job (jwait j) (jkey j) (jslot j) ps (jdone j)"
  have hid: "hidden st (jslot j)" by (rule head_hidden [OF i(8) q rdy])
  have f: "flying ?t = flying st" by (simp add: flying_def)
  have g: "visible ?t = visible st" "ftable ?t = ftable st" "guarded ?t = guarded st" "hidden ?t = hidden st"
    by (intro guarded_cong; simp)+
  have land: "landing ?t k s ev" if "(k, s, ev, a) \<in> set (inflight st)" for k s ev a
  proof -
    have l: "landing st k s ev" using i(8) that by (auto simp: dev_ok_def)
    have qq: "queued ?t k s ev" if "queued st k s ev" using that
    proof (rule queuedE)
      fix A x B
      assume x: "copyq st = A @ x # B" "jkey x = k" "jslot x = s" "jdone x = ev"
        "\<And>p. p \<notin> set (jtodo x) \<Longrightarrow> slab st p s = Some k" "A \<noteq> [] \<Longrightarrow> jtodo x = planes"
        "\<And>j'. j' \<in> set B \<Longrightarrow> jslot j' \<noteq> s"
      from x(1) q have "j # r = A @ x # B" by simp
      then consider "A = []" "x = j" "B = r" | A' where "A = j # A'" "r = A' @ x # B"
        unfolding hd_split by auto
      then show ?thesis
      proof cases
        case 1
        show ?thesis by (rule queuedI [of _ "[]" ?j r]) (use x 1 td in auto)
      next
        case 2
        show ?thesis by (rule queuedI [of _ "?j # A'" x B]) (use x 2 in auto)
      qed
    qed
    have dn: "slab ?t p' s = Some k" if "ev \<in> evdone st" for p'
      using l that q by (auto simp: landing_def)
    show ?thesis using l qq dn q g(4) by (auto simp: landing_def)
  qed
  have w: "jwait ` set (copyq ?t) = jwait ` set (copyq st)" by (simp add: q)
  have 1: "slots_ok ?t" "kos_ok ?t" "pol_ok {} ?t" using i by (simp_all add: slots_ok_def kos_ok_def pol_ok_def)
  have 2: "flight_ok ?t" using i(6) unfolding flight_ok_def f by simp
  have 3: "events_ok ?t" using i(7) q unfolding events_ok_def by auto
  have 4: "dev_ok ?t" unfolding dev_ok_def f g w
  proof (intro conjI)
    show "\<forall>k s. visible st k s \<longrightarrow> (\<forall>p. slab ?t p s = Some k)"
      using i(8) hid by (auto simp: dev_ok_def hidden_def)
    show "\<forall>A x B. copyq ?t = A @ x # B \<longrightarrow> guarded st (jslot x) (jwait ` set (A @ [x]))"
    proof (intro allI impI)
      fix A x B assume "copyq ?t = A @ x # B"
      then have "?j # r = A @ x # B" by simp
      then consider "A = []" "x = ?j" "B = r" | A' where "A = ?j # A'" "r = A' @ x # B"
        unfolding hd_split by auto
      then show "guarded st (jslot x) (jwait ` set (A @ [x]))"
      proof cases
        case 1
        with hid show ?thesis by (simp add: guarded_def)
      next
        case 2
        then have "copyq st = (j # A') @ x # B" using q by simp
        then have "guarded st (jslot x) (jwait ` set ((j # A') @ [x]))"
          using i(8) unfolding dev_ok_def by blast
        with 2 show ?thesis by simp
      qed
    qed
  qed (use i(8) land in \<open>auto simp: dev_ok_def\<close>)
  show ?thesis using i(1,2) 1 2 3 4 by (simp add: ec_inv_def)
qed

text \<open>Both ways the head job leaves the stream: done, with its event, or lost.\<close>

lemma copy_pop_inv:
  assumes inv: "ec_inv {} st" and q: "copyq st = j # r" and rdy: "job_ready st j"
    and fin: "D = evdone st \<or> (D = insert (jdone j) (evdone st) \<and> jtodo j = [])"
  shows "ec_inv {} (st\<lparr>copyq := r, evdone := D\<rparr>)" (is "ec_inv {} ?t")
proof -
  note i = ec_invD [OF inv]
  have hid: "hidden st (jslot j)" by (rule head_hidden [OF i(8) q rdy])
  have f: "flying ?t = flying st" by (simp add: flying_def)
  have g: "visible ?t = visible st" "ftable ?t = ftable st" "hidden ?t = hidden st"
    by (auto simp: fun_eq_iff visible_def ftable_def hidden_def)
  have nr: "CRecord (jdone j) \<notin> set (compute st)" using i(7) q by (auto simp: events_ok_def)
  have gd: "guarded ?t s W" if "guarded st s W" for s W
  proof -
    have "fence ?t s ev" if "fence st s ev" for ev
    proof -
      have "CRecord ev \<in> set (compute st)" using that by (auto simp: fence_def)
      then have "ev \<noteq> jdone j" using nr by auto
      then show ?thesis using that fin by (auto simp: fence_def)
    qed
    with that g(3) show ?thesis by (auto simp: guarded_def)
  qed
  have dis: "distinct (map jdone (j # r))" using i(7) q by (simp add: events_ok_def)
  have land: "landing ?t k s ev" if m: "(k, s, ev, a) \<in> set (inflight st)" for k s ev a
  proof -
    have l: "landing st k s ev" using i(8) m by (auto simp: dev_ok_def)
    show ?thesis
    proof (cases "queued st k s ev \<and> ev \<notin> evdone st")
      case False
      have "ev \<noteq> jdone j" if "ev \<notin> evdone st" using that False l q by (auto simp: landing_def)
      then have "ev \<in> D \<longleftrightarrow> ev \<in> evdone st" using fin by auto
      then show ?thesis using False l q g(3) by (auto simp: landing_def)
    next
      case True
      from True have "queued st k s ev" by blast
      then obtain A x B where x: "copyq st = A @ x # B" "jkey x = k" "jslot x = s" "jdone x = ev"
        "\<And>p. p \<notin> set (jtodo x) \<Longrightarrow> slab st p s = Some k" "A \<noteq> [] \<Longrightarrow> jtodo x = planes"
        "\<And>j'. j' \<in> set B \<Longrightarrow> jslot j' \<noteq> s" by (rule queuedE) (rule that)
      from x(1) q have "j # r = A @ x # B" by simp
      then consider "A = []" "x = j" "B = r" | A' where "A = j # A'" "r = A' @ x # B"
        unfolding hd_split by auto
      then show ?thesis
      proof cases
        case 1
        have no: "\<forall>i \<in> set r. jdone i \<noteq> ev" using dis x(4) 1 by (force simp: image_iff)
        show ?thesis using fin
        proof
          assume "D = evdone st"
          then show ?thesis using no hid g(3) x(3) 1 True by (auto simp: landing_def)
        next
          assume "D = insert (jdone j) (evdone st) \<and> jtodo j = []"
          then show ?thesis using x 1 by (auto simp: landing_def)
        qed
      next
        case 2
        have "ev \<noteq> jdone j" using dis 2 x(4) by auto
        then have "ev \<notin> D" using True fin by auto
        moreover have "queued ?t k s ev" by (rule queuedI [of _ A' x B]) (use x 2 in auto)
        ultimately show ?thesis by (simp add: landing_def)
      qed
    qed
  qed
  have 1: "slots_ok ?t" "kos_ok ?t" "pol_ok {} ?t" using i by (simp_all add: slots_ok_def kos_ok_def pol_ok_def)
  have 2: "flight_ok ?t" using i(6) unfolding flight_ok_def f by simp
  have dis': "\<forall>i \<in> set r. jdone i \<noteq> jdone j" using dis by (force simp: image_iff)
  have 3: "events_ok ?t" using i(7) q fin dis' unfolding events_ok_def by auto
  have 4: "dev_ok ?t" unfolding dev_ok_def f g
  proof (intro conjI)
    show "\<forall>A x B. copyq ?t = A @ x # B \<longrightarrow> guarded ?t (jslot x) (jwait ` set (A @ [x]))"
    proof (intro allI impI)
      fix A x B assume "copyq ?t = A @ x # B"
      then have "copyq st = (j # A) @ x # B" using q by simp
      then have "guarded st (jslot x) (jwait ` set ((j # A) @ [x]))"
        using i(8) unfolding dev_ok_def by blast
      then have "guarded st (jslot x) (jwait ` set (A @ [x]))"
        using guarded_drop [OF _ rdy] by simp
      then show "guarded ?t (jslot x) (jwait ` set (A @ [x]))" by (rule gd)
    qed
    show "\<forall>s \<in> set (free ?t). guarded ?t s (insert (retract_ev ?t s) (jwait ` set (copyq ?t)))"
    proof
      fix s assume "s \<in> set (free ?t)"
      then have "guarded st s (insert (jwait j) (insert (retract_ev st s) (jwait ` set r)))"
        using i(8) q by (auto simp: dev_ok_def insert_commute)
      from gd [OF guarded_drop [OF this rdy]]
      show "guarded ?t s (insert (retract_ev ?t s) (jwait ` set (copyq ?t)))" by simp
    qed
  qed (use i(8) land in \<open>auto simp: dev_ok_def\<close>)
  show ?thesis using i(1,2) 1 2 3 4 by (simp add: ec_inv_def)
qed

lemma copy_step_inv:
  assumes inv: "ec_inv {} st" and step: "copy_step st = Some st'"
  shows "ec_inv {} st'"
proof -
  from step obtain j r where q: "copyq st = j # r" and rdy: "job_ready st j"
    by (auto simp: copy_step_def split: list.splits if_splits)
  show ?thesis
  proof (cases "jtodo j")
    case Nil
    with step q rdy copy_pop_inv [OF inv q rdy] show ?thesis by (auto simp: copy_step_def)
  next
    case (Cons p ps)
    with step q rdy copy_write_inv [OF inv q rdy Cons] show ?thesis by (simp add: copy_step_def)
  qed
qed

lemma copy_lost_inv:
  assumes inv: "ec_inv {} st" and step: "copy_lost st = Some st'"
  shows "ec_inv {} st'"
proof -
  from step obtain j r where q: "copyq st = j # r" and rdy: "job_ready st j" and e: "st' = st\<lparr>copyq := r\<rparr>"
    by (auto simp: copy_lost_def split: list.splits if_splits)
  have "st' = st\<lparr>copyq := r, evdone := evdone st\<rparr>" by (simp add: e)
  with copy_pop_inv [OF inv q rdy disjI1 [OF refl]] show ?thesis by simp
qed

subsection \<open>The scheduler's half\<close>

lemma exec_retract: "exec_c (map (\<lambda>(v, s). CSet v (-1)) R) t k = (if k \<in> fst ` set R then -1 else t k)"
  by (induction R arbitrary: t) auto

lemma apply_retract_inv:
  assumes inv: "ec_inv {} st" and R: "to_retract st = R @ T"
  shows "ec_inv {} (apply_retract R (st\<lparr>to_retract := T\<rparr>))"
proof (cases "R = []")
  case True
  then have "st\<lparr>to_retract := T\<rparr> = st" using R by simp
  with inv True show ?thesis by (simp add: apply_retract_def)
next
  case False
  note i = ec_invD [OF inv]
  let ?ev = "nextev st"
  let ?C = "map (\<lambda>(v, s). CSet v (-1)) R"
  have "filter (\<lambda>(v, s). v div num_experts st \<in> set (layers st)) R = R"
    using i(6) R by (intro filter_True) (force simp: flight_ok_def)
  then have e: "apply_retract R (st\<lparr>to_retract := T\<rparr>) = st\<lparr>to_retract := T,
      compute := compute st @ ?C @ [CRecord ?ev],
      retract_ev := override_on (retract_ev st) (\<lambda>_. Some ?ev) (snd ` set R),
      free := free st @ map snd R, nextev := Suc ?ev\<rparr>" (is "_ = ?t")
    using False by (simp add: apply_retract_def Let_def)
  have v: "visible ?t = visible st" by (auto simp: fun_eq_iff visible_def)
  have h: "hidden ?t = hidden st" by (auto simp: fun_eq_iff hidden_def v)
  have f: "flying ?t = flying st" by (simp add: flying_def)
  have g: "guarded ?t s W" if "guarded st s W" for s W
  proof -
    have "fence ?t s ev" if "fence st s ev" for ev
    proof -
      from that obtain A B where "ev \<notin> evdone st" "compute st = A @ CRecord ev # B" "CRecord ev \<notin> set A"
        "\<forall>k. exec_c A (dev_table st) k \<noteq> int s" "\<forall>k. CSet k (int s) \<notin> set B" by (auto simp: fence_def)
      then have "ev \<notin> evdone ?t \<and> compute ?t = A @ CRecord ev # (B @ ?C @ [CRecord ?ev]) \<and> CRecord ev \<notin> set A
        \<and> (\<forall>k. exec_c A (dev_table ?t) k \<noteq> int s) \<and> (\<forall>k. CSet k (int s) \<notin> set (B @ ?C @ [CRecord ?ev]))" by auto
      then show ?thesis unfolding fence_def by blast
    qed
    with that h show ?thesis by (auto simp: guarded_def)
  qed
  have ft: "ftable ?t k = (if k \<in> fst ` set R then -1 else ftable st k)" for k
    by (simp add: ftable_def exec_retract)
  have new: "fence ?t s ?ev" if "(w, s) \<in> set R" for w s
  proof -
    have w: "ftable st w = int s" using i(8) R that by (auto simp: dev_ok_def)
    have "exec_c (compute st @ ?C) (dev_table st) k \<noteq> int s" for k
    proof
      assume a: "exec_c (compute st @ ?C) (dev_table st) k = int s"
      then have "k \<notin> fst ` set R" "ftable st k = int s"
        by (auto simp: exec_retract ftable_def split: if_splits)
      then have "k \<noteq> w" using that by force
      moreover have "slab st Down s = Some k" "slab st Down s = Some w"
        using i(8) ftable_visible [OF \<open>ftable st k = int s\<close>] ftable_visible [OF w] unfolding dev_ok_def by blast+
      ultimately show False by simp
    qed
    moreover have "?ev \<notin> evdone st" "CRecord ?ev \<notin> set (compute st @ ?C)" using i(7) by (auto simp: events_ok_def)
    moreover have "compute ?t = (compute st @ ?C) @ CRecord ?ev # []" by simp
    ultimately have "?ev \<notin> evdone ?t \<and> compute ?t = (compute st @ ?C) @ CRecord ?ev # []
        \<and> CRecord ?ev \<notin> set (compute st @ ?C) \<and> (\<forall>k. exec_c (compute st @ ?C) (dev_table ?t) k \<noteq> int s)
        \<and> (\<forall>k. CSet k (int s) \<notin> set [])" by simp
    then show ?thesis unfolding fence_def by blast
  qed
  have 1: "slots_ok ?t" using i(3) R by (auto simp: slots_ok_def)
  have 2: "kos_ok ?t" "pol_ok {} ?t" using i by (simp_all add: kos_ok_def pol_ok_def)
  have 3: "flight_ok ?t" using i(6) unfolding flight_ok_def f by (simp add: R ball_Un image_Un)
  have 4: "events_ok ?t" using i(7) unfolding events_ok_def by (auto simp: less_Suc_eq)
  have land: "landing ?t k s ev" if "(k, s, ev, a) \<in> set (inflight st)" for k s ev a
  proof -
    have "landing st k s ev" using i(8) that by (auto simp: dev_ok_def)
    moreover have "queued ?t k s ev = queued st k s ev" by (simp add: queued_def)
    ultimately show ?thesis by (simp add: landing_def h)
  qed
  have 5: "dev_ok ?t" unfolding dev_ok_def v f
  proof (intro conjI)
    show "\<forall>A j B. copyq ?t = A @ j # B \<longrightarrow> guarded ?t (jslot j) (jwait ` set (A @ [j]))"
      using i(8) g unfolding dev_ok_def by simp
    show "\<forall>s \<in> set (free ?t). guarded ?t s (insert (retract_ev ?t s) (jwait ` set (copyq ?t)))"
    proof
      fix s assume "s \<in> set (free ?t)"
      then consider "s \<in> snd ` set R" | "s \<in> set (free st)" "s \<notin> snd ` set R" by auto
      then show "guarded ?t s (insert (retract_ev ?t s) (jwait ` set (copyq ?t)))"
      proof cases
        case 1
        then obtain w where w: "(w, s) \<in> set R" by auto
        have "retract_ev ?t s = Some ?ev" using 1 by (simp add: override_on_def)
        then show ?thesis unfolding guarded_def
          by (intro disjI2 exI [of _ ?ev] conjI new [OF w]) (simp only: insert_iff simp_thms)
      next
        case 2
        then have "guarded st s (insert (retract_ev st s) (jwait ` set (copyq st)))"
          using i(8) by (auto simp: dev_ok_def)
        with g 2 show ?thesis by (simp add: override_on_def)
      qed
    qed
    show "\<forall>k s. slot_of_key ?t k = Some s \<longrightarrow> k \<notin> flying st \<longrightarrow> ftable ?t k = int s"
    proof (intro allI impI)
      fix k s assume a: "slot_of_key ?t k = Some s" "k \<notin> flying st"
      then have "k \<notin> fst ` set R" using i(6) R by (force simp: flight_ok_def)
      with a i(8) show "ftable ?t k = int s" by (simp add: ft dev_ok_def)
    qed
    show "\<forall>(v, s) \<in> set (to_retract ?t). ftable ?t v = int s"
    proof clarify
      fix v s assume m: "(v, s) \<in> set (to_retract ?t)"
      have f: "\<forall>(v, s) \<in> set (R @ T). ftable st v = int s" using i(8) unfolding dev_ok_def R by blast
      from bspec [OF f, of "(v, s)"] m have fv: "ftable st v = int s" by simp
      moreover have "v \<notin> fst ` set R"
      proof
        assume "v \<in> fst ` set R"
        then obtain s' where s': "(v, s') \<in> set R" by auto
        from bspec [OF f, of "(v, s')"] s' have "ftable st v = int s'" by simp
        with fv s' m have "s \<in> snd ` set R" "s \<in> snd ` set T" by force+
        then show False using i(3) R by (auto simp: slots_ok_def)
      qed
      ultimately show "ftable ?t v = int s" by (simp add: ft)
    qed
  qed (use i(8) land in \<open>auto simp: dev_ok_def\<close>)
  show ?thesis unfolding e using i(1,2) 1 2 3 4 5 by (simp add: ec_inv_def)
qed

text \<open>One in-flight entry is settled.  During the loop the record's list is empty; the entries
  already kept and those still to come are put back for the invariant.\<close>

definition with_flight :: "ec \<Rightarrow> entry list \<Rightarrow> ec" where
  "with_flight st fl = st\<lparr>inflight := fl\<rparr>"

lemma with_flight_simps [simp]:
  "inflight (with_flight st fl) = fl" "num_experts (with_flight st fl) = num_experts st" "slots (with_flight st fl) = slots st"
  "cuda (with_flight st fl) = cuda st" "layers (with_flight st fl) = layers st" "threaded (with_flight st fl) = threaded st"
  "policy (with_flight st fl) = policy st" "slot_of_key (with_flight st fl) = slot_of_key st"
  "key_of_slot (with_flight st fl) = key_of_slot st" "free (with_flight st fl) = free st"
  "to_retract (with_flight st fl) = to_retract st" "retract_ev (with_flight st fl) = retract_ev st"
  "compute (with_flight st fl) = compute st" "copyq (with_flight st fl) = copyq st"
  "dev_table (with_flight st fl) = dev_table st" "slab (with_flight st fl) = slab st"
  "evdone (with_flight st fl) = evdone st" "nextev (with_flight st fl) = nextev st"
  by (simp_all add: with_flight_def)

lemma flight_entry:
  assumes "ec_inv {} (with_flight st (P @ (k, s, ev, a) # Q))"
  shows "slot_of_key st k = Some s" "k div num_experts st \<in> set (layers st)"
    "landing (with_flight st (P @ (k, s, ev, a) # Q)) k s ev"
    "(k, x) \<notin> set P \<union> set Q"
    "(k', s', e, b) \<in> set P \<Longrightarrow> slot_of_key st k' = Some s' \<and> landing (with_flight st (P @ (k, s, ev, a) # Q)) k' s' e"
    "(k', s', e, b) \<in> set Q \<Longrightarrow> slot_of_key st k' = Some s' \<and> landing (with_flight st (P @ (k, s, ev, a) # Q)) k' s' e"
proof -
  note i = ec_invD [OF assms]
  have o: "slot_of_key st k' = Some s' \<and> landing (with_flight st (P @ (k, s, ev, a) # Q)) k' s' e"
    if m: "(k', s', e, b) \<in> set (P @ (k, s, ev, a) # Q)" for k' s' e b
  proof -
    have "\<forall>(k', s', e, b) \<in> set (P @ (k, s, ev, a) # Q). slot_of_key st k' = Some s'"
      using i(6) unfolding flight_ok_def with_flight_simps by blast
    from bspec [OF this m] have "slot_of_key st k' = Some s'" by simp
    moreover have "\<forall>(k', s', e, b) \<in> set (P @ (k, s, ev, a) # Q). landing (with_flight st (P @ (k, s, ev, a) # Q)) k' s' e"
      using i(8) unfolding dev_ok_def with_flight_simps by blast
    note bspec [OF this m]
    ultimately show ?thesis by simp
  qed
  show "(k', s', e, b) \<in> set P \<Longrightarrow> slot_of_key st k' = Some s' \<and> landing (with_flight st (P @ (k, s, ev, a) # Q)) k' s' e"
    "(k', s', e, b) \<in> set Q \<Longrightarrow> slot_of_key st k' = Some s' \<and> landing (with_flight st (P @ (k, s, ev, a) # Q)) k' s' e"
    using o by auto
  show "slot_of_key st k = Some s" using i(6) by (auto simp: flight_ok_def)
  then show "k div num_experts st \<in> set (layers st)" using i(6) by (auto simp: flight_ok_def)
  show "landing (with_flight st (P @ (k, s, ev, a) # Q)) k s ev" using i(8) by (auto simp: dev_ok_def)
  have "distinct (map fst (P @ (k, s, ev, a) # Q))" using i(6) by (simp add: flight_ok_def)
  then show "(k, x) \<notin> set P \<union> set Q" by (force simp: image_iff)
qed

lemma age_inv:
  assumes inv: "ec_inv {} (with_flight st (P @ (k, s, ev, a) # Q))"
  shows "ec_inv {} (with_flight st (P @ (k, s, ev, b) # Q))" (is "ec_inv {} ?t")
proof -
  note i = ec_invD [OF inv]
  let ?s = "with_flight st (P @ (k, s, ev, a) # Q)"
  have f: "flying ?t = flying ?s" by (simp add: flying_def)
  have g: "visible ?t = visible ?s" "ftable ?t = ftable ?s" "guarded ?t = guarded ?s" "landing ?t = landing ?s"
    by (intro guarded_cong landing_cong; simp)+
  have 1: "slots_ok ?t" "kos_ok ?t" "pol_ok {} ?t" using i by (simp_all add: slots_ok_def kos_ok_def pol_ok_def)
  have 2: "flight_ok ?t" using i(6) unfolding flight_ok_def f by simp
  have 3: "events_ok ?t" using i(7) by (simp add: events_ok_def)
  have 4: "dev_ok ?t" using i(8) unfolding dev_ok_def f g by simp
  show ?thesis using i(1,2) 1 2 3 4 by (simp add: ec_inv_def)
qed

lemma abandon_inv:
  assumes inv: "ec_inv {} (with_flight st (P @ (k, s, ev, a) # Q))" and R: "k \<notin> fst ` set (to_retract st)"
    and nd: "ev \<notin> evdone st"
  shows "ec_inv {} (with_flight (st\<lparr>slot_of_key := (slot_of_key st)(k := None), key_of_slot := (key_of_slot st)[s := -1],
            policy := evict_key k (policy st), free := free st @ [s]\<rparr>) (P @ Q))" (is "ec_inv {} ?t")
proof -
  let ?s = "with_flight st (P @ (k, s, ev, a) # Q)"
  note i = ec_invD [OF inv] and n = flight_entry [OF inv]
  have f: "flying ?s = insert k (flying ?t)" "k \<notin> flying ?t"
    using n(4) by (auto simp: flying_def)
  have g: "visible ?t = visible ?s" "ftable ?t = ftable ?s" "guarded ?t = guarded ?s" "landing ?t = landing ?s" "hidden ?t = hidden ?s"
    by (intro guarded_cong landing_cong; simp)+
  have r: "ran ((slot_of_key st)(k := None)) = ran (slot_of_key st) - {s}"
    using ran_remove [OF i(3), of k s] n(1) by simp
  have sr: "s \<in> ran (slot_of_key st)" using n(1) by (rule ranI)
  have ij: "inj_on ((slot_of_key st)(k := None)) (dom ((slot_of_key st)(k := None)))"
    using slot_inj [OF i(3)] by (intro inj_onI) (auto split: if_splits)
  have 1: "slots_ok ?t" using i(3) r ij sr R by (auto simp: slots_ok_def)
  have ki: "\<not> (\<exists>k'. k' \<noteq> k \<and> slot_of_key st k' = Some s)"
    using slot_inj [OF i(3)] n(1) by auto
  have "s < slots st" using i(3) sr by (auto simp: slots_ok_def)
  then have 2: "kos_ok ?t" using i(4) r ki by (auto simp: kos_ok_def nth_list_update)
  have 3: "pol_ok {} ?t" using i(5) slru_policy.drop_law [of "policy st" k] by (auto simp: pol_ok_def)
  have w: "v \<in> flying ?t" if "(v, x) \<in> set (to_retract st)" "v \<in> dom (slot_of_key st)" for v x
  proof -
    have "\<forall>(v, x) \<in> set (to_retract st). v \<in> dom (slot_of_key st) \<longrightarrow> v \<in> flying ?s"
      using i(6) unfolding flight_ok_def with_flight_simps by blast
    from bspec [OF this that(1)] that have "v \<in> flying ?s" by simp
    moreover have "v \<noteq> k" using R that(1) by force
    ultimately show ?thesis by (simp add: f)
  qed
  have 4: "flight_ok ?t" using i(6) n(4) unfolding flight_ok_def
    by (auto dest: n(5,6) simp: w domI)
  have 5: "events_ok ?t" using i(7) by (simp add: events_ok_def)
  have gs: "guarded ?s s (jwait ` set (copyq st))"
  proof (cases "queued ?s k s ev")
    case True
    then obtain A j B where q: "copyq ?s = A @ j # B" "jslot j = s" unfolding queued_def by blast
    then have "guarded ?s s (jwait ` set (A @ [j]))" using i(8) unfolding dev_ok_def by blast
    then show ?thesis by (rule guarded_mono) (use q in auto)
  next
    case False
    with n(3) nd show ?thesis by (auto simp: landing_def guarded_def)
  qed
  have 6: "dev_ok ?t" unfolding dev_ok_def g
  proof (intro conjI)
    show "\<forall>s' \<in> set (free ?t). guarded ?s s' (insert (retract_ev ?t s') (jwait ` set (copyq ?t)))"
      using i(8) guarded_mono [OF gs] by (auto simp: dev_ok_def)
    show "\<forall>k' s'. slot_of_key ?t k' = Some s' \<longrightarrow> k' \<notin> flying ?t \<longrightarrow> ftable ?s k' = int s'"
      using i(8) f(1) by (auto simp: dev_ok_def)
    show "\<forall>(k, s, ev, a) \<in> set (inflight ?t). landing ?s k s ev"
      by (auto dest: n(5,6) )
  qed (use i(8) R in \<open>auto simp: dev_ok_def\<close>)
  show ?thesis using i(1,2) 1 2 3 4 5 6 by (simp add: ec_inv_def)
qed

lemma publish_inv:
  assumes inv: "ec_inv {} (with_flight st (P @ (k, s, ev, a) # Q))" and R: "k \<notin> fst ` set (to_retract st)"
    and dn: "ev \<in> evdone st"
  shows "ec_inv {} (with_flight (st\<lparr>compute := compute st @ [CSet k (int s)]\<rparr>) (P @ Q))" (is "ec_inv {} ?t")
proof -
  let ?s = "with_flight st (P @ (k, s, ev, a) # Q)"
  note i = ec_invD [OF inv] and n = flight_entry [OF inv]
  have f: "flying ?s = insert k (flying ?t)" by (auto simp: flying_def)
  have v: "visible ?t k' s' \<longleftrightarrow> visible ?s k' s' \<or> (k' = k \<and> s' = s)" for k' s'
    by (auto simp: visible_def)
  have ft: "ftable ?t k' = (if k' = k then int s else ftable ?s k')" for k'
    by (simp add: ftable_def)
  have land: "\<forall>p. slab st p s = Some k" "\<forall>j \<in> set (copyq st). jslot j \<noteq> s"
    using n(3) dn by (simp_all add: landing_def)
  have h: "hidden ?t s'" if "hidden ?s s'" "s' \<noteq> s" for s' using that v by (auto simp: hidden_def)
  have g: "guarded ?t s' W" if "guarded ?s s' W" "s' \<noteq> s" for s' W
  proof -
    have "fence ?t s' e" if a: "fence ?s s' e" for e
    proof -
      from a obtain A B where "e \<notin> evdone st" "compute st = A @ CRecord e # B" "CRecord e \<notin> set A"
        "\<forall>k. exec_c A (dev_table st) k \<noteq> int s'" "\<forall>k. CSet k (int s') \<notin> set B"
        by (auto simp: fence_def)
      with \<open>s' \<noteq> s\<close> have "e \<notin> evdone ?t \<and> compute ?t = A @ CRecord e # (B @ [CSet k (int s)]) \<and> CRecord e \<notin> set A
        \<and> (\<forall>k. exec_c A (dev_table ?t) k \<noteq> int s') \<and> (\<forall>k'. CSet k' (int s') \<notin> set (B @ [CSet k (int s)]))"
        by auto
      then show ?thesis unfolding fence_def by blast
    qed
    with that h show ?thesis by (auto simp: guarded_def)
  qed
  have other: "s' \<noteq> s" if "(k', s', e, b) \<in> set P \<union> set Q" for k' s' e b
  proof -
    have "slot_of_key st k' = Some s'" using n(5,6) that by blast
    moreover have "k' \<noteq> k" using n(4) that by auto
    ultimately show ?thesis using slot_inj [OF i(3), of k s k'] n(1) by auto
  qed
  have sf: "s \<notin> set (free st)" using i(3) n(1) by (auto simp: slots_ok_def ran_def)
  have 1: "slots_ok ?t" "kos_ok ?t" "pol_ok {} ?t" using i by (simp_all add: slots_ok_def kos_ok_def pol_ok_def)
  have w: "v \<in> flying ?t" if "(v, x) \<in> set (to_retract st)" "v \<in> dom (slot_of_key st)" for v x
  proof -
    have "\<forall>(v, x) \<in> set (to_retract st). v \<in> dom (slot_of_key st) \<longrightarrow> v \<in> flying ?s"
      using i(6) unfolding flight_ok_def with_flight_simps by blast
    from bspec [OF this that(1)] that have "v \<in> flying ?s" by simp
    moreover have "v \<noteq> k" using R that(1) by force
    ultimately show ?thesis by (simp add: f)
  qed
  have 2: "flight_ok ?t" using i(6) unfolding flight_ok_def by (auto dest: n(5,6) simp: w domI)
  have 3: "events_ok ?t" using i(7) by (auto simp: events_ok_def)
  have l2: "landing ?t k' s' e" if "(k', s', e, b) \<in> set P \<union> set Q" for k' s' e b
  proof -
    have "landing ?s k' s' e" using n(5,6) that by blast
    moreover have "queued ?t k' s' e = queued ?s k' s' e" by (simp add: queued_def)
    ultimately show ?thesis using h [OF _ other [OF that]]
      by (auto simp: landing_def split: if_splits)
  qed
  have 4: "dev_ok ?t" unfolding dev_ok_def
  proof (intro conjI)
    show "\<forall>k s. visible ?t k s \<longrightarrow> (\<forall>p. slab ?t p s = Some k)"
      using i(8) land(1) by (auto simp: v dev_ok_def)
    show "\<forall>A j B. copyq ?t = A @ j # B \<longrightarrow> guarded ?t (jslot j) (jwait ` set (A @ [j]))"
    proof (intro allI impI)
      fix A j B assume c: "copyq ?t = A @ j # B"
      then have "jslot j \<noteq> s" using land(2) by auto
      moreover have "guarded ?s (jslot j) (jwait ` set (A @ [j]))"
        using i(8) c unfolding dev_ok_def by simp
      ultimately show "guarded ?t (jslot j) (jwait ` set (A @ [j]))" by (rule g [rotated])
    qed
    show "\<forall>s' \<in> set (free ?t). guarded ?t s' (insert (retract_ev ?t s') (jwait ` set (copyq ?t)))"
    proof
      fix s' assume a: "s' \<in> set (free ?t)"
      then have "s' \<noteq> s" using sf by auto
      moreover have "guarded ?s s' (insert (retract_ev ?t s') (jwait ` set (copyq ?t)))"
        using i(8) a by (simp add: dev_ok_def)
      ultimately show "guarded ?t s' (insert (retract_ev ?t s') (jwait ` set (copyq ?t)))" by (rule g [rotated])
    qed
    show "\<forall>(k, s, ev, a) \<in> set (inflight ?t). landing ?t k s ev" using l2 by auto
    show "\<forall>k' s'. slot_of_key ?t k' = Some s' \<longrightarrow> k' \<notin> flying ?t \<longrightarrow> ftable ?t k' = int s'"
      using i(8) f n(1) by (auto simp: ft dev_ok_def)
    show "\<forall>(v, x) \<in> set (to_retract ?t). ftable ?t v = int x"
    proof clarify
      fix v x assume m: "(v, x) \<in> set (to_retract ?t)"
      have "\<forall>(v, x) \<in> set (to_retract st). ftable ?s v = int x"
        using i(8) unfolding dev_ok_def with_flight_simps by blast
      from bspec [OF this, of "(v, x)"] m have "ftable ?s v = int x" by simp
      moreover have "v \<noteq> k" using R m by force
      ultimately show "ftable ?t v = int x" by (simp add: ft)
    qed
  qed
  show ?thesis using i(1,2) 1 2 3 4 by (simp add: ec_inv_def)
qed

lemma settle_inv:
  assumes inv: "ec_inv {} (with_flight st (P @ (k, sl, ev, a) # Q))" and R: "k \<notin> fst ` set (to_retract st)"
    and s: "settle (k, sl, ev, a) (st, still) = (st', still')"
  obtains "still' = still @ [(k, sl, ev, a + 1)]" "ec_inv {} (with_flight st' (P @ (k, sl, ev, a + 1) # Q))"
  | "still' = still" "ec_inv {} (with_flight st' (P @ Q))"
proof -
  note n = flight_entry [OF inv]
  have b: "ec_inv {} (with_flight (bump c t) fl)" if "ec_inv {} (with_flight t fl)" for c t fl
    by (rule bookkeeping_inv [OF that]) (simp_all add: same_slots_def)
  have cu: "cuda st" using ec_invD(1) [OF inv] by simp
  consider (age) "ev \<notin> evdone st" "\<not> inflight_max_age st < a + 1"
    | (lost) "ev \<notin> evdone st" "inflight_max_age st < a + 1" | (landed) "ev \<in> evdone st" by blast
  then show ?thesis
  proof cases
    case age
    then have "st' = st" "still' = still @ [(k, sl, ev, a + 1)]" using s by (simp_all add: settle_def)
    with age_inv [OF inv] show ?thesis using that(1) by simp
  next
    case lost
    then have "st' = (bump Abandoned st)\<lparr>slot_of_key := (slot_of_key st)(k := None), key_of_slot := (key_of_slot st)[sl := -1],
            policy := evict_key k (policy st), free := free st @ [sl]\<rparr>" "still' = still"
      using s n(1) by (simp_all add: settle_def Let_def)
    moreover have "ec_inv {} (with_flight (bump Abandoned st) (P @ (k, sl, ev, a) # Q))" by (rule b [OF inv])
    from abandon_inv [OF this] have "ec_inv {} (with_flight ((bump Abandoned st)\<lparr>slot_of_key := (slot_of_key st)(k := None),
         key_of_slot := (key_of_slot st)[sl := -1], policy := evict_key k (policy st), free := free st @ [sl]\<rparr>) (P @ Q))"
      using R lost(1) by simp
    ultimately show ?thesis using that(2) by simp
  next
    case landed
    then have "st' = bump Promotions (st\<lparr>compute := compute st @ [CSet k (int sl)]\<rparr>)" "still' = still"
      using s n(1,2) cu by (simp_all add: settle_def write_table_def)
    with b [OF publish_inv [OF inv R landed]] show ?thesis using that(2) by simp
  qed
qed

lemma settle_lists:
  assumes "settle e (st, still) = (st', still')"
  shows "inflight st' = inflight st" "to_retract st' = to_retract st"
  using assms by (auto simp: settle_def write_table_def Let_def split: prod.splits if_splits)

text \<open>The order of the in-flight list does not matter.\<close>

lemma flight_perm:
  assumes inv: "ec_inv hk (with_flight st fl)" and p: "set fl' = set fl" "distinct (map fst fl')"
  shows "ec_inv hk (with_flight st fl')" (is "ec_inv _ ?t")
proof -
  note i = ec_invD [OF inv]
  let ?s = "with_flight st fl"
  have f: "flying ?t = flying ?s" by (simp add: flying_def p)
  have g: "visible ?t = visible ?s" "ftable ?t = ftable ?s" "guarded ?t = guarded ?s" "landing ?t = landing ?s"
    by (intro guarded_cong landing_cong; simp)+
  have 1: "slots_ok ?t" "kos_ok ?t" "pol_ok hk ?t" using i by (simp_all add: slots_ok_def kos_ok_def pol_ok_def)
  have 2: "flight_ok ?t" using i(6) unfolding flight_ok_def f by (simp add: p)
  have 3: "events_ok ?t" using i(7) by (simp add: events_ok_def p)
  have 4: "dev_ok ?t" using i(8) unfolding dev_ok_def f g by (simp add: p)
  show ?thesis using i(1,2) 1 2 3 4 by (simp add: ec_inv_def)
qed

end
