(* ===== verification/Expert_Cache_Run.thy ===== *)
theory Expert_Cache_Run
  imports Expert_Cache_Inv
begin

section \<open>The expert residency cache: its runs\<close>

text \<open>
  The step relation of the cache with its manager, its scheduler half and the two GPU streams.
  The scheduler's thread is a phase beside the shared state: \<open>apply_pending\<close> takes the two
  lists, fences the retractions, settles one entry after the other and gives back what it
  keeps, and between any two of these pieces the manager and the GPU may run.  The manager's
  pieces are one dequeued burst, one reference, one pending placement and one top up of the
  pool; that these compose to the turns of \<open>_run_loop\<close>, and the scheduler's pieces to
  \<open>apply_pending\<close>, is proved here.  A manager piece inside \<open>apply_pending\<close> must not retract a
  key whose entry \<open>apply_pending\<close> holds: \<open>Expert_Cache_Claims\<close> shows what happens otherwise.
\<close>

subsection \<open>Steps\<close>

datatype sched = Idle | Took "(nat \<times> nat) list" "entry list" | Settling "entry list" "entry list"

fun in_hand :: "sched \<Rightarrow> entry list" where
  "in_hand Idle = []"
| "in_hand (Took R fl) = fl"
| "in_hand (Settling fl still) = still @ fl"

fun unfenced :: "sched \<Rightarrow> (nat \<times> nat) list" where
  "unfenced (Took R fl) = R"
| "unfenced _ = []"

definition apart :: "sched \<Rightarrow> ec \<Rightarrow> bool" where
  "apart sc st = (fst ` set (in_hand sc) \<inter> fst ` set (to_retract st) = {})"

inductive man_step :: "ec \<Rightarrow> ec \<Rightarrow> bool" where
  dequeue: "refq st = r # rest \<Longrightarrow> man_step st (st\<lparr>refq := rest\<rparr>)"
| reference: "man_step st (observe_one k st)"
| counted: "man_step st (bump Manager_batches st)"
| placing: "pend st \<noteq> [] \<Longrightarrow> man_step st (service_pop st)"
| topping: "man_step st (top_up st)"

inductive ec_step :: "ec \<times> sched \<Rightarrow> ec \<times> sched \<Rightarrow> bool" where
  observe: "ec_step (st, Idle) (observe l ids st, Idle)"
| launch: "ec_step (st, Idle) (st\<lparr>compute := compute st @ [CLaunch]\<rparr>, Idle)"
| capture: "ec_step (st, Idle) (st\<lparr>capturing := b\<rparr>, Idle)"
| take: "cuda st \<Longrightarrow> apply_take st = (R, fl, st') \<Longrightarrow> ec_step (st, Idle) (st', Took R fl)"
| fence: "ec_step (st, Took R fl) (apply_retract R st, Settling fl [])"
| settle: "settle e (st, still) = (st', still') \<Longrightarrow> ec_step (st, Settling (e # fl) still) (st', Settling fl still')"
| keep: "ec_step (st, Settling [] still) (st\<lparr>inflight := inflight st @ still\<rparr>, Idle)"
| manager: "man_step st st' \<Longrightarrow> apart sc st' \<Longrightarrow> ec_step (st, sc) (st', sc)"
| kernel: "compute_step st = Some st' \<Longrightarrow> ec_step (st, sc) (st', sc)"
| copy: "copy_step st = Some st' \<Longrightarrow> ec_step (st, sc) (st', sc)"
| lost: "copy_lost st = Some st' \<Longrightarrow> ec_step (st, sc) (st', sc)"

inductive_cases ec_stepE: "ec_step (st, sc) c"

subsection \<open>The pieces make up the methods\<close>

lemma apart_Idle [simp]: "apart Idle st"
  by (simp add: apart_def)

lemma man_steps_idle: "man_step\<^sup>*\<^sup>* st st' \<Longrightarrow> ec_step\<^sup>*\<^sup>* (st, Idle) (st', Idle)"
proof (induction rule: rtranclp_induct)
  case (step y z)
  from rtranclp.rtrancl_into_rtrancl [OF step(3) ec_step.manager [OF step(2) apart_Idle]] show ?case .
qed simp

lemma observe_now_steps: "man_step\<^sup>*\<^sup>* st (observe_now l ids st)"
proof -
  have "man_step\<^sup>*\<^sup>* st (observe_keys b ids st)" for b
    by (induction ids arbitrary: st) (auto intro: man_step.reference converse_rtranclp_into_rtranclp)
  then show ?thesis by (simp add: observe_now_def)
qed

lemma service_steps: "man_step\<^sup>*\<^sup>* st (service st)"
proof -
  have "man_step\<^sup>*\<^sup>* st (service_loop st)"
  proof (induction st rule: service_loop.induct)
    case (1 st)
    show ?case
    proof (cases "can_place st")
      case True
      then have "pend st \<noteq> []" by (simp add: can_place_def)
      from converse_rtranclp_into_rtranclp [OF man_step.placing [OF this] 1 [OF True]] True
      show ?thesis by (subst service_loop.simps) simp
    qed (subst service_loop.simps, simp)
  qed
  then show ?thesis unfolding service_def by (rule rtranclp.rtrancl_into_rtrancl) (rule man_step.topping)
qed

lemma manager_batch_steps: "man_step\<^sup>*\<^sup>* st (manager_batch st)"
proof (cases "refq st")
  case (Cons r rest)
  have "man_step\<^sup>*\<^sup>* st (observe_now (fst r) (snd r) (st\<lparr>refq := rest\<rparr>))"
    by (rule converse_rtranclp_into_rtranclp [OF man_step.dequeue [OF Cons] observe_now_steps])
  then have "man_step\<^sup>*\<^sup>* st (bump Manager_batches (observe_now (fst r) (snd r) (st\<lparr>refq := rest\<rparr>)))"
    by (rule rtranclp.rtrancl_into_rtrancl) (rule man_step.counted)
  from rtranclp_trans [OF this service_steps] show ?thesis
    by (simp add: manager_batch_def run_batch_def Cons)
qed (simp add: manager_batch_def)

lemma manager_wake_steps: "man_step\<^sup>*\<^sup>* st (manager_wake st)"
proof -
  have "man_step\<^sup>*\<^sup>* st ((manager_batch ^^ n) st)" for n
    by (induction n) (auto intro: rtranclp_trans manager_batch_steps)
  from rtranclp_trans [OF this service_steps] show ?thesis by (simp add: manager_wake_def)
qed

lemma settle_all_steps:
  "settle_all fl (st, still) = (st', still') \<Longrightarrow>
   ec_step\<^sup>*\<^sup>* (st, Settling fl still) (st', Settling [] still')"
proof (induction fl arbitrary: st still)
  case (Cons e fl)
  obtain st1 still1 where e: "settle e (st, still) = (st1, still1)" by force
  from converse_rtranclp_into_rtranclp [OF ec_step.settle [OF e] Cons.IH] Cons.prems e
  show ?case by simp
qed simp

lemma finish_steps: "ec_step\<^sup>*\<^sup>* (st, Took R fl) (apply_finish R fl st, Idle)"
proof -
  obtain st' still where a: "settle_all fl (apply_retract R st, []) = (st', still)" by force
  have "ec_step\<^sup>*\<^sup>* (st, Took R fl) (st', Settling [] still)"
    by (rule converse_rtranclp_into_rtranclp [OF ec_step.fence settle_all_steps [OF a]])
  then have "ec_step\<^sup>*\<^sup>* (st, Took R fl) (st'\<lparr>inflight := inflight st' @ still\<rparr>, Idle)"
    by (rule rtranclp.rtrancl_into_rtrancl) (rule ec_step.keep)
  then show ?thesis by (simp add: apply_finish_def a)
qed

lemma apply_pending_steps: "ec_step\<^sup>*\<^sup>* (st, Idle) (apply_pending st, Idle)"
proof (cases "cuda st")
  case True
  obtain R fl st1 where t: "apply_take st = (R, fl, st1)" by (cases "apply_take st")
  from converse_rtranclp_into_rtranclp [OF ec_step.take [OF True t] finish_steps] True
  show ?thesis by (simp add: apply_pending_def t)
qed (simp add: apply_pending_def)

subsection \<open>Reachable configurations\<close>

fun register_all :: "(nat \<times> nat \<times> nat) list \<Rightarrow> ec \<Rightarrow> py_error + ec" where
  "register_all [] st = Inr st"
| "register_all ((l, gu, dn) # ls) st = bindR (register_layer l gu dn st) (register_all ls)"

inductive ec_reach :: "ec \<times> sched \<Rightarrow> bool" where
  boot: "ec_init kn ne budget eb True prot = Inr st \<Longrightarrow> register_all ls st = Inr st' \<Longrightarrow> ec_reach (start st', Idle)"
| step: "ec_reach c \<Longrightarrow> ec_step c c' \<Longrightarrow> ec_reach c'"

lemma reach_steps: "ec_reach c \<Longrightarrow> ec_step\<^sup>*\<^sup>* c c' \<Longrightarrow> ec_reach c'"
  by (rotate_tac, induction rule: rtranclp_induct) (auto intro: ec_reach.step)

definition fresh :: "ec \<Rightarrow> bool" where
  "fresh st = (cuda st \<and> free st = [0..<slots st] \<and> to_retract st = [] \<and> inflight st = [] \<and> compute st = []
     \<and> copyq st = [] \<and> dev_table st = (\<lambda>_. -1) \<and> evdone st = {} \<and> slot_of_key st = Map.empty
     \<and> key_of_slot st = replicate (slots st) (-1) \<and> slru_ok (policy st) \<and> s_cap (policy st) = slots st
     \<and> slru_keys (policy st) = {})"

lemma slru_init_ok: "slru_ok (slru_init n p)" "s_cap (slru_init n p) = n" "slru_keys (slru_init n p) = {}"
  by (simp_all add: slru_init_def slru_ok_def slru_len_def slru_keys_def)

lemma init_fresh:
  assumes "ec_init kn ne budget eb True prot = Inr st"
  shows "fresh st"
proof -
  from assms [symmetric] show ?thesis
    unfolding ec_init_def Let_def fresh_def
    by (simp only: slru_init_ok sum.inject sum.distinct ec.simps simp_thms split: if_split_asm)
qed

lemma register_fresh: "register_all ls st = Inr st' \<Longrightarrow> fresh st \<Longrightarrow> fresh st'"
proof (induction ls st rule: register_all.induct)
  case (2 l gu dn ls st)
  from 2(2) obtain st1 where r: "register_layer l gu dn st = Inr st1" "register_all ls st1 = Inr st'"
    by (auto elim: bindR_InrE)
  have "fresh st1" using r(1) 2(3) by (auto simp: register_layer_def new_table_def fun_eq_iff fresh_def split: if_splits)
  with 2(1) [OF _ this] r show ?case by simp
qed simp

lemma fresh_inv: "fresh st \<Longrightarrow> ec_inv {} (start st)"
  by (auto simp: fresh_def start_def ec_inv_defs flying_def visible_def guarded_def hidden_def)

lemma launch_inv:
  assumes inv: "ec_inv {} st"
  shows "ec_inv {} (st\<lparr>compute := compute st @ [CLaunch]\<rparr>)" (is "ec_inv {} ?t")
proof -
  note i = ec_invD [OF inv]
  have f: "flying ?t = flying st" by (simp add: flying_def)
  have v: "visible ?t = visible st" "ftable ?t = ftable st" by (auto simp: fun_eq_iff visible_def ftable_def)
  have h: "hidden ?t = hidden st" by (auto simp: fun_eq_iff hidden_def v)
  have g: "guarded ?t s W" if "guarded st s W" for s W
  proof -
    have "fence ?t s ev" if "fence st s ev" for ev
    proof -
      from that obtain A B where "ev \<notin> evdone st" "compute st = A @ CRecord ev # B" "CRecord ev \<notin> set A"
        "\<forall>k. exec_c A (dev_table st) k \<noteq> int s" "\<forall>k. CSet k (int s) \<notin> set B" by (auto simp: fence_def)
      then have "ev \<notin> evdone ?t \<and> compute ?t = A @ CRecord ev # (B @ [CLaunch]) \<and> CRecord ev \<notin> set A
        \<and> (\<forall>k. exec_c A (dev_table ?t) k \<noteq> int s) \<and> (\<forall>k. CSet k (int s) \<notin> set (B @ [CLaunch]))" by auto
      then show ?thesis unfolding fence_def by blast
    qed
    with that h show ?thesis by (auto simp: guarded_def)
  qed
  have l: "landing ?t = landing st"
    by (intro ext) (simp add: landing_def queued_def h)
  have 1: "slots_ok ?t" "kos_ok ?t" "pol_ok {} ?t" using i by (simp_all add: slots_ok_def kos_ok_def pol_ok_def)
  have 2: "flight_ok ?t" using i(6) unfolding flight_ok_def f by simp
  have 3: "events_ok ?t" using i(7) unfolding events_ok_def by auto
  have 4: "dev_ok ?t" using i(8) g unfolding dev_ok_def f v l by auto
  show ?thesis using i(1,2) 1 2 3 4 by (simp add: ec_inv_def)
qed

subsection \<open>Every step keeps the invariant\<close>

lemma man_inv:
  assumes "man_step st st'" "ec_inv {} (aside R out st)" "fst ` set out \<inter> fst ` set (to_retract st') = {}"
  shows "ec_inv {} (aside R out st')"
  using assms
proof (induction rule: man_step.induct)
  case (dequeue st r rest)
  from dequeue(2) show ?case by (rule bookkeeping_inv) (simp_all add: same_slots_def)
next
  case (counted st)
  from counted(1) show ?case by (rule bookkeeping_inv) (simp_all add: same_slots_def)
qed (simp_all add: observe_one_inv service_pop_inv top_up_inv)

lemma compute_aside:
  assumes "compute_step st = Some st'"
  shows "compute_step (aside R out st) = Some (aside R out st')" "to_retract st' = to_retract st"
proof -
  obtain c r where "compute st = c # r" using assms by (cases "compute st") (simp_all add: compute_step_def)
  then show "compute_step (aside R out st) = Some (aside R out st')" "to_retract st' = to_retract st"
    using assms by (cases c; auto simp: compute_step_def aside_def split: if_splits)+
qed

lemma job_ready_aside [simp]: "job_ready (aside R out st) j = job_ready st j"
  by (simp add: job_ready_def split: option.splits)

lemma copy_aside:
  assumes "copy_step st = Some st'"
  shows "copy_step (aside R out st) = Some (aside R out st')" "to_retract st' = to_retract st"
proof -
  obtain j r where q: "copyq st = j # r" "job_ready st j"
    using assms by (auto simp: copy_step_def split: list.splits if_splits)
  show "copy_step (aside R out st) = Some (aside R out st')" "to_retract st' = to_retract st"
    using assms q by (cases "jtodo j"; auto simp: copy_step_def; simp add: aside_def)+
qed

lemma lost_aside:
  assumes "copy_lost st = Some st'"
  shows "copy_lost (aside R out st) = Some (aside R out st')" "to_retract st' = to_retract st"
proof -
  obtain j r where "copyq st = j # r" "job_ready st j" "st' = st\<lparr>copyq := r\<rparr>"
    using assms by (auto simp: copy_lost_def split: list.splits if_splits)
  then show "copy_lost (aside R out st) = Some (aside R out st')" "to_retract st' = to_retract st"
    by (simp_all add: copy_lost_def) (simp add: aside_def)
qed

definition run_ok :: "ec \<times> sched \<Rightarrow> bool" where
  "run_ok c = (ec_inv {} (aside (unfenced (snd c)) (in_hand (snd c)) (fst c)) \<and> apart (snd c) (fst c))"

lemma aside_flight: "aside [] out st = with_flight st (out @ inflight st)"
  by (simp add: aside_def with_flight_def)

lemma fence_ok:
  assumes "run_ok (st, Took R fl)"
  shows "run_ok (apply_retract R st, Settling fl [])"
proof -
  have "ec_inv {} (apply_retract R ((aside R fl st)\<lparr>to_retract := to_retract st\<rparr>))"
    using assms by (intro apply_retract_inv) (simp_all add: run_ok_def)
  moreover have "apply_retract R ((aside R fl st)\<lparr>to_retract := to_retract st\<rparr>) = aside [] fl (apply_retract R st)"
    by (simp add: apply_retract_def aside_def Let_def)
  moreover have "to_retract (apply_retract R st) = to_retract st" by (simp add: apply_retract_def Let_def)
  ultimately show ?thesis using assms by (simp add: run_ok_def apart_def)
qed

lemma settle_ok:
  assumes ok: "run_ok (st, Settling (e # fl) still)" and s: "settle e (st, still) = (st', still')"
  shows "run_ok (st', Settling fl still')"
proof -
  obtain k sl ev a where e: "e = (k, sl, ev, a)" by (cases e)
  note l = settle_lists [OF s]
  have inv: "ec_inv {} (with_flight st (still @ (k, sl, ev, a) # (fl @ inflight st)))"
    and ap: "fst ` set (still @ e # fl) \<inter> fst ` set (to_retract st) = {}"
    using ok by (simp_all add: run_ok_def aside_flight e apart_def)
  have k: "k \<notin> fst ` set (to_retract st)" using ap e by auto
  from inv k s [unfolded e] show ?thesis
  proof (rule settle_inv)
    assume "still' = still @ [(k, sl, ev, a + 1)]" "ec_inv {} (with_flight st' (still @ (k, sl, ev, a + 1) # fl @ inflight st))"
    then show ?thesis using ap l e by (auto simp: run_ok_def aside_flight apart_def)
  next
    assume "still' = still" "ec_inv {} (with_flight st' (still @ fl @ inflight st))"
    then show ?thesis using ap l by (auto simp: run_ok_def aside_flight apart_def)
  qed
qed

lemma keep_ok:
  assumes "run_ok (st, Settling [] still)"
  shows "run_ok (st\<lparr>inflight := inflight st @ still\<rparr>, Idle)"
proof -
  have i: "ec_inv {} (with_flight st (still @ inflight st))"
    using assms by (simp add: run_ok_def aside_flight)
  have "distinct (map fst (still @ inflight st))" using ec_invD(6) [OF i] by (simp add: flight_ok_def)
  then have "ec_inv {} (with_flight st (inflight st @ still))"
    by (intro flight_perm [OF i]) auto
  then show ?thesis by (simp add: run_ok_def with_flight_def)
qed

lemma tick_take_ok:
  assumes "run_ok (st, Idle)" "apply_take st = (R, fl, st')"
  shows "run_ok (st', Took R fl)"
proof -
  have "aside R fl st' = bump Ticks st" "to_retract st' = []"
    using assms(2) by (auto simp: apply_take_def Let_def aside_def)
  moreover have "ec_inv {} (bump Ticks st)"
    using assms(1) by (simp add: run_ok_def bookkeeping_inv [OF _ bump_same])
  ultimately show ?thesis by (simp add: run_ok_def apart_def)
qed

lemma step_ok: "ec_step c c' \<Longrightarrow> run_ok c \<Longrightarrow> run_ok c'"
proof (induction rule: ec_step.induct)
  case (observe st l ids)
  then show ?case by (simp add: run_ok_def observe_inv)
next
  case (launch st)
  then show ?case by (simp add: run_ok_def launch_inv)
next
  case (capture st b)
  then have "ec_inv {} st" by (simp add: run_ok_def)
  then have "ec_inv {} (st\<lparr>capturing := b\<rparr>)" by (rule bookkeeping_inv) (simp_all add: same_slots_def)
  then show ?case by (simp add: run_ok_def)
next
  case (manager st st' sc)
  then show ?case using man_inv by (simp add: run_ok_def apart_def)
next
  case (kernel st st' sc)
  from kernel(2) have "ec_inv {} (aside (unfenced sc) (in_hand sc) st)" "apart sc st" by (simp_all add: run_ok_def)
  with compute_inv [OF _ compute_aside(1) [OF kernel(1)]] compute_aside(2) [OF kernel(1)] show ?case by (simp add: run_ok_def apart_def)
next
  case (copy st st' sc)
  from copy(2) have "ec_inv {} (aside (unfenced sc) (in_hand sc) st)" "apart sc st" by (simp_all add: run_ok_def)
  with copy_step_inv [OF _ copy_aside(1) [OF copy(1)]] copy_aside(2) [OF copy(1)] show ?case by (simp add: run_ok_def apart_def)
next
  case (lost st st' sc)
  from lost(2) have "ec_inv {} (aside (unfenced sc) (in_hand sc) st)" "apart sc st" by (simp_all add: run_ok_def)
  with copy_lost_inv [OF _ lost_aside(1) [OF lost(1)]] lost_aside(2) [OF lost(1)] show ?case by (simp add: run_ok_def apart_def)
qed (simp_all add: tick_take_ok fence_ok settle_ok keep_ok)

lemma reach_ok: "ec_reach c \<Longrightarrow> run_ok c"
proof (induction rule: ec_reach.induct)
  case (boot kn ne budget eb prot st ls st')
  from fresh_inv [OF register_fresh [OF boot(2) init_fresh [OF boot(1)]]] show ?case by (simp add: run_ok_def)
qed (rule step_ok)

end
