(* ===== verification/Expert_Cache_Claims.thy ===== *)
theory Expert_Cache_Claims
  imports Expert_Cache_Run
begin

section \<open>The expert residency cache: claims\<close>

text \<open>
  What holds in every configuration the step relation of \<open>Expert_Cache_Run\<close> reaches, and a
  run outside it, in which the manager retracts a key whose copy \<open>apply_pending\<close> holds.
\<close>

subsection \<open>In every reachable configuration\<close>

text \<open>C4.  The one invariant of the design.  In every configuration the cache can reach, with
  the manager and both streams between any two pieces of \<open>apply_pending\<close> and copies lost
  around captures, when the map installed for a launch says expert \<open>e\<close> of layer \<open>l\<close> is in slot
  \<open>s\<close>, row \<open>s\<close> of both planes holds that expert's bytes.  The condition on the manager is in the
  step relation: inside \<open>apply_pending\<close> it retracts no key whose in-flight entry is taken.\<close>

theorem slot_map_never_over_reports:
  assumes "ec_reach (st, sc)" "install l st = Some m" "m e = int s"
  shows "slab st p s = Some (l * num_experts st + e)"
proof -
  have v: "visible st (l * num_experts st + e) s"
    using assms(2,3) by (auto simp: install_def visible_def split: if_splits)
  have "dev_ok (aside (unfenced sc) (in_hand sc) st)"
    using reach_ok [OF assms(1)] by (simp add: run_ok_def ec_inv_def)
  then have "\<forall>k s. visible (aside (unfenced sc) (in_hand sc) st) k s \<longrightarrow>
      (\<forall>p. slab (aside (unfenced sc) (in_hand sc) st) p s = Some k)"
    unfolding dev_ok_def by blast
  with v show ?thesis by (auto simp: visible_def)
qed

text \<open>C7.  No slot leaks and none is given out twice: in every reachable configuration each slot
  is free, or waits for its retraction (queued, or taken by \<open>apply_pending\<close> and not yet fenced),
  or is claimed by exactly one key, the two maps between keys and slots are inverse, the policy
  holds exactly the claimed keys and at most as many as there are slots.  The step relation is
  that of the claim before, its condition on the manager included.\<close>

theorem expert_slots_conserved:
  assumes "ec_reach (st, sc)"
  defines "waiting \<equiv> unfenced sc @ to_retract st"
  shows "distinct (free st @ map snd waiting)
    \<and> (\<forall>s. s < slots st \<longleftrightarrow> s \<in> set (free st) \<union> snd ` set waiting \<or> (\<exists>k. slot_of_key st k = Some s))
    \<and> (\<forall>s \<in> set (free st) \<union> snd ` set waiting. key_of_slot st ! s = -1)
    \<and> (\<forall>k s. slot_of_key st k = Some s \<longrightarrow> key_of_slot st ! s = int k)
    \<and> (\<forall>k. slru_mem (policy st) k \<longleftrightarrow> slot_of_key st k \<noteq> None)
    \<and> slru_len (policy st) + length (free st) + length waiting = slots st"
proof -
  have "ec_inv {} (aside (unfenced sc) (in_hand sc) st)"
    using reach_ok [OF assms(1)] by (simp add: run_ok_def)
  note i = ec_invD [OF this]
  note s = i(3) [unfolded slots_ok_def]
  have own: "(s < slots st) = (s \<in> set (free st) \<union> snd ` set waiting \<or> (\<exists>k. slot_of_key st k = Some s))" for s
  proof -
    have "s < slots st \<longleftrightarrow> s \<in> ran (slot_of_key st) \<union> set (free st) \<union> snd ` set waiting"
      using s by (simp add: waiting_def)
    then show ?thesis by (auto simp: ran_def)
  qed
  have dist: "distinct (free st @ map snd waiting)" "\<And>s k. s \<in> set (free st) \<union> snd ` set waiting \<Longrightarrow> slot_of_key st k \<noteq> Some s"
    using s by (auto simp: waiting_def ran_def)
  have kos: "key_of_slot st ! s = -1" if "s \<in> set (free st) \<union> snd ` set waiting" for s
    using i(4) own [of s] dist(2) [OF that] that by (auto simp: kos_ok_def ran_def)
  have pol: "slru_ok (policy st)" "slru_keys (policy st) = dom (slot_of_key st)" using i(5) by (simp_all add: pol_ok_def)
  have len: "slru_len (policy st) + length (free st) + length waiting = slots st"
    using owned_card(2) [OF i(3)] slru_card [OF pol(1)] pol(2) by (simp add: waiting_def)
  show ?thesis
    using dist(1) own kos pol(2) len i(4) by (auto simp: kos_ok_def slru_keys_mem)
qed

subsection \<open>A concrete run\<close>

text \<open>\<open>flush n\<close> lets the streams run, at most \<open>n\<close> steps.\<close>

fun flush :: "nat \<Rightarrow> ec \<Rightarrow> ec" where
  "flush 0 st = st"
| "flush (Suc n) st = (case copy_step st of Some t \<Rightarrow> flush n t
     | None \<Rightarrow> (case compute_step st of Some t \<Rightarrow> flush n t | None \<Rightarrow> st))"

lemma reach_flush: "ec_reach (st, sc) \<Longrightarrow> ec_reach (flush n st, sc)"
  by (induction n arbitrary: st) (auto split: option.splits intro: ec_reach.step ec_step.intros)

text \<open>Twenty slots, four experts, one layer; knobs unset but for the low water mark and the age.\<close>

definition demo_knobs :: knobs where
  "demo_knobs = \<lparr>k_queue = None, k_low_water = Some 20, k_max_inflight = None, k_inflight_age = Some 4,
     k_admit_second = None, k_candidates = None, k_pending = None\<rparr>"

definition demo_boot :: ec where
  "demo_boot = (case bindR (ec_init demo_knobs 4 20 1 True 16) (register_all [(0, 4, 4)]) of Inr st \<Rightarrow> start st)"

lemma expert_boot_reach: "ec_reach (demo_boot, Idle)"
proof -
  obtain st where i: "ec_init demo_knobs 4 20 1 True 16 = Inr st"
    by (simp add: ec_init_def demo_knobs_def env_int_def)
  then have "num_experts st = 4" "layers st = []" by (auto simp: ec_init_def demo_knobs_def env_int_def)
  then obtain st' where r: "register_all [(0, 4, 4)] st = Inr st'" by (simp add: register_layer_def)
  have "demo_boot = start st'" unfolding demo_boot_def i by (simp add: r del: register_all.simps)
  then show ?thesis using ec_reach.boot [OF i r] by simp
qed

text \<open>\<open>apply_pending\<close> with \<open>f\<close> done by the manager between taking the two lists and working on
  them.\<close>

definition tick_tail :: "(ec \<Rightarrow> ec) \<Rightarrow> (nat \<times> nat) list \<times> entry list \<times> ec \<Rightarrow> ec" where
  "tick_tail f t = apply_finish (fst t) (fst (snd t)) (f (snd (snd t)))"

definition tick_with :: "(ec \<Rightarrow> ec) \<Rightarrow> ec \<Rightarrow> ec" where
  "tick_with f st = tick_tail f (apply_take st)"

lemma tick_with_reach:
  assumes "ec_reach (st, Idle)" "cuda st" "\<And>t. man_step t (f t)" "to_retract (f (snd (snd (apply_take st)))) = []"
  shows "ec_reach (tick_with f st, Idle)"
proof -
  obtain R fl st1 where t: "apply_take st = (R, fl, st1)" by (cases "apply_take st")
  have "ec_reach (st1, Took R fl)" by (rule ec_reach.step [OF assms(1) ec_step.take [OF assms(2) t]])
  moreover have "ec_step (st1, Took R fl) (f st1, Took R fl)"
    by (rule ec_step.manager [OF assms(3)]) (use assms(4) t in \<open>simp add: apart_def\<close>)
  ultimately have "ec_reach (f st1, Took R fl)" by (rule ec_reach.step)
  from reach_steps [OF this finish_steps] show ?thesis by (simp add: tick_with_def tick_tail_def t)
qed

text \<open>Expert 1 is referenced twice, promoted, its copy lands; in the tick that publishes it the
  manager looks at a reference to expert 2.\<close>

definition demo_landed :: ec where
  "demo_landed = flush (Suc (Suc (Suc (Suc 0)))) (manager_batch (manager_batch (observe 0 [1] (observe 0 [1] demo_boot))))"

definition demo_published :: ec where
  "demo_published = flush (Suc (Suc (Suc (Suc 0)))) (tick_with (observe_one 2) demo_landed)"

lemma demo_landed_reach: "ec_reach (demo_landed, Idle)"
  unfolding demo_landed_def
  by (intro reach_flush reach_steps [OF _ man_steps_idle [OF manager_batch_steps]]
     ec_reach.step [OF _ ec_step.observe] expert_boot_reach)

lemma demo_landed_facts: "cuda demo_landed" "to_retract (observe_one 2 (snd (snd (apply_take demo_landed)))) = []"
  by (simp_all add: demo_landed_def demo_boot_def demo_knobs_def ec_eval)

lemma demo_published_reach: "ec_reach (demo_published, Idle)"
  unfolding demo_published_def
  by (intro reach_flush tick_with_reach demo_landed_reach demo_landed_facts man_step.reference)

lemma demo_published_slot: "dev_table demo_published 1 = 19 \<and> 0 \<in> set (layers demo_published) \<and> num_experts demo_published = 4"
  by (simp add: demo_published_def demo_landed_def tick_with_def tick_tail_def demo_boot_def demo_knobs_def ec_eval)

theorem slot_map_never_over_reports_witness:
  "slab demo_published Gate_Up 19 = Some 1 \<and> slab demo_published Down 19 = Some 1"
  using slot_map_never_over_reports [OF demo_published_reach, of 0 "\<lambda>e. dev_table demo_published (0 * num_experts demo_published + e)" 1 19]
    demo_published_slot by (simp add: install_def)

theorem expert_slots_conserved_witness:
  "slru_len (policy demo_published) + length (free demo_published) + length (to_retract demo_published) = slots demo_published"
  using expert_slots_conserved [OF demo_published_reach] by (simp only: unfenced.simps append_Nil)

subsection \<open>Outside the condition\<close>

text \<open>The condition on the manager is needed.  While \<open>apply_pending\<close> holds the in-flight list,
  \<open>_reclaim\<close> sees no copy in flight; if it retracts the key of an ageing one, the abandonment
  frees the slot although its retraction frees it too.  Below a turn of \<open>_service\<close> does that:
  slot 19 is in the free list twice, and two experts referenced later are both published in it.
  The map sends expert 1 to the bytes of expert 3.\<close>

definition refer_twice :: "nat \<Rightarrow> ec \<Rightarrow> ec" where
  "refer_twice e st = manager_batch (manager_batch (observe 0 [e] (observe 0 [e] st)))"

definition flush8 :: "ec \<Rightarrow> ec" where
  "flush8 st = flush (Suc (Suc (Suc (Suc (Suc (Suc (Suc (Suc 0)))))))) st"

definition race_run :: ec where
  "race_run = apply_pending (tick_with service (apply_pending (apply_pending (apply_pending (apply_pending
       (refer_twice 0 demo_boot))))))"

definition race_over :: ec where
  "race_over = flush8 (apply_pending (flush8 (flush8 (refer_twice 3 (refer_twice 1 race_run)))))"

lemmas demo_eval = refer_twice_def tick_with_def tick_tail_def demo_boot_def demo_knobs_def ec_eval

lemma abandoned_copy_double_free:
  "free race_run = [0..<19] @ [19, 19]
   \<and> dev_table race_over 1 = 19 \<and> dev_table race_over 3 = 19 \<and> slab race_over Down 19 = Some 3"
proof -
  have b: "butlast [0..<20] = [0..<19]" "butlast [0..<19] = [0..<18]" by (simp_all add: upt_conv_Cons)
  show ?thesis by (simp add: race_over_def race_run_def demo_eval flush8_def b butlast_append)
qed
end
