(* ===== verification/Reasoning_Parser.thy ===== *)
theory Reasoning_Parser
  imports Prelude
begin

section \<open>The reasoning splitter\<close>

text \<open>
  \<open>python/minisgl/server/reasoning.py\<close>: the matcher of the closing delimiter
  (\<open>_EndMatcher\<close>, literal or with a wildcard recipient), the splitter of a complete reply
  (\<open>ReasoningParser\<close>) and the incremental one (\<open>ReasoningStreamState\<close>).  A Python string is
  the list of its code points; an optional chunk is an \<open>option\<close>.  The delimiters themselves
  come from the tokenizer's chat template and are parameters.
\<close>

subsection \<open>Python strings\<close>

type_synonym pystr = "nat list"

definition str :: "string \<Rightarrow> pystr" where
  "str s = map of_char s"

definition nl :: nat where
  "nl = 10"

definition py_space :: "nat \<Rightarrow> bool" where
  "py_space c = ((9 \<le> c \<and> c \<le> 13) \<or> (28 \<le> c \<and> c \<le> 32) \<or> c = 133 \<or> c = 160 \<or> c = 5760
     \<or> (8192 \<le> c \<and> c \<le> 8202) \<or> c = 8232 \<or> c = 8233 \<or> c = 8239 \<or> c = 8287 \<or> c = 12288)"

definition lstrip :: "pystr \<Rightarrow> pystr" where
  "lstrip = dropWhile py_space"

definition rstrip :: "pystr \<Rightarrow> pystr" where
  "rstrip s = rev (dropWhile py_space (rev s))"

definition strip :: "pystr \<Rightarrow> pystr" where
  "strip s = rstrip (lstrip s)"

definition lstrip_nl :: "pystr \<Rightarrow> pystr" where
  "lstrip_nl = dropWhile (\<lambda>c. c = nl)"

text \<open>\<open>text.find(tok)\<close>, \<open>text.find(tok, start)\<close> and \<open>text.rfind(tok)\<close>.\<close>

fun sfind :: "pystr \<Rightarrow> pystr \<Rightarrow> nat option" where
  "sfind t [] = (if t = [] then Some 0 else None)"
| "sfind t (x # xs) = (if prefix t (x # xs) then Some 0 else map_option Suc (sfind t xs))"

definition sfind_at :: "pystr \<Rightarrow> pystr \<Rightarrow> nat \<Rightarrow> nat option" where
  "sfind_at t text start = (if length text < start then None else map_option ((+) start) (sfind t (drop start text)))"

fun srfind :: "pystr \<Rightarrow> pystr \<Rightarrow> nat option" where
  "srfind t [] = (if t = [] then Some 0 else None)"
| "srfind t (x # xs) = (case srfind t xs of Some i \<Rightarrow> Some (Suc i)
     | None \<Rightarrow> (if prefix t (x # xs) then Some 0 else None))"

lemma sfind_bound: "sfind t xs = Some i \<Longrightarrow> i + length t \<le> length xs"
  by (induction xs arbitrary: i) (auto split: if_splits dest: prefix_length_le)

lemma sfind_prefix: "sfind t xs = Some i \<Longrightarrow> prefix t (drop i xs)"
  by (induction xs arbitrary: i) (auto split: if_splits)

lemma sfind_at_bound: "sfind_at t xs a = Some i \<Longrightarrow> a \<le> i \<and> i + length t \<le> length xs"
  using sfind_bound [of t "drop a xs"] by (auto simp: sfind_at_def split: if_splits)

subsection \<open>The closing delimiter\<close>

record end_matcher =
  em_token :: pystr
  em_prefix :: pystr
  em_suffix :: pystr

definition MAX_GAP :: nat where
  "MAX_GAP = 128"

definition wild :: "end_matcher \<Rightarrow> bool" where
  "wild m = (em_prefix m \<noteq> [] \<and> em_suffix m \<noteq> [])"

function wild_find :: "end_matcher \<Rightarrow> pystr \<Rightarrow> nat \<Rightarrow> (nat \<times> nat) option" where
  "wild_find m text i =
     (case sfind_at (em_prefix m) text i of
        None \<Rightarrow> None
      | Some p \<Rightarrow>
          (case sfind_at (em_suffix m) text (p + length (em_prefix m)) of
             None \<Rightarrow> wild_find m text (p + 1)
           | Some s \<Rightarrow> if s - (p + length (em_prefix m)) \<le> MAX_GAP then Some (p, s + length (em_suffix m))
                       else wild_find m text (p + 1)))"
  by pat_completeness auto
termination
  by (relation "measure (\<lambda>(m, text, i). Suc (length text) - i)") (auto dest: sfind_at_bound)

declare wild_find.simps [simp del]

definition em_find :: "end_matcher \<Rightarrow> pystr \<Rightarrow> nat \<Rightarrow> (nat \<times> nat) option" where
  "em_find m text start =
     (if \<not> wild m then
        (if em_token m = [] then None
         else map_option (\<lambda>i. (i, i + length (em_token m))) (sfind_at (em_token m) text start))
      else wild_find m text start)"

lemma wild_find_bound:
  "wild_find m w i = Some (b, e) \<Longrightarrow> i \<le> b \<and> b + length (em_prefix m) + length (em_suffix m) \<le> e \<and> e \<le> length w"
proof (induction m w i rule: wild_find.induct)
  case (1 m w i)
  from 1(3) obtain p where p: "sfind_at (em_prefix m) w i = Some p"
    by (subst (asm) wild_find.simps) (auto split: option.splits)
  note pb = sfind_at_bound [OF p]
  show ?case
  proof (cases "sfind_at (em_suffix m) w (p + length (em_prefix m))")
    case None
    with 1(3) p have "wild_find m w (p + 1) = Some (b, e)"
      by (subst (asm) wild_find.simps) simp
    from 1(1) [OF p None this] pb show ?thesis by simp
  next
    case (Some s)
    show ?thesis
    proof (cases "s - (p + length (em_prefix m)) \<le> MAX_GAP")
      case True
      with 1(3) p Some have "b = p" "e = s + length (em_suffix m)"
        by (subst (asm) wild_find.simps, simp)+
      with pb sfind_at_bound [OF Some] show ?thesis by auto
    next
      case False
      with 1(3) p Some have "wild_find m w (p + 1) = Some (b, e)"
        by (subst (asm) wild_find.simps) simp
      from 1(2) [OF p Some False this] pb show ?thesis by simp
    qed
  qed
qed

lemma em_find_bound: "em_find m w i = Some (b, e) \<Longrightarrow> i \<le> b \<and> b < e \<and> e \<le> length w"
  using wild_find_bound [of m w i b e] length_greater_0_conv [of "em_prefix m"]
  by (auto simp del: length_greater_0_conv simp: em_find_def wild_def split: if_splits dest: sfind_at_bound)

function em_rfind_from :: "end_matcher \<Rightarrow> pystr \<Rightarrow> nat \<Rightarrow> (nat \<times> nat) option \<Rightarrow> (nat \<times> nat) option" where
  "em_rfind_from m text i found =
     (case em_find m text i of None \<Rightarrow> found
      | Some be \<Rightarrow> em_rfind_from m text (fst be + 1) (Some be))"
  by pat_completeness auto
termination
  by (relation "measure (\<lambda>(m, text, i, found). Suc (length text) - i)") (auto dest: em_find_bound)

declare em_rfind_from.simps [simp del]

definition em_rfind :: "end_matcher \<Rightarrow> pystr \<Rightarrow> (nat \<times> nat) option" where
  "em_rfind m text = em_rfind_from m text 0 None"

text \<open>\<open>_end_overlap_len\<close>: the longest suffix of the text that is a proper prefix of a delimiter.\<close>

fun overlap_from :: "pystr \<Rightarrow> pystr \<Rightarrow> nat \<Rightarrow> nat" where
  "overlap_from text token 0 = 0"
| "overlap_from text token (Suc k) = (if suffix (take (Suc k) token) text then Suc k else overlap_from text token k)"

definition overlap1 :: "pystr \<Rightarrow> pystr \<Rightarrow> nat" where
  "overlap1 text token = overlap_from text token (min (length text) (length token - 1))"

definition end_overlap_len :: "pystr \<Rightarrow> pystr list \<Rightarrow> nat" where
  "end_overlap_len text tokens = foldl (\<lambda>best token. if token = [] then best else max best (overlap1 text token)) 0 tokens"

definition em_hold :: "end_matcher \<Rightarrow> pystr \<Rightarrow> nat" where
  "em_hold m text =
     (if \<not> wild m then end_overlap_len text [em_token m]
      else (case srfind (em_prefix m) text of
              Some p \<Rightarrow>
                if em_find m text p = None \<and> length text - p \<le> length (em_prefix m) + MAX_GAP + length (em_suffix m)
                then length text - p else end_overlap_len text [em_prefix m]
            | None \<Rightarrow> end_overlap_len text [em_prefix m]))"

subsection \<open>A complete reply\<close>

record parser =
  start_token :: pystr
  end_tok :: end_matcher
  turn_header :: pystr
  tool_openers :: "pystr list"

definition strip_turn_header :: "parser \<Rightarrow> pystr \<Rightarrow> pystr" where
  "strip_turn_header p text =
     (if turn_header p = [] \<or> prefix (start_token p) text then text
      else if prefix (turn_header p) text then drop (length (turn_header p)) text
      else text)"

definition pos :: "nat option \<Rightarrow> int" where
  "pos r = (case r of None \<Rightarrow> -1 | Some i \<Rightarrow> int i)"

definition prompt_state :: "parser \<Rightarrow> pystr \<Rightarrow> bool \<times> bool" where
  "prompt_state p prompt =
     (let open_at = (if start_token p \<noteq> [] then pos (srfind (start_token p) prompt) else -1);
          close_at = pos (map_option fst (em_rfind (end_tok p) prompt))
      in (close_at < open_at, close_at \<le> open_at))"

definition opens_span :: "parser \<Rightarrow> pystr \<Rightarrow> bool" where
  "opens_span p text = (start_token p \<noteq> [] \<and> prefix (lstrip (start_token p)) (lstrip text))"

text \<open>\<open>pre.split(start_token, 1)[-1]\<close> where the token occurs.\<close>

definition after_first :: "pystr \<Rightarrow> pystr \<Rightarrow> pystr" where
  "after_first t s = (if t = [] then s else case sfind t s of None \<Rightarrow> s | Some i \<Rightarrow> drop (i + length t) s)"

definition or_none :: "pystr \<Rightarrow> pystr option" where
  "or_none s = (if s = [] then None else Some s)"

text \<open>The leftmost of several openers, the first of the list on a tie.\<close>

fun first_opener :: "pystr \<Rightarrow> pystr list \<Rightarrow> nat option \<Rightarrow> nat option" where
  "first_opener s [] best = best"
| "first_opener s (t # ts) best =
     first_opener s ts (case sfind t s of None \<Rightarrow> best
       | Some j \<Rightarrow> (case best of None \<Rightarrow> Some j | Some b \<Rightarrow> if j < b then Some j else best))"

definition parse_unclosed :: "parser \<Rightarrow> pystr \<Rightarrow> pystr list \<Rightarrow> pystr option \<times> pystr" where
  "parse_unclosed p text openers =
     (let pre = after_first (start_token p) text
      in case first_opener pre openers None of
           Some i \<Rightarrow> (or_none (strip (take i pre)), lstrip_nl (drop i pre))
         | None \<Rightarrow> (or_none (strip pre), []))"

definition parse_closed :: "parser \<Rightarrow> pystr \<Rightarrow> nat \<Rightarrow> nat \<Rightarrow> pystr option \<times> pystr" where
  "parse_closed p text b e =
     (let reasoning = strip (after_first (start_token p) (take b text));
          content = lstrip_nl (drop e text)
      in case (if start_token p = [] then None else sfind (start_token p) content) of
           None \<Rightarrow> (or_none reasoning, content)
         | Some i \<Rightarrow>
             (let tail = strip (drop (i + length (start_token p)) content);
                  reasoning' = (if tail = [] then reasoning
                                else if reasoning = [] then tail else reasoning @ [nl] @ tail)
              in (or_none reasoning', rstrip (take i content))))"

definition parse :: "parser \<Rightarrow> pystr \<Rightarrow> bool \<Rightarrow> pystr list option \<Rightarrow> pystr option \<times> pystr" where
  "parse p text0 thinking_open openers =
     (if text0 = [] then (None, text0)
      else (let text = strip_turn_header p text0
            in case em_rfind (end_tok p) text of
                 None \<Rightarrow> if \<not> thinking_open \<and> \<not> opens_span p text then (None, text)
                         else parse_unclosed p text (case openers of None \<Rightarrow> tool_openers p | Some os \<Rightarrow> os)
               | Some be \<Rightarrow> parse_closed p text (fst be) (snd be)))"

subsection \<open>The incremental splitter\<close>

record stream =
  st_start :: pystr
  st_end :: end_matcher
  st_header :: pystr
  st_openers :: "pystr list"
  st_active :: bool
  st_pending :: pystr
  content_started :: bool
  reasoning_started :: bool
  closed_once :: bool
  probing :: bool
  probe :: pystr

definition stream_state :: "parser \<Rightarrow> bool \<Rightarrow> pystr list option \<Rightarrow> stream" where
  "stream_state p act openers =
     \<lparr>st_start = start_token p, st_end = end_tok p, st_header = turn_header p,
      st_openers = (case openers of None \<Rightarrow> tool_openers p | Some os \<Rightarrow> os),
      st_active = act, st_pending = [], content_started = False, reasoning_started = False,
      closed_once = False, probing = (start_token p \<noteq> [] \<or> turn_header p \<noteq> []), probe = []\<rparr>"

definition emit_content :: "pystr \<Rightarrow> stream \<Rightarrow> pystr option \<times> stream" where
  "emit_content w st =
     (if content_started st then (or_none w, st)
      else if lstrip_nl w = [] then (None, st)
      else (Some (lstrip_nl w), st\<lparr>content_started := True\<rparr>))"

definition emit_reasoning :: "pystr \<Rightarrow> stream \<Rightarrow> pystr option \<times> stream" where
  "emit_reasoning w st =
     (if reasoning_started st then (or_none w, st)
      else if lstrip_nl w = [] then (None, st)
      else (Some (lstrip_nl w), st\<lparr>reasoning_started := True\<rparr>))"

definition opt_str :: "pystr option \<Rightarrow> pystr" where
  "opt_str r = (case r of None \<Rightarrow> [] | Some s \<Rightarrow> s)"

text \<open>\<open>((a or "") + (b or "")) or None\<close>.\<close>

definition opt_cat :: "pystr option \<Rightarrow> pystr option \<Rightarrow> pystr option" where
  "opt_cat a b = or_none (opt_str a @ opt_str b)"

text \<open>\<open>text[:-keep]\<close> and \<open>text[-keep:]\<close> for a positive \<open>keep\<close>.\<close>

definition keep_head :: "nat \<Rightarrow> pystr \<Rightarrow> pystr" where
  "keep_head k w = take (length w - k) w"

definition keep_tail :: "nat \<Rightarrow> pystr \<Rightarrow> pystr" where
  "keep_tail k w = drop (length w - k) w"

text \<open>
  \<open>_push_inactive\<close> and \<open>_push_active\<close> call each other on what follows a delimiter.
  \<open>inactive_loop\<close> is the loop of the first with its list of pieces, \<open>active_run\<close> the second;
  both take the pending text already joined to the new chunk.
\<close>

definition inactive_hold :: "stream \<Rightarrow> pystr \<Rightarrow> pystr \<Rightarrow> stream \<times> pystr option \<times> pystr option" where
  "inactive_hold st out w =
     (let keep = max (end_overlap_len w [st_start st]) (em_hold (st_end st) w);
          (c, st') = emit_content (out @ keep_head keep w) (st\<lparr>st_pending := keep_tail keep w\<rparr>)
      in (st', None, c))"

definition active_hold :: "stream \<Rightarrow> pystr \<Rightarrow> stream \<times> pystr option \<times> pystr option" where
  "active_hold st w =
     (let keep = max (em_hold (st_end st) w) (end_overlap_len w (st_openers st));
          (r, st') = emit_reasoning (keep_head keep w) (st\<lparr>st_pending := keep_tail keep w\<rparr>)
      in (st', r, None))"

text \<open>Where the next delimiter is: an opener at a position, a closer, or none.\<close>

datatype seen = Opener nat | Closer nat nat | Nothing

definition inactive_seen :: "stream \<Rightarrow> pystr \<Rightarrow> seen" where
  "inactive_seen st w =
     (let i_open = (if st_start st \<noteq> [] then sfind (st_start st) w else None);
          m_close = (if closed_once st then em_find (st_end st) w 0 else None)
      in case (i_open, m_close) of
           (Some i, None) \<Rightarrow> Opener i
         | (Some i, Some be) \<Rightarrow> if i < fst be then Opener i else Closer (fst be) (snd be)
         | (None, Some be) \<Rightarrow> Closer (fst be) (snd be)
         | (None, None) \<Rightarrow> Nothing)"

definition active_seen :: "stream \<Rightarrow> pystr \<Rightarrow> seen" where
  "active_seen st w =
     (case (first_opener w (st_openers st) None, em_find (st_end st) w 0) of
        (Some i, None) \<Rightarrow> Opener i
      | (Some i, Some be) \<Rightarrow> if i < fst be then Opener i else Closer (fst be) (snd be)
      | (None, Some be) \<Rightarrow> Closer (fst be) (snd be)
      | (None, None) \<Rightarrow> Nothing)"

definition close_span :: "pystr \<Rightarrow> stream \<Rightarrow> pystr option \<times> stream" where
  "close_span w st = (let (r, st') = emit_reasoning w st
     in (r, st'\<lparr>st_active := False, closed_once := True, st_pending := []\<rparr>))"

definition open_span :: "pystr \<Rightarrow> stream \<Rightarrow> pystr option \<times> stream" where
  "open_span w st = emit_content w (st\<lparr>st_active := True\<rparr>)"

lemma inactive_seen_props:
  "inactive_seen st w = Opener i \<Longrightarrow> st_start st \<noteq> [] \<and> i + length (st_start st) \<le> length w"
  "inactive_seen st w = Closer b e \<Longrightarrow> b < e \<and> e \<le> length w"
  by (auto simp: inactive_seen_def Let_def split: option.splits if_splits
      dest: sfind_bound em_find_bound)

lemma inactive_opener_shorter:
  assumes "inactive_seen st w = Opener i"
  shows "length w - (i + length (st_start st)) < length w"
proof -
  have "0 < length (st_start st)" "i + length (st_start st) \<le> length w"
    using inactive_seen_props(1) [OF assms] by auto
  then show ?thesis by linarith
qed

lemma active_seen_props:
  "active_seen st w = Closer b e \<Longrightarrow> b < e \<and> e \<le> length w"
  by (auto simp: active_seen_def split: option.splits if_splits dest: em_find_bound)

lemma emit_start [simp]:
  "st_start (snd (emit_content w st)) = st_start st" "st_start (snd (emit_reasoning w st)) = st_start st"
  by (simp_all add: emit_content_def emit_reasoning_def)

function inactive_loop :: "stream \<Rightarrow> pystr \<Rightarrow> pystr \<Rightarrow> stream \<times> pystr option \<times> pystr option"
  and active_run :: "stream \<Rightarrow> pystr \<Rightarrow> stream \<times> pystr option \<times> pystr option" where
  "inactive_loop st out w =
     (case inactive_seen st w of
        Opener i \<Rightarrow>
          (case open_span (out @ take i w) st of (content, st1) \<Rightarrow>
           case active_run st1 (drop (i + length (st_start st)) w) of (st2, reasoning, rest) \<Rightarrow>
             (st2, reasoning, opt_cat content rest))
      | Closer b e \<Rightarrow> inactive_loop st (out @ take b w) (drop e w)
      | Nothing \<Rightarrow> inactive_hold st out w)"
| "active_run st w =
     (case active_seen st w of
        Opener i \<Rightarrow>
          (case close_span (take i w) st of (reasoning, st1) \<Rightarrow>
           case inactive_loop st1 [] (drop i w) of (st2, r, content) \<Rightarrow> (st2, opt_cat reasoning r, content))
      | Closer b e \<Rightarrow>
          (case close_span (take b w) st of (reasoning, st1) \<Rightarrow>
           case inactive_loop st1 [] (drop e w) of (st2, r, content) \<Rightarrow> (st2, opt_cat reasoning r, content))
      | Nothing \<Rightarrow> active_hold st w)"
  by pat_completeness auto

text \<open>Each call works on a shorter text, or leaves the span at a tool opener on the same text.\<close>

termination
proof (relation "measures [\<lambda>x. case x of Inl (st, out, w) \<Rightarrow> length w | Inr (st, w) \<Rightarrow> length w,
                           \<lambda>x. case x of Inl _ \<Rightarrow> 0 | Inr _ \<Rightarrow> 1]")
qed (auto dest: inactive_opener_shorter inactive_seen_props(2) active_seen_props)

declare inactive_loop.simps [simp del] active_run.simps [simp del]

definition push_inactive :: "pystr \<Rightarrow> stream \<Rightarrow> stream \<times> pystr option \<times> pystr option" where
  "push_inactive delta st = inactive_loop (st\<lparr>st_pending := []\<rparr>) [] (st_pending st @ delta)"

definition push_active :: "pystr \<Rightarrow> stream \<Rightarrow> stream \<times> pystr option \<times> pystr option" where
  "push_active delta st = active_run st (st_pending st @ delta)"

definition push_on :: "pystr \<Rightarrow> stream \<Rightarrow> stream \<times> pystr option \<times> pystr option" where
  "push_on delta st = (if st_active st then push_active delta st else push_inactive delta st)"

definition push :: "pystr \<Rightarrow> stream \<Rightarrow> stream \<times> pystr option \<times> pystr option" where
  "push delta st0 =
     (if \<not> probing st0 then push_on delta st0
      else (let st = st0\<lparr>probe := probe st0 @ delta\<rparr>; head = lstrip_nl (probe st)
        in if st_start st \<noteq> [] \<and> prefix (st_start st) head
           then push_active (drop (length (st_start st)) head) (st\<lparr>probing := False, st_active := True, probe := []\<rparr>)
           else if st_header st \<noteq> [] \<and> prefix (st_header st) head
           then push_on (drop (length (st_header st)) head) (st\<lparr>probing := False, probe := []\<rparr>)
           else if head \<noteq> [] \<and> ((st_start st \<noteq> [] \<and> prefix head (st_start st)) \<or> (st_header st \<noteq> [] \<and> prefix head (st_header st)))
           then (st, None, None)
           else if head = [] then (st, None, None)
           else (let st' = st\<lparr>probing := False, probe := []\<rparr>
                 in if st_active st then push_active (probe st) st'
                    else (let (c, st'') = emit_content (probe st) st' in (st'', None, c)))))"

definition flush_probe :: "stream \<Rightarrow> stream \<times> pystr option \<times> pystr option" where
  "flush_probe st = (if probe st = [] then (st, None, None)
     else push_on (probe st) (st\<lparr>probing := False, probe := []\<rparr>))"

definition flush_pending :: "stream \<times> pystr option \<times> pystr option \<Rightarrow> stream \<times> pystr option \<times> pystr option" where
  "flush_pending x =
     (case x of (st, reasoning, content) \<Rightarrow>
        if st_pending st = [] then x
        else if st_active st
        then (let (r, st') = emit_reasoning (st_pending st) (st\<lparr>st_pending := []\<rparr>) in (st', opt_cat reasoning r, content))
        else (let (c, st') = emit_content (st_pending st) (st\<lparr>st_pending := []\<rparr>) in (st', reasoning, opt_cat content c)))"

definition finish :: "stream \<Rightarrow> stream \<times> pystr option \<times> pystr option" where
  "finish st = (case flush_pending (flush_probe st) of (st', r, c) \<Rightarrow> (st'\<lparr>probing := False\<rparr>, r, c))"

end
