(* ===== verification/Tool_Stream.thy ===== *)
theory Tool_Stream
  imports Reasoning_Parser
begin

section \<open>The tool call splitter\<close>

text \<open>
  \<open>python/minisgl/server/api_server.py\<close>: the table of tool call wrappers, the scanner that
  streams the arguments of a JSON call as they arrive (\<open>_JsonArgStreamer\<close>) and the splitter of the
  content lane (\<open>ToolCallStreamState\<close>).  The parser of one complete block
  (\<open>_parse_one_tool_call\<close>), \<open>json.dumps\<close> and the environment switches are parameters, the
  fields of \<open>tool_env\<close>.
\<close>

subsection \<open>The wrappers\<close>

datatype wrapper = Gemma_call | Tool_call | Zyphra_call | Atem_calls | Tools | Function_tag

fun opener_of :: "wrapper \<Rightarrow> pystr" where
  "opener_of Gemma_call = str ''<|tool_call>''"
| "opener_of Tool_call = str ''<tool_call>''"
| "opener_of Zyphra_call = str ''<zyphra_tool_call>''"
| "opener_of Atem_calls = str ''<atem:function_calls>''"
| "opener_of Tools = str ''<tools>''"
| "opener_of Function_tag = str ''<function=''"

fun closer_of :: "wrapper \<Rightarrow> pystr" where
  "closer_of Gemma_call = str ''<tool_call|>''"
| "closer_of Tool_call = str ''</tool_call>''"
| "closer_of Zyphra_call = str ''</zyphra_tool_call>''"
| "closer_of Atem_calls = str ''</atem:function_calls>''"
| "closer_of Tools = str ''</tools>''"
| "closer_of Function_tag = str ''</function>''"

definition TOOL_OPENERS :: "wrapper list" where
  "TOOL_OPENERS = [Gemma_call, Tool_call, Zyphra_call, Atem_calls, Tools, Function_tag]"

text \<open>\<open>_earliest_opener\<close> and \<open>_opener_partial_len\<close>.\<close>

fun earliest :: "pystr \<Rightarrow> wrapper list \<Rightarrow> (nat \<times> wrapper) option \<Rightarrow> (nat \<times> wrapper) option" where
  "earliest w [] best = best"
| "earliest w (t # ts) best =
     earliest w ts (case sfind (opener_of t) w of None \<Rightarrow> best
       | Some j \<Rightarrow> (case best of None \<Rightarrow> Some (j, t) | Some (i, _) \<Rightarrow> if j < i then Some (j, t) else best))"

definition earliest_opener :: "pystr \<Rightarrow> (nat \<times> wrapper) option" where
  "earliest_opener w = earliest w TOOL_OPENERS None"

definition opener_partial_len :: "pystr \<Rightarrow> nat" where
  "opener_partial_len w = end_overlap_len w (map opener_of TOOL_OPENERS)"

subsection \<open>The scanner of JSON arguments\<close>

definition quote :: nat where "quote = 34"
definition colon :: nat where "colon = 58"
definition backslash :: nat where "backslash = 92"

definition open_bracket :: "nat \<Rightarrow> bool" where "open_bracket c = (c = 123 \<or> c = 91)"
definition close_bracket :: "nat \<Rightarrow> bool" where "close_bracket c = (c = 125 \<or> c = 93)"

text \<open>\<open>_NAME_RE\<close>: the group of a match at the head of the text, and the leftmost match.\<close>

fun str_body :: "pystr \<Rightarrow> pystr option" where
  "str_body [] = None"
| "str_body (c # cs) =
     (if c = quote then Some []
      else if c = backslash
      then (case cs of [] \<Rightarrow> None | d # ds \<Rightarrow> if d = nl then None else map_option (\<lambda>r. c # d # r) (str_body ds))
      else map_option ((#) c) (str_body cs))"

definition after_colon :: "pystr \<Rightarrow> pystr option" where
  "after_colon w = (case lstrip w of [] \<Rightarrow> None | c # v \<Rightarrow> if c = colon then Some (lstrip v) else None)"

definition name_at :: "pystr \<Rightarrow> pystr option" where
  "name_at w =
     (if prefix (quote # str ''name'' @ [quote]) w
      then (case after_colon (drop 6 w) of Some (c # v) \<Rightarrow> if c = quote then str_body v else None | _ \<Rightarrow> None)
      else None)"

fun name_search :: "pystr \<Rightarrow> pystr option" where
  "name_search [] = None"
| "name_search (x # xs) = (case name_at (x # xs) of Some g \<Rightarrow> Some g | None \<Rightarrow> name_search xs)"

text \<open>\<open>_ARGS_KEY_RE\<close>: where a match ends.\<close>

definition args_at :: "pystr \<Rightarrow> nat option" where
  "args_at w =
     (if prefix (quote # str ''arguments'' @ [quote]) w
      then map_option (\<lambda>v. length w - length v) (after_colon (drop 11 w))
      else None)"

fun args_search :: "pystr \<Rightarrow> nat option" where
  "args_search [] = None"
| "args_search (x # xs) = (case args_at (x # xs) of Some n \<Rightarrow> Some n | None \<Rightarrow> map_option Suc (args_search xs))"

record jstream =
  dead :: bool
  jname :: "pystr option"
  name_sent :: bool
  args_done :: bool
  streamed :: nat
  depth :: int
  in_str :: bool
  esc :: bool
  vstart :: "nat option"

definition jstream0 :: jstream where
  "jstream0 = \<lparr>dead = False, jname = None, name_sent = False, args_done = False, streamed = 0,
     depth = 0, in_str = False, esc = False, vstart = None\<rparr>"

definition scan_name :: "pystr \<Rightarrow> nat \<Rightarrow> jstream \<Rightarrow> jstream \<times> bool" where
  "scan_name body base js =
     (if jname js \<noteq> None then (js, True)
      else (case name_search (drop base body) of
              Some n \<Rightarrow> (js\<lparr>jname := Some n\<rparr>, True)
            | None \<Rightarrow> (if args_search (drop base body) \<noteq> None then js\<lparr>dead := True\<rparr> else js, False)))"

definition scan_value :: "pystr \<Rightarrow> nat \<Rightarrow> jstream \<Rightarrow> jstream \<times> pystr option \<times> bool" where
  "scan_value body base js =
     (if vstart js \<noteq> None then (js, None, True)
      else (case args_search (drop base body) of
              None \<Rightarrow> (js, None, False)
            | Some n \<Rightarrow>
                if length body \<le> base + n then (js, None, False)
                else if \<not> open_bracket (body ! (base + n)) then (js\<lparr>dead := True\<rparr>, None, False)
                else if name_sent js then (js\<lparr>vstart := Some (base + n)\<rparr>, None, True)
                else (js\<lparr>vstart := Some (base + n), name_sent := True\<rparr>, jname js, True)))"

definition char_step :: "nat \<Rightarrow> jstream \<Rightarrow> jstream" where
  "char_step c js =
     (if in_str js
      then (if esc js then js\<lparr>esc := False\<rparr>
            else if c = backslash then js\<lparr>esc := True\<rparr>
            else if c = quote then js\<lparr>in_str := False\<rparr> else js)
      else (if c = quote then js\<lparr>in_str := True\<rparr>
            else if open_bracket c then js\<lparr>depth := depth js + 1\<rparr>
            else if close_bracket c then js\<lparr>depth := depth js - 1\<rparr> else js))"

text \<open>The loop over the unseen part: the state, how many characters it took, whether the value ended.\<close>

definition ends_value :: "nat \<Rightarrow> jstream \<Rightarrow> bool" where
  "ends_value c js = (\<not> in_str js \<and> close_bracket c \<and> depth js - 1 = 0)"

fun scan_chars :: "pystr \<Rightarrow> jstream \<Rightarrow> jstream \<times> nat \<times> bool" where
  "scan_chars [] js = (js, 0, False)"
| "scan_chars (c # cs) js =
     (if ends_value c js then (char_step c js, 1, True)
      else (case scan_chars cs (char_step c js) of (js', k, e) \<Rightarrow> (js', Suc k, e)))"

definition scan_advance :: "pystr \<Rightarrow> jstream \<Rightarrow> jstream \<times> pystr option" where
  "scan_advance body js =
     (case vstart js of None \<Rightarrow> (js, None)
      | Some v \<Rightarrow>
          (case scan_chars (drop (v + streamed js) body) js of
             (js', k, ended) \<Rightarrow> (js'\<lparr>streamed := streamed js + k, args_done := ended\<rparr>,
                                  or_none (take k (drop (v + streamed js) body)))))"

definition scan :: "pystr \<Rightarrow> nat \<Rightarrow> jstream \<Rightarrow> jstream \<times> pystr option \<times> pystr option" where
  "scan body base js =
     (if dead js \<or> args_done js then (js, None, None)
      else (case scan_name body base js of (js1, found) \<Rightarrow>
              if \<not> found then (js1, None, None)
              else (case scan_value body base js1 of (js2, new_name, go) \<Rightarrow>
                      if \<not> go then (js2, None, None)
                      else (case scan_advance body js2 of (js3, frag) \<Rightarrow> (js3, new_name, frag)))))"

subsection \<open>The splitter\<close>

datatype 'j targs = Args_text pystr | Args_json 'j

record 'j tool_env =
  uid :: nat
  allowed :: "pystr list option"
  drop_unknown :: bool
  parse_one :: "pystr \<Rightarrow> (pystr \<times> 'j targs) option"
  dumps :: "'j \<Rightarrow> pystr"
  arg_stream :: bool

text \<open>The deltas of a call: the opener with its index, id and name, and a fragment of arguments.\<close>

datatype tdelta = Call nat "nat \<times> nat" pystr | Frag nat pystr

text \<open>Inside a block exactly when \<open>opener\<close> is set; the source keeps \<open>in_tool\<close> beside it.\<close>

record tstream =
  buf :: pystr
  opener :: "wrapper option"
  next_index :: nat
  emitted :: bool
  unparsed_tail :: bool
  warned_oversize :: bool
  jst :: "jstream option"
  jidx :: "nat option"

definition tstream0 :: tstream where
  "tstream0 = \<lparr>buf = [], opener = None, next_index = 0, emitted = False, unparsed_tail = False,
     warned_oversize = False, jst = None, jidx = None\<rparr>"

definition known_tool_names :: "pystr option list \<Rightarrow> pystr list option" where
  "known_tool_names tools = (let names = map the (filter (\<lambda>n. n \<noteq> None) tools) in if names = [] then None else Some names)"

definition tool_name_allowed :: "'j tool_env \<Rightarrow> pystr \<Rightarrow> bool" where
  "tool_name_allowed env n = (case allowed env of None \<Rightarrow> True | Some ns \<Rightarrow> n \<in> set ns \<or> \<not> drop_unknown env)"

definition held_chars :: "tstream \<Rightarrow> nat" where
  "held_chars st = (if opener st \<noteq> None then length (buf st) else 0)"

definition warn_if_oversize :: "nat \<Rightarrow> tstream \<Rightarrow> tstream \<times> bool" where
  "warn_if_oversize threshold st =
     (if opener st \<noteq> None \<and> \<not> warned_oversize st \<and> threshold \<le> length (buf st)
      then (st\<lparr>warned_oversize := True\<rparr>, True) else (st, False))"

definition parse_block :: "'j tool_env \<Rightarrow> wrapper \<Rightarrow> pystr \<Rightarrow> (pystr \<times> 'j targs) option" where
  "parse_block env t block =
     (if t = Function_tag then parse_one env block
      else (let inner = drop (length (opener_of t)) block
            in parse_one env (if suffix (closer_of t) inner then take (length inner - length (closer_of t)) inner else inner)))"

definition parse_unclosed_block :: "'j tool_env \<Rightarrow> wrapper \<Rightarrow> pystr \<Rightarrow> (pystr \<times> 'j targs) option" where
  "parse_unclosed_block env t w = (if t = Function_tag then parse_one env w else parse_one env (drop (length (opener_of t)) w))"

definition open_delta :: "'j tool_env \<Rightarrow> nat \<Rightarrow> pystr \<Rightarrow> tdelta" where
  "open_delta env i n = Call i (uid env, i) n"

definition frag_deltas :: "tstream \<Rightarrow> pystr option \<Rightarrow> tdelta list" where
  "frag_deltas st frag = (case (frag, jidx st) of (Some f, Some i) \<Rightarrow> [Frag i f] | _ \<Rightarrow> [])"

definition jstream_advance :: "'j tool_env \<Rightarrow> tstream \<Rightarrow> tstream \<times> tdelta list" where
  "jstream_advance env st =
     (case jst st of None \<Rightarrow> (st, [])
      | Some js \<Rightarrow>
          if dead js then (st, [])
          else (case scan (buf st) (case opener st of None \<Rightarrow> 0 | Some t \<Rightarrow> length (opener_of t)) js of
                  (js', None, frag) \<Rightarrow> (st\<lparr>jst := Some js'\<rparr>, frag_deltas st frag)
                | (js', Some n, frag) \<Rightarrow>
                    if \<not> tool_name_allowed env n then (st\<lparr>jst := Some (js'\<lparr>dead := True\<rparr>)\<rparr>, [])
                    else (let i = next_index st;
                              st' = st\<lparr>jst := Some js', next_index := i + 1, jidx := Some i, emitted := True\<rparr>
                          in (st', open_delta env i n # frag_deltas st' frag))))"

definition args_string :: "'j tool_env \<Rightarrow> 'j targs \<Rightarrow> pystr" where
  "args_string env a = (case a of Args_text s \<Rightarrow> s | Args_json j \<Rightarrow> dumps env j)"

definition emit_parsed :: "'j tool_env \<Rightarrow> pystr \<times> 'j targs \<Rightarrow> tstream \<Rightarrow> tstream \<times> tdelta list" where
  "emit_parsed env call st =
     (if \<not> tool_name_allowed env (fst call) then (st, [])
      else (let i = next_index st
            in (st\<lparr>next_index := i + 1, emitted := True\<rparr>, [open_delta env i (fst call), Frag i (args_string env (snd call))])))"

definition emit_call :: "'j tool_env \<Rightarrow> wrapper \<Rightarrow> pystr \<Rightarrow> tstream \<Rightarrow> tstream \<times> tdelta list" where
  "emit_call env t block st = (case parse_block env t block of None \<Rightarrow> (st, []) | Some call \<Rightarrow> emit_parsed env call st)"

definition engaged :: "tstream \<Rightarrow> bool" where
  "engaged st = (case jst st of None \<Rightarrow> False | Some js \<Rightarrow> jidx st \<noteq> None \<and> \<not> dead js)"

definition enter_block :: "'j tool_env \<Rightarrow> wrapper \<Rightarrow> tstream \<Rightarrow> tstream" where
  "enter_block env t st =
     st\<lparr>opener := Some t, jst := (if t = Tool_call \<and> arg_stream env then Some jstream0 else None), jidx := None\<rparr>"

definition leave_block :: "'j tool_env \<Rightarrow> wrapper \<Rightarrow> pystr \<Rightarrow> tstream \<Rightarrow> tstream \<times> tdelta list" where
  "leave_block env t block st =
     (case (if engaged st
            then (case jstream_advance env (st\<lparr>buf := block\<rparr>) of (st', d) \<Rightarrow> (st'\<lparr>buf := [], emitted := True\<rparr>, d))
            else emit_call env t block st) of
        (st', d) \<Rightarrow> (st'\<lparr>jst := None, jidx := None, opener := None, warned_oversize := False\<rparr>, d))"

lemma opener_nonempty [simp]: "opener_of t \<noteq> []" "closer_of t \<noteq> []"
  by (cases t; simp add: str_def)+

lemma advance_opener [simp]: "opener (fst (jstream_advance env st)) = opener st"
  by (simp add: jstream_advance_def Let_def split: option.splits prod.splits)

lemma emit_call_opener [simp]: "opener (fst (emit_call env t b st)) = opener st"
  by (simp add: emit_call_def emit_parsed_def Let_def split: option.splits)

lemma leave_block_opener [simp]: "opener (fst (leave_block env t b st)) = None"
  by (simp add: leave_block_def split: prod.splits)

lemma earliest_from: "earliest w ts best = Some x \<Longrightarrow> best = Some x \<or> sfind (opener_of (snd x)) w = Some (fst x)"
proof (induction ts arbitrary: best)
  case (Cons t ts)
  from Cons.IH [OF Cons.prems [unfolded earliest.simps]] show ?case
    by (cases best; cases "sfind (opener_of t) w") (auto split: if_splits)
qed simp

lemma earliest_opener_bound: "earliest_opener w = Some x \<Longrightarrow> fst x + length (opener_of (snd x)) \<le> length w"
  using earliest_from [of w TOOL_OPENERS None x] sfind_bound by (auto simp: earliest_opener_def)

text \<open>The loop of \<open>push\<close>: the content, the deltas and the state.\<close>

function tool_loop :: "'j tool_env \<Rightarrow> tstream \<Rightarrow> nat \<Rightarrow> pystr \<Rightarrow> pystr \<times> tdelta list \<times> tstream" where
  "tool_loop env st scanned w =
     (if w = [] then ([], [], st)
      else case opener st of
        None \<Rightarrow>
          (case earliest_opener w of
             None \<Rightarrow> (keep_head (opener_partial_len w) w, [], st\<lparr>buf := keep_tail (opener_partial_len w) w\<rparr>)
           | Some it \<Rightarrow>
               (case tool_loop env (enter_block env (snd it) st) 0 (drop (fst it) w) of
                  (c, d, st') \<Rightarrow> (take (fst it) w @ c, d, st')))
      | Some t \<Rightarrow>
          (case sfind_at (closer_of t) w (scanned + 1 - length (closer_of t)) of
             None \<Rightarrow> (case jstream_advance env (st\<lparr>buf := w\<rparr>) of (st', d) \<Rightarrow> ([], d, st'))
           | Some i \<Rightarrow>
               (let x = leave_block env t (take (i + length (closer_of t)) w) st
                in case tool_loop env (fst x) 0 (drop (i + length (closer_of t)) w) of
                     (c, d', st') \<Rightarrow> (c, snd x @ d', st'))))"
  by pat_completeness auto

termination
proof (relation "measures [\<lambda>(env, st, scanned, w). length w, \<lambda>(env, st, scanned, w). if opener st = None then 1 else 0]", goal_cases)
  case (2 env st scanned w it)
  then show ?case using earliest_opener_bound [of w it]
    by (cases "fst it = 0") (auto simp: enter_block_def)
qed (auto dest: sfind_at_bound)

declare tool_loop.simps [simp del]

definition tool_push :: "'j tool_env \<Rightarrow> pystr \<Rightarrow> tstream \<Rightarrow> tstream \<times> pystr option \<times> tdelta list" where
  "tool_push env delta st =
     (case tool_loop env (st\<lparr>buf := []\<rparr>) (if opener st \<noteq> None then length (buf st) else 0) (buf st @ delta) of
        (c, d, st') \<Rightarrow> (st', or_none c, d))"

definition tool_flush :: "'j tool_env \<Rightarrow> tstream \<Rightarrow> tstream \<times> pystr option \<times> tdelta list" where
  "tool_flush env st =
     (case opener st of
        None \<Rightarrow> (st\<lparr>buf := []\<rparr>, or_none (buf st), [])
      | Some t \<Rightarrow>
          if engaged st
          then (case jstream_advance env st of
                  (st', d) \<Rightarrow> (st'\<lparr>buf := [], opener := None, jst := None, jidx := None,
                     unparsed_tail := (case jst st' of None \<Rightarrow> True | Some js \<Rightarrow> \<not> args_done js)\<rparr>, None, d))
          else (case parse_unclosed_block env t (buf st) of
                  Some call \<Rightarrow> (case emit_parsed env call (st\<lparr>buf := [], opener := None\<rparr>) of (st', d) \<Rightarrow> (st', None, d))
                | None \<Rightarrow> (st\<lparr>buf := [], opener := None, unparsed_tail := buf st \<noteq> []\<rparr>, or_none (buf st), [])))"

end
