(* ===== verification/Reasoning_Claims.thy ===== *)
theory Reasoning_Claims
  imports Reasoning_Parser
begin

section \<open>The reasoning splitter: claims\<close>

text \<open>
  How the splitter's answer depends on where the stream is cut.  The lemmas say when a
  delimiter can start: \<open>noocc\<close> no occurrence, \<open>nopart\<close> no unfinished one, in the first \<open>h\<close>
  positions.  What a chunk emits is exactly the part in which neither can, so a longer text
  is treated as if it had come at once.
\<close>

subsection \<open>Where a delimiter can start\<close>

definition noocc :: "pystr \<Rightarrow> nat \<Rightarrow> pystr \<Rightarrow> bool" where
  "noocc t h w = (\<forall>j < h. \<not> prefix t (drop j w))"

definition nopart :: "pystr \<Rightarrow> nat \<Rightarrow> pystr \<Rightarrow> bool" where
  "nopart t h w = (\<forall>j < h. \<not> strict_prefix (drop j w) t)"

lemma sfind_None: "sfind t w = None \<longleftrightarrow> (\<forall>j \<le> length w. \<not> prefix t (drop j w))"
proof (induction w)
  case (Cons x w)
  have "(\<forall>j \<le> length (x # w). \<not> prefix t (drop j (x # w)))
      \<longleftrightarrow> \<not> prefix t (x # w) \<and> (\<forall>j \<le> length w. \<not> prefix t (drop j w))"
    by (auto simp: less_Suc_eq_0_disj less_Suc_eq_le [symmetric]) (metis drop_Suc_Cons)
  with Cons.IH show ?case by simp
qed auto

lemma sfind_Some: "sfind t w = Some i \<longleftrightarrow> i \<le> length w \<and> prefix t (drop i w) \<and> noocc t i w"
proof (induction w arbitrary: i)
  case (Cons x w)
  show ?case
  proof (cases i)
    case 0
    then show ?thesis by (auto simp: noocc_def)
  next
    case (Suc k)
    have "noocc t (Suc k) (x # w) \<longleftrightarrow> \<not> prefix t (x # w) \<and> noocc t k w"
      by (auto simp: noocc_def less_Suc_eq_0_disj)
    with Suc Cons.IH [of k] show ?thesis by auto
  qed
qed (auto simp: noocc_def)

lemma sfind_skip:
  assumes "noocc t (length p) (p @ q)"
  shows "sfind t (p @ q) = map_option ((+) (length p)) (sfind t q)"
  using assms
proof (induction p)
  case (Cons x p)
  have "\<not> prefix t (x # p @ q)" using Cons.prems by (auto simp: noocc_def dest: spec [of _ 0])
  moreover have "noocc t (length p) (p @ q)" using Cons.prems by (force simp: noocc_def dest: spec [of _ "Suc _"])
  ultimately show ?case using Cons.IH by (simp add: option.map_comp comp_def)
qed (cases "sfind t q"; simp)

lemma sfind_ext: "sfind t w = Some i \<Longrightarrow> sfind t (w @ b) = Some i"
proof -
  assume a: "sfind t w = Some i"
  then have s: "i \<le> length w" "prefix t (drop i w)" "noocc t i w" and l: "i + length t \<le> length w"
    by (auto simp: sfind_Some dest: prefix_length_le)
  have "\<not> prefix t (drop j (w @ b))" if "j < i" for j
  proof
    assume "prefix t (drop j (w @ b))"
    then have "prefix t (drop j w @ b)" using that s(1) by simp
    then have "t = take (length t) (drop j w @ b)" by (metis append_eq_conv_conj prefix_def)
    also have "\<dots> = take (length t) (drop j w)" using l that by simp
    finally have "prefix t (drop j w)" by (metis take_is_prefix)
    with s(3) that show False by (simp add: noocc_def)
  qed
  with s show ?thesis by (auto simp: sfind_Some noocc_def)
qed

lemma sfind_straddle:
  assumes "sfind t w = None" "sfind t (w @ b) = Some j"
  shows "length w < j + length t"
proof (rule ccontr)
  assume "\<not> length w < j + length t"
  then have l: "j + length t \<le> length w" by simp
  have "prefix t (drop j (w @ b))" using assms(2) by (simp add: sfind_Some)
  then have "prefix t (drop j w @ b)" using l by simp
  then have "t = take (length t) (drop j w @ b)" by (metis append_eq_conv_conj prefix_def)
  also have "\<dots> = take (length t) (drop j w)" using l by simp
  finally have "prefix t (drop j w)" by (metis take_is_prefix)
  with assms(1) l show False by (auto simp: sfind_None)
qed

lemma noocc_ext:
  assumes "noocc t h w" "nopart t h w" "h \<le> length w"
  shows "noocc t h (w @ b) \<and> nopart t h (w @ b)"
proof -
  have "\<not> prefix t (drop j (w @ b)) \<and> \<not> strict_prefix (drop j (w @ b)) t" if j: "j < h" for j
  proof -
    have d: "drop j (w @ b) = drop j w @ b" using j assms(3) by simp
    have 1: "\<not> prefix t (drop j w)" "\<not> strict_prefix (drop j w) t"
      using assms(1,2) j by (auto simp: noocc_def nopart_def)
    have "\<not> prefix t (drop j w @ b)"
      using 1 prefix_same_cases [of t "drop j w @ b" "drop j w"] by (auto simp: strict_prefix_def)
    moreover have "\<not> strict_prefix (drop j w @ b) t"
      using 1(2) by (metis append_prefixD strict_prefix_def prefix_order.antisym prefix_def)
    ultimately show ?thesis by (simp only: d simp_thms)
  qed
  then show ?thesis by (simp add: noocc_def nopart_def)
qed

lemma nopart_ext:
  assumes "nopart t h w" "h \<le> length w"
  shows "nopart t h (w @ b)"
proof -
  have "\<not> strict_prefix (drop j (w @ b)) t" if j: "j < h" for j
  proof -
    have "drop j (w @ b) = drop j w @ b" using j assms(2) by simp
    moreover have "\<not> strict_prefix (drop j w) t" using assms j by (simp add: nopart_def)
    ultimately show ?thesis by (metis append_prefixD strict_prefix_def prefix_order.antisym prefix_def)
  qed
  then show ?thesis by (simp add: nopart_def)
qed

lemma overlap_from_spec:
  "overlap_from w t n \<le> n \<and> suffix (take (overlap_from w t n) t) w
   \<and> (\<forall>k. overlap_from w t n < k \<longrightarrow> k \<le> n \<longrightarrow> \<not> suffix (take k t) w)"
proof (induction n)
  case (Suc n)
  then show ?case by (auto simp: le_Suc_eq)
qed simp

lemma overlap1_le: "overlap1 w t \<le> length w" "t \<noteq> [] \<Longrightarrow> overlap1 w t < length t"
  using overlap_from_spec [of w t "min (length w) (length t - 1)"]
  by (auto simp: overlap1_def simp flip: length_greater_0_conv)

lemma strict_suffix_iff:
  assumes "k \<le> length w" "k < length t"
  shows "suffix (take k t) w \<longleftrightarrow> strict_prefix (drop (length w - k) w) t"
proof
  assume "suffix (take k t) w"
  then have "drop (length w - k) w = take k t" using assms by (auto simp: suffix_def)
  then show "strict_prefix (drop (length w - k) w) t" using assms(2)
    by (metis length_take min.absorb4 nat_less_le strict_prefix_def take_is_prefix)
next
  assume "strict_prefix (drop (length w - k) w) t"
  then have "drop (length w - k) w = take k t"
    using assms by (auto simp: strict_prefix_def prefix_def)
  then show "suffix (take k t) w" by (metis suffix_drop)
qed

lemma overlap1_nopart:
  assumes "t \<noteq> []" "h \<le> length w - overlap1 w t"
  shows "nopart t h w"
proof -
  have "\<not> strict_prefix (drop j w) t" if j: "j < h" for j
  proof
    assume s: "strict_prefix (drop j w) t"
    define k where "k = length w - j"
    have jk: "j = length w - k" "k \<le> length w" "overlap1 w t < k"
      using j assms(2) overlap1_le(1) [of w t] by (auto simp: k_def)
    have "k < length t" using s jk by (metis k_def length_drop prefix_length_less)
    then have "suffix (take k t) w" using strict_suffix_iff [OF jk(2)] s jk(1) by simp
    moreover have "k \<le> min (length w) (length t - 1)" using jk(2) \<open>k < length t\<close> by simp
    ultimately show False using overlap_from_spec [of w t "min (length w) (length t - 1)"] jk(3)
      by (auto simp: overlap1_def)
  qed
  then show ?thesis by (simp add: nopart_def)
qed

lemma overlap1_eqI:
  assumes "k \<le> length w" "k < length t" "suffix (take k t) w" "nopart t (length w - k) w"
  shows "overlap1 w t = k"
proof (rule antisym)
  let ?o = "overlap1 w t"
  have s: "suffix (take ?o t) w" "?o < length t" "?o \<le> length w"
    using overlap_from_spec [of w t "min (length w) (length t - 1)"] overlap1_le [of t w] assms(2)
    by (auto simp: overlap1_def)
  show "?o \<le> k"
  proof (rule ccontr)
    assume "\<not> ?o \<le> k"
    moreover have "strict_prefix (drop (length w - ?o) w) t" using strict_suffix_iff [OF s(3,2)] s(1) by simp
    ultimately show False using assms(4) s(3) by (auto simp: nopart_def)
  qed
  show "k \<le> ?o"
  proof (rule ccontr)
    assume "\<not> k \<le> ?o"
    then show False using overlap_from_spec [of w t "min (length w) (length t - 1)"] assms(1-3)
      by (auto simp: overlap1_def)
  qed
qed

lemma overlap_skip:
  assumes "nopart t (length p) (p @ q)" "t \<noteq> []"
  shows "overlap1 (p @ q) t = overlap1 q t"
proof (rule overlap1_eqI)
  let ?o = "overlap1 q t"
  show "?o \<le> length (p @ q)" "?o < length t" using overlap1_le [of q t] overlap1_le(2) [OF assms(2)] by auto
  have "suffix (take ?o t) q" using overlap_from_spec [of q t "min (length q) (length t - 1)"] by (simp add: overlap1_def)
  then show "suffix (take ?o t) (p @ q)" by (rule suffix_appendI)
  have nq: "nopart t (length q - ?o) q" by (rule overlap1_nopart [OF assms(2)]) simp
  have "\<not> strict_prefix (drop j (p @ q)) t" if "j < length (p @ q) - ?o" for j
  proof (cases "j < length p")
    case True
    with assms(1) show ?thesis by (simp add: nopart_def)
  next
    case False
    then have "drop j (p @ q) = drop (j - length p) q" "j - length p < length q - ?o" using that by auto
    with nq show ?thesis by (simp add: nopart_def)
  qed
  then show "nopart t (length (p @ q) - ?o) (p @ q)" by (simp add: nopart_def)
qed

subsection \<open>Plain delimiters\<close>

text \<open>
  The closer is one literal, no delimiter can start inside another (the first character of
  each occurs in none but at its head), and the closer neither begins with nor begins another
  one.  The tags of the families the source names are of this kind.
\<close>

definition delims :: "stream \<Rightarrow> pystr list" where
  "delims st = st_start st # em_token (st_end st) # st_openers st"

definition plain :: "stream \<Rightarrow> bool" where
  "plain st = (\<not> wild (st_end st) \<and> (\<forall>t \<in> set (delims st). t \<noteq> [])
     \<and> (\<forall>t \<in> set (delims st). \<forall>t' \<in> set (delims st). hd t \<notin> set (tl t'))
     \<and> (\<forall>t \<in> set (st_start st # st_openers st). \<not> prefix t (em_token (st_end st)) \<and> \<not> prefix (em_token (st_end st)) t))"

lemma occ_inside:
  assumes "prefix s (drop i w)" "prefix e (drop j w)" "j < i" "i < j + length e" "s \<noteq> []"
  shows "hd s \<in> set (tl e)"
proof -
  have i: "i < length w" using assms(1,5) by (auto simp: prefix_def) (metis append_is_Nil_conv drop_all leI)
  have "hd s = drop i w ! 0" using assms(1,5) by (auto simp: prefix_def hd_conv_nth nth_append)
  also have "\<dots> = w ! i" using i by simp
  also have "\<dots> = drop j w ! (i - j)" using i assms(3) by simp
  also have "\<dots> = e ! (i - j)" using assms(2,3,4) by (auto simp: prefix_def nth_append)
  also have "\<dots> = tl e ! (i - j - 1)" using assms(3,4) by (simp add: nth_tl Suc_diff_Suc)
  also have "\<dots> \<in> set (tl e)" using assms(3,4) by (intro nth_mem) auto
  finally show ?thesis .
qed

lemma later_straddle:
  assumes s: "sfind s w = Some i" and e: "sfind e w = None" "sfind e (w @ b) = Some j"
    and h: "hd s \<notin> set (tl e)" "s \<noteq> []"
  shows "i \<le> j"
proof (rule ccontr)
  assume "\<not> i \<le> j"
  moreover have "length w < j + length e" by (rule sfind_straddle [OF e])
  moreover have "i < length w" using sfind_bound [OF s] h(2) by (cases s) auto
  moreover have "prefix s (drop i (w @ b))" "prefix e (drop j (w @ b))"
    using sfind_ext [OF s, of b] e(2) by (auto simp: sfind_Some)
  ultimately show False using occ_inside [of s i "w @ b" e j] h by auto
qed

lemma later_straddle_strict:
  assumes "sfind s w = Some i" "sfind e w = None" "sfind e (w @ b) = Some j"
    "hd s \<notin> set (tl e)" "s \<noteq> []" "\<not> prefix s e" "\<not> prefix e s"
  shows "i < j"
proof -
  have "prefix s (drop i (w @ b))" "prefix e (drop j (w @ b))"
    using sfind_ext [OF assms(1), of b] assms(3) by (auto simp: sfind_Some)
  then have "i \<noteq> j" using assms(6,7) prefix_same_cases by blast
  with later_straddle [OF assms(1-5)] show ?thesis by simp
qed

lemma first_opener_best:
  "(first_opener w ts best = None \<longleftrightarrow> best = None \<and> (\<forall>t \<in> set ts. sfind t w = None))
   \<and> (\<forall>i. first_opener w ts best = Some i \<longrightarrow> (best = Some i \<or> (\<exists>t \<in> set ts. sfind t w = Some i))
        \<and> (\<forall>k. best = Some k \<longrightarrow> i \<le> k) \<and> (\<forall>t \<in> set ts. \<forall>k. sfind t w = Some k \<longrightarrow> i \<le> k))"
proof (induction ts arbitrary: best)
  case (Cons t ts)
  let ?b = "case sfind t w of None \<Rightarrow> best | Some j \<Rightarrow> (case best of None \<Rightarrow> Some j | Some b \<Rightarrow> if j < b then Some j else best)"
  note ih = Cons.IH [of ?b]
  have b: "?b = None \<longleftrightarrow> best = None \<and> sfind t w = None"
    "?b = Some i \<Longrightarrow> best = Some i \<or> sfind t w = Some i"
    "best = Some k \<Longrightarrow> \<exists>i. ?b = Some i \<and> i \<le> k" "sfind t w = Some k \<Longrightarrow> \<exists>i. ?b = Some i \<and> i \<le> k" for i k
    by (auto split: option.splits if_splits)
  have e: "first_opener w (t # ts) best = first_opener w ts ?b" by simp
  show ?case unfolding e
  proof (intro conjI allI impI)
    show "(first_opener w ts ?b = None) = (best = None \<and> (\<forall>t \<in> set (t # ts). sfind t w = None))"
      using ih b(1) by auto
    fix i assume f: "first_opener w ts ?b = Some i"
    show "best = Some i \<or> (\<exists>t \<in> set (t # ts). sfind t w = Some i)" using ih f b(2) by auto
    show "i \<le> k" if "best = Some k" for k using ih f b(3) [OF that] by fastforce
    show "\<forall>t \<in> set (t # ts). \<forall>k. sfind t w = Some k \<longrightarrow> i \<le> k"
      using ih f b(4) by fastforce
  qed
qed auto

lemmas first_opener_None = first_opener_best [THEN conjunct1]
lemmas first_opener_Some = first_opener_best [THEN conjunct2, rule_format]

lemma first_opener_SomeI:
  assumes "t \<in> set ts" "sfind t w = Some i" "\<And>t' k. t' \<in> set ts \<Longrightarrow> sfind t' w = Some k \<Longrightarrow> i \<le> k"
  shows "first_opener w ts None = Some i"
proof (cases "first_opener w ts None")
  case None
  then show ?thesis using assms(1,2) by (auto simp: first_opener_None)
next
  case (Some k)
  note k = first_opener_Some [OF Some]
  from k have "k \<le> i" "\<exists>t \<in> set ts. sfind t w = Some k" using assms(1,2) by auto
  then have "k = i" using assms(3) by fastforce
  with Some show ?thesis by simp
qed

lemma first_opener_ext:
  assumes f: "first_opener w ts None = Some i" and h: "\<forall>t \<in> set ts. t \<noteq> []" "\<forall>t \<in> set ts. \<forall>t' \<in> set ts. hd t \<notin> set (tl t')"
  shows "first_opener (w @ b) ts None = Some i"
proof -
  note k = first_opener_Some [OF f]
  then obtain t where t: "t \<in> set ts" "sfind t w = Some i" by auto
  show ?thesis
  proof (rule first_opener_SomeI [OF t(1) sfind_ext [OF t(2)]])
    fix t' k' assume t': "t' \<in> set ts" "sfind t' (w @ b) = Some k'"
    show "i \<le> k'"
    proof (cases "sfind t' w")
      case None
      show ?thesis by (rule later_straddle [OF t(2) None t'(2)]) (use h t t' in auto)
    next
      case (Some x)
      with sfind_ext [OF Some, of b] t' k show ?thesis by auto
    qed
  qed
qed

lemma first_opener_skip:
  assumes "\<forall>t \<in> set ts. noocc t (length p) (p @ q)"
  shows "first_opener (p @ q) ts (map_option ((+) (length p)) best) = map_option ((+) (length p)) (first_opener q ts best)"
  using assms
proof (induction ts arbitrary: best)
  case (Cons t ts)
  have s: "sfind t (p @ q) = map_option ((+) (length p)) (sfind t q)" using sfind_skip Cons.prems by simp
  let ?b = "case sfind t q of None \<Rightarrow> best | Some j \<Rightarrow> (case best of None \<Rightarrow> Some j | Some b \<Rightarrow> if j < b then Some j else best)"
  have "(case sfind t (p @ q) of None \<Rightarrow> map_option ((+) (length p)) best
      | Some j \<Rightarrow> (case map_option ((+) (length p)) best of None \<Rightarrow> Some j
          | Some b \<Rightarrow> if j < b then Some j else map_option ((+) (length p)) best)) = map_option ((+) (length p)) ?b"
    by (cases "sfind t q"; cases best) (simp_all add: s)
  with Cons show ?case by simp
qed simp

lemma em_find_plain:
  assumes "\<not> wild m" "em_token m \<noteq> []"
  shows "em_find m w 0 = map_option (\<lambda>i. (i, i + length (em_token m))) (sfind (em_token m) w)"
  using assms by (simp add: em_find_def sfind_at_def option.map_comp comp_def)

lemma em_hold_plain:
  assumes "\<not> wild m" "em_token m \<noteq> []"
  shows "em_hold m w = overlap1 w (em_token m)"
  using assms by (simp add: em_hold_def end_overlap_len_def)

subsection \<open>A longer text, and a text whose head is free of delimiters\<close>

fun shift :: "nat \<Rightarrow> seen \<Rightarrow> seen" where
  "shift h (Opener i) = Opener (h + i)"
| "shift h (Closer b e) = Closer (h + b) (h + e)"
| "shift h Nothing = Nothing"

lemma plainD:
  assumes "plain st"
  shows "\<not> wild (st_end st)" "em_token (st_end st) \<noteq> []" "st_start st \<noteq> []" "\<forall>t \<in> set (st_openers st). t \<noteq> []"
    "hd (st_start st) \<notin> set (tl (em_token (st_end st)))" "hd (em_token (st_end st)) \<notin> set (tl (st_start st))"
    "\<forall>t \<in> set (st_openers st). hd (em_token (st_end st)) \<notin> set (tl t) \<and> hd t \<notin> set (tl (em_token (st_end st)))"
    "\<forall>t \<in> set (st_openers st). \<forall>t' \<in> set (st_openers st). hd t \<notin> set (tl t')"
    "\<not> prefix (st_start st) (em_token (st_end st))" "\<not> prefix (em_token (st_end st)) (st_start st)"
    "\<forall>t \<in> set (st_openers st). \<not> prefix t (em_token (st_end st)) \<and> \<not> prefix (em_token (st_end st)) t"
  using assms by (simp_all add: plain_def delims_def)

lemma inactive_seen_ext:
  assumes p: "plain st" and n: "inactive_seen st w \<noteq> Nothing"
  shows "inactive_seen st (w @ b) = inactive_seen st w"
proof -
  note pd = plainD [OF p]
  let ?s = "st_start st" and ?e = "em_token (st_end st)"
  note f = em_find_plain [OF pd(1,2)]
  show ?thesis
  proof (cases "sfind ?s w")
    case so: None
    with n obtain j where j: "closed_once st" "sfind ?e w = Some j"
      by (auto simp: inactive_seen_def Let_def f pd(3) split: option.splits if_splits)
    have "\<not> i < j" if "sfind ?s (w @ b) = Some i" for i
      using later_straddle_strict [OF j(2) so that] pd by auto
    with j so sfind_ext [OF j(2), of b] show ?thesis
      by (auto simp: inactive_seen_def Let_def f pd(3) split: option.splits)
  next
    case so: (Some i)
    show ?thesis
    proof (cases "closed_once st")
      case False
      with so sfind_ext [OF so, of b] show ?thesis by (simp add: inactive_seen_def Let_def pd(3))
    next
      case True
      show ?thesis
      proof (cases "sfind ?e w")
        case None
        have "i < j" if "sfind ?e (w @ b) = Some j" for j
          using later_straddle_strict [OF so None that] pd by auto
        with None so sfind_ext [OF so, of b] True show ?thesis
          by (auto simp: inactive_seen_def Let_def f pd(3) split: option.splits)
      next
        case (Some j)
        with so sfind_ext [OF so, of b] sfind_ext [OF Some, of b] True show ?thesis
          by (simp add: inactive_seen_def Let_def f pd(3))
      qed
    qed
  qed
qed

lemma active_seen_ext:
  assumes p: "plain st" and n: "active_seen st w \<noteq> Nothing"
  shows "active_seen st (w @ b) = active_seen st w"
proof -
  note pd = plainD [OF p]
  let ?e = "em_token (st_end st)" and ?ts = "st_openers st"
  note f = em_find_plain [OF pd(1,2)]
  show ?thesis
  proof (cases "first_opener w ?ts None")
    case so: None
    with n obtain j where j: "sfind ?e w = Some j"
      by (auto simp: active_seen_def f split: option.splits if_splits)
    have "\<not> i < j" if "first_opener (w @ b) ?ts None = Some i" for i
    proof -
      from first_opener_Some [OF that] obtain t where t: "t \<in> set ?ts" "sfind t (w @ b) = Some i" by auto
      with so have "sfind t w = None" by (simp add: first_opener_None)
      from later_straddle_strict [OF j this t(2)] t(1) pd show ?thesis by auto
    qed
    with j so sfind_ext [OF j, of b] show ?thesis
      by (auto simp: active_seen_def f split: option.splits)
  next
    case so: (Some i)
    have e: "first_opener (w @ b) ?ts None = Some i" by (rule first_opener_ext [OF so]) (use pd in auto)
    from first_opener_Some [OF so] obtain t where t: "t \<in> set ?ts" "sfind t w = Some i" by auto
    show ?thesis
    proof (cases "sfind ?e w")
      case None
      have "i < j" if "sfind ?e (w @ b) = Some j" for j
        using later_straddle_strict [OF t(2) None that] pd t(1) by auto
      with None so e show ?thesis by (auto simp: active_seen_def f split: option.splits)
    next
      case (Some j)
      with so e sfind_ext [OF Some, of b] show ?thesis by (simp add: active_seen_def f)
    qed
  qed
qed

lemma inactive_seen_skip:
  assumes p: "plain st" and n: "noocc (st_start st) (length u) (u @ w)"
    "closed_once st \<Longrightarrow> noocc (em_token (st_end st)) (length u) (u @ w)"
  shows "inactive_seen st (u @ w) = shift (length u) (inactive_seen st w)"
  using sfind_skip [OF n(1)] sfind_skip [OF n(2)]
  by (auto simp: inactive_seen_def Let_def em_find_plain [OF plainD(1,2) [OF p]] plainD(3) [OF p] split: option.splits)

lemma active_seen_skip:
  assumes p: "plain st" and n: "\<forall>t \<in> set (em_token (st_end st) # st_openers st). noocc t (length u) (u @ w)"
  shows "active_seen st (u @ w) = shift (length u) (active_seen st w)"
  using sfind_skip [of "em_token (st_end st)" u w] first_opener_skip [of "st_openers st" u w None] n
  by (auto simp: active_seen_def em_find_plain [OF plainD(1,2) [OF p]] split: option.splits)

subsection \<open>Emission\<close>

lemma emit_content_eq:
  "emit_content w st = (or_none (if content_started st then w else lstrip_nl w),
     st\<lparr>content_started := content_started st \<or> lstrip_nl w \<noteq> []\<rparr>)"
  by (cases st) (auto simp: emit_content_def or_none_def)

lemma emit_reasoning_eq:
  "emit_reasoning w st = (or_none (if reasoning_started st then w else lstrip_nl w),
     st\<lparr>reasoning_started := reasoning_started st \<or> lstrip_nl w \<noteq> []\<rparr>)"
  by (cases st) (auto simp: emit_reasoning_def or_none_def)

lemma opt_str_simps [simp]: "opt_str None = []" "opt_str (Some s) = s" "opt_str (or_none s) = s"
  "opt_str (opt_cat a b) = opt_str a @ opt_str b"
  by (simp_all add: opt_str_def or_none_def opt_cat_def)

lemma lstrip_nl_append: "lstrip_nl (x @ y) = (if lstrip_nl x = [] then lstrip_nl y else lstrip_nl x @ y)"
  by (induction x) (auto simp: lstrip_nl_def)

lemma lstrip_nl_Nil [simp]: "lstrip_nl [] = []"
  by (simp add: lstrip_nl_def)

text \<open>Chunks as strings: a missing one is the empty one.\<close>

definition strs :: "stream \<times> pystr option \<times> pystr option \<Rightarrow> stream \<times> pystr \<times> pystr" where
  "strs x = (case x of (s, r, c) \<Rightarrow> (s, opt_str r, opt_str c))"

definition after :: "pystr \<Rightarrow> pystr \<Rightarrow> stream \<times> pystr \<times> pystr \<Rightarrow> stream \<times> pystr \<times> pystr" where
  "after R C x = (case x of (s, r, c) \<Rightarrow> (s, R @ r, C @ c))"

lemma strs_simps [simp]: "strs (s, r, c) = (s, opt_str r, opt_str c)" "after R C (s, x, y) = (s, R @ x, C @ y)"
  by (simp_all add: strs_def after_def)

lemma after_after [simp]: "after R C (after R' C' x) = after (R @ R') (C @ C') x" "after [] [] x = x"
  by (cases x; simp)+

lemma seen_frame [simp]:
  "inactive_seen (st\<lparr>content_started := x\<rparr>) = inactive_seen st" "inactive_seen (st\<lparr>st_pending := y\<rparr>) = inactive_seen st"
  "active_seen (st\<lparr>reasoning_started := x\<rparr>) = active_seen st" "active_seen (st\<lparr>st_pending := y\<rparr>) = active_seen st"
  by (simp_all add: fun_eq_iff inactive_seen_def active_seen_def)

lemma plain_frame [simp]:
  "plain (st\<lparr>content_started := x\<rparr>) = plain st" "plain (st\<lparr>st_pending := y\<rparr>) = plain st"
  "plain (st\<lparr>reasoning_started := x\<rparr>) = plain st" "plain (st\<lparr>st_active := z\<rparr>) = plain st"
  "plain (st\<lparr>closed_once := z\<rparr>) = plain st" "plain (st\<lparr>probing := z\<rparr>) = plain st" "plain (st\<lparr>probe := y\<rparr>) = plain st"
  by (simp_all add: plain_def delims_def)

lemma inactive_step:
  "inactive_seen st w = Opener i \<Longrightarrow> strs (inactive_loop st out w) =
     (case open_span (out @ take i w) st of (content, st1) \<Rightarrow>
        after [] (opt_str content) (strs (active_run st1 (drop (i + length (st_start st)) w))))"
  "inactive_seen st w = Closer b e \<Longrightarrow> inactive_loop st out w = inactive_loop st (out @ take b w) (drop e w)"
  "inactive_seen st w = Nothing \<Longrightarrow> inactive_loop st out w = inactive_hold st out w"
  by (subst inactive_loop.simps; simp split: prod.splits)+

lemma active_step:
  "active_seen st w = Opener i \<Longrightarrow> strs (active_run st w) =
     (case close_span (take i w) st of (reasoning, st1) \<Rightarrow>
        after (opt_str reasoning) [] (strs (inactive_loop st1 [] (drop i w))))"
  "active_seen st w = Closer b e \<Longrightarrow> strs (active_run st w) =
     (case close_span (take b w) st of (reasoning, st1) \<Rightarrow>
        after (opt_str reasoning) [] (strs (inactive_loop st1 [] (drop e w))))"
  "active_seen st w = Nothing \<Longrightarrow> active_run st w = active_hold st w"
  by (subst active_run.simps; simp split: prod.splits)+

lemma pending_irrelevant:
  "inactive_loop (st\<lparr>st_pending := x\<rparr>) out w = inactive_loop st out w"
  "active_run (st\<lparr>st_pending := x\<rparr>) w = active_run st w"
proof (induction st out w and st w arbitrary: x and x rule: inactive_loop_active_run.induct)
  case (1 st out w)
  show ?case
  proof (cases "inactive_seen st w")
    case (Opener i)
    obtain c st1 where o1: "open_span (out @ take i w) st = (c, st1)" by fastforce
    then have "open_span (out @ take i w) (st\<lparr>st_pending := x\<rparr>) = (c, st1\<lparr>st_pending := x\<rparr>)"
      by (auto simp: open_span_def emit_content_eq)
    with 1(1) [OF Opener o1 [symmetric], of x] Opener o1 show ?thesis
      by (subst (1 2) inactive_loop.simps) simp
  next
    case (Closer b e)
    then show ?thesis using 1(2) [OF Closer, of x] by (simp add: inactive_step(2))
  next
    case Nothing
    then show ?thesis by (simp add: inactive_step(3) inactive_hold_def emit_content_eq)
  qed
next
  case (2 st w)
  show ?case
  proof (cases "active_seen st w")
    case (Opener i)
    then show ?thesis by (subst (1 2) active_run.simps) (simp add: close_span_def emit_reasoning_eq)
  next
    case (Closer b e)
    then show ?thesis by (subst (1 2) active_run.simps) (simp add: close_span_def emit_reasoning_eq)
  next
    case Nothing
    then show ?thesis by (simp add: active_step(3) active_hold_def emit_reasoning_eq)
  qed
qed

text \<open>Pieces collected before the loop could have been emitted at once.\<close>

lemma out_law:
  assumes "emit_content x st = (c0, st0)"
  shows "strs (inactive_loop st (x @ out) w) = after [] (opt_str c0) (strs (inactive_loop st0 out w))"
  using assms
proof (induction "length w" arbitrary: out w rule: less_induct)
  case less
  have s: "st0 = st\<lparr>content_started := content_started st \<or> lstrip_nl x \<noteq> []\<rparr>"
    and c: "opt_str c0 = (if content_started st then x else lstrip_nl x)" using less(2) by (auto simp: emit_content_eq)
  have seen: "inactive_seen st0 = inactive_seen st" by (simp add: s)
  show ?case
  proof (cases "inactive_seen st w")
    case (Opener i)
    then show ?thesis using seen
      by (simp add: inactive_step(1) s c open_span_def emit_content_eq lstrip_nl_append)
  next
    case (Closer b e)
    have "length (drop e w) < length w" using inactive_seen_props(2) [OF Closer] by auto
    from less(1) [OF this less(2), of "out @ take b w"] Closer seen show ?thesis
      by (simp add: inactive_step(2))
  next
    case Nothing
    then show ?thesis using seen
      by (simp add: inactive_step(3) inactive_hold_def s c emit_content_eq lstrip_nl_append Let_def)
  qed
qed

lemma keep_append: "k \<le> length w \<Longrightarrow> keep_head k (u @ w) = u @ keep_head k w \<and> keep_tail k (u @ w) = keep_tail k w"
  by (simp add: keep_head_def keep_tail_def)

definition inactive_keep :: "stream \<Rightarrow> pystr \<Rightarrow> nat" where
  "inactive_keep st w = max (end_overlap_len w [st_start st]) (em_hold (st_end st) w)"

definition active_keep :: "stream \<Rightarrow> pystr \<Rightarrow> nat" where
  "active_keep st w = max (em_hold (st_end st) w) (end_overlap_len w (st_openers st))"

text \<open>A head in which no delimiter starts joins what is emitted.\<close>

definition free_head :: "pystr list \<Rightarrow> pystr \<Rightarrow> pystr \<Rightarrow> bool" where
  "free_head ts u w = (\<forall>t \<in> set ts. nopart t (length u) (u @ w))"

lemma overlaps_foldl:
  "foldl (\<lambda>best t. if t = [] then best else max best (overlap1 w t)) m ts = Max (insert m ((overlap1 w) ` {t \<in> set ts. t \<noteq> []}))"
proof (induction ts arbitrary: m)
  case (Cons t ts)
  have "{x \<in> set (t # ts). x \<noteq> []} = (if t = [] then {} else {t}) \<union> {x \<in> set ts. x \<noteq> []}" by auto
  moreover have "Max (insert (max m x) A) = Max (insert m (insert x A))" if "finite A" for x and A :: "nat set"
    using that by (cases "A = {}") (simp_all add: max.assoc)
  ultimately show ?case using Cons.IH by (cases "t = []") simp_all
qed simp

lemma end_overlap_Max: "end_overlap_len w ts = Max (insert 0 ((overlap1 w) ` {t \<in> set ts. t \<noteq> []}))"
  by (simp add: end_overlap_len_def overlaps_foldl)

lemma end_overlap_le: "end_overlap_len w ts \<le> length w"
  by (simp add: end_overlap_Max overlap1_le(1))

lemma end_overlap_ge: "t \<in> set ts \<Longrightarrow> t \<noteq> [] \<Longrightarrow> overlap1 w t \<le> end_overlap_len w ts"
  by (simp add: end_overlap_Max)

lemma end_overlap_skip:
  assumes "free_head ts u w"
  shows "end_overlap_len (u @ w) ts = end_overlap_len w ts"
proof -
  have "overlap1 (u @ w) ` {t \<in> set ts. t \<noteq> []} = overlap1 w ` {t \<in> set ts. t \<noteq> []}"
    using assms by (intro image_cong) (auto simp: free_head_def overlap_skip)
  then show ?thesis by (simp add: end_overlap_Max)
qed

subsection \<open>The part a chunk emits\<close>

lemma inactive_skip:
  assumes p: "plain st"
    and n: "noocc (st_start st) (length u) (u @ w)" "nopart (st_start st) (length u) (u @ w)"
      "nopart (em_token (st_end st)) (length u) (u @ w)"
      "closed_once st \<Longrightarrow> noocc (em_token (st_end st)) (length u) (u @ w)"
  shows "strs (inactive_loop st out (u @ w)) = strs (inactive_loop st (out @ u) w)"
proof -
  note pd = plainD [OF p]
  have s: "inactive_seen st (u @ w) = shift (length u) (inactive_seen st w)"
    by (rule inactive_seen_skip [OF p n(1) n(4)])
  show ?thesis
  proof (cases "inactive_seen st w")
    case (Opener i)
    then show ?thesis using s by (simp add: inactive_step(1) add.assoc)
  next
    case (Closer b e)
    then show ?thesis using s by (simp add: inactive_step(2))
  next
    case Nothing
    have k: "end_overlap_len (u @ w) [st_start st] = end_overlap_len w [st_start st]"
      "em_hold (st_end st) (u @ w) = em_hold (st_end st) w"
      using n(2,3) pd(1-3) by (simp_all add: end_overlap_skip free_head_def em_hold_plain overlap_skip)
    have "max (end_overlap_len w [st_start st]) (em_hold (st_end st) w) \<le> length w"
      using pd(1,2) by (simp add: end_overlap_le em_hold_plain overlap1_le(1))
    from keep_append [OF this, of u] Nothing s show ?thesis
      by (simp add: inactive_step(3) inactive_hold_def k)
  qed
qed

lemma active_skip:
  assumes p: "plain st"
    and n: "\<forall>t \<in> set (em_token (st_end st) # st_openers st). noocc t (length u) (u @ w) \<and> nopart t (length u) (u @ w)"
    and e: "emit_reasoning u st = (r0, st0)"
  shows "strs (active_run st (u @ w)) = after (opt_str r0) [] (strs (active_run st0 w))"
proof -
  note pd = plainD [OF p]
  have s: "active_seen st (u @ w) = shift (length u) (active_seen st w)"
    by (rule active_seen_skip [OF p]) (use n in blast)
  have s0: "st0 = st\<lparr>reasoning_started := reasoning_started st \<or> lstrip_nl u \<noteq> []\<rparr>"
    and r: "opt_str r0 = (if reasoning_started st then u else lstrip_nl u)" using e by (auto simp: emit_reasoning_eq)
  have seen: "active_seen st0 = active_seen st" by (simp add: s0)
  show ?thesis
  proof (cases "active_seen st w")
    case (Opener i)
    then show ?thesis using s seen
      by (simp add: active_step(1) s0 r close_span_def emit_reasoning_eq lstrip_nl_append)
  next
    case (Closer b e)
    then show ?thesis using s seen
      by (simp add: active_step(2) s0 r close_span_def emit_reasoning_eq lstrip_nl_append)
  next
    case Nothing
    have k: "end_overlap_len (u @ w) (st_openers st) = end_overlap_len w (st_openers st)"
      "em_hold (st_end st) (u @ w) = em_hold (st_end st) w"
      using n pd(1-3) by (simp_all add: end_overlap_skip free_head_def em_hold_plain overlap_skip)
    have "max (em_hold (st_end st) w) (end_overlap_len w (st_openers st)) \<le> length w"
      using pd(1,2) by (simp add: end_overlap_le em_hold_plain overlap1_le(1))
    from keep_append [OF this, of u] Nothing s seen show ?thesis
      by (simp add: active_step(3) active_hold_def k s0 r emit_reasoning_eq lstrip_nl_append Let_def)
  qed
qed

subsection \<open>What follows a chunk\<close>

definition feed :: "pystr \<Rightarrow> stream \<times> pystr \<times> pystr \<Rightarrow> stream \<times> pystr \<times> pystr" where
  "feed b x = (case x of (st, r, c) \<Rightarrow> after r c (strs (push_on b st)))"

lemma feed_after [simp]: "feed b (after R C x) = after R C (feed b x)"
  by (cases x) (simp add: feed_def)

lemma feed_strs: "feed b (strs (st, r, c)) = after (opt_str r) (opt_str c) (strs (push_on b st))"
  by (simp add: feed_def)

lemma hold_heads:
  assumes "keep_head k w = u" "k \<le> length w" "t \<noteq> []" "overlap1 w t \<le> k"
  shows "nopart t (length u) (w @ b)" "sfind t w = None \<Longrightarrow> noocc t (length u) (w @ b)"
proof -
  have u: "length u = length w - k" using assms(1,2) by (auto simp: keep_head_def)
  have n: "nopart t (length u) w" by (rule overlap1_nopart [OF assms(3)]) (use u assms(4) in simp)
  show "nopart t (length u) (w @ b)" by (rule nopart_ext [OF n]) (simp add: u)
  show "noocc t (length u) (w @ b)" if "sfind t w = None"
    using noocc_ext [OF _ n, of b] that u by (auto simp: noocc_def sfind_None)
qed

lemma keep_join: "keep_head k w @ keep_tail k w = w"
  by (simp add: keep_head_def keep_tail_def)

lemma inactive_rest:
  assumes p: "plain st" and a: "\<not> st_active st" and n: "inactive_seen st w = Nothing"
  shows "strs (inactive_loop st out (w @ b)) = feed b (strs (inactive_loop st out w))"
proof -
  note pd = plainD [OF p]
  define k where "k = max (end_overlap_len w [st_start st]) (em_hold (st_end st) w)"
  define u v where "u = keep_head k w" and "v = keep_tail k w"
  have uv: "w = u @ v" by (simp add: u_def v_def keep_join)
  have kw: "k \<le> length w" using pd(1,2) by (simp add: k_def end_overlap_le em_hold_plain overlap1_le(1))
  have ks: "overlap1 w (st_start st) \<le> k" "overlap1 w (em_token (st_end st)) \<le> k"
    using pd(1-3) end_overlap_ge [of "st_start st" "[st_start st]" w] by (auto simp: k_def em_hold_plain)
  have sn: "sfind (st_start st) w = None" "closed_once st \<Longrightarrow> sfind (em_token (st_end st)) w = None"
    using n by (auto simp: inactive_seen_def Let_def em_find_plain [OF pd(1,2)] pd(3) split: option.splits if_splits)
  note hs = hold_heads [OF u_def [symmetric] kw pd(3) ks(1), of b]
    and he = hold_heads [OF u_def [symmetric] kw pd(2) ks(2), of b]
  obtain c st0 where e: "emit_content (out @ u) st = (c, st0)" by fastforce
  have l: "strs (inactive_loop st out (w @ b)) = strs (inactive_loop st (out @ u) (v @ b))"
    using inactive_skip [OF p, of u "v @ b" out] hs he sn by (simp add: uv)
  have "\<dots> = after [] (opt_str c) (strs (inactive_loop st0 [] (v @ b)))"
    using out_law [OF e, of "[]" "v @ b"] by simp
  moreover have "inactive_loop st out w = (st0\<lparr>st_pending := v\<rparr>, None, c)"
    using n e by (auto simp: inactive_step(3) inactive_hold_def k_def [symmetric] u_def [symmetric] v_def [symmetric] emit_content_eq)
  moreover have "\<not> st_active st0" using a e by (auto simp: emit_content_eq)
  ultimately show ?thesis using l
    by (simp add: feed_def push_on_def push_inactive_def pending_irrelevant)
qed

lemma active_rest:
  assumes p: "plain st" and a: "st_active st" and n: "active_seen st w = Nothing"
  shows "strs (active_run st (w @ b)) = feed b (strs (active_run st w))"
proof -
  note pd = plainD [OF p]
  define k where "k = max (em_hold (st_end st) w) (end_overlap_len w (st_openers st))"
  define u v where "u = keep_head k w" and "v = keep_tail k w"
  have uv: "w = u @ v" by (simp add: u_def v_def keep_join)
  have kw: "k \<le> length w" using pd(1,2) by (simp add: k_def end_overlap_le em_hold_plain overlap1_le(1))
  have ks: "overlap1 w t \<le> k" if "t \<in> set (em_token (st_end st) # st_openers st)" for t
    using that pd(1,2,4) end_overlap_ge [of t "st_openers st" w] by (auto simp: k_def em_hold_plain le_max_iff_disj)
  have sn: "sfind t w = None" if "t \<in> set (em_token (st_end st) # st_openers st)" for t
    using that n by (auto simp: active_seen_def em_find_plain [OF pd(1,2)] first_opener_None split: option.splits if_splits)
  have h: "noocc t (length u) (u @ v @ b) \<and> nopart t (length u) (u @ v @ b)"
    if t: "t \<in> set (em_token (st_end st) # st_openers st)" for t
  proof -
    have "t \<noteq> []" using t pd(2,4) by auto
    from hold_heads [OF u_def [symmetric] kw this ks [OF t], of b] sn [OF t] show ?thesis
      using uv by simp
  qed
  obtain r st0 where e: "emit_reasoning u st = (r, st0)" by fastforce
  have "strs (active_run st (w @ b)) = after (opt_str r) [] (strs (active_run st0 (v @ b)))"
    using active_skip [OF p _ e, of "v @ b"] h by (simp add: uv)
  moreover have "active_run st w = (st0\<lparr>st_pending := v\<rparr>, r, None)"
    using n e by (auto simp: active_step(3) active_hold_def k_def [symmetric] u_def [symmetric] v_def [symmetric] emit_reasoning_eq)
  moreover have "st_active st0" using a e by (auto simp: emit_reasoning_eq)
  ultimately show ?thesis
    by (simp add: feed_def push_on_def push_active_def pending_irrelevant)
qed

lemma active_opener_le: "active_seen st w = Opener i \<Longrightarrow> i \<le> length w"
  by (auto simp: active_seen_def split: option.splits if_splits dest!: first_opener_Some sfind_bound)

text \<open>A text cut in two: the loops on the whole are the loops on the first part, fed the second.\<close>

lemma loops_feed:
  "plain st \<Longrightarrow> \<not> st_active st \<Longrightarrow> strs (inactive_loop st out (w @ b)) = feed b (strs (inactive_loop st out w))"
  "plain st' \<Longrightarrow> st_active st' \<Longrightarrow> strs (active_run st' (w' @ b)) = feed b (strs (active_run st' w'))"
proof (induction st out w and st' w' rule: inactive_loop_active_run.induct)
  case (1 st out w)
  show ?case
  proof (cases "inactive_seen st w")
    case (Opener i)
    obtain c st1 where o1: "open_span (out @ take i w) st = (c, st1)" by fastforce
    then have "plain st1" "st_active st1" using 1(3) by (auto simp: open_span_def emit_content_eq)
    note ih = 1(1) [OF Opener o1 [symmetric] this]
    have "i + length (st_start st) \<le> length w" using inactive_seen_props(1) [OF Opener] by simp
    moreover have "inactive_seen st (w @ b) = Opener i" using inactive_seen_ext [OF 1(3), of w b] Opener by simp
    ultimately show ?thesis using Opener o1 ih by (simp add: inactive_step(1))
  next
    case (Closer b' e)
    have "inactive_seen st (w @ b) = Closer b' e" using inactive_seen_ext [OF 1(3), of w b] Closer by simp
    moreover have "b' < e \<and> e \<le> length w" by (rule inactive_seen_props(2) [OF Closer])
    ultimately show ?thesis using Closer 1(2) [OF Closer 1(3,4)] by (simp add: inactive_step(2))
  next
    case Nothing
    then show ?thesis by (rule inactive_rest [OF 1(3,4)])
  qed
next
  case (2 st w)
  show ?case
  proof (cases "active_seen st w")
    case (Opener i)
    obtain r st1 where o1: "close_span (take i w) st = (r, st1)" by fastforce
    then have "plain st1" "\<not> st_active st1" using 2(3) by (auto simp: close_span_def emit_reasoning_eq)
    note ih = 2(1) [OF Opener o1 [symmetric] this]
    have "i \<le> length w" using active_opener_le [OF Opener] .
    moreover have "active_seen st (w @ b) = Opener i" using active_seen_ext [OF 2(3), of w b] Opener by simp
    ultimately show ?thesis using Opener o1 ih by (simp add: active_step(1))
  next
    case (Closer b' e)
    obtain r st1 where o1: "close_span (take b' w) st = (r, st1)" by fastforce
    then have "plain st1" "\<not> st_active st1" using 2(3) by (auto simp: close_span_def emit_reasoning_eq)
    note ih = 2(2) [OF Closer o1 [symmetric] this]
    have "active_seen st (w @ b) = Closer b' e" using active_seen_ext [OF 2(3), of w b] Closer by simp
    moreover have "b' < e \<and> e \<le> length w" by (rule active_seen_props [OF Closer])
    ultimately show ?thesis using Closer o1 ih by (simp add: active_step(2))
  next
    case Nothing
    then show ?thesis by (rule active_rest [OF 2(3,4)])
  qed
qed

text \<open>What no chunk changes.\<close>

definition kept :: "stream \<Rightarrow> stream \<Rightarrow> bool" where
  "kept st st' \<longleftrightarrow> st_start st' = st_start st \<and> st_end st' = st_end st \<and> st_openers st' = st_openers st \<and> probing st' = probing st"

lemma loops_kept:
  "kept st (fst (inactive_loop st out w))" "kept st' (fst (active_run st' w'))"
proof (induction st out w and st' w' rule: inactive_loop_active_run.induct)
  case (1 st out w)
  show ?case
  proof (cases "inactive_seen st w")
    case (Opener i)
    obtain c st1 where o1: "open_span (out @ take i w) st = (c, st1)" by fastforce
    then have "kept st st1" by (auto simp: kept_def open_span_def emit_content_eq)
    with 1(1) [OF Opener o1 [symmetric]] Opener o1 show ?thesis
      by (subst inactive_loop.simps) (auto simp: kept_def split: prod.splits)
  next
    case (Closer b e)
    with 1(2) [OF Closer] show ?thesis by (simp add: inactive_step(2))
  next
    case Nothing
    then show ?thesis by (simp add: inactive_step(3) inactive_hold_def emit_content_eq kept_def Let_def)
  qed
next
  case (2 st w)
  show ?case
  proof (cases "active_seen st w")
    case (Opener i)
    obtain r st1 where o1: "close_span (take i w) st = (r, st1)" by fastforce
    then have "kept st st1" by (auto simp: kept_def close_span_def emit_reasoning_eq)
    with 2(1) [OF Opener o1 [symmetric]] Opener o1 show ?thesis
      by (subst active_run.simps) (auto simp: kept_def split: prod.splits)
  next
    case (Closer b e)
    obtain r st1 where o1: "close_span (take b w) st = (r, st1)" by fastforce
    then have "kept st st1" by (auto simp: kept_def close_span_def emit_reasoning_eq)
    with 2(2) [OF Closer o1 [symmetric]] Closer o1 show ?thesis
      by (subst active_run.simps) (auto simp: kept_def split: prod.splits)
  next
    case Nothing
    then show ?thesis by (simp add: active_step(3) active_hold_def emit_reasoning_eq kept_def Let_def)
  qed
qed

lemma kept_plain: "kept st st' \<Longrightarrow> plain st' = plain st"
  by (simp add: kept_def plain_def delims_def)

lemma push_on_kept: "kept st (fst (push_on w st))"
  using loops_kept(1) [of "st\<lparr>st_pending := []\<rparr>" "[]" "st_pending st @ w"] loops_kept(2) [of st "st_pending st @ w"]
  by (simp add: push_on_def push_active_def push_inactive_def kept_def)

lemma push_on_feed:
  assumes "plain st"
  shows "strs (push_on (a @ b) st) = feed b (strs (push_on a st))"
  using loops_feed(1) [of "st\<lparr>st_pending := []\<rparr>" "[]" "st_pending st @ a" b] loops_feed(2) [of st "st_pending st @ a" b] assms
  by (simp add: push_on_def push_active_def push_inactive_def)

text \<open>A list of chunks, their outputs joined.\<close>

fun feeds :: "pystr list \<Rightarrow> stream \<Rightarrow> stream \<times> pystr \<times> pystr" where
  "feeds [] st = (st, [], [])"
| "feeds (w # ws) st = (case push w st of (st', r, c) \<Rightarrow> after (opt_str r) (opt_str c) (feeds ws st'))"

text \<open>
  The first non-newline characters are probed for an opener or a turn header; while they may
  still become one, nothing is emitted.  Neither of the two begins with the other.
\<close>

definition probe_clear :: "stream \<Rightarrow> bool" where
  "probe_clear st = (st_header st = [] \<or> (\<not> prefix (st_header st) (st_start st) \<and> \<not> prefix (st_start st) (st_header st)))"

definition cut_free :: "stream \<Rightarrow> bool" where
  "cut_free st = (plain st \<and> (probing st \<longrightarrow> st_active st \<and> probe_clear st))"

lemma prefix_or_longer: "prefix t (h @ b) \<longleftrightarrow> prefix t h \<or> (prefix h t \<and> prefix t (h @ b))"
  by (metis prefix_prefix prefix_same_cases prefix_def)

lemma not_longer: "\<not> prefix t h \<Longrightarrow> \<not> prefix h t \<Longrightarrow> \<not> prefix t (h @ b)"
  using prefix_or_longer by blast

definition next_push :: "pystr \<Rightarrow> stream \<times> pystr \<times> pystr \<Rightarrow> stream \<times> pystr \<times> pystr" where
  "next_push b x = (case x of (st, r, c) \<Rightarrow> after r c (strs (push b st)))"

lemma next_push_feed:
  assumes "\<not> probing st"
  shows "next_push b (strs (push_on a st)) = feed b (strs (push_on a st))"
proof -
  have "\<not> probing (fst (push_on a st))" using push_on_kept [of st a] assms by (simp add: kept_def)
  then show ?thesis by (cases "push_on a st") (simp add: next_push_def feed_def push_def)
qed

lemma push_probing:
  assumes "probing st" "st_start st \<noteq> []" "lstrip_nl (probe st @ w) = h"
  shows "prefix (st_start st) h \<Longrightarrow>
      push w st = push_active (drop (length (st_start st)) h) (st\<lparr>probing := False, st_active := True, probe := []\<rparr>)"
    "\<not> prefix (st_start st) h \<Longrightarrow> st_header st \<noteq> [] \<Longrightarrow> prefix (st_header st) h \<Longrightarrow>
      push w st = push_on (drop (length (st_header st)) h) (st\<lparr>probing := False, probe := []\<rparr>)"
    "\<not> prefix (st_start st) h \<Longrightarrow> \<not> (st_header st \<noteq> [] \<and> prefix (st_header st) h) \<Longrightarrow>
      h = [] \<or> prefix h (st_start st) \<or> st_header st \<noteq> [] \<and> prefix h (st_header st) \<Longrightarrow>
      push w st = (st\<lparr>probe := probe st @ w\<rparr>, None, None)"
    "\<not> prefix (st_start st) h \<Longrightarrow> \<not> (st_header st \<noteq> [] \<and> prefix (st_header st) h) \<Longrightarrow> h \<noteq> [] \<Longrightarrow>
      \<not> prefix h (st_start st) \<Longrightarrow> \<not> (st_header st \<noteq> [] \<and> prefix h (st_header st)) \<Longrightarrow> st_active st \<Longrightarrow>
      push w st = push_active (probe st @ w) (st\<lparr>probing := False, probe := []\<rparr>)"
  using assms by (auto simp add: push_def Let_def)

lemma probe_cases:
  obtains (start) "prefix (st_start st) h" | (header) "\<not> prefix (st_start st) h" "st_header st \<noteq> []" "prefix (st_header st) h"
    | (waits) "\<not> prefix (st_start st) h" "\<not> (st_header st \<noteq> [] \<and> prefix (st_header st) h)"
        "h = [] \<or> prefix h (st_start st) \<or> st_header st \<noteq> [] \<and> prefix h (st_header st)"
    | (free) "\<not> prefix (st_start st) h" "\<not> (st_header st \<noteq> [] \<and> prefix (st_header st) h)" "h \<noteq> []"
        "\<not> prefix h (st_start st)" "\<not> (st_header st \<noteq> [] \<and> prefix h (st_header st))"
  by blast

lemma push_active_next:
  assumes "plain t" "st_active t" "\<not> probing t"
  shows "strs (push_active (w @ b) t) = next_push b (strs (push_active w t))"
  using push_on_feed [of t w b] next_push_feed [of t b w] assms by (simp add: push_on_def)

lemma push_probing_next:
  assumes p: "plain st" "st_active st" "probe_clear st" "probing st"
  shows "strs (push (a @ b) st) = next_push b (strs (push a st))"
proof -
  let ?s = "st_start st" and ?h = "st_header st"
  define h where "h = lstrip_nl (probe st @ a)"
  have s: "?s \<noteq> []" using plainD(3) [OF p(1)] .
  note pa = push_probing [OF p(4) s h_def [symmetric]]
  have hb: "lstrip_nl (probe st @ a @ b) = h @ b" if "h \<noteq> []"
    using lstrip_nl_append [of "probe st @ a" b] that by (simp add: h_def)
  note pb = push_probing [OF p(4) s hb]
  show ?thesis
  proof (cases rule: probe_cases [of st h])
    case start
    then have l: "h \<noteq> []" "length ?s \<le> length h" using s by (auto dest: prefix_length_le)
    have "prefix ?s (h @ b)" using start by simp
    then show ?thesis using pa(1) [OF start] pb(1) [OF l(1)] l(2) p
      by (simp add: push_active_next)
  next
    case header
    then have l: "h \<noteq> []" "length ?h \<le> length h" by (auto dest: prefix_length_le)
    have n: "\<not> prefix ?s (h @ b)"
      using header p(3) prefix_order.trans [of ?h h ?s] by (subst prefix_or_longer) (auto simp: probe_clear_def)
    have "prefix ?h (h @ b)" using header by simp
    then show ?thesis using pa(2) [OF header] pb(2) [OF l(1) n header(2)] l(2) p
      by (simp add: push_on_def push_active_next)
  next
    case waits
    then show ?thesis using pa(3) [OF waits] p(4) by (simp add: next_push_def push_def)
  next
    case free
    have n: "\<not> prefix ?s (h @ b)" "\<not> (?h \<noteq> [] \<and> prefix ?h (h @ b))"
      using free not_longer by blast+
    have m: "\<not> prefix (h @ b) ?s" "\<not> (?h \<noteq> [] \<and> prefix (h @ b) ?h)"
      using free append_prefixD by blast+
    have "push (a @ b) st = push_active ((probe st @ a) @ b) (st\<lparr>probing := False, probe := []\<rparr>)"
      using pb(4) [OF free(3) n _ m p(2)] free(3) by simp
    also have "strs \<dots> = next_push b (strs (push_active (probe st @ a) (st\<lparr>probing := False, probe := []\<rparr>)))"
      by (rule push_active_next) (use p in simp_all)
    finally show ?thesis by (simp only: pa(4) [OF free p(2)])
  qed
qed

lemma push_next:
  assumes c: "cut_free st"
  shows "strs (push (a @ b) st) = next_push b (strs (push a st))"
proof (cases "probing st")
  case False
  then show ?thesis using push_on_feed [of st a b] next_push_feed [of st b a] c by (simp add: push_def cut_free_def)
next
  case True
  then show ?thesis using push_probing_next c by (simp add: cut_free_def)
qed

lemma decided_cut_free: "plain t \<Longrightarrow> \<not> probing t \<Longrightarrow> cut_free (fst (push_on w t))"
  using push_on_kept [of t w] by (simp add: cut_free_def kept_plain) (simp add: kept_def)

lemma decided_active_cut_free: "plain t \<Longrightarrow> \<not> probing t \<Longrightarrow> st_active t \<Longrightarrow> cut_free (fst (push_active w t))"
  using decided_cut_free [of t w] by (simp add: push_on_def)

lemma push_cut_free:
  assumes "cut_free st"
  shows "cut_free (fst (push w st))"
proof (cases "probing st")
  case False
  then show ?thesis using decided_cut_free assms by (simp add: push_def cut_free_def)
next
  case True
  then have p: "plain st" "st_active st" "probe_clear st" using assms by (auto simp: cut_free_def)
  note pa = push_probing [OF True plainD(3) [OF p(1)] refl, of w]
  show ?thesis
  proof (cases rule: probe_cases [of st "lstrip_nl (probe st @ w)"])
    case start
    then show ?thesis using p by (simp add: pa(1) decided_active_cut_free)
  next
    case header
    then show ?thesis using p by (simp add: pa(2) decided_cut_free)
  next
    case waits
    then show ?thesis using p pa(3) [OF waits] by (simp add: cut_free_def probe_clear_def)
  next
    case free
    then show ?thesis using p pa(4) [OF free p(2)] by (simp add: decided_active_cut_free)
  qed
qed

lemma feeds_concat:
  assumes "cut_free st"
  shows "feeds (w # ws) st = strs (push (concat (w # ws)) st)"
  using assms
proof (induction ws arbitrary: w st)
  case Nil
  then show ?case by (auto simp: split: prod.splits)
next
  case (Cons w' ws)
  obtain st' r c where p: "push w st = (st', r, c)" by (cases "push w st") auto
  then have "cut_free st'" using push_cut_free [OF Cons.prems, of w] by simp
  from Cons.IH [OF this, of w'] push_next [OF Cons.prems, of w "concat (w' # ws)"] p show ?case
    by (simp add: next_push_def)
qed

subsection \<open>A whole reply\<close>

text \<open>All chunks, then the end of the stream: the reasoning and the content the client has.\<close>

definition reply :: "pystr list \<Rightarrow> stream \<Rightarrow> pystr \<times> pystr" where
  "reply ws st = (case feeds ws st of (st', r, c) \<Rightarrow> (case finish st' of (st'', r', c') \<Rightarrow> (r @ opt_str r', c @ opt_str c')))"

lemma wild_free_find:
  assumes p: "plain st" and t: "t \<in> set (delims st)" and n: "sfind t u = None"
    and e: "em_token (st_end st) = e" and i: "prefix t (drop i (u @ e @ v))" "i < length u"
  shows False
proof -
  have tn: "t \<noteq> []" and h: "hd e \<notin> set (tl t)" "e \<noteq> []"
    using p t e by (auto simp: plain_def delims_def)
  have "\<not> i + length t \<le> length u"
  proof
    assume "i + length t \<le> length u"
    then have "prefix t (drop i u @ e @ v)" "length t \<le> length (drop i u)" using i by simp_all
    then have "prefix t (drop i u)" by (metis append_Nil2 prefix_length_prefix prefixI)
    with n i(2) show False by (auto simp: sfind_None)
  qed
  moreover have "prefix e (drop (length u) (u @ e @ v))" by simp
  ultimately show False using occ_inside [of e "length u" "u @ e @ v" t i] i h by auto
qed

lemma sfind_None_all: "sfind t v = None \<Longrightarrow> \<not> prefix t (drop k v)"
  by (cases "k \<le> length v") (auto simp: sfind_None dest: spec [of _ "length v"])

lemma not_inside_token:
  assumes "hd t \<notin> set (tl e)" "t \<noteq> []" "sfind t v = None"
  shows "sfind t (tl e @ v) = None"
proof -
  have "\<not> prefix t (drop j (tl e @ v))" for j
  proof (cases "j < length (tl e)")
    case True
    then obtain c s where d: "drop j (tl e) = c # s" by (metis Cons_nth_drop_Suc)
    then have "c \<in> set (tl e)" by (metis in_set_dropD list.set_intros(1))
    with d True assms(1,2) show ?thesis by (cases t) auto
  next
    case False
    then show ?thesis using sfind_None_all [OF assms(3)] by simp
  qed
  then show ?thesis by (simp add: sfind_None)
qed

lemma sfind_lstrip: "sfind t v = None \<Longrightarrow> sfind t (lstrip_nl v) = None"
proof -
  assume a: "sfind t v = None"
  obtain k where "lstrip_nl v = drop k v" by (metis dropWhile_eq_drop lstrip_nl_def)
  then show ?thesis using sfind_None_all [OF a] by (simp add: sfind_None)
qed

lemma inactive_finish:
  assumes p: "plain st" "\<not> st_active st" "probe st = []" "\<not> content_started st"
    and n: "inactive_seen st v = Nothing" and r: "inactive_loop st [] v = (st', r, c)"
  shows "finish st' = (st'', r', c') \<Longrightarrow> r = None \<and> opt_str r' = [] \<and> opt_str c @ opt_str c' = lstrip_nl v"
proof -
  define k where "k = max (end_overlap_len v [st_start st]) (em_hold (st_end st) v)"
  have v: "lstrip_nl v = (if lstrip_nl (keep_head k v) = [] then lstrip_nl (keep_tail k v) else lstrip_nl (keep_head k v) @ keep_tail k v)"
    by (metis keep_join lstrip_nl_append)
  have st': "st' = st\<lparr>st_pending := keep_tail k v, content_started := lstrip_nl (keep_head k v) \<noteq> []\<rparr>"
    and rc: "r = None" "c = or_none (lstrip_nl (keep_head k v))"
    using r n p(4) by (auto simp: inactive_step(3) inactive_hold_def k_def emit_content_eq Let_def)
  assume "finish st' = (st'', r', c')"
  then show ?thesis using p rc st' v
    by (auto simp: finish_def flush_probe_def flush_pending_def emit_content_eq or_none_def
        split: if_splits prod.splits)
qed

text \<open>
  C20. Where the stream is cut does not matter: from a state whose delimiters are plain and that
  is past its probe (or probes inside an open span), any non-empty list of chunks leaves the
  splitter in the same state, with the same reasoning and the same content, as their
  concatenation in one chunk, during the stream and after its end.
\<close>

theorem chunking_irrelevant:
  assumes "cut_free st" "ws \<noteq> []"
  shows "feeds ws st = feeds [concat ws] st \<and> reply ws st = reply [concat ws] st"
proof -
  obtain w ws' where "ws = w # ws'" using assms(2) by (cases ws) auto
  then have "feeds ws st = feeds [concat ws] st"
    using feeds_concat [OF assms(1), of w ws'] feeds_concat [OF assms(1), of "concat ws" "[]"] by simp
  then show ?thesis by (simp add: reply_def)
qed

lemma em_rfind_from_last:
  assumes m: "\<not> wild m" "em_token m = e" "e \<noteq> []" and n: "sfind e (tl e @ b) = None" and i: "i \<le> length a"
  shows "em_rfind_from m (a @ e @ b) i found = Some (length a, length a + length e)"
  using i
proof (induction "length a - i" arbitrary: i found rule: less_induct)
  case less
  let ?w = "a @ e @ b"
  have f: "em_find m ?w k = map_option (\<lambda>j. (k + j, k + j + length e)) (sfind e (drop k ?w))" if "k \<le> length ?w" for k
    using m that by (simp add: em_find_def sfind_at_def option.map_comp comp_def)
  have at: "prefix e (drop (length a - i) (drop i ?w))" using less.prems by simp
  obtain j where j: "sfind e (drop i ?w) = Some j"
    using sfind_None_all [of e "drop i ?w" "length a - i"] at by blast
  have jl: "i + j \<le> length a"
  proof (rule ccontr)
    assume "\<not> i + j \<le> length a"
    then have "length a - i < j" using less.prems by simp
    with j at show False by (auto simp: sfind_Some noocc_def)
  qed
  have il: "i \<le> length ?w" using less.prems by simp
  have r: "em_rfind_from m ?w i found = em_rfind_from m ?w (Suc (i + j)) (Some (i + j, i + j + length e))"
    by (subst em_rfind_from.simps) (simp add: f [OF il] j del: drop_append)
  show ?case
  proof (cases "i + j = length a")
    case True
    have le: "Suc (length a) \<le> length ?w" using m(3) by (cases e) auto
    have "drop (Suc (length a)) ?w = tl e @ b" using m(3) by (cases e) simp_all
    then have "em_find m ?w (Suc (length a)) = None" using n f [OF le] by simp
    then show ?thesis using r True by (subst (asm) (2) em_rfind_from.simps) simp
  next
    case False
    then have "Suc (i + j) \<le> length a" "length a - Suc (i + j) < length a - i" using jl by auto
    from less.hyps [OF this(2,1)] show ?thesis by (simp add: r)
  qed
qed

lemma strip_lstrip_nl: "strip (lstrip_nl w) = strip w"
proof -
  have "py_space nl" by (simp add: py_space_def nl_def)
  then have "lstrip (lstrip_nl w) = lstrip w" by (induction w) (auto simp: lstrip_def lstrip_nl_def)
  then show ?thesis by (simp add: strip_def)
qed

lemma parse_reply:
  assumes p: "\<not> wild (end_tok p)" "em_token (end_tok p) = e" "e \<noteq> []" "start_token p = s" "s \<noteq> []" "turn_header p = []"
    and o: "front = [] \<or> front = s" and pre: "sfind s pre = None"
    and post: "sfind s post = None" "sfind e post = None" and h: "hd e \<notin> set (tl e)"
  shows "parse p (front @ pre @ e @ post) thinking openers = (or_none (strip pre), lstrip_nl post)"
proof -
  have "em_rfind (end_tok p) ((front @ pre) @ e @ post) = Some (length (front @ pre), length (front @ pre) + length e)"
    unfolding em_rfind_def by (rule em_rfind_from_last [OF p(1-3) not_inside_token [OF h p(3) post(2)]]) simp
  moreover have "after_first s (front @ pre) = pre"
    using o pre p(5) by (cases s) (auto simp: after_first_def)
  moreover have "sfind s (lstrip_nl post) = None" by (rule sfind_lstrip [OF post(1)])
  ultimately show ?thesis using p(3-6)
    by (simp add: parse_def strip_turn_header_def parse_closed_def Let_def)
qed

lemma active_reply:
  assumes p: "plain st" "em_token (st_end st) = e" and a: "st_active st" "probe st = []" "\<not> content_started st" "\<not> reasoning_started st"
    and pre: "\<forall>t \<in> set (e # st_openers st). sfind t pre = None"
    and post: "sfind (st_start st) post = None" "sfind e post = None"
    and r: "active_run st (pre @ e @ post) = (st', r, c)" "finish st' = (st'', r', c')"
  shows "opt_str r @ opt_str r' = lstrip_nl pre \<and> opt_str c @ opt_str c' = lstrip_nl post"
proof -
  note pd = plainD [OF p(1)]
  let ?w = "pre @ e @ post"
  have free: "\<not> prefix t (drop i ?w)" if "t \<in> set (e # st_openers st)" "i < length pre" for t i
    using wild_free_find [OF p(1) _ _ p(2), of t pre i post] that pre p(2) by (auto simp: delims_def)
  have e: "sfind e ?w = Some (length pre)" using free by (auto simp: sfind_Some noocc_def)
  have "\<not> i < length pre" if "first_opener ?w (st_openers st) None = Some i" for i
    using first_opener_Some [OF that] free by (auto simp: sfind_Some)
  then have seen: "active_seen st ?w = Closer (length pre) (length pre + length e)"
    using e by (auto simp: active_seen_def em_find_plain [OF pd(1,2)] p(2) split: option.splits)
  define st2 where "st2 = st\<lparr>reasoning_started := lstrip_nl pre \<noteq> [], st_active := False, closed_once := True, st_pending := []\<rparr>"
  obtain st3 r3 c3 where l: "inactive_loop st2 [] post = (st3, r3, c3)" by (cases "inactive_loop st2 [] post") auto
  have "active_run st ?w = (st3, opt_cat (or_none (lstrip_nl pre)) r3, c3)"
    using seen l a(4) by (subst active_run.simps) (simp add: close_span_def emit_reasoning_eq st2_def)
  then have s3: "st' = st3" "r = opt_cat (or_none (lstrip_nl pre)) r3" "c = c3" using r(1) by auto
  have p2: "plain st2" "\<not> st_active st2" "probe st2 = []" "\<not> content_started st2" using p(1) a by (simp_all add: st2_def)
  have "inactive_seen st2 post = Nothing"
    using post p(2) by (simp add: inactive_seen_def st2_def em_find_plain [OF pd(1,2)])
  from inactive_finish [OF p2 this l] r(2) s3 show ?thesis by simp
qed

lemma lstrip_split:
  assumes "e \<noteq> []" "hd e \<noteq> nl"
  shows "\<exists>x. lstrip_nl (u @ e @ v) = x @ e @ v \<and> (\<exists>k \<le> length u. lstrip_nl (u @ e @ v) = drop k (u @ e @ v))"
proof (induction u)
  case Nil
  show ?case using assms by (cases e) (auto simp: lstrip_nl_def)
next
  case (Cons c u)
  then show ?case by (cases "c = nl") (auto simp: lstrip_nl_def intro: exI [of _ "Suc _"] exI [of _ "0::nat"] exI [of _ "c # u"])
qed

lemma push_reply:
  assumes pl: "plain st" and st: "probing st" "probe st = []" "st_active st" "st_header st = []"
    and n: "hd (st_start st) \<noteq> nl" "hd e \<noteq> nl" and e: "em_token (st_end st) = e"
    and front: "front = [] \<or> front = st_start st" and pre: "sfind (st_start st) pre = None"
  shows "push (front @ pre @ e @ post) st = push_active (pre @ e @ post) (st\<lparr>probing := False, probe := []\<rparr>)"
proof -
  let ?s = "st_start st" and ?w = "pre @ e @ post"
  have w: "e \<noteq> []" "?s \<noteq> []" "hd e \<notin> set (tl ?s)" "\<not> prefix ?s e" "\<not> prefix e ?s"
    using plainD [OF pl] e by auto
  show ?thesis
  proof (cases "front = []")
    case False
    then have "front = ?s" "lstrip_nl (front @ ?w) = ?s @ ?w"
      using front w(2) n(1) by (auto simp: lstrip_nl_def) (cases ?s; simp)
    then have "push (front @ ?w) st = push_active ?w (st\<lparr>probing := False, st_active := True, probe := []\<rparr>)"
      using push_probing(1) [of st "front @ ?w" "?s @ ?w"] w(2) st by simp
    moreover have "st\<lparr>probing := False, st_active := True, probe := []\<rparr> = st\<lparr>probing := False, probe := []\<rparr>"
      using st(3) by (cases st) simp
    ultimately show ?thesis by (simp only:)
  next
    case True
    define h where "h = lstrip_nl ?w"
    obtain x k where x: "h = x @ e @ post" and k: "k \<le> length pre" "h = drop k ?w"
      using lstrip_split [of e pre post] w(1) n(2) unfolding h_def by blast
    have "\<not> prefix ?s h"
    proof (cases "k = length pre")
      case True
      then show ?thesis using k w(4,5) prefix_same_cases [of ?s "e @ post" e] by auto
    next
      case False
      then show ?thesis using wild_free_find [OF pl, of ?s pre e k post] pre k e by (auto simp: delims_def)
    qed
    moreover have "\<not> prefix h ?s"
    proof
      assume "prefix h ?s"
      then obtain y where "?s = x @ e @ y" using x by (auto simp: prefix_def)
      then show False using w(1,3,5) by (cases x; cases e) auto
    qed
    ultimately show ?thesis using push_probing(4) [of st ?w h] True w(1,2) st x by (simp add: h_def)
  qed
qed

text \<open>
  C21. Streaming agrees with parsing: for a format with plain delimiters, none of which starts
  with a newline, and no turn header, and a reply in which a span is open, the model may have
  echoed the opener, the reasoning holds neither delimiter nor a tool opener, the closing
  delimiter occurs once and no opener follows it, the reasoning the client collects from any
  cut of the stream is what \<open>parse\<close> returns for the whole text, up to the white space \<open>parse\<close>
  strips, and the content is the same to the character.  (A tool opener inside the reasoning
  ends the span for the stream and not for \<open>parse\<close>.)
\<close>

theorem stream_agrees_with_parse:
  assumes free: "cut_free (stream_state p True None)" "turn_header p = []"
      "hd (start_token p) \<noteq> nl" "hd (em_token (end_tok p)) \<noteq> nl"
    and ws: "concat ws = front @ pre @ em_token (end_tok p) @ post" "front = [] \<or> front = start_token p"
    and pre: "\<forall>t \<in> set (start_token p # em_token (end_tok p) # tool_openers p). sfind t pre = None"
    and post: "sfind (start_token p) post = None" "sfind (em_token (end_tok p)) post = None"
  shows "strip (fst (reply ws (stream_state p True None))) = opt_str (fst (parse p (concat ws) True None))
    \<and> snd (reply ws (stream_state p True None)) = snd (parse p (concat ws) True None)"
proof -
  let ?st = "stream_state p True None" and ?e = "em_token (end_tok p)" and ?s = "start_token p"
  let ?w = "pre @ ?e @ post"
  define st1 where "st1 = ?st\<lparr>probing := False, probe := []\<rparr>"
  have pl: "plain ?st" using free(1) by (simp add: cut_free_def)
  have w: "\<not> wild (end_tok p)" "?e \<noteq> []" "?s \<noteq> []" "hd ?e \<notin> set (tl ?e)"
    using pl by (simp_all add: plain_def delims_def stream_state_def)
  have pu: "push (front @ ?w) ?st = push_active ?w st1"
    unfolding st1_def by (rule push_reply [OF pl]) (use free ws(2) pre w in \<open>simp_all add: stream_state_def\<close>)
  obtain st' r c where r: "active_run st1 ?w = (st', r, c)" by (cases "active_run st1 ?w") auto
  obtain st'' r' c' where f: "finish st' = (st'', r', c')" by (cases "finish st'") auto
  have "opt_str r @ opt_str r' = lstrip_nl pre \<and> opt_str c @ opt_str c' = lstrip_nl post"
  proof (rule active_reply [OF _ _ _ _ _ _ _ _ _ r f])
    show "plain st1" using pl by (simp add: st1_def)
  qed (use pre post in \<open>simp_all add: stream_state_def st1_def\<close>)
  moreover have "feeds [concat ws] ?st = (st', opt_str r, opt_str c)"
    using pu r by (simp add: ws(1) push_active_def st1_def stream_state_def)
  moreover have "reply ws ?st = reply [concat ws] ?st"
    using feeds_concat [OF free(1), of "hd ws" "tl ws"] feeds_concat [OF free(1), of "concat ws" "[]"] ws(1) w(2)
    by (cases ws) (auto simp: reply_def)
  ultimately have "reply ws ?st = (lstrip_nl pre, lstrip_nl post)" using f by (simp add: reply_def)
  moreover have "parse p (concat ws) True None = (or_none (strip pre), lstrip_nl post)"
    unfolding ws(1) by (rule parse_reply [where s = ?s]) (use w free(2) ws(2) pre post in simp_all)
  ultimately show ?thesis by (simp add: strip_lstrip_nl)
qed

subsection \<open>The \<open><think>\<close> tags\<close>

definition think_tags :: parser where
  "think_tags = \<lparr>start_token = str ''<think>'', end_tok = \<lparr>em_token = str ''</think>'', em_prefix = [], em_suffix = []\<rparr>,
     turn_header = [], tool_openers = [str ''<tool_call>'']\<rparr>"

lemma think_tags_free: "cut_free (stream_state think_tags True None)"
  by code_simp

theorem chunking_irrelevant_witness:
  "feeds [str ''a</th'', str ''ink>b'', str ''c''] (stream_state think_tags True None)
     = feeds [concat [str ''a</th'', str ''ink>b'', str ''c'']] (stream_state think_tags True None)
   \<and> reply [str ''a</th'', str ''ink>b'', str ''c''] (stream_state think_tags True None)
     = reply [concat [str ''a</th'', str ''ink>b'', str ''c'']] (stream_state think_tags True None)"
  by (rule chunking_irrelevant [OF think_tags_free]) simp

theorem stream_agrees_with_parse_witness:
  "strip (fst (reply [str ''<think>a</th'', str ''ink>b<x''] (stream_state think_tags True None)))
     = opt_str (fst (parse think_tags (concat [str ''<think>a</th'', str ''ink>b<x'']) True None))
   \<and> snd (reply [str ''<think>a</th'', str ''ink>b<x''] (stream_state think_tags True None))
     = snd (parse think_tags (concat [str ''<think>a</th'', str ''ink>b<x'']) True None)"
  by (rule stream_agrees_with_parse [where front = "str ''<think>''" and pre = "str ''a''" and post = "str ''b<x''",
        OF think_tags_free]) code_simp+

text \<open>
  On a turn that starts outside a span the first chunk that rules the opener out is emitted
  as it is, past the watch of the content phase: an opener in that very chunk reaches the client
  as text, closer and all, while the same reply cut after its first character is split.
\<close>

theorem first_chunk_unwatched:
  "reply [str ''A<think>b</think>C''] (stream_state think_tags False None) = ([], str ''A<think>b</think>C'')
   \<and> reply [str ''A'', str ''<think>b</think>C''] (stream_state think_tags False None) = (str ''b'', str ''AC'')"
  by code_simp

end
