(* ===== verification/Tool_Claims.thy ===== *)
theory Tool_Claims
  imports Tool_Stream Reasoning_Claims "HOL-Library.Code_Target_Nat"
begin

section \<open>The tool call splitter: claims\<close>

subsection \<open>The content lane\<close>

text \<open>
  What the splitter does to the text, without the calls: \<open>lane\<close> gives the content, the block
  that is open at the end and the text held back.  The closer is searched from the start.
\<close>

function lane :: "wrapper option \<Rightarrow> pystr \<Rightarrow> pystr \<times> wrapper option \<times> pystr" where
  "lane op w =
     (if w = [] then ([], op, [])
      else case op of
        None \<Rightarrow>
          (case earliest_opener w of
             None \<Rightarrow> (keep_head (opener_partial_len w) w, None, keep_tail (opener_partial_len w) w)
           | Some it \<Rightarrow> (case lane (Some (snd it)) (drop (fst it) w) of (c, x) \<Rightarrow> (take (fst it) w @ c, x)))
      | Some t \<Rightarrow>
          (case sfind (closer_of t) w of
             None \<Rightarrow> ([], Some t, w)
           | Some i \<Rightarrow> lane None (drop (i + length (closer_of t)) w)))"
  by pat_completeness auto

termination
proof (relation "measures [\<lambda>(op, w). length w, \<lambda>(op, w). if op = None then 1 else 0]", goal_cases)
  case (2 op w it)
  then show ?case by (cases "fst it = 0") auto
qed (auto dest: sfind_bound)

declare lane.simps [simp del]

lemma lane_Nil [simp]: "lane op [] = ([], op, [])"
  by (simp add: lane.simps)

lemma lane_out:
  "w \<noteq> [] \<Longrightarrow> earliest_opener w = None \<Longrightarrow>
     lane None w = (keep_head (opener_partial_len w) w, None, keep_tail (opener_partial_len w) w)"
  "earliest_opener w = Some (i, t) \<Longrightarrow>
     lane None w = (take i w @ fst (lane (Some t) (drop i w)), snd (lane (Some t) (drop i w)))"
  by (subst lane.simps; force dest: earliest_opener_bound split: prod.splits)+

lemma lane_in:
  "w \<noteq> [] \<Longrightarrow> sfind (closer_of t) w = None \<Longrightarrow> lane (Some t) w = ([], Some t, w)"
  "sfind (closer_of t) w = Some i \<Longrightarrow> lane (Some t) w = lane None (drop (i + length (closer_of t)) w)"
  by (subst lane.simps; force dest: sfind_bound)+

text \<open>The search for the closer may start where no occurrence can lie before.\<close>

lemma sfind_at_exact:
  assumes "noocc t k w" "k \<le> length w"
  shows "sfind_at t w k = sfind t w"
  using sfind_skip [of t "take k w" "drop k w"] assms by (simp add: sfind_at_def min_def)

definition tool_ok :: "tstream \<Rightarrow> bool" where
  "tool_ok st = (case opener st of None \<Rightarrow> True | Some t \<Rightarrow> sfind (closer_of t) (buf st) = None)"

definition lane_of :: "tstream \<Rightarrow> wrapper option \<times> pystr" where
  "lane_of st = (opener st, buf st)"

lemma advance_lane [simp]: "buf (fst (jstream_advance env st)) = buf st"
  by (simp add: jstream_advance_def Let_def split: option.splits prod.splits)

lemma leave_block_buf [simp]: "buf st = [] \<Longrightarrow> buf (fst (leave_block env t b st)) = []"
  by (simp add: leave_block_def emit_call_def emit_parsed_def Let_def split: prod.splits option.splits)

lemma enter_block_lane [simp]: "opener (enter_block env t st) = Some t" "buf (enter_block env t st) = buf st"
  by (simp_all add: enter_block_def)

lemma closer_pos [simp]: "0 < length (closer_of t)" "0 < length (opener_of t)"
  by (simp_all add: length_greater_0_conv)

lemma tool_loop_lane:
  assumes "buf st = []" "\<And>t. opener st = Some t \<Longrightarrow> noocc (closer_of t) (scanned + 1 - length (closer_of t)) w"
    "opener st \<noteq> None \<Longrightarrow> scanned \<le> length w"
  shows "case tool_loop env st scanned w of (c, d, st') \<Rightarrow> (c, lane_of st') = lane (opener st) w \<and> tool_ok st'"
  using assms
proof (induction env st scanned w rule: tool_loop.induct)
  case (1 env st scanned w)
  show ?case
  proof (cases "w = []")
    case True
    then show ?thesis using 1(3)
      by (subst tool_loop.simps) (auto simp: lane_of_def tool_ok_def split: option.splits)
  next
    case w: False
    show ?thesis
    proof (cases "opener st")
      case None
      show ?thesis
      proof (cases "earliest_opener w")
        case e: None
        then show ?thesis using w None
          by (subst tool_loop.simps) (simp add: lane_out lane_of_def tool_ok_def)
      next
        case (Some it)
        obtain c d st' where r: "tool_loop env (enter_block env (snd it) st) 0 (drop (fst it) w) = (c, d, st')"
          by (metis prod_cases3)
        have "Suc 0 - length (closer_of t) = 0" for t using closer_pos(1) [of t] by linarith
        then have "(c, lane_of st') = lane (Some (snd it)) (drop (fst it) w) \<and> tool_ok st'"
          using 1(1) [OF w None Some] 1(3) r by (simp add: noocc_def)
        moreover have "tool_loop env st scanned w = (take (fst it) w @ c, d, st')"
          using w None Some r by (subst tool_loop.simps) simp
        ultimately show ?thesis using None Some lane_out(2) [of w "fst it" "snd it"] by (cases "lane (Some (snd it)) (drop (fst it) w)") simp
      qed
    next
      case (Some t)
      let ?c = "closer_of t"
      have x: "sfind_at ?c w (scanned + 1 - length ?c) = sfind ?c w"
      proof (rule sfind_at_exact)
        show "noocc ?c (scanned + 1 - length ?c) w" by (rule 1(4) [OF Some])
        have "0 < length ?c" "scanned \<le> length w" using 1(5) Some by simp_all
        then show "scanned + 1 - length ?c \<le> length w" by linarith
      qed
      show ?thesis
      proof (cases "sfind ?c w")
        case None
        obtain st' d where "jstream_advance env (st\<lparr>buf := w\<rparr>) = (st', d)" by fastforce
        moreover from this have "lane_of st' = (Some t, w)"
          using Some advance_lane [of env "st\<lparr>buf := w\<rparr>"] advance_opener [of env "st\<lparr>buf := w\<rparr>"] by (simp add: lane_of_def)
        ultimately show ?thesis using w Some None x
          by (subst tool_loop.simps) (simp add: lane_in lane_of_def tool_ok_def)
      next
        case i: (Some i)
        define st1 where "st1 = leave_block env t (take (i + length ?c) w) st"
        obtain c d st' where r: "tool_loop env (fst st1) 0 (drop (i + length ?c) w) = (c, d, st')" by (metis prod_cases3)
        have "(c, lane_of st') = lane None (drop (i + length ?c) w) \<and> tool_ok st'"
          using 1(2) [OF w Some i [folded x] st1_def] 1(3) r by (simp add: st1_def)
        moreover have "tool_loop env st scanned w = (c, snd st1 @ d, st')"
          using w Some i x r by (subst tool_loop.simps) (simp add: st1_def Let_def)
        ultimately show ?thesis using Some i by (simp add: lane_in)
      qed
    qed
  qed
qed

lemma prefix_within: "prefix t (drop j (w @ b)) \<Longrightarrow> j + length t \<le> length w \<Longrightarrow> prefix t (drop j w)"
proof -
  assume a: "prefix t (drop j (w @ b))" "j + length t \<le> length w"
  then have "prefix t (drop j w @ b)" "length t \<le> length (drop j w)" by simp_all
  then show "prefix t (drop j w)" by (metis prefixI prefix_length_prefix)
qed

lemma tool_push_lane:
  assumes "tool_ok st" "tool_push env delta st = (st', c, d)"
  shows "(opt_str c, lane_of st') = lane (opener st) (buf st @ delta) \<and> tool_ok st'"
proof -
  let ?n = "if opener st \<noteq> None then length (buf st) else 0"
  have n: "noocc (closer_of t) (?n + 1 - length (closer_of t)) (buf st @ delta)" if t: "opener st = Some t" for t
  proof -
    have "\<not> prefix (closer_of t) (drop j (buf st @ delta))" if j: "j < length (buf st) + 1 - length (closer_of t)" for j
    proof
      assume "prefix (closer_of t) (drop j (buf st @ delta))"
      moreover have "j + length (closer_of t) \<le> length (buf st)" using j by linarith
      ultimately have "prefix (closer_of t) (drop j (buf st))" by (rule prefix_within)
      moreover have "sfind (closer_of t) (buf st) = None" using assms(1) t by (simp add: tool_ok_def)
      ultimately show False by (simp add: sfind_None_all)
    qed
    then show ?thesis using t by (simp add: noocc_def)
  qed
  have "case tool_loop env (st\<lparr>buf := []\<rparr>) ?n (buf st @ delta) of (c, d, st') \<Rightarrow>
      (c, lane_of st') = lane (opener (st\<lparr>buf := []\<rparr>)) (buf st @ delta) \<and> tool_ok st'"
    by (rule tool_loop_lane) (use n in auto)
  then show ?thesis using assms(2) by (auto simp: tool_push_def split: prod.splits)
qed

subsection \<open>A text cut in two\<close>

lemma wrappers_all: "t \<in> set TOOL_OPENERS"
  by (cases t) (simp_all add: TOOL_OPENERS_def)

lemma openers_head: "hd (opener_of t) \<notin> set (tl (opener_of t'))"
  by (cases t; cases t'; hypsubst_thin; code_simp)

lemma openers_apart: "prefix (opener_of t) (opener_of t') \<longleftrightarrow> t = t'"
  by (cases t; cases t'; hypsubst_thin; code_simp)

lemma opener_unique: "prefix (opener_of t) x \<Longrightarrow> prefix (opener_of t') x \<Longrightarrow> t = t'"
  using prefix_same_cases openers_apart by metis

lemma earliest_first: "map_option fst (earliest w ts best) = first_opener w (map opener_of ts) (map_option fst best)"
proof (induction ts arbitrary: best)
  case (Cons t ts)
  let ?b = "case sfind (opener_of t) w of None \<Rightarrow> best
       | Some j \<Rightarrow> (case best of None \<Rightarrow> Some (j, t) | Some (i, _) \<Rightarrow> if j < i then Some (j, t) else best)"
  have "map_option fst ?b = (case sfind (opener_of t) w of None \<Rightarrow> map_option fst best
       | Some j \<Rightarrow> (case map_option fst best of None \<Rightarrow> Some j | Some i \<Rightarrow> if j < i then Some j else map_option fst best))"
    by (auto split: option.splits)
  with Cons.IH [of ?b] show ?case by simp
qed simp

lemma earliest_Some: "earliest_opener w = Some (i, t) \<Longrightarrow> sfind (opener_of t) w = Some i"
  using earliest_from [of w TOOL_OPENERS None "(i, t)"] by (simp add: earliest_opener_def)

lemma earliest_fst: "map_option fst (earliest_opener w) = first_opener w (map opener_of TOOL_OPENERS) None"
  by (simp add: earliest_opener_def earliest_first)

lemma earliest_None: "earliest_opener w = None \<longleftrightarrow> (\<forall>t. sfind (opener_of t) w = None)"
  using earliest_fst [of w] wrappers_all
  by (cases "earliest_opener w") (auto simp: first_opener_None dest!: earliest_Some dest: sym)

lemma earliest_ext:
  assumes "earliest_opener w = Some (i, t)"
  shows "earliest_opener (w @ b) = Some (i, t)"
proof -
  have "first_opener w (map opener_of TOOL_OPENERS) None = Some i" using assms earliest_fst [of w] by simp
  then have "first_opener (w @ b) (map opener_of TOOL_OPENERS) None = Some i"
    by (rule first_opener_ext) (auto simp: openers_head)
  then obtain t' where t': "earliest_opener (w @ b) = Some (i, t')" using earliest_fst [of "w @ b"] by auto
  have "prefix (opener_of t') (drop i (w @ b))" using earliest_Some [OF t'] by (simp add: sfind_Some)
  moreover have "prefix (opener_of t) (drop i (w @ b))"
    using sfind_ext [OF earliest_Some [OF assms], of b] by (simp add: sfind_Some)
  ultimately have "t' = t" by (rule opener_unique)
  with t' show ?thesis by simp
qed

lemma earliest_skip:
  assumes "\<forall>t. noocc (opener_of t) (length u) (u @ w)"
  shows "earliest_opener (u @ w) = map_option (map_prod ((+) (length u)) id) (earliest_opener w)"
proof -
  have s: "sfind (opener_of t) (u @ w) = map_option ((+) (length u)) (sfind (opener_of t) w)" for t
    by (rule sfind_skip) (use assms in blast)
  have "earliest (u @ w) ts (map_option (map_prod ((+) (length u)) id) best)
      = map_option (map_prod ((+) (length u)) id) (earliest w ts best)" for ts best
  proof (induction ts arbitrary: best)
    case (Cons t ts)
    let ?b = "case sfind (opener_of t) w of None \<Rightarrow> best
       | Some j \<Rightarrow> (case best of None \<Rightarrow> Some (j, t) | Some (i, _) \<Rightarrow> if j < i then Some (j, t) else best)"
    have "(case sfind (opener_of t) (u @ w) of None \<Rightarrow> map_option (map_prod ((+) (length u)) id) best
       | Some j \<Rightarrow> (case map_option (map_prod ((+) (length u)) id) best of None \<Rightarrow> Some (j, t)
           | Some (i, _) \<Rightarrow> if j < i then Some (j, t) else map_option (map_prod ((+) (length u)) id) best))
       = map_option (map_prod ((+) (length u)) id) ?b"
      by (cases "sfind (opener_of t) w"; cases best) (auto simp: s)
    then show ?case by (simp only: earliest.simps Cons.IH)
  qed simp
  from this [of TOOL_OPENERS None] show ?thesis by (simp add: earliest_opener_def)
qed

lemma lane_skip:
  assumes "\<forall>t. noocc (opener_of t) (length u) (u @ w) \<and> nopart (opener_of t) (length u) (u @ w)"
  shows "lane None (u @ w) = (u @ fst (lane None w), snd (lane None w))"
proof -
  have e: "earliest_opener (u @ w) = map_option (map_prod ((+) (length u)) id) (earliest_opener w)"
    by (rule earliest_skip) (use assms in blast)
  have k: "opener_partial_len (u @ w) = opener_partial_len w"
    unfolding opener_partial_len_def by (rule end_overlap_skip) (use assms in \<open>auto simp: free_head_def\<close>)
  have kw: "opener_partial_len w \<le> length w" by (simp add: opener_partial_len_def end_overlap_le)
  show ?thesis
  proof (cases "earliest_opener w")
    case None
    show ?thesis
    proof (cases "w = []")
      case False
      then show ?thesis using None e k keep_append [OF kw, of u] by (simp add: lane_out)
    next
      case w: True
      then have "opener_partial_len w = 0" using kw by simp
      then show ?thesis using None e k w by (cases "u = []") (simp_all add: lane_out keep_head_def keep_tail_def)
    qed
  next
    case (Some it)
    then show ?thesis using e lane_out(2) [of w "fst it" "snd it"] lane_out(2) [of "u @ w" "length u + fst it" "snd it"]
      by (cases it) simp
  qed
qed

definition lane_next :: "pystr \<Rightarrow> pystr \<times> wrapper option \<times> pystr \<Rightarrow> pystr \<times> wrapper option \<times> pystr" where
  "lane_next b x = (case x of (c, op, h) \<Rightarrow> (c @ fst (lane op (h @ b)), snd (lane op (h @ b))))"

lemma lane_rest:
  assumes w: "w \<noteq> []" and e: "earliest_opener w = None"
  shows "lane None (w @ b) = lane_next b (lane None w)"
proof -
  define k where "k = opener_partial_len w"
  have kw: "k \<le> length w" by (simp add: k_def opener_partial_len_def end_overlap_le)
  have o: "overlap1 w (opener_of t) \<le> k" for t
    using end_overlap_ge [of "opener_of t" "map opener_of TOOL_OPENERS" w] wrappers_all
    by (simp add: k_def opener_partial_len_def)
  have n: "sfind (opener_of t) w = None" for t using e by (simp add: earliest_None)
  define u v where "u = keep_head k w" and "v = keep_tail k w"
  have uv: "w = u @ v" by (simp add: u_def v_def keep_join)
  have f: "noocc (opener_of t) (length u) (u @ v @ b) \<and> nopart (opener_of t) (length u) (u @ v @ b)" for t
    using hold_heads [OF u_def [symmetric] kw opener_nonempty(1) o [of t], of b] n [of t] uv by simp
  have l: "lane None w = (u, None, v)" using w e by (simp add: lane_out k_def u_def v_def)
  have "lane None (w @ b) = (u @ fst (lane None (v @ b)), snd (lane None (v @ b)))"
    using lane_skip [of u "v @ b"] f uv by simp
  then show ?thesis by (simp only: l lane_next_def prod.case)
qed

lemma lane_feed: "lane op (w @ b) = lane_next b (lane op w)"
proof (induction op w rule: lane.induct)
  case (1 op w)
  show ?case
  proof (cases "w = []")
    case True
    then show ?thesis by (simp add: lane_next_def)
  next
    case w: False
    show ?thesis
    proof (cases op)
      case None
      show ?thesis
      proof (cases "earliest_opener w")
        case e: None
        show ?thesis unfolding None by (rule lane_rest [OF w e])
      next
        case (Some it)
        obtain i t where it: "it = (i, t)" by fastforce
        note e = Some [unfolded it]
        have i: "i \<le> length w" using earliest_opener_bound [OF e] by simp
        show ?thesis using 1(1) [OF w None Some] i lane_out(2) [OF e] lane_out(2) [OF earliest_ext [OF e, of b]]
          by (cases "lane (Some t) (drop i w)") (simp add: None it lane_next_def)
      qed
    next
      case (Some t)
      show ?thesis
      proof (cases "sfind (closer_of t) w")
        case None
        then show ?thesis using w Some by (simp add: lane_in lane_next_def)
      next
        case i: (Some i)
        have "i + length (closer_of t) \<le> length w" by (rule sfind_bound [OF i])
        then show ?thesis using 1(2) [OF w Some i] lane_in(2) [OF i] lane_in(2) [OF sfind_ext [OF i, of b]] Some by simp
      qed
    qed
  qed
qed

lemma lane_next_next: "lane_next b (lane_next a x) = lane_next (a @ b) x"
  by (cases x; cases "lane (fst (snd x)) (snd (snd x) @ a)")
    (simp add: lane_next_def lane_feed [of _ "_ @ a" b, simplified append_assoc])

subsection \<open>A list of chunks\<close>

fun tool_feeds :: "'j tool_env \<Rightarrow> pystr list \<Rightarrow> tstream \<Rightarrow> tstream \<times> pystr \<times> tdelta list" where
  "tool_feeds env [] st = (st, [], [])"
| "tool_feeds env (w # ws) st =
     (case tool_push env w st of (st', c, d) \<Rightarrow>
      case tool_feeds env ws st' of (st'', cs, ds) \<Rightarrow> (st'', opt_str c @ cs, d @ ds))"

lemma lane_in_id: "sfind (closer_of t) h = None \<Longrightarrow> lane (Some t) h = ([], Some t, h)"
  by (cases "h = []") (simp_all add: lane_in)

lemma lane_out_id: "earliest_opener h = None \<Longrightarrow> opener_partial_len h = length h \<Longrightarrow> lane None h = ([], None, h)"
  by (cases "h = []") (simp_all add: lane_out keep_head_def keep_tail_def)

lemma tool_feeds_lane:
  assumes "tool_ok st"
  shows "case tool_feeds env ws st of (st', c, d) \<Rightarrow>
      tool_ok st' \<and> (ws \<noteq> [] \<longrightarrow> (c, lane_of st') = lane (opener st) (buf st @ concat ws))"
  using assms
proof (induction ws arbitrary: st)
  case (Cons w ws)
  obtain st1 c1 d1 where p: "tool_push env w st = (st1, c1, d1)" by (metis prod_cases3)
  obtain st2 c2 d2 where q: "tool_feeds env ws st1 = (st2, c2, d2)" by (metis prod_cases3)
  note l = tool_push_lane [OF Cons.prems p]
  have ih: "tool_ok st2 \<and> (ws \<noteq> [] \<longrightarrow> (c2, lane_of st2) = lane (opener st1) (buf st1 @ concat ws))"
    using Cons.IH [of st1] l q by simp
  show ?case
  proof (cases "ws = []")
    case True
    then show ?thesis using p q l by simp
  next
    case False
    have "lane (opener st) (buf st @ w @ concat ws) = lane_next (concat ws) (lane (opener st) (buf st @ w))"
      using lane_feed [of "opener st" "buf st @ w" "concat ws"] by simp
    also have "\<dots> = lane_next (concat ws) (opt_str c1, lane_of st1)" using l by simp
    also have "\<dots> = (opt_str c1 @ c2, lane_of st2)"
      using ih False by (simp add: lane_next_def lane_of_def [of st1] prod_eq_iff)
    finally show ?thesis using p q ih by simp
  qed
qed simp

text \<open>
  C19. The content the client gets from the tool call splitter is a function of the text alone:
  for every list of chunks, whatever the calls parse to and whether their arguments are
  streamed, the content so far, the block that is open and the text held back are those of the
  reference \<open>lane\<close>, which searches each closer from the start of the block.
\<close>

theorem tool_content_of_text:
  "case tool_feeds env ws tstream0 of (st, content, deltas) \<Rightarrow> (content, opener st, buf st) = lane None (concat ws)"
proof (cases "ws = []")
  case True
  then show ?thesis by (simp add: tstream0_def)
next
  case False
  have "tool_ok tstream0" by (simp add: tool_ok_def tstream0_def)
  from tool_feeds_lane [OF this, of ws env] False show ?thesis
    by (auto simp: lane_of_def tstream0_def split: prod.splits)
qed

subsection \<open>The scanner of arguments\<close>

lemma char_step_frame [simp]:
  "dead (char_step c js) = dead js" "jname (char_step c js) = jname js" "name_sent (char_step c js) = name_sent js"
  "args_done (char_step c js) = args_done js" "streamed (char_step c js) = streamed js" "vstart (char_step c js) = vstart js"
  by (simp_all add: char_step_def)

definition core :: "jstream \<Rightarrow> int \<times> bool \<times> bool" where
  "core js = (depth js, in_str js, esc js)"

lemma char_step_core: "core js = core js' \<Longrightarrow> core (char_step c js) = core (char_step c js')"
  by (auto simp: core_def char_step_def)

lemma scan_chars_core:
  "core js = core js' \<Longrightarrow> core (fst (scan_chars w js)) = core (fst (scan_chars w js')) \<and> snd (scan_chars w js) = snd (scan_chars w js')"
proof (induction w arbitrary: js js')
  case (Cons c w)
  have e: "ends_value c js = ends_value c js'" using Cons.prems by (simp add: ends_value_def core_def)
  note s = char_step_core [OF Cons.prems, of c]
  from Cons.IH [OF s] e s show ?case by (auto split: prod.splits)
qed simp

lemma scan_chars_frame:
  "scan_chars w js = (js', k, e) \<Longrightarrow> dead js' = dead js \<and> jname js' = jname js \<and> name_sent js' = name_sent js
     \<and> args_done js' = args_done js \<and> streamed js' = streamed js \<and> vstart js' = vstart js
     \<and> k \<le> length w \<and> (\<not> e \<longrightarrow> k = length w)"
  by (induction w arbitrary: js js' k e) (auto split: if_splits prod.splits)

lemma scan_chars_append:
  "scan_chars (a @ b) js = (case scan_chars a js of (js', k, e) \<Rightarrow>
     if e then (js', k, e) else (case scan_chars b js' of (js'', m, e') \<Rightarrow> (js'', k + m, e')))"
  by (induction a arbitrary: js) (auto split: prod.splits)

text \<open>The JSON values the scanner can stop at, as trees: an atom, a string with its escapes, a bracketed group.\<close>

datatype jchar = Plain_char nat | Escaped nat

datatype jtree = Atom pystr | Jstr "jchar list" | Group bool "jtree list"

definition jchar_ok :: "jchar \<Rightarrow> bool" where
  "jchar_ok x = (case x of Plain_char c \<Rightarrow> c \<noteq> quote \<and> c \<noteq> backslash | Escaped c \<Rightarrow> True)"

definition jchar_text :: "jchar \<Rightarrow> pystr" where
  "jchar_text x = (case x of Plain_char c \<Rightarrow> [c] | Escaped c \<Rightarrow> [backslash, c])"

fun jtree_ok :: "jtree \<Rightarrow> bool" where
  "jtree_ok (Atom w) = (\<forall>c \<in> set w. c \<noteq> quote \<and> \<not> open_bracket c \<and> \<not> close_bracket c)"
| "jtree_ok (Jstr cs) = (\<forall>c \<in> set cs. jchar_ok c)"
| "jtree_ok (Group sq ts) = (\<forall>t \<in> set ts. jtree_ok t)"

fun jtext :: "jtree \<Rightarrow> pystr" where
  "jtext (Atom w) = w"
| "jtext (Jstr cs) = quote # concat (map jchar_text cs) @ [quote]"
| "jtext (Group sq ts) = (if sq then 91 else 123) # concat (map jtext ts) @ [if sq then 93 else 125]"

lemma scan_chars_run:
  "(\<And>x j. x \<in> set xs \<Longrightarrow> P j \<Longrightarrow> \<exists>j'. scan_chars (f x) j = (j', length (f x), False) \<and> core j' = core j \<and> P j')
   \<Longrightarrow> P js \<Longrightarrow> \<exists>js'. scan_chars (concat (map f xs)) js = (js', length (concat (map f xs)), False) \<and> core js' = core js \<and> P js'"
proof (induction xs arbitrary: js)
  case (Cons x xs)
  obtain j' where j: "scan_chars (f x) js = (j', length (f x), False)" "core j' = core js" "P j'"
    using Cons.prems(1) [OF list.set_intros(1) Cons.prems(2)] by auto
  obtain js' where "scan_chars (concat (map f xs)) j' = (js', length (concat (map f xs)), False)" "core js' = core j'" "P js'"
    using Cons.IH [OF _ j(3)] Cons.prems(1) by (metis list.set_intros(2))
  with j show ?case by (simp add: scan_chars_append)
qed simp

lemmas bracket_defs = quote_def backslash_def open_bracket_def close_bracket_def

lemma scan_string_chars:
  assumes "\<forall>c \<in> set cs. jchar_ok c" "in_str js" "\<not> esc js"
  shows "\<exists>js'. scan_chars (concat (map jchar_text cs)) js = (js', length (concat (map jchar_text cs)), False) \<and> core js' = core js"
proof -
  have "\<exists>j'. scan_chars (jchar_text x) j = (j', length (jchar_text x), False) \<and> core j' = core j \<and> (in_str j' \<and> \<not> esc j')"
    if "x \<in> set cs" "in_str j \<and> \<not> esc j" for x j
    using assms(1) that
    by (cases x; cases j) (auto simp: jchar_ok_def jchar_text_def ends_value_def char_step_def core_def)
  then have "\<exists>js'. scan_chars (concat (map jchar_text cs)) js = (js', length (concat (map jchar_text cs)), False)
      \<and> core js' = core js \<and> (in_str js' \<and> \<not> esc js')"
    by (rule scan_chars_run) (use assms(2,3) in simp_all)
  then show ?thesis by blast
qed

lemma scan_tree:
  assumes "jtree_ok t" "\<not> in_str js" "\<not> esc js" "1 \<le> depth js"
  shows "\<exists>js'. scan_chars (jtext t) js = (js', length (jtext t), False) \<and> core js' = core js"
  using assms
proof (induction t arbitrary: js)
  case (Atom w)
  then show ?case
  proof (induction w arbitrary: js)
    case (Cons c w)
    have "char_step c js = js" "\<not> ends_value c js" using Cons.prems by (auto simp: char_step_def ends_value_def)
    then show ?case using Cons.IH [of js] Cons.prems by auto
  qed simp
next
  case (Jstr cs)
  define js1 where "js1 = char_step quote js"
  have 1: "in_str js1" "\<not> esc js1" "depth js1 = depth js" "\<not> ends_value quote js"
    using Jstr.prems by (auto simp: js1_def char_step_def ends_value_def bracket_defs)
  obtain js2 where 2: "scan_chars (concat (map jchar_text cs)) js1 = (js2, length (concat (map jchar_text cs)), False)"
    "core js2 = core js1" using scan_string_chars [of cs js1] Jstr.prems(1) 1 by auto
  then have "\<not> ends_value quote js2" "core (char_step quote js2) = core js"
    using 1 Jstr.prems by (auto simp: core_def char_step_def ends_value_def bracket_defs)
  then show ?case using 1(4) 2(1) by (simp add: scan_chars_append js1_def)
next
  case (Group sq ts)
  let ?o = "if sq then 91 else (123 :: nat)" and ?c = "if sq then 93 else (125 :: nat)"
  define js1 where "js1 = char_step ?o js"
  have 1: "\<not> in_str js1" "\<not> esc js1" "depth js1 = depth js + 1" "\<not> ends_value ?o js"
    using Group.prems by (auto simp: js1_def char_step_def ends_value_def bracket_defs)
  have "\<exists>js2. scan_chars (concat (map jtext ts)) js1 = (js2, length (concat (map jtext ts)), False) \<and> core js2 = core js1
      \<and> (\<not> in_str js2 \<and> \<not> esc js2 \<and> 1 \<le> depth js2)"
  proof (rule scan_chars_run)
    fix x and j :: jstream
    assume "x \<in> set ts" "\<not> in_str j \<and> \<not> esc j \<and> 1 \<le> depth j"
    then show "\<exists>j'. scan_chars (jtext x) j = (j', length (jtext x), False) \<and> core j' = core j \<and> (\<not> in_str j' \<and> \<not> esc j' \<and> 1 \<le> depth j')"
      using Group.IH [of x j] Group.prems(1) by (force simp: core_def)
  qed (use 1 Group.prems in simp)
  then obtain js2 where 2: "scan_chars (concat (map jtext ts)) js1 = (js2, length (concat (map jtext ts)), False)"
    "core js2 = core js1" by blast
  then have "\<not> ends_value ?c js2" "core (char_step ?c js2) = core js"
    using 1 Group.prems by (auto simp: core_def char_step_def ends_value_def bracket_defs)
  then show ?case using 1(4) 2(1) by (simp add: scan_chars_append js1_def)
qed

lemma scan_group:
  assumes "jtree_ok (Group sq ts)" "core js = (0, False, False)"
  shows "snd (scan_chars (jtext (Group sq ts) @ rest) js) = (length (jtext (Group sq ts)), True)"
proof -
  let ?o = "if sq then 91 else (123 :: nat)" and ?c = "if sq then 93 else (125 :: nat)"
  define js1 where "js1 = char_step ?o js"
  have 1: "\<not> in_str js1" "\<not> esc js1" "depth js1 = 1" "\<not> ends_value ?o js"
    using assms(2) by (auto simp: js1_def core_def char_step_def ends_value_def bracket_defs)
  have "\<exists>js2. scan_chars (concat (map jtext ts)) js1 = (js2, length (concat (map jtext ts)), False) \<and> core js2 = core js1
      \<and> (\<not> in_str js2 \<and> \<not> esc js2 \<and> 1 \<le> depth js2)"
  proof (rule scan_chars_run)
    fix x and j :: jstream
    assume "x \<in> set ts" "\<not> in_str j \<and> \<not> esc j \<and> 1 \<le> depth j"
    then show "\<exists>j'. scan_chars (jtext x) j = (j', length (jtext x), False) \<and> core j' = core j \<and> (\<not> in_str j' \<and> \<not> esc j' \<and> 1 \<le> depth j')"
      using scan_tree [of x j] assms(1) by (force simp: core_def)
  qed (use 1 in simp)
  then obtain js2 where 2: "scan_chars (concat (map jtext ts)) js1 = (js2, length (concat (map jtext ts)), False)"
    "core js2 = core js1" by blast
  then have "ends_value ?c js2" using 1 by (auto simp: core_def ends_value_def bracket_defs)
  then show ?thesis using 1(4) 2(1) by (simp add: scan_chars_append js1_def)
qed

text \<open>The bodies the scanner sees while the buffer grows, with the fragments it gives joined.\<close>

fun scans :: "pystr \<Rightarrow> pystr list \<Rightarrow> nat \<Rightarrow> jstream \<Rightarrow> jstream \<times> pystr" where
  "scans body [] base js = (js, [])"
| "scans body (w # ws) base js =
     (case scan (body @ w) base js of (js1, name, frag) \<Rightarrow>
      case scans (body @ w) ws base js1 of (js2, out) \<Rightarrow> (js2, opt_str frag @ out))"

text \<open>What has been given so far is the part of the value the scanner has run over.\<close>

definition given :: "pystr \<Rightarrow> jstream \<Rightarrow> pystr \<Rightarrow> bool" where
  "given body js out =
     (case vstart js of
        None \<Rightarrow> out = [] \<and> streamed js = 0 \<and> core js = (0, False, False) \<and> \<not> args_done js
      | Some v \<Rightarrow> v \<le> length body \<and> \<not> dead js \<and> jname js \<noteq> None \<and> out = take (streamed js) (drop v body)
          \<and> (\<exists>j0 js'. core j0 = (0, False, False) \<and> scan_chars (drop v body) j0 = (js', streamed js, args_done js) \<and> core js' = core js))"

lemma core_upd [simp]:
  "core (js\<lparr>dead := a\<rparr>) = core js" "core (js\<lparr>jname := b\<rparr>) = core js" "core (js\<lparr>name_sent := a\<rparr>) = core js"
  "core (js\<lparr>args_done := a\<rparr>) = core js" "core (js\<lparr>streamed := n\<rparr>) = core js" "core (js\<lparr>vstart := v\<rparr>) = core js"
  by (simp_all add: core_def)

lemma advance_start:
  assumes "vstart js = Some v" "v \<le> length body" "\<not> dead js" "jname js \<noteq> None" "streamed js = 0" "core js = (0, False, False)"
    and "scan_advance body js = (js', frag)"
  shows "given body js' (opt_str frag)"
proof -
  obtain j k e where j: "scan_chars (drop v body) js = (j, k, e)" by (metis prod_cases3)
  then have "js' = j\<lparr>streamed := k, args_done := e\<rparr>" "opt_str frag = take k (drop v body)"
    using assms(1,5,7) by (auto simp: scan_advance_def)
  moreover have "\<exists>j0 j'. core j0 = (0, False, False) \<and> scan_chars (drop v body) j0 = (j', k, e) \<and> core j' = core j"
    using j assms(6) by blast
  ultimately show ?thesis using scan_chars_frame [OF j] assms(1-4) by (simp add: given_def)
qed

lemma advance_more:
  assumes g: "given body js out" and v: "vstart js = Some v" "\<not> args_done js" and a: "scan_advance (body @ w) js = (js', frag)"
  shows "given (body @ w) js' (out @ opt_str frag)"
proof -
  from g v obtain j0 j1 where s: "v \<le> length body" "\<not> dead js" "jname js \<noteq> None" "out = take (streamed js) (drop v body)"
    "core j0 = (0, False, False)" "scan_chars (drop v body) j0 = (j1, streamed js, False)" "core j1 = core js"
    by (auto simp: given_def)
  have n: "streamed js = length (drop v body)" using scan_chars_frame [OF s(6)] by simp
  obtain j2 k e where j2: "scan_chars w js = (j2, k, e)" by (metis prod_cases3)
  obtain j3 where j3: "scan_chars w j1 = (j3, k, e)" "core j3 = core j2"
    using scan_chars_core [OF s(7), of w] j2 by (cases "scan_chars w j1") auto
  have w: "drop (v + streamed js) (body @ w) = w" using n s(1) by simp
  have "js' = j2\<lparr>streamed := streamed js + k, args_done := e\<rparr>" "opt_str frag = take k w"
    using a j2 by (auto simp: scan_advance_def v(1) w simp del: drop_append)
  moreover have "scan_chars (drop v (body @ w)) j0 = (j3, streamed js + k, e)"
    using s(1,6) j3 by (simp add: scan_chars_append)
  moreover have "out @ take k w = take (streamed js + k) (drop v (body @ w))" using s(1,4) n by simp
  ultimately show ?thesis using scan_chars_frame [OF j2] s v j3(2) by (auto simp: given_def)
qed

lemma scan_given:
  assumes g: "given body js out" and s: "scan (body @ w) base js = (js', name, frag)"
  shows "given (body @ w) js' (out @ opt_str frag)"
proof (cases "vstart js")
  case None
  then have n: "out = []" "streamed js = 0" "core js = (0, False, False)" "\<not> args_done js" using g by (auto simp: given_def)
  obtain js1 found where 1: "scan_name (body @ w) base js = (js1, found)" by fastforce
  then have f1: "vstart js1 = None" "streamed js1 = 0" "core js1 = (0, False, False)" "\<not> args_done js1"
    "found \<longrightarrow> jname js1 \<noteq> None" "found \<longrightarrow> dead js1 = dead js"
    using None n by (auto simp: scan_name_def split: if_splits option.splits)
  obtain js2 nn go where 2: "scan_value (body @ w) base js1 = (js2, nn, go)" by (metis prod_cases3)
  have f2: "\<not> go \<longrightarrow> vstart js2 = None" "streamed js2 = 0" "core js2 = (0, False, False)" "\<not> args_done js2" "jname js2 = jname js1"
    "go \<longrightarrow> (\<exists>v. vstart js2 = Some v \<and> v \<le> length (body @ w)) \<and> dead js2 = dead js1"
    using 2 f1 by (auto simp: scan_value_def split: if_splits option.splits)
  show ?thesis
  proof (cases "\<not> dead js \<and> found \<and> go")
    case True
    then obtain js3 where "scan_advance (body @ w) js2 = (js', frag)"
      using s 1 2 n(4) by (auto simp: scan_def split: prod.splits)
    then show ?thesis using advance_start [of js2 _ "body @ w"] f1 f2 True n(1) by auto
  next
    case False
    then have "frag = None \<and> js' \<in> {js, js1, js2} \<and> vstart js' = None" using s 1 2 None f1(1) f2(1) n(4)
      by (auto simp: scan_def split: if_splits)
    then show ?thesis using None f1 f2 n by (auto simp: given_def)
  qed
next
  case (Some v)
  show ?thesis
  proof (cases "args_done js")
    case True
    then have "js' = js" "frag = None" using s by (auto simp: scan_def)
    then show ?thesis using g Some True by (auto simp: given_def scan_chars_append dest: scan_chars_frame)
  next
    case False
    then have "\<not> dead js" "jname js \<noteq> None" using g Some by (auto simp: given_def)
    then have "scan_advance (body @ w) js = (js', frag)"
      using s Some False by (auto simp: scan_def scan_name_def scan_value_def split: prod.splits)
    from advance_more [OF g Some False this] show ?thesis .
  qed
qed

lemma scans_given: "given body js out \<Longrightarrow> scans body ws base js = (js', more_out) \<Longrightarrow> given (body @ concat ws) js' (out @ more_out)"
proof (induction ws arbitrary: body js out more_out)
  case (Cons w ws)
  obtain js1 name frag where 1: "scan (body @ w) base js = (js1, name, frag)" by (metis prod_cases3)
  obtain out2 where 2: "scans (body @ w) ws base js1 = (js', out2)" "more_out = opt_str frag @ out2"
    using Cons.prems(2) 1 by (auto split: prod.splits)
  from Cons.IH [OF scan_given [OF Cons.prems(1) 1] 2(1)] 2(2) show ?case by simp
qed simp

text \<open>
  C22. Streamed arguments are the call's arguments: cut the block anywhere, and once the scanner
  has engaged at the value (an object or an array, with whatever strings and groups inside), the
  fragments sent are exactly the text of that value, nothing before it and nothing behind.
\<close>

theorem streamed_arguments_exact:
  assumes "concat ws = front @ jtext (Group sq ts) @ rest" "jtree_ok (Group sq ts)"
    and "scans [] ws base jstream0 = (js, out)" "vstart js = Some (length front)"
  shows "out = jtext (Group sq ts) \<and> args_done js"
proof -
  have "given [] jstream0 []" by (simp add: given_def jstream0_def core_def)
  from scans_given [OF this assms(3)] assms(1) have "given (front @ jtext (Group sq ts) @ rest) js out" by simp
  then obtain j0 j1 where "core j0 = (0, False, False)" "out = take (streamed js) (jtext (Group sq ts) @ rest)"
    "scan_chars (jtext (Group sq ts) @ rest) j0 = (j1, streamed js, args_done js)"
    using assms(4) by (auto simp: given_def simp del: jtext.simps)
  moreover from this have "snd (scan_chars (jtext (Group sq ts) @ rest) j0) = (length (jtext (Group sq ts)), True)"
    using scan_group [OF assms(2)] by blast
  ultimately show ?thesis by (simp del: jtext.simps)
qed

text \<open>A string literal of JSON.\<close>

definition jlit :: "string \<Rightarrow> pystr" where
  "jlit s = quote # str s @ [quote]"

theorem streamed_arguments_exact_witness:
  "scans [] [str ''{'' @ jlit ''name'' @ str '': '' @ jlit ''ls'' @ str '', '' @ jlit ''arguments'' @ str '': '',
      str ''{'' @ quote # str ''a'', quote # str '': '' @ jlit ''}'', str ''}}''] 0 jstream0
    = (fst (scans [] [str ''{'' @ jlit ''name'' @ str '': '' @ jlit ''ls'' @ str '', '' @ jlit ''arguments'' @ str '': '',
      str ''{'' @ quote # str ''a'', quote # str '': '' @ jlit ''}'', str ''}}''] 0 jstream0),
      jtext (Group False [Jstr [Plain_char 97], Atom (str '': ''), Jstr [Plain_char 125]]))"
proof -
  let ?ws = "[str ''{'' @ jlit ''name'' @ str '': '' @ jlit ''ls'' @ str '', '' @ jlit ''arguments'' @ str '': '',
      str ''{'' @ quote # str ''a'', quote # str '': '' @ jlit ''}'', str ''}}'']"
  let ?g = "Group False [Jstr [Plain_char 97], Atom (str '': ''), Jstr [Plain_char 125]]"
  obtain js out where s: "scans [] ?ws 0 jstream0 = (js, out)" by fastforce
  have "vstart (fst (scans [] ?ws 0 jstream0)) = Some 28" by code_simp
  moreover have "length (hd ?ws) = 28" by code_simp
  ultimately have v: "vstart js = Some (length (hd ?ws))" using s by simp
  have "concat ?ws = hd ?ws @ jtext ?g @ str ''}''" by code_simp
  from streamed_arguments_exact [OF this _ s v] have "out = jtext ?g" by (simp add: jchar_ok_def bracket_defs str_def)
  with s show ?thesis by (simp only: fst_conv)
qed

text \<open>
  The first \<open>"name"\<close> key of the buffer need not be the call's: when a chunk brings the
  \<open>arguments\<close> object before the name, and it has a key of that name, the call is announced under
  the argument's value.  Fed in smaller chunks the same block is parsed whole and gets its name.
\<close>

definition name_env :: "pystr tool_env" where
  "name_env = \<lparr>uid = 0, allowed = None, drop_unknown = False,
     parse_one = (\<lambda>_. Some (str ''ls'', Args_text (str ''{}''))), dumps = id, arg_stream = True\<rparr>"

definition args_first :: "pystr list" where
  "args_first = [str ''<tool_call>{'' @ jlit ''arguments'' @ str '': '', str ''{'' @ jlit ''name'' @ str '': '' @ jlit ''rm'' @ str ''}, '',
     jlit ''name'' @ str '': '' @ jlit ''ls'' @ str ''}</tool_call>'']"

theorem call_name_from_arguments:
  "snd (snd (tool_feeds name_env [concat (butlast args_first), last args_first] tstream0))
     = [Call 0 (0, 0) (str ''rm''), Frag 0 (str ''{'' @ jlit ''name'' @ str '': '' @ jlit ''rm'' @ str ''}'')]
   \<and> snd (snd (tool_feeds name_env args_first tstream0)) = [Call 0 (0, 0) (str ''ls''), Frag 0 (str ''{}'')]"
  by code_simp

end
