(* ===== verification/Chat_Stream.thy ===== *)
theory Chat_Stream
  imports Tool_Claims
begin

section \<open>The chat completion stream\<close>

text \<open>
  \<open>FrontendManager.stream_chat_completions\<close> of \<open>python/minisgl/server/api_server.py\<close>: each
  acknowledgement of the backend goes through the reasoning splitter and the tool call splitter,
  in the order of the mode, and the client gets their deltas; the end of the stream drains both
  and settles the finish reason.  Not modelled: usage counts, keepalive comments, log lines and
  the JSON around a delta.
\<close>

datatype finish_kind = Stop | Length | Tool_calls | Reason pystr

record ack =
  ack_error :: "pystr option"
  incremental_output :: pystr
  ack_reason :: "finish_kind option"
  finished :: bool

datatype event =
    Delta bool "pystr option" "pystr option"
  | Tool_delta tdelta
  | Error_event pystr
  | Final "pystr option" "pystr option" finish_kind bool

record chat =
  rstream :: "stream option"
  calls :: "tstream option"
  gated :: bool
  finish_reason :: finish_kind
  first_chunk :: bool
  content_chars :: nat

definition chat0 :: "stream option \<Rightarrow> tstream option \<Rightarrow> bool \<Rightarrow> chat" where
  "chat0 rs ts g = \<lparr>rstream = rs, calls = ts, gated = (g \<and> rs \<noteq> None), finish_reason = Stop,
     first_chunk = True, content_chars = 0\<rparr>"

text \<open>An optional step of either splitter.\<close>

definition push_calls :: "'j tool_env \<Rightarrow> pystr option \<Rightarrow> chat \<Rightarrow> chat \<times> pystr option \<times> tdelta list" where
  "push_calls env c st =
     (case calls st of
        None \<Rightarrow> (st, c, [])
      | Some t \<Rightarrow> if opt_str c = [] then (st, c, [])
                  else (case tool_push env (opt_str c) t of (t', c', d) \<Rightarrow> (st\<lparr>calls := Some t'\<rparr>, c', d)))"

definition push_reasoning :: "pystr option \<Rightarrow> chat \<Rightarrow> chat \<times> pystr option \<times> pystr option" where
  "push_reasoning c st =
     (case rstream st of
        None \<Rightarrow> (st, None, c)
      | Some s \<Rightarrow> if opt_str c = [] then (st, None, None)
                  else (case push (opt_str c) s of (s', r, c') \<Rightarrow> (st\<lparr>rstream := Some s'\<rparr>, r, c')))"

definition lanes :: "'j tool_env \<Rightarrow> pystr \<Rightarrow> chat \<Rightarrow> chat \<times> pystr option \<times> pystr option \<times> tdelta list" where
  "lanes env w st =
     (if w = [] then (st, None, None, [])
      else if gated st
      then (case push_reasoning (Some w) st of (st1, r, c) \<Rightarrow>
            case push_calls env c st1 of (st2, c', d) \<Rightarrow> (st2, r, c', d))
      else (case push_calls env (Some w) st of (st1, c, d) \<Rightarrow>
            case push_reasoning c st1 of (st2, r, c') \<Rightarrow> (st2, r, c', d)))"

definition held :: "chat \<Rightarrow> nat" where
  "held st = (case calls st of None \<Rightarrow> 0 | Some t \<Rightarrow> held_chars t)"

definition note_oversize :: "chat \<Rightarrow> chat" where
  "note_oversize st = (case calls st of None \<Rightarrow> st | Some t \<Rightarrow> st\<lparr>calls := Some (fst (warn_if_oversize 8192 t))\<rparr>)"

text \<open>One acknowledgement: the events, the state, and whether the loop goes on.\<close>

datatype go = Continue | Break | Abort

definition take_ack :: "'j tool_env \<Rightarrow> nat \<Rightarrow> ack \<Rightarrow> chat \<Rightarrow> event list \<times> chat \<times> go" where
  "take_ack env limit a st =
     (case ack_error a of
        Some e \<Rightarrow> ([Error_event e], st, Abort)
      | None \<Rightarrow>
          (case lanes env (incremental_output a) (st\<lparr>first_chunk := False\<rparr>) of
             (st1, r, c, d) \<Rightarrow>
               let role = first_chunk st;
                   some = (role \<or> opt_str r \<noteq> [] \<or> opt_str c \<noteq> []);
                   st2 = st1\<lparr>finish_reason := (case ack_reason a of None \<Rightarrow> finish_reason st1 | Some f \<Rightarrow> f),
                             content_chars := content_chars st1 + length (opt_str c)\<rparr>;
                   st3 = (if some \<or> d \<noteq> [] \<or> held st2 = 0 then st2 else note_oversize st2);
                   evs = (if some then [Delta role r c] else []) @ map Tool_delta d
               in if 0 < limit \<and> limit < held st3 then (evs, st3\<lparr>finish_reason := Length\<rparr>, Break)
                  else (evs, st3, if finished a then Break else Continue)))"

definition settle_reason :: "tstream \<Rightarrow> finish_kind \<Rightarrow> finish_kind" where
  "settle_reason t f = (if emitted t \<and> f \<noteq> Length then Tool_calls else if unparsed_tail t then Length else f)"

text \<open>The end of the stream: what both splitters still hold, and the finish reason.\<close>

definition end_gated :: "'j tool_env \<Rightarrow> stream \<Rightarrow> chat \<Rightarrow> pystr option \<times> pystr option \<times> tdelta list \<times> finish_kind" where
  "end_gated env s st =
     (case finish s of (_, r, c) \<Rightarrow>
        (case calls st of
           None \<Rightarrow> (r, c, [], finish_reason st)
         | Some t \<Rightarrow>
             (case push_calls env c st of (st1, c1, mids) \<Rightarrow>
              case tool_flush env (the (calls st1)) of (t', hold, tails) \<Rightarrow>
                (r, or_none (opt_str c1 @ opt_str hold), mids @ tails, settle_reason t' (finish_reason st)))))"

definition end_raw :: "'j tool_env \<Rightarrow> chat \<Rightarrow> pystr option \<times> pystr option \<times> tdelta list \<times> finish_kind" where
  "end_raw env st =
     (case (case calls st of
              None \<Rightarrow> (None, [], finish_reason st)
            | Some t \<Rightarrow> (case tool_flush env t of (t', tail, d) \<Rightarrow> (tail, d, settle_reason t' (finish_reason st)))) of
        (tail, d, f) \<Rightarrow>
          (case push_reasoning tail st of (st1, r, c) \<Rightarrow>
             (case rstream st1 of
                None \<Rightarrow> (r, c, d, f)
              | Some s \<Rightarrow> (case finish s of (_, r', c') \<Rightarrow> (opt_cat r r', opt_cat c c', d, f)))))"

definition end_stream :: "'j tool_env \<Rightarrow> chat \<Rightarrow> event list" where
  "end_stream env st =
     (case (case rstream st of
              Some s \<Rightarrow> if gated st then end_gated env s st else end_raw env st
            | None \<Rightarrow> end_raw env st) of
        (r, c, d, f) \<Rightarrow>
          map Tool_delta d @ [Final r c f (f = Stop \<and> content_chars st + length (opt_str c) = 0)])"

fun chat_stream :: "'j tool_env \<Rightarrow> nat \<Rightarrow> ack list \<Rightarrow> chat \<Rightarrow> event list" where
  "chat_stream env limit [] st = end_stream env st"
| "chat_stream env limit (a # as) st =
     (case take_ack env limit a st of
        (evs, st', Continue) \<Rightarrow> evs @ chat_stream env limit as st'
      | (evs, st', Break) \<Rightarrow> evs @ end_stream env st'
      | (evs, st', Abort) \<Rightarrow> evs)"

subsection \<open>The text of the lanes\<close>

text \<open>Chunks of output, with the reasoning and the content sent joined.\<close>

fun lane_feeds :: "'j tool_env \<Rightarrow> pystr list \<Rightarrow> chat \<Rightarrow> chat \<times> pystr \<times> pystr" where
  "lane_feeds env [] st = (st, [], [])"
| "lane_feeds env (w # ws) st =
     (case lanes env w st of (st1, r, c, d) \<Rightarrow>
      case lane_feeds env ws st1 of (st2, rs, cs) \<Rightarrow> (st2, opt_str r @ rs, opt_str c @ cs))"

lemma lane_out_nil: "lane_of t = snd (lane op w) \<Longrightarrow> lane (opener t) (buf t) = ([], lane_of t)"
proof -
  assume a: "lane_of t = snd (lane op w)"
  have "lane op (w @ []) = lane_next [] (lane op w)" by (rule lane_feed)
  then show "lane (opener t) (buf t) = ([], lane_of t)"
    using a by (cases "lane op w") (simp add: lane_next_def lane_of_def prod_eq_iff)
qed

lemma feeds_same:
  assumes "cut_free s" "concat a = concat b" "\<forall>w \<in> set a. w \<noteq> []" "\<forall>w \<in> set b. w \<noteq> []"
  shows "feeds a s = feeds b s"
proof (cases a)
  case Nil
  then have "b = []" using assms(2,4) by (cases b) auto
  with Nil show ?thesis by simp
next
  case (Cons w ws)
  then obtain v vs where b: "b = v # vs" using assms(2,3) by (cases b) auto
  show ?thesis unfolding Cons b
    using feeds_concat [OF assms(1), of w ws] feeds_concat [OF assms(1), of v vs] assms(2) Cons b by simp
qed

definition calm :: "tstream \<Rightarrow> bool" where
  "calm t = (tool_ok t \<and> lane (opener t) (buf t) = ([], lane_of t))"

lemma tool_push_calm:
  assumes "calm t" "tool_push env w t = (t', c, d)"
  shows "calm t' \<and> lane (opener t) (buf t @ w) = (opt_str c, lane_of t')"
proof -
  have l: "(opt_str c, lane_of t') = lane (opener t) (buf t @ w) \<and> tool_ok t'"
    using tool_push_lane [OF _ assms(2)] assms(1) by (simp add: calm_def)
  then have "lane_of t' = snd (lane (opener t) (buf t @ w))" by (metis snd_conv)
  from lane_out_nil [OF this] l show ?thesis by (simp add: calm_def)
qed

lemma push_calls_calm:
  assumes "calls st = Some t" "calm t" "push_calls env c st = (st', c', d)"
  shows "\<exists>t'. st' = st\<lparr>calls := Some t'\<rparr> \<and> calm t' \<and> lane (opener t) (buf t @ opt_str c) = (opt_str c', lane_of t')"
proof (cases "opt_str c = []")
  case True
  then have "st' = st" "c' = c" using assms(1,3) by (auto simp: push_calls_def)
  then show ?thesis using assms(1,2) True by (intro exI [of _ t]) (simp add: calm_def)
next
  case False
  obtain t' c1 d1 where p: "tool_push env (opt_str c) t = (t', c1, d1)" by (metis prod_cases3)
  with tool_push_calm [OF assms(2) p] False assms(1,3) show ?thesis by (auto simp: push_calls_def)
qed

lemma push_reasoning_feeds:
  assumes "rstream st = Some s" "push_reasoning c st = (st', r, c')"
  shows "\<exists>s'. st' = st\<lparr>rstream := Some s'\<rparr> \<and> feeds (filter (\<lambda>w. w \<noteq> []) [opt_str c]) s = (s', opt_str r, opt_str c')"
  using assms by (auto simp: push_reasoning_def split: if_splits prod.splits)

lemma feeds_append: "feeds (a @ b) s = (case feeds a s of (s1, r, c) \<Rightarrow> after r c (feeds b s1))"
  by (induction a arbitrary: s) (auto split: prod.splits)

lemma lane_step:
  assumes "lane op (h @ a) = (c, op1, h1)"
  shows "lane op (h @ a @ b) = (c @ fst (lane op1 (h1 @ b)), snd (lane op1 (h1 @ b)))"
  using lane_feed [of op "h @ a" b] assms by (simp add: lane_next_def)

text \<open>Gated: the tool call splitter reads the content of the reasoning splitter.\<close>

lemma gated_feeds:
  assumes "gated st" "rstream st = Some s" "calls st = Some t" "calm t"
  shows "case lane_feeds env ws st of (st', r, c) \<Rightarrow> case feeds (filter (\<lambda>w. w \<noteq> []) ws) s of (s', r0, c0) \<Rightarrow>
      r = r0 \<and> c = fst (lane (opener t) (buf t @ c0))"
  using assms
proof (induction ws arbitrary: st s t)
  case Nil
  then show ?case by (simp add: calm_def)
next
  case (Cons w ws)
  show ?case
  proof (cases "w = []")
    case True
    then show ?thesis using Cons.IH [OF Cons.prems] by (simp add: lanes_def split: prod.splits)
  next
    case w: False
    obtain st1 r c where 1: "push_reasoning (Some w) st = (st1, r, c)" by (metis prod_cases3)
    obtain s' where s': "st1 = st\<lparr>rstream := Some s'\<rparr>" "feeds (filter (\<lambda>w. w \<noteq> []) [w]) s = (s', opt_str r, opt_str c)"
      using push_reasoning_feeds [OF Cons.prems(2) 1] by auto
    have "calls st1 = Some t" using s' Cons.prems(3) by simp
    obtain st2 c' d where 2: "push_calls env c st1 = (st2, c', d)" by (metis prod_cases3)
    obtain t' where t': "st2 = st1\<lparr>calls := Some t'\<rparr>" "calm t'" "lane (opener t) (buf t @ opt_str c) = (opt_str c', lane_of t')"
      using push_calls_calm [OF \<open>calls st1 = Some t\<close> Cons.prems(4) 2] by auto
    have l: "lanes env w st = (st2, r, c', d)" using w Cons.prems(1) 1 2 by (simp add: lanes_def)
    obtain st3 r3 c3 where 3: "lane_feeds env ws st2 = (st3, r3, c3)" by (metis prod_cases3)
    obtain s4 r4 c4 where 4: "feeds (filter (\<lambda>w. w \<noteq> []) ws) s' = (s4, r4, c4)" by (metis prod_cases3)
    have "r3 = r4 \<and> c3 = fst (lane (opener t') (buf t' @ c4))"
      using Cons.IH [of st2 s' t'] 3 4 s'(1) t'(1,2) Cons.prems(1) by simp
    moreover have "feeds (filter (\<lambda>w. w \<noteq> []) (w # ws)) s = (s4, opt_str r @ r4, opt_str c @ c4)"
      using s'(2) 4 w feeds_append [of "[w]" "filter (\<lambda>w. w \<noteq> []) ws" s] by simp
    moreover have "fst (lane (opener t) (buf t @ opt_str c @ c4)) = opt_str c' @ fst (lane (opener t') (buf t' @ c4))"
      using lane_step [of "opener t" "buf t" "opt_str c" _ _ _ c4] t'(3) by (simp add: lane_of_def)
    ultimately show ?thesis using l 3 by simp
  qed
qed

text \<open>Raw: the reasoning splitter reads the content of the tool call splitter.\<close>

lemma raw_feeds:
  assumes "\<not> gated st" "rstream st = Some s" "calls st = Some t" "calm t"
  shows "\<exists>vs. (\<forall>v \<in> set vs. v \<noteq> []) \<and> concat vs = fst (lane (opener t) (buf t @ concat ws))
      \<and> snd (lane_feeds env ws st) = snd (feeds vs s)"
  using assms
proof (induction ws arbitrary: st s t)
  case Nil
  then show ?case by (intro exI [of _ "[]"]) (simp add: calm_def)
next
  case (Cons w ws)
  show ?case
  proof (cases "w = []")
    case True
    then show ?thesis using Cons.IH [OF Cons.prems] by (simp add: lanes_def split: prod.splits)
  next
    case w: False
    obtain st1 c d where 1: "push_calls env (Some w) st = (st1, c, d)" by (metis prod_cases3)
    obtain t' where t': "st1 = st\<lparr>calls := Some t'\<rparr>" "calm t'" "lane (opener t) (buf t @ w) = (opt_str c, lane_of t')"
      using push_calls_calm [OF Cons.prems(3,4) 1] by auto
    have "rstream st1 = Some s" using t' Cons.prems(2) by simp
    obtain st2 r c' where 2: "push_reasoning c st1 = (st2, r, c')" by (metis prod_cases3)
    obtain s' where s': "st2 = st1\<lparr>rstream := Some s'\<rparr>" "feeds (filter (\<lambda>w. w \<noteq> []) [opt_str c]) s = (s', opt_str r, opt_str c')"
      using push_reasoning_feeds [OF \<open>rstream st1 = Some s\<close> 2] by auto
    have l: "lanes env w st = (st2, r, c', d)" using w Cons.prems(1) 1 2 by (simp add: lanes_def)
    obtain vs where v: "\<forall>v \<in> set vs. v \<noteq> []" "concat vs = fst (lane (opener t') (buf t' @ concat ws))"
      "snd (lane_feeds env ws st2) = snd (feeds vs s')"
      using Cons.IH [of st2 s' t'] s'(1) t'(1,2) Cons.prems(1) by auto
    let ?vs = "filter (\<lambda>w. w \<noteq> []) [opt_str c] @ vs"
    have "snd (lane_feeds env (w # ws) st) = snd (feeds ?vs s)"
      using l v(3) s'(2) by (cases "lane_feeds env ws st2"; cases "feeds vs s'") (simp add: feeds_append del: feeds.simps)
    moreover have "concat ?vs = fst (lane (opener t) (buf t @ concat (w # ws)))"
      using lane_step [of "opener t" "buf t" w _ _ _ "concat ws"] t'(3) v(2) by (simp add: lane_of_def)
    ultimately show ?thesis using v(1) by (intro exI [of _ ?vs]) auto
  qed
qed

text \<open>
  C18. What the client reads does not depend on how the backend cuts the output: in either order
  of the splitters, from the start of a turn whose reasoning splitter \<open>s\<close> is \<open>cut_free\<close> (plain
  delimiters, and past its probe or probing inside an open span), two lists of chunks of the
  same text deliver the same reasoning and the same content.  A splitter that probes outside a
  span is excluded: there the cut does matter, see \<open>first_chunk_unwatched\<close>.
\<close>

theorem chat_text_ignores_chunks:
  assumes "cut_free s" "concat ws = concat ws'"
  shows "snd (lane_feeds env ws (chat0 (Some s) (Some tstream0) mode)) = snd (lane_feeds env ws' (chat0 (Some s) (Some tstream0) mode))"
proof -
  let ?st = "chat0 (Some s) (Some tstream0) mode" and ?f = "filter (\<lambda>w. w \<noteq> [])"
  have c: "calm tstream0" by (simp add: calm_def tool_ok_def tstream0_def lane_of_def)
  have st: "rstream ?st = Some s" "calls ?st = Some tstream0" "gated ?st = mode" by (simp_all add: chat0_def)
  show ?thesis
  proof (cases mode)
    case True
    have "concat (?f a) = concat a" for a :: "pystr list" by (induction a) auto
    then have "feeds (?f ws) s = feeds (?f ws') s" by (intro feeds_same [OF assms(1)]) (simp_all add: assms(2))
    then show ?thesis using gated_feeds [OF _ st(1,2) c, of ws env] gated_feeds [OF _ st(1,2) c, of ws' env] st(3) True
      by (auto split: prod.splits)
  next
    case False
    then show ?thesis using raw_feeds [OF _ st(1,2) c, of ws env] raw_feeds [OF _ st(1,2) c, of ws' env] st(3)
      feeds_same [OF assms(1)] assms(2) by (metis (no_types, lifting))
  qed
qed

theorem chat_text_ignores_chunks_witness:
  "snd (lane_feeds name_env [str ''a</think>b<to'', str ''ol_call>c''] (chat0 (Some (stream_state think_tags True None)) (Some tstream0) True))
     = snd (lane_feeds name_env [str ''a</th'', str ''ink>b<tool_call>c''] (chat0 (Some (stream_state think_tags True None)) (Some tstream0) True))"
  by (rule chat_text_ignores_chunks [OF think_tags_free]) code_simp

text \<open>
  A call whose streamed arguments never finished is reported as a complete one: a block that
  closes, or a stream that ends, inside the arguments leaves the client with a fragment that is
  no JSON (in the first case with the closing tag in it) and the finish reason \<open>tool_calls\<close>,
  although the splitter itself has marked the tail as unparsed; without argument streaming the
  second reply ends with \<open>length\<close>.
\<close>

definition output_ack :: "pystr \<Rightarrow> bool \<Rightarrow> ack" where
  "output_ack w fin = \<lparr>ack_error = None, incremental_output = w, ack_reason = (if fin then Some Stop else None), finished = fin\<rparr>"

definition cut_call :: pystr where
  "cut_call = str ''<tool_call>{'' @ jlit ''name'' @ str '': '' @ jlit ''ls'' @ str '', '' @ jlit ''arguments'' @ str '': {''"

definition no_call_env :: "bool \<Rightarrow> pystr tool_env" where
  "no_call_env streaming = name_env\<lparr>parse_one := (\<lambda>_. None), arg_stream := streaming\<rparr>"

theorem broken_call_reported_complete:
  "chat_stream (no_call_env True) 0 [output_ack cut_call False, output_ack (str ''</tool_call>'') True] (chat0 None (Some tstream0) False)
     = [Delta True None None, Tool_delta (Call 0 (0, 0) (str ''ls'')), Tool_delta (Frag 0 (str ''{'')),
        Tool_delta (Frag 0 (str ''</tool_call>'')), Final None None Tool_calls False]
   \<and> chat_stream (no_call_env True) 0 [output_ack cut_call True] (chat0 None (Some tstream0) False)
     = [Delta True None None, Tool_delta (Call 0 (0, 0) (str ''ls'')), Tool_delta (Frag 0 (str ''{'')), Final None None Tool_calls False]
   \<and> chat_stream (no_call_env False) 0 [output_ack cut_call True] (chat0 None (Some tstream0) False)
     = [Delta True None None, Final None (Some cut_call) Length False]"
  by (intro conjI; code_simp)

end
