(* ===== verification/Scheduler.thy ===== *)
theory Scheduler
  imports Prefill Decode_Manager Think_Gate Tool_Gate
begin

section \<open>The scheduler loop (scheduler/scheduler.py)\<close>

text \<open>
  One rank of \<open>Scheduler\<close> with its managers and gates: messages, the choice of a batch, its
  pages, the forward pass as the tokens it reads and the cells it writes, and the processing of
  its results, in the order of \<open>normal_loop\<close> and of \<open>overlap_loop\<close>.  A \<open>Req\<close> object is a number
  into \<open>sc_store\<close>; \<open>sc_ref\<close> is the object a pending request or a client id was last given.
  Parameters: the prefix cache, the contents of fresh memory, the clock readings, the sampled
  tokens and what the request's own parameters say (\<open>req_spec\<close>).  Left out: grammar matchers,
  CAM, recurrent state, speculative decoding, logprobs and logs.
\<close>

record req_spec =
  rs_force :: "ids option"
  rs_header :: "ids option"
  rs_prefix :: "ids option"
  rs_suffix :: "ids option"
  rs_release :: "ids option list"
  rs_budget :: "int option"
  rs_grammar_required :: bool
  rs_max_tokens :: int
  rs_openers :: "ids option list"
  rs_closers :: "ids option list"
  rs_think_closers :: "ids option list"
  rs_ignore_eos :: bool

record sched_env =
  se_spec :: "uid \<Rightarrow> req_spec"
  se_eos :: "int list"
  se_kv_budget :: nat
  se_max_seq :: nat
  se_cols :: nat

record ('c, 'h) sched =
  sc_store :: "nat \<Rightarrow> 'h req"
  sc_freed :: "nat \<Rightarrow> bool"
  sc_next :: nat
  sc_ref :: "int \<Rightarrow> nat"
  sc_pm :: "'h prefill_mgr"
  sc_dm :: decode_mgr
  sc_cm :: "'c cache_mgr"
  sc_tm :: table_mgr
  sc_think :: think_gate
  sc_tool :: tool_gate
  sc_finished :: "nat list"

text \<open>A batch: its objects, and whether it is a prefill.\<close>

type_synonym sbatch = "nat list \<times> bool"

record reply =
  rp_uid :: uid
  rp_token :: int
  rp_finished :: bool
  rp_stop :: "bool option"
  rp_error :: bool

subsection \<open>The gates of a request\<close>

definition given_ids :: "ids option list \<Rightarrow> pattern_spec list" where
  "given_ids xs = concat (map (\<lambda>x. case x of None \<Rightarrow> [] | Some i \<Rightarrow> if i = [] then [] else [Bare i]) xs)"

definition think_releases :: "req_spec \<Rightarrow> pattern_spec list" where
  "think_releases s =
     given_ids [rs_header s]
     @ (case (rs_prefix s, rs_suffix s) of
          (Some p, Some q) \<Rightarrow> if p \<noteq> [] \<and> q \<noteq> [] then [Triple p q 16] else [] | _ \<Rightarrow> [])
     @ given_ids (rs_release s)"

definition maybe_arm_think :: "sched_env \<Rightarrow> uid \<Rightarrow> think_gate \<Rightarrow> think_gate" where
  "maybe_arm_think env u g =
     (if tg_is_armed g u \<or> tg_is_done g u then g
      else (case rs_force (se_spec env u) of
              None \<Rightarrow> g
            | Some f \<Rightarrow>
                (let s = se_spec env u;
                     b = (case rs_budget s of Some v \<Rightarrow> if v < 0 \<and> rs_grammar_required s then None else Some v | None \<Rightarrow> None)
                 in snd (tg_arm g u f (think_releases s) b (rs_max_tokens s) (se_eos env)))))"

definition maybe_arm_tool :: "sched_env \<Rightarrow> uid \<Rightarrow> tool_gate \<Rightarrow> tool_gate" where
  "maybe_arm_tool env u g =
     (let s = se_spec env u; os = given_ids (rs_openers s); cs = given_ids (rs_closers s)
      in if os = [] \<or> cs = [] then g
         else snd (tlg_arm g u os cs (se_eos env) (given_ids (rs_think_closers s))))"

text \<open>A committed token reaches both gates only while the reasoning gate is armed.\<close>

definition commit_gates :: "uid \<Rightarrow> int \<Rightarrow> think_gate \<times> tool_gate \<Rightarrow> think_gate \<times> tool_gate" where
  "commit_gates u tok gs =
     (if tg_is_armed (fst gs) u
      then (snd (take_loop_report (snd (tg_commit (fst gs) u tok)) u), tlg_commit (snd gs) u tok)
      else gs)"

definition build_eos_suppress :: "(nat \<Rightarrow> 'h req) \<Rightarrow> think_gate \<times> tool_gate \<Rightarrow> nat list \<Rightarrow> bool list" where
  "build_eos_suppress S gs ids = map (\<lambda>i. suppress_eos (fst gs) (rq_uid (S i)) \<or> tlg_suppress_eos (snd gs) (rq_uid (S i))) ids"

subsection \<open>Freeing a request\<close>

definition free_req_resources ::
    "('c, 'h) cache_ops \<Rightarrow> int \<times> int \<Rightarrow> nat \<Rightarrow> ('c, 'h) sched \<Rightarrow> ('c, 'h) sched run" where
  "free_req_resources K clk i sc =
     (if sc_freed sc i then Some (Inr sc)
      else (let r = sc_store sc i
            in bindX (cache_req K (fst clk) (snd clk) True r (sc_cm sc)) (\<lambda>(h, r', m).
                 Some (Inr (sc\<lparr>sc_freed := (sc_freed sc)(i := True),
                               sc_tm := tm_free_slot (rq_table r) (sc_tm sc), sc_cm := m,
                               sc_think := tg_free (sc_think sc) (rq_uid r),
                               sc_tool := tlg_free (sc_tool sc) (rq_uid r)\<rparr>)))))"

subsection \<open>Messages\<close>

datatype msg = User_msg uid "int list" nat bool "(int \<times> int) list option" | Abort_msg uid | Batch_msg "msg list"

definition user_msg ::
    "sched_env \<Rightarrow> uid \<Rightarrow> int list \<Rightarrow> nat \<Rightarrow> bool \<Rightarrow> (int \<times> int) list option \<Rightarrow> ('c, 'h) sched \<Rightarrow> reply list \<times> ('c, 'h) sched" where
  "user_msg env u ids max_tokens cache_output mm sc =
     (let max_output = int (se_max_seq env) - int (length ids)
      in if max_output \<le> 0
         then ([\<lparr>rp_uid = u, rp_token = 0, rp_finished = True, rp_stop = Some False, rp_error = True\<rparr>], sc)
         else ([], sc\<lparr>sc_pm := pm_add_one_req
                \<lparr>pd_uid = u, pd_ids = ids, pd_output = min max_tokens (nat max_output), pd_cache_output = cache_output,
                 pd_chunked = None, pd_mm = mm\<rparr> (sc_pm sc)\<rparr>))"

definition abort_msg ::
    "('c, 'h) cache_ops \<Rightarrow> int \<times> int \<Rightarrow> uid \<Rightarrow> ('c, 'h) sched \<Rightarrow> ('c, 'h) sched run" where
  "abort_msg K clk u sc =
     (case pm_abort_req u (sc_pm sc) of
        (Some _, pm) \<Rightarrow> free_req_resources K clk (sc_ref sc u) (sc\<lparr>sc_pm := pm\<rparr>)
      | (None, pm) \<Rightarrow>
          (case abort_req u (sc_dm sc) of
             (None, dm) \<Rightarrow> Some (Inr (sc\<lparr>sc_pm := pm, sc_dm := dm\<rparr>))
           | (Some i, dm) \<Rightarrow> free_req_resources K clk i (sc\<lparr>sc_pm := pm, sc_dm := dm\<rparr>)))"

fun process_msg ::
    "('c, 'h) cache_ops \<Rightarrow> sched_env \<Rightarrow> int \<times> int \<Rightarrow> msg \<Rightarrow> ('c, 'h) sched \<Rightarrow> (reply list \<times> ('c, 'h) sched) run"
  and process_msgs ::
    "('c, 'h) cache_ops \<Rightarrow> sched_env \<Rightarrow> int \<times> int \<Rightarrow> msg list \<Rightarrow> ('c, 'h) sched \<Rightarrow> (reply list \<times> ('c, 'h) sched) run" where
  "process_msg K env clk (User_msg u ids n co mm) sc = Some (Inr (user_msg env u ids n co mm sc))"
| "process_msg K env clk (Abort_msg u) sc = bindX (abort_msg K clk u sc) (\<lambda>sc'. Some (Inr ([], sc')))"
| "process_msg K env clk (Batch_msg ms) sc = process_msgs K env clk ms sc"
| "process_msgs K env clk [] sc = Some (Inr ([], sc))"
| "process_msgs K env clk (x # xs) sc =
     bindX (process_msg K env clk x sc) (\<lambda>(rs, sc1).
     bindX (process_msgs K env clk xs sc1) (\<lambda>(rs', sc2). Some (Inr (rs @ rs', sc2))))"

subsection \<open>Choosing and preparing a batch\<close>

text \<open>\<open>_prefill_budget_now\<close>: what the free memory affords, in whole pages, with a floor.\<close>

definition prefill_budget_now :: "int \<Rightarrow> int \<Rightarrow> int \<Rightarrow> int \<Rightarrow> int \<Rightarrow> int" where
  "prefill_budget_now base act_bytes safety free page =
     (if act_bytes \<le> 0 then base
      else (let affordable = (free - safety) div act_bytes; pg = max 1 page
            in if affordable \<ge> base then base
               else max (min base (max pg 1024)) (affordable div pg * pg)))"

text \<open>A pending request holds the very object of its last chunk.\<close>

definition refresh :: "('c, 'h) sched \<Rightarrow> 'h pending \<Rightarrow> 'h pending" where
  "refresh sc p = p\<lparr>pd_chunked := map_option (\<lambda>_. sc_store sc (sc_ref sc (pd_uid p))) (pd_chunked p)\<rparr>"

definition new_objects :: "'h req list \<Rightarrow> ('c, 'h) sched \<Rightarrow> nat list \<times> ('c, 'h) sched" where
  "new_objects rs sc =
     (let n = sc_next sc; ids = [n..<n + length rs]
      in (ids, sc\<lparr>sc_store := foldl (\<lambda>S (i, r). S(i := r)) (sc_store sc) (zip ids rs),
                  sc_freed := foldl (\<lambda>f i. f(i := False)) (sc_freed sc) ids,
                  sc_next := n + length rs,
                  sc_ref := foldl (\<lambda>f (i, r). f(rq_uid r := i)) (sc_ref sc) (zip ids rs)\<rparr>))"

definition schedule_next_batch ::
    "('c, 'h) cache_ops \<Rightarrow> (nat \<Rightarrow> int list) \<Rightarrow> (nat \<Rightarrow> int \<times> int) \<Rightarrow> int \<Rightarrow> ('c, 'h) sched \<Rightarrow>
     (sbatch option \<times> ('c, 'h) sched) run" where
  "schedule_next_batch K mem clk budget sc =
     bindX (schedule_prefill K mem clk budget (inflight_tokens (sc_store sc) (sc_dm sc))
              ((sc_pm sc)\<lparr>pm_pending := map (refresh sc) (pm_pending (sc_pm sc))\<rparr>) (sc_cm sc) (sc_tm sc))
       (\<lambda>(res, pm, cm, tm).
          let sc1 = sc\<lparr>sc_pm := pm, sc_cm := cm, sc_tm := tm\<rparr>
          in case res of
               Some rs \<Rightarrow> (case new_objects rs sc1 of (ids, sc2) \<Rightarrow> Some (Inr (Some (ids, True), sc2)))
             | None \<Rightarrow>
                 (case dm_schedule (sc_store sc1) (sc_dm sc1) of
                    (None, dm) \<Rightarrow> Some (Inr (None, sc1\<lparr>sc_dm := dm\<rparr>))
                  | (Some ids, dm) \<Rightarrow> Some (Inr (Some (ids, False), sc1\<lparr>sc_dm := dm\<rparr>))))"

definition prepare_batch :: "('c, 'h) cache_ops \<Rightarrow> sbatch \<Rightarrow> ('c, 'h) sched \<Rightarrow> ('c, 'h) sched run" where
  "prepare_batch K b sc = bindX (allocate_paged K (map (sc_store sc) (fst b)) (sc_cm sc)) (\<lambda>m. Some (Inr (sc\<lparr>sc_cm := m\<rparr>)))"

subsection \<open>The forward pass\<close>

text \<open>\<open>_make_input_tuple\<close> and \<open>_make_write_tuple\<close>; position \<open>-1\<close> is the last column.\<close>

definition input_tokens :: "('c, 'h) sched \<Rightarrow> nat list \<Rightarrow> int list list" where
  "input_tokens sc ids =
     map (\<lambda>i. let r = sc_store sc i in map (tm_pool (sc_tm sc) (rq_table r)) [rq_cached r..<rq_device r]) ids"

definition write_cells :: "sched_env \<Rightarrow> (nat \<Rightarrow> 'h req) \<Rightarrow> nat list \<Rightarrow> (nat \<times> nat) list" where
  "write_cells env S ids = map (\<lambda>i. (rq_table (S i), if can_decode (S i) then rq_device (S i) else se_cols env - 1)) ids"

definition put_cell :: "nat \<times> nat \<Rightarrow> int \<Rightarrow> (nat \<Rightarrow> nat \<Rightarrow> int) \<Rightarrow> nat \<Rightarrow> nat \<Rightarrow> int" where
  "put_cell c v T = T(fst c := (T (fst c))(snd c := v))"

definition put_cells :: "((nat \<times> nat) \<times> int) list \<Rightarrow> (nat \<Rightarrow> nat \<Rightarrow> int) \<Rightarrow> nat \<Rightarrow> nat \<Rightarrow> int" where
  "put_cells ws T = foldl (\<lambda>T (c, v). put_cell c v T) T ws"

definition forward :: "sched_env \<Rightarrow> sbatch \<Rightarrow> int list \<Rightarrow> ('c, 'h) sched \<Rightarrow> ('c, 'h) sched" where
  "forward env b toks sc =
     (let ids = fst b; S = sc_store sc;
          S' = foldl (\<lambda>S i. S(i := complete_one (S i))) S ids
      in sc\<lparr>sc_store := S',
            sc_tm := (sc_tm sc)\<lparr>tm_pool := put_cells (zip (write_cells env S ids) toks) (tm_pool (sc_tm sc))\<rparr>,
            sc_dm := filter_reqs S' ids (sc_dm sc)\<rparr>)"

subsection \<open>The results of a batch\<close>

text \<open>The gate's forced token replaces the sampled one, in the pool cell the forward wrote too.\<close>

definition override :: "think_gate \<Rightarrow> uid \<Rightarrow> int \<Rightarrow> int" where
  "override g u tok = (case forced_next g u of None \<Rightarrow> tok | Some f \<Rightarrow> f)"

definition fixup_cell :: "'h req \<Rightarrow> int \<Rightarrow> int \<Rightarrow> table_mgr \<Rightarrow> table_mgr" where
  "fixup_cell r tok tok' tm = (if tok' \<noteq> tok then tm\<lparr>tm_pool := put_cell (rq_table r, rq_cached r) tok' (tm_pool tm)\<rparr> else tm)"

text \<open>Whether the request ends with this token, and whether by an end token.\<close>

definition ends_with :: "sched_env \<Rightarrow> 'h req \<Rightarrow> int \<Rightarrow> bool \<times> bool" where
  "ends_with env r tok =
     (let eos = (\<not> rs_ignore_eos (se_spec env (rq_uid r)) \<and> tok \<in> set (se_eos env))
      in (eos \<or> \<not> can_decode r \<or> (se_kv_budget env \<noteq> 0 \<and> se_kv_budget env \<le> rq_device r), eos))"

text \<open>
  The token of one request: the gates are armed, the override is taken, the host buffer extended,
  and a token that does not end the request is committed to the gates.
\<close>

definition row_reply :: "uid \<Rightarrow> int \<Rightarrow> bool \<times> bool \<Rightarrow> reply" where
  "row_reply u tok fe =
     \<lparr>rp_uid = u, rp_token = tok, rp_finished = fst fe, rp_stop = (if fst fe then Some (snd fe) else None), rp_error = False\<rparr>"

definition row_gates :: "uid \<Rightarrow> int \<Rightarrow> bool \<Rightarrow> think_gate \<times> tool_gate \<Rightarrow> think_gate \<times> tool_gate" where
  "row_gates u tok fin gs = (if fin then gs else commit_gates u tok gs)"

definition row_state ::
    "nat \<Rightarrow> 'h req \<Rightarrow> table_mgr \<Rightarrow> think_gate \<times> tool_gate \<Rightarrow> ('c, 'h) sched \<Rightarrow> ('c, 'h) sched" where
  "row_state i r' tm gs sc =
     sc\<lparr>sc_store := (sc_store sc)(i := r'), sc_tm := tm, sc_think := fst gs, sc_tool := snd gs\<rparr>"

definition commit_row ::
    "sched_env \<Rightarrow> nat \<Rightarrow> 'h req \<Rightarrow> table_mgr \<Rightarrow> int \<Rightarrow> bool \<times> bool \<Rightarrow> think_gate \<times> tool_gate \<Rightarrow> ('c, 'h) sched \<Rightarrow>
     bool \<times> reply \<times> ('c, 'h) sched" where
  "commit_row env i r' tm tok fe gs sc =
     (fst fe, row_reply (rq_uid r') tok fe, row_state i r' tm (row_gates (rq_uid r') tok (fst fe) gs) sc)"

definition commit_override ::
    "(nat \<Rightarrow> int list) \<Rightarrow> sched_env \<Rightarrow> nat \<Rightarrow> 'h req \<Rightarrow> int \<Rightarrow> int \<Rightarrow> think_gate \<times> tool_gate \<Rightarrow> ('c, 'h) sched \<Rightarrow>
     bool \<times> reply \<times> ('c, 'h) sched" where
  "commit_override mem env i r tok tok' gs sc =
     commit_row env i (append_host_ids mem [tok'] r) (fixup_cell r tok tok' (sc_tm sc)) tok'
       (ends_with env (append_host_ids mem [tok'] r) tok') gs sc"

definition commit_armed ::
    "(nat \<Rightarrow> int list) \<Rightarrow> sched_env \<Rightarrow> nat \<Rightarrow> 'h req \<Rightarrow> int \<Rightarrow> think_gate \<times> tool_gate \<Rightarrow> ('c, 'h) sched \<Rightarrow>
     bool \<times> reply \<times> ('c, 'h) sched" where
  "commit_armed mem env i r tok gs sc = commit_override mem env i r tok (override (fst gs) (rq_uid r) tok) gs sc"

definition armed_gates :: "sched_env \<Rightarrow> uid \<Rightarrow> think_gate \<times> tool_gate \<Rightarrow> think_gate \<times> tool_gate" where
  "armed_gates env u gs = (maybe_arm_think env u (fst gs), maybe_arm_tool env u (snd gs))"

definition commit_token ::
    "(nat \<Rightarrow> int list) \<Rightarrow> sched_env \<Rightarrow> nat \<Rightarrow> int \<Rightarrow> ('c, 'h) sched \<Rightarrow> bool \<times> reply \<times> ('c, 'h) sched" where
  "commit_token mem env i tok sc =
     commit_armed mem env i (sc_store sc i) tok (armed_gates env (rq_uid (sc_store sc i)) (sc_think sc, sc_tool sc)) sc"

definition settle_req ::
    "('c, 'h) cache_ops \<Rightarrow> int \<times> int \<Rightarrow> bool \<Rightarrow> nat \<Rightarrow> bool \<Rightarrow> ('c, 'h) sched \<Rightarrow> (nat list \<times> ('c, 'h) sched) run" where
  "settle_req K clk is_prefill i fin sc =
     (if fin \<and> i \<notin> set (sc_finished sc)
      then bindX (free_req_resources K clk i (sc\<lparr>sc_dm := remove_req (sc_store sc) i (sc_dm sc)\<rparr>))
             (\<lambda>sc'. Some (Inr ([i], sc')))
      else if is_prefill
      then bindX (cache_req K (fst clk) (snd clk) False (sc_store sc i) (sc_cm sc))
             (\<lambda>(h, r', m). Some (Inr ([], sc\<lparr>sc_store := (sc_store sc)(i := r'), sc_cm := m\<rparr>)))
      else Some (Inr ([], sc)))"

fun process_rows ::
    "('c, 'h) cache_ops \<Rightarrow> (nat \<Rightarrow> int list) \<Rightarrow> sched_env \<Rightarrow> (nat \<Rightarrow> int \<times> int) \<Rightarrow> bool \<Rightarrow> nat \<Rightarrow> (nat \<times> int) list \<Rightarrow>
     ('c, 'h) sched \<Rightarrow> (reply list \<times> nat list \<times> ('c, 'h) sched) run" where
  "process_rows K mem env clk is_prefill k [] sc = Some (Inr ([], [], sc))"
| "process_rows K mem env clk is_prefill k ((i, tok) # rows) sc =
     (if rq_chunked (sc_store sc i) then process_rows K mem env clk is_prefill (Suc k) rows sc
      else (case commit_token mem env i tok sc of (fin, rp, sc1) \<Rightarrow>
              bindX (settle_req K (clk k) is_prefill i fin sc1) (\<lambda>(new, sc2).
              bindX (process_rows K mem env clk is_prefill (Suc k) rows sc2) (\<lambda>(rs, fs, sc3).
                Some (Inr (rp # rs, new @ fs, sc3))))))"

definition process_last_data ::
    "('c, 'h) cache_ops \<Rightarrow> (nat \<Rightarrow> int list) \<Rightarrow> sched_env \<Rightarrow> (nat \<Rightarrow> int \<times> int) \<Rightarrow> (sbatch \<times> int list) option \<Rightarrow>
     ('c, 'h) sched \<Rightarrow> (reply list \<times> ('c, 'h) sched) run" where
  "process_last_data K mem env clk last_data sc =
     (case last_data of
        None \<Rightarrow> Some (Inr ([], sc))
      | Some (b, toks) \<Rightarrow>
          bindX (process_rows K mem env clk (snd b) 0 (zip (fst b) toks) sc) (\<lambda>(rs, fs, sc').
            Some (Inr (rs, sc'\<lparr>sc_finished := fs\<rparr>))))"

subsection \<open>The loops\<close>

text \<open>What one turn meets: messages, clock readings, the prefill budget, the token sampled for each row.\<close>

record turn =
  tn_msgs :: "msg list"
  tn_clk :: "int \<times> int"
  tn_sched_clk :: "nat \<Rightarrow> int \<times> int"
  tn_done_clk :: "nat \<Rightarrow> int \<times> int"
  tn_budget :: int
  tn_tokens :: "nat \<Rightarrow> int"

text \<open>Schedule, prepare and run a batch; the tokens the forward read.\<close>

definition launch_batch ::
    "('c, 'h) cache_ops \<Rightarrow> (nat \<Rightarrow> int list) \<Rightarrow> sched_env \<Rightarrow> turn \<Rightarrow> ('c, 'h) sched \<Rightarrow>
     ((sbatch \<times> int list) option \<times> int list list \<times> ('c, 'h) sched) run" where
  "launch_batch K mem env tn sc =
     bindX (schedule_next_batch K mem (tn_sched_clk tn) (tn_budget tn) sc) (\<lambda>(ob, sc1).
       case ob of
         None \<Rightarrow> Some (Inr (None, [], sc1))
       | Some b \<Rightarrow> bindX (prepare_batch K b sc1) (\<lambda>sc2.
           let toks = map (tn_tokens tn) [0..<length (fst b)]
           in Some (Inr (Some (b, toks), input_tokens sc2 (fst b), forward env b toks sc2))))"

definition normal_turn ::
    "('c, 'h) cache_ops \<Rightarrow> (nat \<Rightarrow> int list) \<Rightarrow> sched_env \<Rightarrow> turn \<Rightarrow> ('c, 'h) sched \<Rightarrow>
     (int list list \<times> reply list \<times> ('c, 'h) sched) run" where
  "normal_turn K mem env tn sc =
     bindX (process_msgs K env (tn_clk tn) (tn_msgs tn) sc) (\<lambda>(rs, sc1).
     bindX (launch_batch K mem env tn sc1) (\<lambda>(data, fed, sc2).
     bindX (process_last_data K mem env (tn_done_clk tn) data sc2) (\<lambda>(rs', sc3).
       Some (Inr (fed, rs @ rs', sc3)))))"

definition overlap_turn ::
    "('c, 'h) cache_ops \<Rightarrow> (nat \<Rightarrow> int list) \<Rightarrow> sched_env \<Rightarrow> turn \<Rightarrow> (sbatch \<times> int list) option \<Rightarrow> ('c, 'h) sched \<Rightarrow>
     (int list list \<times> reply list \<times> (sbatch \<times> int list) option \<times> ('c, 'h) sched) run" where
  "overlap_turn K mem env tn last_data sc =
     bindX (process_msgs K env (tn_clk tn) (tn_msgs tn) sc) (\<lambda>(rs, sc1).
     bindX (launch_batch K mem env tn sc1) (\<lambda>(data, fed, sc2).
     bindX (process_last_data K mem env (tn_done_clk tn) last_data sc2) (\<lambda>(rs', sc3).
       Some (Inr (fed, rs @ rs', data, sc3)))))"

text \<open>\<open>_qsa_chunk_granularity\<close>: whether the sparse path can be live, and the model
  configuration's \<open>indexer_compress_ratio\<close> when it has one.\<close>

definition qsa_chunk_granularity :: "bool \<Rightarrow> int option \<Rightarrow> int" where
  "qsa_chunk_granularity qsa ratio =
     (if \<not> qsa then 1
      else (let r = (case ratio of None \<Rightarrow> 0 | Some x \<Rightarrow> x) in if 1 < r then r else 1))"

text \<open>At boot no object exists; \<open>S\<close> is what the store holds in their place.\<close>

definition sched_init ::
    "(nat \<Rightarrow> 'h req) \<Rightarrow> 'c \<Rightarrow> nat \<Rightarrow> nat \<Rightarrow> bool \<Rightarrow> int option \<Rightarrow> nat \<Rightarrow> (nat \<Rightarrow> nat \<Rightarrow> int) \<Rightarrow> think_gate \<Rightarrow> tool_gate \<Rightarrow> ('c, 'h) sched" where
  "sched_init S c pages page qsa ratio rows table tg tool =
     \<lparr>sc_store = S, sc_freed = (\<lambda>_. False), sc_next = 0, sc_ref = (\<lambda>_. 0),
      sc_pm = \<lparr>pm_pending = [], pm_hit = 0, pm_prompt = 0, pm_gran = qsa_chunk_granularity qsa ratio\<rparr>, sc_dm = dm_init page,
      sc_cm = cm_init c pages page table, sc_tm = tm_init rows, sc_think = tg, sc_tool = tool, sc_finished = []\<rparr>"

fun normal_run ::
    "('c, 'h) cache_ops \<Rightarrow> (nat \<Rightarrow> int list) \<Rightarrow> sched_env \<Rightarrow> turn list \<Rightarrow> ('c, 'h) sched \<Rightarrow>
     (int list list list \<times> reply list \<times> ('c, 'h) sched) run" where
  "normal_run K mem env [] sc = Some (Inr ([], [], sc))"
| "normal_run K mem env (tn # tns) sc =
     bindX (normal_turn K mem env tn sc) (\<lambda>(fed, rs, sc1).
     bindX (normal_run K mem env tns sc1) (\<lambda>(feds, rs', sc2). Some (Inr (fed # feds, rs @ rs', sc2))))"

fun overlap_run ::
    "('c, 'h) cache_ops \<Rightarrow> (nat \<Rightarrow> int list) \<Rightarrow> sched_env \<Rightarrow> turn list \<Rightarrow> (sbatch \<times> int list) option \<Rightarrow> ('c, 'h) sched \<Rightarrow>
     (int list list list \<times> reply list \<times> (sbatch \<times> int list) option \<times> ('c, 'h) sched) run" where
  "overlap_run K mem env [] last_data sc = Some (Inr ([], [], last_data, sc))"
| "overlap_run K mem env (tn # tns) last_data sc =
     bindX (overlap_turn K mem env tn last_data sc) (\<lambda>(fed, rs, data, sc1).
     bindX (overlap_run K mem env tns data sc1) (\<lambda>(feds, rs', data', sc2). Some (Inr (fed # feds, rs @ rs', data', sc2))))"

end
