(* ===== verification/Scheduler_Inv.thy ===== *)
theory Scheduler_Inv
  imports Scheduler
begin

section \<open>The scheduler loop: rows and fed tokens\<close>

text \<open>
  What a turn of \<open>normal_loop\<close> keeps, over any prefix cache: every row of the request table is
  free or belongs to exactly one live request, and the pool cell a decode step will read holds the
  last committed token of its request.
\<close>

subsection \<open>Admission\<close>

text \<open>A request whose next tokens are in its row of the pool.\<close>

definition filled :: "(nat \<Rightarrow> nat \<Rightarrow> int) \<Rightarrow> 'h req \<Rightarrow> bool" where
  "filled T r \<longleftrightarrow> buf_ok r \<and> rq_len r = rq_device r \<and> rq_cached r < rq_device r
     \<and> (\<forall>k. rq_cached r \<le> k \<and> k < rq_device r \<longrightarrow> T (rq_table r) k = rq_ids r ! k)"

lemma filled_cong: "T (rq_table r) = T' (rq_table r) \<Longrightarrow> filled T r = filled T' r"
  by (simp add: filled_def)

lemma add_one_req_pool:
  assumes "add_one_req K mem p h t cached ad = Some (Inr (q, ad'))" "\<And>n. length (mem n) = n"
  shows "tm_free (pa_table ad') = tm_free (pa_table ad) \<and> (\<forall>u. u \<noteq> t \<longrightarrow> tm_pool (pa_table ad') u = tm_pool (pa_table ad) u)
     \<and> (case q of None \<Rightarrow> True | Some r \<Rightarrow> filled (tm_pool (pa_table ad')) r \<and> rq_table r = t \<and> rq_uid r = pd_uid p)"
proof -
  from assms(1) consider "q = None" "ad' = ad" | c r where "q = Some r"
      "make_req mem (c < int (length (pd_ids p)) - int cached) (take (nat (int cached + c)) (pd_ids p)) t cached
         (pd_output p) (pd_uid p) (pd_cache_output p) h = Inr r"
      "pa_table ad' = (pa_table ad)\<lparr>tm_pool := copy_row t cached (take (nat c) (drop cached (pd_ids p))) (tm_pool (pa_table ad))\<rparr>"
    by (auto simp: add_one_req_def Let_def split: option.splits sum.splits)
  then show ?thesis
  proof cases
    case (2 c r)
    note m = make_req_spec [OF assms(2) 2(2)]
    have c: "0 < c" using m(7) by (cases "0 < c") auto
    then have n: "nat (int cached + c) = cached + nat c" by simp
    have "copy_row t cached (take (nat c) (drop cached (pd_ids p))) (tm_pool (pa_table ad)) t k = rq_ids r ! k"
      if "cached \<le> k" "k < rq_device r" for k
    proof -
      have "k < min (length (pd_ids p)) (cached + nat c)" using that(2) by (simp add: m(5) n)
      then show ?thesis using that(1) by (auto simp: copy_row_def m(2) n)
    qed
    then have "filled (copy_row t cached (take (nat c) (drop cached (pd_ids p))) (tm_pool (pa_table ad))) r"
      using m by (simp add: filled_def)
    with 2 m show ?thesis by (simp add: copy_row_def)
  qed simp
qed

lemma try_allocate_one_pool:
  assumes "try_allocate_one K clk p ad = Some (Inr (q, ad'))"
  shows "case q of None \<Rightarrow> pa_table ad' = pa_table ad
       | Some (h, t) \<Rightarrow> tm_free (pa_table ad) = tm_free (pa_table ad') @ [t]
           \<and> (\<forall>u. u \<noteq> t \<longrightarrow> tm_pool (pa_table ad') u = tm_pool (pa_table ad) u)"
  using assms
  by (auto simp: try_allocate_one_def bindX_Inr Let_def tm_allocate_def copy_row_def split: if_splits sum.splits)

text \<open>The rows of the requests a list of pending requests continues.\<close>

definition chunk_rows :: "'h pending list \<Rightarrow> nat multiset" where
  "chunk_rows ps = (\<Sum>p \<leftarrow> ps. case pd_chunked p of None \<Rightarrow> {#} | Some r \<Rightarrow> {#rq_table r#})"

lemma chunk_rows_simps [simp]:
  "chunk_rows [] = {#}" "chunk_rows (p # ps) = (case pd_chunked p of None \<Rightarrow> {#} | Some r \<Rightarrow> {#rq_table r#}) + chunk_rows ps"
  "chunk_rows (ps @ qs) = chunk_rows ps + chunk_rows qs"
  by (simp_all add: chunk_rows_def)

lemma try_add_one_pool:
  assumes "try_add_one K mem clk p ad = Some (Inr (q, ad'))" "\<And>n. length (mem n) = n"
  defines "own \<equiv> case pd_chunked p of None \<Rightarrow> {#} | Some r \<Rightarrow> {#rq_table r#}"
  shows "(\<forall>u. u \<notin># mset (tm_free (pa_table ad)) + own \<longrightarrow> tm_pool (pa_table ad') u = tm_pool (pa_table ad) u)
     \<and> (case q of None \<Rightarrow> mset (tm_free (pa_table ad')) = mset (tm_free (pa_table ad))
        | Some r \<Rightarrow> filled (tm_pool (pa_table ad')) r \<and> rq_uid r = pd_uid p
            \<and> add_mset (rq_table r) (mset (tm_free (pa_table ad'))) = mset (tm_free (pa_table ad)) + own
            \<and> (\<forall>u. u \<noteq> rq_table r \<longrightarrow> tm_pool (pa_table ad') u = tm_pool (pa_table ad) u))"
proof (cases "pd_chunked p")
  case (Some r0)
  show ?thesis
  proof (cases "pa_budget ad \<le> 0")
    case True
    with assms(1) show ?thesis by (simp add: try_add_one_def)
  next
    case False
    with assms(1) Some have "add_one_req K mem p (rq_handle r0) (rq_table r0) (rq_cached r0) ad = Some (Inr (q, ad'))"
      by (simp add: try_add_one_def)
    from add_one_req_pool [OF this assms(2)] Some show ?thesis by (auto simp: own_def split: option.splits)
  qed
next
  case None
  show ?thesis
  proof (cases "pa_budget ad \<le> 0")
    case True
    with assms(1) None show ?thesis by (auto simp: try_add_one_def own_def)
  next
    case False
    with assms(1) None obtain res ad1 where t1: "try_allocate_one K clk p ad = Some (Inr (res, ad1))"
      and rest: "(case res of None \<Rightarrow> Some (Inr (None, ad1))
        | Some (h, t) \<Rightarrow> bindX (add_one_req K mem p h t (co_len K h) ad1) (\<lambda>(q, ad2). case q of
            None \<Rightarrow> bindX (cm_unlock K h (pa_cache ad2)) (\<lambda>m.
                      Some (Inr (None, ad2\<lparr>pa_cache := m, pa_table := tm_free_slot t (pa_table ad2)\<rparr>)))
          | Some r \<Rightarrow> Some (Inr (Some r, ad2)))) = Some (Inr (q, ad'))"
      by (auto simp: try_add_one_def bindX_Inr)
    note A = try_allocate_one_pool [OF t1]
    show ?thesis
    proof (cases res)
      case None
      with A rest show ?thesis by (auto simp: own_def)
    next
      case (Some ht)
      obtain h t where ht: "ht = (h, t)" by (cases ht)
      from rest Some ht obtain q2 ad2 where a2: "add_one_req K mem p h t (co_len K h) ad1 = Some (Inr (q2, ad2))"
        and rest2: "(case q2 of None \<Rightarrow> bindX (cm_unlock K h (pa_cache ad2)) (\<lambda>m.
                      Some (Inr (None, ad2\<lparr>pa_cache := m, pa_table := tm_free_slot t (pa_table ad2)\<rparr>)))
          | Some r \<Rightarrow> Some (Inr (Some r, ad2))) = Some (Inr (q, ad'))"
        by (auto simp: bindX_Inr)
      from add_one_req_pool [OF a2 assms(2)] A Some ht None rest2 show ?thesis
        by (cases q2) (auto simp: own_def bindX_Inr tm_free_slot_def)
    qed
  qed
qed

text \<open>The pending requests an admission leaves as chunks.\<close>

definition continued :: "'h pending list \<Rightarrow> 'h req list \<Rightarrow> 'h pending list" where
  "continued ps rs = concat (map (\<lambda>(p, r). if rq_chunked r then [p\<lparr>pd_chunked := Some r\<rparr>] else []) (zip ps rs))"

lemma continued_simps [simp]:
  "continued [] rs = []" "continued ps [] = []"
  "continued (p # ps) (r # rs) = (if rq_chunked r then [p\<lparr>pd_chunked := Some r\<rparr>] else []) @ continued ps rs"
  by (simp_all add: continued_def)

definition once :: "'a multiset \<Rightarrow> bool" where
  "once M \<longleftrightarrow> (\<forall>x. count M x \<le> 1)"

lemma onceD: "once (A + B) \<Longrightarrow> x \<in># A \<Longrightarrow> x \<notin># B"
proof
  assume "once (A + B)" "x \<in># A" "x \<in># B"
  then have "count A x + count B x \<le> 1" "0 < count A x" "0 < count B x" by (simp_all add: once_def)
  then show False by simp
qed

lemma pack_pool:
  assumes "pack K mem clk i ps ad reqs chunked hit prompt = Some (Inr (reqs', chunked', hit', prompt', ad'))"
    "\<And>n. length (mem n) = n" "once (mset (tm_free (pa_table ad)) + mset (map rq_table reqs) + chunk_rows ps)"
    "\<forall>r \<in> set reqs. filled (tm_pool (pa_table ad)) r"
  shows "\<exists>news. reqs' = reqs @ news \<and> length news \<le> length ps \<and> map rq_uid news = take (length news) (map pd_uid ps)
     \<and> chunked' = chunked @ continued ps news
     \<and> mset (tm_free (pa_table ad')) + mset (map rq_table reqs') + chunk_rows (drop (length news) ps)
        = mset (tm_free (pa_table ad)) + mset (map rq_table reqs) + chunk_rows ps
     \<and> (\<forall>r \<in> set reqs'. filled (tm_pool (pa_table ad')) r)
     \<and> (\<forall>u. u \<notin># mset (tm_free (pa_table ad)) + chunk_rows ps \<longrightarrow> tm_pool (pa_table ad') u = tm_pool (pa_table ad) u)"
  using assms(1,3,4)
proof (induction ps arbitrary: i ad reqs chunked hit prompt)
  case Nil
  then show ?case by simp
next
  case (Cons p ps)
  from Cons.prems(1) obtain q ad1 where t: "try_add_one K mem (clk i) p ad = Some (Inr (q, ad1))"
    by (auto simp: bindX_Inr)
  note T = try_add_one_pool [OF t assms(2)]
  have off: "rq_table x \<notin># mset (tm_free (pa_table ad)) + chunk_rows (p # ps)" if "x \<in> set reqs" for x
    using onceD [of "mset (map rq_table reqs)" "mset (tm_free (pa_table ad)) + chunk_rows (p # ps)" "rq_table x"]
      Cons.prems(2) that by (simp add: ac_simps)
  show ?case
  proof (cases q)
    case None
    have "filled (tm_pool (pa_table ad1)) x" if "x \<in> set reqs" for x
    proof -
      have "tm_pool (pa_table ad1) (rq_table x) = tm_pool (pa_table ad) (rq_table x)" using T off [OF that] by simp
      with Cons.prems(3) that show ?thesis by (metis filled_cong)
    qed
    with Cons.prems t T None show ?thesis by (intro exI [of _ "[]"]) auto
  next
    case (Some r)
    let ?own = "case pd_chunked p of None \<Rightarrow> {#} | Some r \<Rightarrow> {#rq_table r#}"
    from T Some have T': "filled (tm_pool (pa_table ad1)) r" "rq_uid r = pd_uid p"
      "add_mset (rq_table r) (mset (tm_free (pa_table ad1))) = mset (tm_free (pa_table ad)) + ?own"
      "\<forall>u. u \<noteq> rq_table r \<longrightarrow> tm_pool (pa_table ad1) u = tm_pool (pa_table ad) u" by auto
    have M: "mset (tm_free (pa_table ad1)) + mset (map rq_table (reqs @ [r])) + chunk_rows ps
        = mset (tm_free (pa_table ad)) + mset (map rq_table reqs) + chunk_rows (p # ps)"
      using T'(3) by (simp add: ac_simps)
    have "rq_table r \<in># mset (tm_free (pa_table ad)) + ?own" by (metis T'(3) union_single_eq_member)
    then have tin: "rq_table r \<in># mset (tm_free (pa_table ad)) + chunk_rows (p # ps)" by auto
    have old: "filled (tm_pool (pa_table ad1)) x" if "x \<in> set reqs" for x
    proof -
      have "rq_table x \<noteq> rq_table r" using tin off [OF that] by auto
      with T'(4) that Cons.prems(3) show ?thesis by (metis filled_cong)
    qed
    from Cons.prems(1) t Some obtain h' p' where
      "pack K mem clk (Suc i) ps ad1 (reqs @ [r]) (if rq_chunked r then chunked @ [p\<lparr>pd_chunked := Some r\<rparr>] else chunked) h' p'
         = Some (Inr (reqs', chunked', hit', prompt', ad'))" by (auto simp: Let_def)
    from Cons.IH [OF this] Cons.prems(2) old T'(1) obtain news where N: "reqs' = (reqs @ [r]) @ news" "length news \<le> length ps"
      "map rq_uid news = take (length news) (map pd_uid ps)"
      "chunked' = (if rq_chunked r then chunked @ [p\<lparr>pd_chunked := Some r\<rparr>] else chunked) @ continued ps news"
      "mset (tm_free (pa_table ad')) + mset (map rq_table reqs') + chunk_rows (drop (length news) ps)
        = mset (tm_free (pa_table ad1)) + mset (map rq_table (reqs @ [r])) + chunk_rows ps"
      "\<forall>r \<in> set reqs'. filled (tm_pool (pa_table ad')) r"
      "\<forall>u. u \<notin># mset (tm_free (pa_table ad1)) + chunk_rows ps \<longrightarrow> tm_pool (pa_table ad') u = tm_pool (pa_table ad1) u"
      unfolding M by auto
    have keep: "tm_pool (pa_table ad') u = tm_pool (pa_table ad) u" if "u \<notin># mset (tm_free (pa_table ad)) + chunk_rows (p # ps)" for u
    proof -
      have "u \<notin># mset (tm_free (pa_table ad)) + ?own" using that by simp
      then have "u \<noteq> rq_table r" "u \<notin># mset (tm_free (pa_table ad1))" unfolding T'(3) [symmetric] by simp_all
      moreover have "u \<notin># chunk_rows ps" using that by simp
      ultimately show ?thesis using N(7) T'(4) by simp
    qed
    show ?thesis
      by (rule exI [of _ "r # news"]) (use N T'(2) keep M in simp)
  qed
qed

subsection \<open>The invariant\<close>

definition run_ids :: "decode_mgr \<Rightarrow> nat set" where
  "run_ids dm = snd ` set (dm_running dm)"

definition chunk_ids :: "(int \<Rightarrow> nat) \<Rightarrow> 'h pending list \<Rightarrow> nat set" where
  "chunk_ids ref ps = (\<lambda>p. ref (pd_uid p)) ` {p \<in> set ps. pd_chunked p \<noteq> None}"

text \<open>The live objects: running, continued, or of the batch in flight (\<open>B\<close>).\<close>

definition sched_live :: "nat set \<Rightarrow> ('c, 'h) sched \<Rightarrow> nat set" where
  "sched_live B sc = run_ids (sc_dm sc) \<union> chunk_ids (sc_ref sc) (pm_pending (sc_pm sc)) \<union> B"

definition rows_ok :: "nat \<Rightarrow> nat set \<Rightarrow> table_mgr \<Rightarrow> (nat \<Rightarrow> 'h req) \<Rightarrow> bool" where
  "rows_ok n L tm S \<longleftrightarrow> finite L \<and> mset (tm_free tm) + image_mset (\<lambda>i. rq_table (S i)) (mset_set L) = mset [0..<n]"

definition uids_ok :: "int set \<Rightarrow> nat set \<Rightarrow> ('c, 'h) sched \<Rightarrow> bool" where
  "uids_ok U B sc \<longleftrightarrow> dm_ok (\<lambda>i. rq_uid (sc_store sc i)) (sc_dm sc)
     \<and> distinct (map pd_uid (pm_pending (sc_pm sc)))
     \<and> inj_on (\<lambda>i. rq_uid (sc_store sc i)) (run_ids (sc_dm sc) \<union> B)
     \<and> (\<forall>p \<in> set (pm_pending (sc_pm sc)). pd_uid p \<in> U \<and> (\<forall>i \<in> run_ids (sc_dm sc) \<union> B. rq_uid (sc_store sc i) \<noteq> pd_uid p)
          \<and> (pd_chunked p \<noteq> None \<longrightarrow> rq_uid (sc_store sc (sc_ref sc (pd_uid p))) = pd_uid p))
     \<and> (\<forall>i \<in> run_ids (sc_dm sc) \<union> B. rq_uid (sc_store sc i) \<in> U)"

definition loop_ok :: "nat \<Rightarrow> int set \<Rightarrow> nat set \<Rightarrow> ('c, 'h) sched \<Rightarrow> bool" where
  "loop_ok n U B sc \<longleftrightarrow> rows_ok n (sched_live B sc) (sc_tm sc) (sc_store sc) \<and> uids_ok U B sc
     \<and> (\<forall>i \<in> sched_live B sc. i < sc_next sc \<and> \<not> sc_freed sc i)
     \<and> (\<forall>i \<in> set (sc_finished sc). i < sc_next sc \<and> sc_freed sc i)"

text \<open>A running request between turns: its last committed token is in the cell the next step reads.\<close>

definition decode_ready :: "(nat \<Rightarrow> nat \<Rightarrow> int) \<Rightarrow> 'h req \<Rightarrow> bool" where
  "decode_ready T r \<longleftrightarrow> \<not> rq_chunked r \<and> filled T r \<and> Suc (rq_cached r) = rq_device r"

definition turn_ok :: "nat \<Rightarrow> int set \<Rightarrow> ('c, 'h) sched \<Rightarrow> bool" where
  "turn_ok n U sc \<longleftrightarrow> loop_ok n U {} sc
     \<and> (\<forall>i \<in> run_ids (sc_dm sc). decode_ready (tm_pool (sc_tm sc)) (sc_store sc i))"

lemma finite_live [simp]: "finite B \<Longrightarrow> finite (sched_live B sc)"
  by (simp add: sched_live_def run_ids_def chunk_ids_def)

lemma once_upt: "mset [0..<n] = A \<Longrightarrow> once A"
  unfolding once_def by (metis distinct_count_atmost_1 distinct_upt le_zero_eq nat_le_linear)

lemma image_mset_remove: "finite L \<Longrightarrow> i \<in> L \<Longrightarrow> image_mset f (mset_set L) = add_mset (f i) (image_mset f (mset_set (L - {i})))"
  using mset_set.remove [of L i] by simp

lemma once_add: "once (add_mset x A) \<Longrightarrow> x \<notin># A \<and> once A"
  unfolding once_def by (metis Suc_le_mono count_add_mset count_eq_zero_iff le_SucI le_zero_eq One_nat_def)

lemma rows_once: "rows_ok n L tm S \<Longrightarrow> once (mset (tm_free tm) + image_mset (\<lambda>i. rq_table (S i)) (mset_set L))"
  unfolding rows_ok_def using once_upt [of n] by simp

lemma rows_inj: "rows_ok n L tm S \<Longrightarrow> inj_on (\<lambda>i. rq_table (S i)) L"
proof (rule inj_onI, rule ccontr)
  fix i j
  assume r: "rows_ok n L tm S" and i: "i \<in> L" "j \<in> L" "rq_table (S i) = rq_table (S j)" "i \<noteq> j"
  have f: "finite L" using r by (simp add: rows_ok_def)
  have "once (add_mset (rq_table (S i)) (mset (tm_free tm) + image_mset (\<lambda>i. rq_table (S i)) (mset_set (L - {i}))))"
    using rows_once [OF r] image_mset_remove [OF f i(1), of "\<lambda>i. rq_table (S i)"] by simp
  then have "rq_table (S i) \<notin># image_mset (\<lambda>i. rq_table (S i)) (mset_set (L - {i}))" using once_add by fastforce
  then show False using f i by auto
qed

lemma free_req_resourcesD:
  assumes "free_req_resources K clk i sc = Some (Inr sc')" "\<not> sc_freed sc i"
  shows "sc_store sc' = sc_store sc \<and> sc_freed sc' = (sc_freed sc)(i := True) \<and> sc_next sc' = sc_next sc
     \<and> sc_ref sc' = sc_ref sc \<and> sc_pm sc' = sc_pm sc \<and> sc_dm sc' = sc_dm sc
     \<and> sc_tm sc' = tm_free_slot (rq_table (sc_store sc i)) (sc_tm sc) \<and> sc_finished sc' = sc_finished sc"
  using assms by (auto simp: free_req_resources_def Let_def bindX_Inr)

text \<open>Freeing one live object that nothing refers to any more.\<close>

lemma rows_ok_free:
  assumes "rows_ok n L tm S" "i \<in> L"
  shows "rows_ok n (L - {i}) (tm_free_slot (rq_table (S i)) tm) S"
  using assms image_mset_remove [of L i "\<lambda>i. rq_table (S i)"] by (simp add: rows_ok_def tm_free_slot_def)

lemma dm_popD:
  assumes "dm_ok uid dm"
  shows "case dm_pop u dm of
     (None, dm') \<Rightarrow> dm' = dm \<and> (\<forall>i \<in> run_ids dm. uid i \<noteq> u)
   | (Some i, dm') \<Rightarrow> i \<in> run_ids dm \<and> uid i = u \<and> run_ids dm' = run_ids dm - {i} \<and> dm_ok uid dm'"
proof (cases "map_of (dm_running dm) u")
  case None
  then have "\<forall>e \<in> set (dm_running dm). fst e \<noteq> u" by (auto simp: map_of_eq_None_iff)
  with assms have "\<forall>i \<in> run_ids dm. uid i \<noteq> u" by (fastforce simp: run_ids_def dm_ok_def)
  with None show ?thesis by (simp add: dm_pop_def)
next
  case (Some i)
  then have m: "(u, i) \<in> set (dm_running dm)" by (rule map_of_SomeD)
  with assms have u: "uid i = u" by (auto simp: dm_ok_def)
  have key: "fst e = uid (snd e)" if "e \<in> set (dm_running dm)" for e using assms that by (auto simp: dm_ok_def)
  have "snd ` {e \<in> set (dm_running dm). fst e \<noteq> u} = run_ids dm - {i}"
  proof (intro equalityI subsetI)
    fix j assume "j \<in> run_ids dm - {i}"
    then obtain e where e: "e \<in> set (dm_running dm)" "snd e = j" "j \<noteq> i" by (auto simp: run_ids_def)
    have "fst e \<noteq> u"
    proof
      assume "fst e = u"
      with e(1,2) have "(u, j) \<in> set (dm_running dm)" by (metis prod.collapse)
      moreover have "distinct (map fst (dm_running dm))" using assms by (simp add: dm_ok_def)
      ultimately have "j = i" using Some by (simp add: map_of_is_SomeI)
      with e(3) show False by simp
    qed
    with e show "j \<in> snd ` {e \<in> set (dm_running dm). fst e \<noteq> u}" by force
  next
    fix j assume "j \<in> snd ` {e \<in> set (dm_running dm). fst e \<noteq> u}"
    then obtain e where "e \<in> set (dm_running dm)" "fst e \<noteq> u" "snd e = j" by auto
    with key u show "j \<in> run_ids dm - {i}" by (auto simp: run_ids_def)
  qed
  then have r: "run_ids (snd (dm_pop u dm)) = run_ids dm - {i}" using dm_pop_ok(2) [OF assms, of u] by (simp add: run_ids_def)
  obtain dm' where p: "dm_pop u dm = (Some i, dm')" using Some by (simp add: dm_pop_def)
  have "i \<in> run_ids dm" using m by (force simp: run_ids_def)
  with u r dm_pop_ok(1) [OF assms, of u] show ?thesis by (simp add: p)
qed

lemma loop_ok_free:
  assumes "loop_ok n U B sc" "i \<in> sched_live B sc" "sched_live B' sc1 = sched_live B sc - {i}" "uids_ok U B' sc1"
    "sc_store sc1 = sc_store sc" "sc_freed sc1 = sc_freed sc" "sc_next sc1 = sc_next sc" "sc_tm sc1 = sc_tm sc"
    "sc_finished sc1 = sc_finished sc" "free_req_resources K clk i sc1 = Some (Inr sc')"
  shows "loop_ok n U B' sc'" "sc_store sc' = sc_store sc" "tm_pool (sc_tm sc') = tm_pool (sc_tm sc)"
    "sc_dm sc' = sc_dm sc1" "sc_pm sc' = sc_pm sc1" "sc_ref sc' = sc_ref sc1" "sc_freed sc' i" "sc_finished sc' = sc_finished sc"
    "sc_next sc' = sc_next sc" "\<forall>j. sc_freed sc j \<longrightarrow> sc_freed sc' j"
proof -
  have "\<not> sc_freed sc1 i" using assms(1,2,6) by (simp add: loop_ok_def)
  note f = free_req_resourcesD [OF assms(10) this]
  have l: "sched_live B' sc' = sched_live B sc - {i}" using f assms(3) by (simp add: sched_live_def)
  have "uids_ok U B' sc'" using f assms(4) by (simp add: uids_ok_def)
  moreover have "rows_ok n (sched_live B' sc') (sc_tm sc') (sc_store sc')"
    using rows_ok_free [of n "sched_live B sc" "sc_tm sc" "sc_store sc" i] assms(1,2,5,8) f l by (simp add: loop_ok_def)
  ultimately show "loop_ok n U B' sc'" using f l assms(1,6,7,9) by (auto simp: loop_ok_def)
  show "sc_store sc' = sc_store sc" "tm_pool (sc_tm sc') = tm_pool (sc_tm sc)"
    "sc_dm sc' = sc_dm sc1" "sc_pm sc' = sc_pm sc1" "sc_ref sc' = sc_ref sc1" "sc_freed sc' i" "sc_finished sc' = sc_finished sc"
    "sc_next sc' = sc_next sc" "\<forall>j. sc_freed sc j \<longrightarrow> sc_freed sc' j"
    using f assms(5-9) by (simp_all add: tm_free_slot_def)
qed

subsection \<open>Messages\<close>

lemma abort_pending_spec:
  assumes "distinct (map pd_uid ps)"
  shows "abort_pending u ps =
    (case [p \<leftarrow> ps. pd_uid p = u] of [] \<Rightarrow> None | p # _ \<Rightarrow> pd_chunked p, [p \<leftarrow> ps. pd_uid p \<noteq> u])"
  using assms
proof (induction ps)
  case (Cons p ps)
  show ?case
  proof (cases "pd_uid p = u")
    case True
    with Cons.prems have "[p \<leftarrow> ps. pd_uid p \<noteq> u] = ps" by (auto simp: filter_id_conv image_iff)
    with True show ?thesis by simp
  qed (use Cons in simp)
qed simp

lemma pm_abort_req_spec:
  assumes "distinct (map pd_uid (pm_pending pm))"
  shows "pm_abort_req u pm = (case [p \<leftarrow> pm_pending pm. pd_uid p = u] of [] \<Rightarrow> None | p # _ \<Rightarrow> pd_chunked p,
     pm\<lparr>pm_pending := [p \<leftarrow> pm_pending pm. pd_uid p \<noteq> u]\<rparr>)"
  by (simp add: pm_abort_req_def abort_pending_spec [OF assms])

lemma uids_ok_pending:
  assumes "uids_ok U B sc" "sc_pm sc' = (sc_pm sc)\<lparr>pm_pending := filter P (pm_pending (sc_pm sc))\<rparr>"
    "sc_store sc' = sc_store sc" "sc_ref sc' = sc_ref sc" "dm_ok (\<lambda>i. rq_uid (sc_store sc i)) (sc_dm sc')"
    "run_ids (sc_dm sc') \<union> B' \<subseteq> run_ids (sc_dm sc) \<union> B"
  shows "uids_ok U B' sc'"
proof -
  have "inj_on (\<lambda>i. rq_uid (sc_store sc i)) (run_ids (sc_dm sc') \<union> B')"
    using assms(1,6) by (auto simp: uids_ok_def intro: inj_on_subset)
  then show ?thesis using assms by (auto simp: uids_ok_def distinct_map_filter)
qed

lemma chunk_ids_filter:
  assumes "uids_ok U B sc" "u \<notin> pd_uid ` {p \<in> set (pm_pending (sc_pm sc)). pd_chunked p \<noteq> None}"
  shows "chunk_ids (sc_ref sc) [p \<leftarrow> pm_pending (sc_pm sc). pd_uid p \<noteq> u] = chunk_ids (sc_ref sc) (pm_pending (sc_pm sc))"
  using assms(2) by (auto simp: chunk_ids_def)

lemma chunk_ids_remove:
  assumes "uids_ok U B sc" "p \<in> set (pm_pending (sc_pm sc))" "pd_chunked p \<noteq> None"
  defines "i \<equiv> sc_ref sc (pd_uid p)"
  shows "chunk_ids (sc_ref sc) [q \<leftarrow> pm_pending (sc_pm sc). pd_uid q \<noteq> pd_uid p] = chunk_ids (sc_ref sc) (pm_pending (sc_pm sc)) - {i}"
    "i \<notin> run_ids (sc_dm sc) \<union> B" "i \<in> chunk_ids (sc_ref sc) (pm_pending (sc_pm sc))"
proof -
  have u: "rq_uid (sc_store sc (sc_ref sc (pd_uid q))) = pd_uid q" if "q \<in> set (pm_pending (sc_pm sc))" "pd_chunked q \<noteq> None" for q
    using assms(1) that by (simp add: uids_ok_def)
  show "chunk_ids (sc_ref sc) [q \<leftarrow> pm_pending (sc_pm sc). pd_uid q \<noteq> pd_uid p] = chunk_ids (sc_ref sc) (pm_pending (sc_pm sc)) - {i}"
  proof (intro equalityI subsetI)
    fix j assume "j \<in> chunk_ids (sc_ref sc) [q \<leftarrow> pm_pending (sc_pm sc). pd_uid q \<noteq> pd_uid p]"
    then obtain q where q: "q \<in> set (pm_pending (sc_pm sc))" "pd_chunked q \<noteq> None" "pd_uid q \<noteq> pd_uid p" "j = sc_ref sc (pd_uid q)"
      by (auto simp: chunk_ids_def)
    then have "j \<noteq> i" using u [OF q(1,2)] u [OF assms(2,3)] by (auto simp: i_def)
    with q show "j \<in> chunk_ids (sc_ref sc) (pm_pending (sc_pm sc)) - {i}" by (auto simp: chunk_ids_def)
  next
    fix j assume "j \<in> chunk_ids (sc_ref sc) (pm_pending (sc_pm sc)) - {i}"
    then show "j \<in> chunk_ids (sc_ref sc) [q \<leftarrow> pm_pending (sc_pm sc). pd_uid q \<noteq> pd_uid p]"
      by (auto simp: chunk_ids_def i_def)
  qed
  show "i \<notin> run_ids (sc_dm sc) \<union> B"
  proof
    assume "i \<in> run_ids (sc_dm sc) \<union> B"
    then have "rq_uid (sc_store sc i) \<noteq> pd_uid p" using assms(1,2) by (simp add: uids_ok_def)
    with u [OF assms(2,3)] show False by (simp add: i_def)
  qed
  show "i \<in> chunk_ids (sc_ref sc) (pm_pending (sc_pm sc))" using assms(2,3) by (auto simp: chunk_ids_def i_def)
qed

lemma chunk_ids_run: "uids_ok U B sc \<Longrightarrow> chunk_ids (sc_ref sc) (pm_pending (sc_pm sc)) \<inter> (run_ids (sc_dm sc) \<union> B) = {}"
  using chunk_ids_remove(2) [of U B sc] by (auto simp: chunk_ids_def)

lemma filter_uid: "distinct (map pd_uid ps) \<Longrightarrow> p \<in> set ps \<Longrightarrow> [q \<leftarrow> ps. pd_uid q = pd_uid p] = [p]"
  by (induction ps) (auto simp: filter_empty_conv image_iff)

lemma abort_msg_ok:
  assumes "turn_ok n U sc" "abort_msg K clk u sc = Some (Inr sc')"
  shows "turn_ok n U sc'"
proof -
  let ?ps = "pm_pending (sc_pm sc)" and ?qs = "[p \<leftarrow> pm_pending (sc_pm sc). pd_uid p \<noteq> u]"
  let ?pm = "(sc_pm sc)\<lparr>pm_pending := [p \<leftarrow> pm_pending (sc_pm sc). pd_uid p \<noteq> u]\<rparr>"
  have L: "loop_ok n U {} sc" and F: "\<forall>i \<in> run_ids (sc_dm sc). decode_ready (tm_pool (sc_tm sc)) (sc_store sc i)"
    using assms(1) by (simp_all add: turn_ok_def)
  have V: "uids_ok U {} sc" using L by (simp add: loop_ok_def)
  then have dist: "distinct (map pd_uid ?ps)" and dm: "dm_ok (\<lambda>i. rq_uid (sc_store sc i)) (sc_dm sc)" by (simp_all add: uids_ok_def)
  note ab = pm_abort_req_spec [OF dist, of u]
  show ?thesis
  proof (cases "\<exists>p \<in> set ?ps. pd_uid p = u \<and> pd_chunked p \<noteq> None")
    case True
    then obtain p r where p: "p \<in> set ?ps" "pd_uid p = u" "pd_chunked p = Some r" by auto
    have "[p \<leftarrow> ?ps. pd_uid p = u] = [p]"
      using filter_uid [OF dist p(1)] p(2) by simp
    with ab p have a: "pm_abort_req u (sc_pm sc) = (Some r, ?pm)" by simp
    with assms(2) have f: "free_req_resources K clk (sc_ref sc u) (sc\<lparr>sc_pm := ?pm\<rparr>) = Some (Inr sc')" by (simp add: abort_msg_def)
    note c = chunk_ids_remove [OF V p(1), unfolded p(2,3), simplified]
    have uo: "uids_ok U {} (sc\<lparr>sc_pm := ?pm\<rparr>)" by (rule uids_ok_pending [OF V, of _ "\<lambda>p. pd_uid p \<noteq> u"]) (use dm in auto)
    have l: "sched_live {} (sc\<lparr>sc_pm := ?pm\<rparr>) = sched_live {} sc - {sc_ref sc u}" and i: "sc_ref sc u \<in> sched_live {} sc"
      using c by (auto simp: sched_live_def)
    note X = loop_ok_free [OF L i l uo _ _ _ _ _ f, simplified]
    show ?thesis unfolding turn_ok_def X(2-4) using X(1) F by blast
  next
    case False
    then have ch: "chunk_ids (sc_ref sc) ?qs = chunk_ids (sc_ref sc) ?ps" by (intro chunk_ids_filter [OF V]) auto
    have "(case [p \<leftarrow> ?ps. pd_uid p = u] of [] \<Rightarrow> None | p # _ \<Rightarrow> pd_chunked p) = None"
    proof (cases "[p \<leftarrow> ?ps. pd_uid p = u]")
      case (Cons p qs)
      then have "p \<in> set ?ps \<and> pd_uid p = u" by (auto simp: filter_eq_Cons_iff)
      with False Cons show ?thesis by auto
    qed simp
    with ab have a: "pm_abort_req u (sc_pm sc) = (None, ?pm)" by simp
    show ?thesis
    proof (cases "dm_pop u (sc_dm sc)")
      case (Pair o' dm')
      note P = dm_popD [OF dm, of u, unfolded Pair, simplified]
      show ?thesis
      proof (cases o')
        case None
        with P have "dm' = sc_dm sc" by simp
        with assms(2) a Pair None have sc': "sc' = sc\<lparr>sc_pm := ?pm\<rparr>" by (simp add: abort_msg_def abort_req_def)
        have "uids_ok U {} sc'" by (rule uids_ok_pending [OF V, of _ "\<lambda>p. pd_uid p \<noteq> u"]) (use dm sc' in auto)
        moreover have "sched_live {} sc' = sched_live {} sc" using ch by (simp add: sched_live_def sc')
        ultimately show ?thesis using L F by (simp add: turn_ok_def loop_ok_def sc')
      next
        case (Some i)
        with P have i: "i \<in> run_ids (sc_dm sc)" "run_ids dm' = run_ids (sc_dm sc) - {i}" "dm_ok (\<lambda>i. rq_uid (sc_store sc i)) dm'" by auto
        let ?sc = "sc\<lparr>sc_pm := ?pm, sc_dm := dm'\<rparr>"
        from assms(2) a Pair Some have f: "free_req_resources K clk i ?sc = Some (Inr sc')" by (simp add: abort_msg_def abort_req_def)
        have uo: "uids_ok U {} ?sc" by (rule uids_ok_pending [OF V, of _ "\<lambda>p. pd_uid p \<noteq> u"]) (use i in auto)
        have l: "sched_live {} ?sc = sched_live {} sc - {i}"
          using ch i(1,2) chunk_ids_run [OF V] by (auto simp: sched_live_def)
        have il: "i \<in> sched_live {} sc" using i(1) by (simp add: sched_live_def)
        note X = loop_ok_free [OF L il l uo _ _ _ _ _ f, simplified]
        show ?thesis unfolding turn_ok_def X(2-4) i(2) using X(1) F by blast
      qed
    qed
  qed
qed

text \<open>The uids a message brings; the frontend never uses one twice.\<close>

fun msg_uids :: "msg \<Rightarrow> int list" where
  "msg_uids (User_msg u ids m co mm) = [u]"
| "msg_uids (Abort_msg u) = []"
| "msg_uids (Batch_msg ms) = concat (map msg_uids ms)"

lemma turn_ok_mono: "turn_ok n U sc \<Longrightarrow> U \<subseteq> U' \<Longrightarrow> turn_ok n U' sc"
  by (auto simp: turn_ok_def loop_ok_def uids_ok_def)

lemma user_msg_ok:
  assumes "turn_ok n U sc" "u \<notin> U"
  shows "turn_ok n (insert u U) (snd (user_msg env u ids m co mm sc))"
proof (cases "int (se_max_seq env) - int (length ids) \<le> 0")
  case True
  then show ?thesis using turn_ok_mono [OF assms(1), of "insert u U"] by (auto simp: user_msg_def)
next
  case False
  then obtain p where p: "snd (user_msg env u ids m co mm sc) = sc\<lparr>sc_pm := pm_add_one_req p (sc_pm sc)\<rparr>"
    "pd_uid p = u" "pd_chunked p = None"
    by (simp add: user_msg_def Let_def)
  have "chunk_ids (sc_ref sc) (pm_pending (sc_pm sc) @ [p]) = chunk_ids (sc_ref sc) (pm_pending (sc_pm sc))"
    using p(3) by (auto simp: chunk_ids_def)
  then have l: "sched_live {} (snd (user_msg env u ids m co mm sc)) = sched_live {} sc"
    by (simp add: sched_live_def p(1) pm_add_one_req_def)
  have "uids_ok U {} sc" using assms(1) by (simp add: turn_ok_def loop_ok_def)
  then have "uids_ok (insert u U) {} (snd (user_msg env u ids m co mm sc))"
    using assms(2) p(2,3) unfolding p(1) by (auto simp: uids_ok_def pm_add_one_req_def)
  with l assms(1) show ?thesis by (simp add: turn_ok_def loop_ok_def p(1))
qed

lemma process_msgs_ok:
  "process_msg K env clk x sc = Some (Inr (rs, sc')) \<Longrightarrow> turn_ok n U sc \<Longrightarrow> distinct (msg_uids x) \<Longrightarrow> set (msg_uids x) \<inter> U = {}
     \<Longrightarrow> turn_ok n (U \<union> set (msg_uids x)) sc'"
  "process_msgs K env clk xs sc = Some (Inr (rs, sc')) \<Longrightarrow> turn_ok n U sc \<Longrightarrow> distinct (concat (map msg_uids xs))
     \<Longrightarrow> set (concat (map msg_uids xs)) \<inter> U = {} \<Longrightarrow> turn_ok n (U \<union> set (concat (map msg_uids xs))) sc'"
proof (induction K env clk x sc and K env clk xs sc arbitrary: U rs sc' and U rs sc' rule: process_msg_process_msgs.induct)
  case (1 K env clk u ids m co mm sc)
  then show ?case using user_msg_ok [of n U sc u env ids m co mm] by simp
next
  case (2 K env clk u sc)
  then show ?case using abort_msg_ok [of n U sc K clk u sc'] by (auto simp: bindX_Inr)
next
  case (5 K env clk x xs sc)
  from "5.prems"(1) obtain rs1 sc1 rs2 where s: "process_msg K env clk x sc = Some (Inr (rs1, sc1))"
    "process_msgs K env clk xs sc1 = Some (Inr (rs2, sc'))" by (auto simp: bindX_Inr)
  have "turn_ok n (U \<union> set (msg_uids x)) sc1" using "5.IH"(1) [OF s(1) "5.prems"(2)] "5.prems"(3,4) by auto
  from "5.IH"(2) [OF s(2) this] "5.prems"(3,4) show ?case by (auto simp: Un_assoc)
qed auto

end
