(* ===== verification/Scheduler_Turn.thy ===== *)
theory Scheduler_Turn
  imports Scheduler_Inv
begin

section \<open>The scheduler loop: a turn\<close>

text \<open>Scheduling, the forward pass and the processing of its results keep the invariant.\<close>

subsection \<open>New objects\<close>

lemma foldl_store: "foldl (\<lambda>S (i, r). S(i := r)) S (zip [n..<n + length rs] rs) i = (if n \<le> i \<and> i < n + length rs then rs ! (i - n) else S i)"
proof (induction rs rule: rev_induct)
  case (snoc r rs)
  then show ?case by (auto simp: nth_append)
qed auto

lemma foldl_freed: "foldl (\<lambda>f i. f(i := False)) f is i = (f i \<and> i \<notin> set is)"
  by (induction "is" arbitrary: f) auto

lemma foldl_ref_other: "u \<notin> rq_uid ` set rs \<Longrightarrow> foldl (\<lambda>f (i, r). f(rq_uid r := i)) ref (zip is rs) u = ref u"
proof (induction rs arbitrary: ref "is")
  case (Cons r rs)
  then show ?case by (cases "is") auto
qed simp

lemma foldl_ref: "distinct (map rq_uid rs) \<Longrightarrow> j < length rs \<Longrightarrow> length is = length rs \<Longrightarrow>
   foldl (\<lambda>f (i, r). f(rq_uid r := i)) ref (zip is rs) (rq_uid (rs ! j)) = is ! j"
proof (induction rs arbitrary: ref "is" j)
  case (Cons r rs)
  then obtain i is' where i: "is = i # is'" by (cases "is") auto
  show ?case
  proof (cases j)
    case 0
    have "rq_uid r \<notin> rq_uid ` set rs" using Cons.prems(1) by simp
    from foldl_ref_other [OF this, of "ref(rq_uid r := i)" is'] show ?thesis
      unfolding 0 i by (simp only: nth_Cons_0 zip_Cons_Cons foldl_Cons prod.case fun_upd_same)
  next
    case (Suc j')
    with Cons i show ?thesis by simp
  qed
qed simp

lemma refresh_simps [simp]:
  "pd_uid (refresh sc p) = pd_uid p" "pd_chunked (refresh sc p) = None \<longleftrightarrow> pd_chunked p = None"
  "pd_ids (refresh sc p) = pd_ids p"
  by (simp_all add: refresh_def)

lemma chunk_ids_simps:
  "chunk_ids ref [] = {}"
  "chunk_ids ref (p # ps) = (if pd_chunked p = None then {} else {ref (pd_uid p)}) \<union> chunk_ids ref ps"
  "chunk_ids ref (ps @ qs) = chunk_ids ref ps \<union> chunk_ids ref qs"
  by (auto simp: chunk_ids_def)

lemma chunk_ids_refresh [simp]: "chunk_ids ref (map (refresh sc) ps) = chunk_ids ref ps"
  by (induction ps) (simp_all add: chunk_ids_simps)

lemma finite_chunk_ids [simp]: "finite (chunk_ids ref ps)"
  by (simp add: chunk_ids_def)

lemma finite_run_ids [simp]: "finite (run_ids dm)"
  by (simp add: run_ids_def)

lemma chunk_rows_refresh:
  assumes "distinct (map pd_uid ps)"
    "\<forall>p \<in> set ps. pd_chunked p \<noteq> None \<longrightarrow> rq_uid (sc_store sc (sc_ref sc (pd_uid p))) = pd_uid p"
  shows "chunk_rows (map (refresh sc) ps) = image_mset (\<lambda>i. rq_table (sc_store sc i)) (mset_set (chunk_ids (sc_ref sc) ps))"
  using assms
proof (induction ps)
  case (Cons p ps)
  show ?case
  proof (cases "pd_chunked p")
    case (Some r)
    have "sc_ref sc (pd_uid p) \<notin> chunk_ids (sc_ref sc) ps"
    proof
      assume "sc_ref sc (pd_uid p) \<in> chunk_ids (sc_ref sc) ps"
      then obtain q where q: "q \<in> set ps" "pd_chunked q \<noteq> None" "sc_ref sc (pd_uid p) = sc_ref sc (pd_uid q)"
        by (auto simp: chunk_ids_def)
      with Cons.prems(2) Some have "pd_uid q = pd_uid p" by (metis list.set_intros option.distinct(1))
      with q(1) Cons.prems(1) show False by (auto simp: image_iff)
    qed
    moreover have "pd_chunked (refresh sc p) = Some (sc_store sc (sc_ref sc (pd_uid p)))" using Some by (simp add: refresh_def)
    ultimately show ?thesis using Cons Some by (simp add: chunk_ids_simps)
  qed (use Cons in \<open>simp add: chunk_ids_simps refresh_def\<close>)
qed (simp add: chunk_ids_simps)

lemma continued_set:
  assumes "length rs \<le> length ps" "q \<in> set (continued ps rs)"
  shows "\<exists>j < length rs. pd_uid q = pd_uid (ps ! j) \<and> rq_chunked (rs ! j) \<and> pd_chunked q = Some (rs ! j)"
  using assms
proof (induction ps arbitrary: rs)
  case (Cons p ps)
  then show ?case
  proof (cases rs)
    case (Cons r rs')
    show ?thesis
    proof (cases "q \<in> set (continued ps rs')")
      case True
      with Cons.IH [of rs'] Cons.prems(1) Cons obtain j where "j < length rs'" "pd_uid q = pd_uid (ps ! j)" "rq_chunked (rs' ! j)"
        "pd_chunked q = Some (rs' ! j)" by auto
      with Cons show ?thesis by (intro exI [of _ "Suc j"]) simp
    next
      case False
      with Cons Cons.prems(2) show ?thesis by (intro exI [of _ 0]) (auto split: if_splits)
    qed
  qed simp
qed simp

lemma continued_mem:
  assumes "j < length rs" "length rs \<le> length ps" "rq_chunked (rs ! j)"
  shows "(ps ! j)\<lparr>pd_chunked := Some (rs ! j)\<rparr> \<in> set (continued ps rs)"
  using assms
proof (induction ps arbitrary: rs j)
  case (Cons p ps)
  then obtain r rs' where "rs = r # rs'" by (cases rs) auto
  with Cons show ?case by (cases j) auto
qed simp

lemma continued_uids: "length rs \<le> length ps \<Longrightarrow> distinct (map pd_uid ps) \<Longrightarrow> distinct (map pd_uid (continued ps rs))"
proof (induction ps arbitrary: rs)
  case (Cons p ps)
  show ?case
  proof (cases rs)
    case (Cons r rs')
    have "pd_uid p \<notin> pd_uid ` set (continued ps rs')"
    proof
      assume "pd_uid p \<in> pd_uid ` set (continued ps rs')"
      then obtain q where "q \<in> set (continued ps rs')" "pd_uid q = pd_uid p" by auto
      from continued_set [OF _ this(1)] this(2) Cons Cons.prems show False by (force simp: image_iff)
    qed
    with Cons Cons.IH [of rs'] Cons.prems show ?thesis by (auto simp: image_iff)
  qed simp
qed simp

subsection \<open>Scheduling\<close>

lemma schedule_prefill_pool:
  assumes "schedule_prefill K mem clk budget infl pm m tm = Some (Inr (res, pm', m', tm'))" "\<And>n. length (mem n) = n"
    "once (mset (tm_free tm) + chunk_rows (pm_pending pm))"
  defines "news \<equiv> case res of None \<Rightarrow> [] | Some rs \<Rightarrow> rs"
  shows "length news \<le> length (pm_pending pm)" "map rq_uid news = take (length news) (map pd_uid (pm_pending pm))"
    "pm_pending pm' = continued (pm_pending pm) news @ drop (length news) (pm_pending pm)"
    "mset (tm_free tm') + mset (map rq_table news) + chunk_rows (drop (length news) (pm_pending pm))
       = mset (tm_free tm) + chunk_rows (pm_pending pm)"
    "\<forall>r \<in> set news. filled (tm_pool tm') r"
    "\<forall>u. u \<notin># mset (tm_free tm) + chunk_rows (pm_pending pm) \<longrightarrow> tm_pool tm' u = tm_pool tm u"
proof -
  have "length news \<le> length (pm_pending pm) \<and> map rq_uid news = take (length news) (map pd_uid (pm_pending pm))
    \<and> pm_pending pm' = continued (pm_pending pm) news @ drop (length news) (pm_pending pm)
    \<and> mset (tm_free tm') + mset (map rq_table news) + chunk_rows (drop (length news) (pm_pending pm))
       = mset (tm_free tm) + chunk_rows (pm_pending pm)
    \<and> (\<forall>r \<in> set news. filled (tm_pool tm') r)
    \<and> (\<forall>u. u \<notin># mset (tm_free tm) + chunk_rows (pm_pending pm) \<longrightarrow> tm_pool tm' u = tm_pool tm u)"
  proof (cases "pm_pending pm = []")
    case True
    with assms(1) show ?thesis by (auto simp: schedule_prefill_def news_def)
  next
    case False
    let ?ad = "\<lparr>pa_budget = budget, pa_reserved = infl, pa_cache = m, pa_table = tm,
              pa_others = length (pm_pending pm) - 1, pa_gran = pm_gran pm\<rparr>"
    from assms(1) False obtain reqs chunked h p ad where
      P: "pack K mem clk 0 (pm_pending pm) ?ad [] [] (pm_hit pm) (pm_prompt pm) = Some (Inr (reqs, chunked, h, p, ad))"
      and R: "(if reqs = [] then (None, pm\<lparr>pm_hit := h, pm_prompt := p\<rparr>, pa_cache ad, pa_table ad)
         else (Some reqs, pm\<lparr>pm_hit := h, pm_prompt := p, pm_pending := chunked @ drop (length reqs) (pm_pending pm)\<rparr>,
               pa_cache ad, pa_table ad)) = (res, pm', m', tm')"
      by (auto simp: schedule_prefill_def bindX_Inr Let_def split: if_splits)
    from pack_pool [OF P assms(2)] assms(3) have Q: "length reqs \<le> length (pm_pending pm)"
      "map rq_uid reqs = take (length reqs) (map pd_uid (pm_pending pm))" "chunked = continued (pm_pending pm) reqs"
      "mset (tm_free (pa_table ad)) + mset (map rq_table reqs) + chunk_rows (drop (length reqs) (pm_pending pm))
       = mset (tm_free tm) + chunk_rows (pm_pending pm)"
      "\<forall>r \<in> set reqs. filled (tm_pool (pa_table ad)) r"
      "\<forall>u. u \<notin># mset (tm_free tm) + chunk_rows (pm_pending pm) \<longrightarrow> tm_pool (pa_table ad) u = tm_pool tm u"
      by auto
    show ?thesis
    proof (cases "reqs = []")
      case True
      with R have "res = None" "pm' = pm\<lparr>pm_hit := h, pm_prompt := p\<rparr>" "tm' = pa_table ad" by auto
      with Q True show ?thesis by (simp add: news_def)
    next
      case False
      with R have "res = Some reqs" "pm_pending pm' = chunked @ drop (length reqs) (pm_pending pm)" "tm' = pa_table ad" by auto
      with Q show ?thesis by (simp add: news_def)
    qed
  qed
  then show "length news \<le> length (pm_pending pm)" "map rq_uid news = take (length news) (map pd_uid (pm_pending pm))"
    "pm_pending pm' = continued (pm_pending pm) news @ drop (length news) (pm_pending pm)"
    "mset (tm_free tm') + mset (map rq_table news) + chunk_rows (drop (length news) (pm_pending pm))
       = mset (tm_free tm) + chunk_rows (pm_pending pm)"
    "\<forall>r \<in> set news. filled (tm_pool tm') r"
    "\<forall>u. u \<notin># mset (tm_free tm) + chunk_rows (pm_pending pm) \<longrightarrow> tm_pool tm' u = tm_pool tm u" by blast+
qed

text \<open>The state between scheduling and the forward pass: every row of the batch is filled.\<close>

definition plain_ids :: "(nat \<Rightarrow> 'h req) \<Rightarrow> nat list \<Rightarrow> nat set" where
  "plain_ids S ids = {i \<in> set ids. \<not> rq_chunked (S i)}"

definition batch_ok :: "nat \<Rightarrow> int set \<Rightarrow> nat list \<Rightarrow> ('c, 'h) sched \<Rightarrow> bool" where
  "batch_ok n U ids sc \<longleftrightarrow> loop_ok n U (plain_ids (sc_store sc) ids) sc \<and> distinct ids
     \<and> (\<forall>i \<in> set ids. filled (tm_pool (sc_tm sc)) (sc_store sc i)
          \<and> (rq_chunked (sc_store sc i) \<longrightarrow> i \<in> chunk_ids (sc_ref sc) (pm_pending (sc_pm sc))))
     \<and> (\<forall>i \<in> run_ids (sc_dm sc). decode_ready (tm_pool (sc_tm sc)) (sc_store sc i))"

lemma turn_rows_split:
  assumes "turn_ok n U sc"
  defines "f \<equiv> (\<lambda>i. rq_table (sc_store sc i))"
  shows "mset (tm_free (sc_tm sc)) + chunk_rows (map (refresh sc) (pm_pending (sc_pm sc)))
      + image_mset f (mset_set (run_ids (sc_dm sc))) = mset [0..<n]"
proof -
  have V: "uids_ok U {} sc" and R: "rows_ok n (sched_live {} sc) (sc_tm sc) (sc_store sc)"
    using assms(1) by (simp_all add: turn_ok_def loop_ok_def)
  have c: "chunk_rows (map (refresh sc) (pm_pending (sc_pm sc))) = image_mset f (mset_set (chunk_ids (sc_ref sc) (pm_pending (sc_pm sc))))"
    unfolding f_def by (rule chunk_rows_refresh) (use V in \<open>auto simp: uids_ok_def\<close>)
  have "mset_set (sched_live {} sc) = mset_set (run_ids (sc_dm sc)) + mset_set (chunk_ids (sc_ref sc) (pm_pending (sc_pm sc)))"
    using chunk_ids_run [OF V] unfolding sched_live_def by (simp add: mset_set_Union Int_commute)
  with R c show ?thesis by (simp add: rows_ok_def f_def ac_simps)
qed

lemma once_sub: "once (A + B) \<Longrightarrow> once A"
  unfolding once_def by (metis count_union le_trans le_add1)

lemma turn_ok_tables:
  assumes "turn_ok n U sc" "mset (tm_free tm') = mset (tm_free (sc_tm sc))"
    "\<forall>i \<in> run_ids (sc_dm sc). tm_pool tm' (rq_table (sc_store sc i)) = tm_pool (sc_tm sc) (rq_table (sc_store sc i))"
    "pm_pending pm' = map (refresh sc) (pm_pending (sc_pm sc))"
  shows "turn_ok n U (sc\<lparr>sc_pm := pm', sc_cm := cm', sc_tm := tm'\<rparr>)"
proof -
  let ?sc = "sc\<lparr>sc_pm := pm', sc_cm := cm', sc_tm := tm'\<rparr>"
  have L: "loop_ok n U {} sc" and F: "\<forall>i \<in> run_ids (sc_dm sc). decode_ready (tm_pool (sc_tm sc)) (sc_store sc i)"
    using assms(1) by (simp_all add: turn_ok_def)
  have l: "sched_live {} ?sc = sched_live {} sc" by (simp add: sched_live_def assms(4))
  have "uids_ok U {} sc" using L by (simp add: loop_ok_def)
  then have "uids_ok U {} ?sc" by (simp add: uids_ok_def assms(4) o_def del: not_None_eq)
  then have "loop_ok n U {} ?sc" using L l assms(2) by (simp add: loop_ok_def rows_ok_def)
  moreover have "\<forall>i \<in> run_ids (sc_dm sc). decode_ready (tm_pool tm') (sc_store sc i)"
    using F assms(3) filled_cong [of "tm_pool tm'" _ "tm_pool (sc_tm sc)"] by (auto simp: decode_ready_def)
  ultimately show ?thesis by (simp add: turn_ok_def)
qed

lemma decode_batch_ok:
  assumes "turn_ok n U sc" "dm_schedule (sc_store sc) (sc_dm sc) = (Some ids, dm')"
  shows "batch_ok n U ids (sc\<lparr>sc_dm := dm'\<rparr>)"
proof -
  let ?uid = "\<lambda>i. rq_uid (sc_store sc i)"
  have L: "loop_ok n U {} sc" and F: "\<forall>i \<in> run_ids (sc_dm sc). decode_ready (tm_pool (sc_tm sc)) (sc_store sc i)"
    using assms(1) by (simp_all add: turn_ok_def)
  then have V: "uids_ok U {} sc" and dm: "dm_ok ?uid (sc_dm sc)" by (simp_all add: loop_ok_def uids_ok_def)
  have o: "ids = sort_key ?uid (map snd (dm_running (sc_dm sc)))" "dm_ok ?uid dm'" "dm_running dm' = dm_running (sc_dm sc)"
    using ordered_view_ok [OF dm, of "sc_store sc"] assms(2) by (auto simp: dm_schedule_def split: if_splits prod.splits)
  have s: "set ids = run_ids (sc_dm sc)" "run_ids dm' = run_ids (sc_dm sc)" using o by (simp_all add: run_ids_def)
  have "map fst (dm_running (sc_dm sc)) = map (?uid \<circ> snd) (dm_running (sc_dm sc))" using dm by (auto simp: dm_ok_def)
  then have "distinct (map snd (dm_running (sc_dm sc)))" using dm by (metis dm_ok_def distinct_map map_map)
  then have d: "distinct ids" using o(1) by simp
  have pl: "plain_ids (sc_store sc) ids = run_ids (sc_dm sc)" using F s by (auto simp: plain_ids_def decode_ready_def)
  have "uids_ok U (run_ids (sc_dm sc)) (sc\<lparr>sc_dm := dm'\<rparr>)" using V o(2) s by (simp add: uids_ok_def)
  moreover have "sched_live (run_ids (sc_dm sc)) (sc\<lparr>sc_dm := dm'\<rparr>) = sched_live {} sc" using s by (auto simp: sched_live_def)
  ultimately have "loop_ok n U (run_ids (sc_dm sc)) (sc\<lparr>sc_dm := dm'\<rparr>)" using L by (simp add: loop_ok_def)
  then show ?thesis using pl d F s by (simp add: batch_ok_def decode_ready_def)
qed

lemma insort_key_agree: "\<forall>y \<in> insert x (set xs). f y = g y \<Longrightarrow> insort_key f x xs = insort_key g x xs"
  by (induction xs) auto

lemma sort_key_agree: "\<forall>y \<in> set xs. f y = g y \<Longrightarrow> sort_key f xs = sort_key g xs"
  by (induction xs) (auto intro: insort_key_agree)

lemma dm_ok_cong: "\<forall>i \<in> run_ids dm. f i = g i \<Longrightarrow> dm_ok f dm = dm_ok g dm"
proof -
  assume a: "\<forall>i \<in> run_ids dm. f i = g i"
  then have "sort_key f (map snd (dm_running dm)) = sort_key g (map snd (dm_running dm))"
    by (intro sort_key_agree) (simp add: run_ids_def)
  with a show ?thesis by (fastforce simp: dm_ok_def run_ids_def)
qed

lemma prefill_batch_ok:
  assumes "turn_ok n U sc" "\<And>n. length (mem n) = n"
    "schedule_prefill K mem clk budget infl ((sc_pm sc)\<lparr>pm_pending := map (refresh sc) (pm_pending (sc_pm sc))\<rparr>) (sc_cm sc) (sc_tm sc)
       = Some (Inr (Some rs, pm', cm', tm'))"
    "new_objects rs (sc\<lparr>sc_pm := pm', sc_cm := cm', sc_tm := tm'\<rparr>) = (ids, sc')"
  shows "batch_ok n U ids sc'"
proof -
  let ?S = "sc_store sc" and ?ref = "sc_ref sc" and ?n0 = "sc_next sc" and ?D = "run_ids (sc_dm sc)"
  define ps where "ps = map (refresh sc) (pm_pending (sc_pm sc))"
  define k where "k = length rs"
  have L: "loop_ok n U {} sc" and F: "\<forall>i \<in> ?D. decode_ready (tm_pool (sc_tm sc)) (?S i)"
    using assms(1) by (simp_all add: turn_ok_def)
  then have V: "uids_ok U {} sc" by (simp add: loop_ok_def)
  have old: "i < ?n0 \<and> \<not> sc_freed sc i" if "i \<in> ?D \<union> chunk_ids ?ref ps" for i
    using L that by (auto simp: loop_ok_def sched_live_def ps_def)
  have pd: "distinct (map pd_uid ps)" using V by (simp add: uids_ok_def ps_def o_def)
  have pu: "pd_uid p \<in> U" "\<forall>i \<in> ?D. rq_uid (?S i) \<noteq> pd_uid p" "pd_chunked p \<noteq> None \<Longrightarrow> rq_uid (?S (?ref (pd_uid p))) = pd_uid p"
    if "p \<in> set ps" for p
  proof -
    from that obtain q where q: "q \<in> set (pm_pending (sc_pm sc))" "p = refresh sc q" by (auto simp: ps_def)
    with V show "pd_uid p \<in> U" "\<forall>i \<in> ?D. rq_uid (?S i) \<noteq> pd_uid p" "pd_chunked p \<noteq> None \<Longrightarrow> rq_uid (?S (?ref (pd_uid p))) = pd_uid p"
      by (simp_all add: uids_ok_def del: not_None_eq)
  qed
  have split: "mset (tm_free (sc_tm sc)) + chunk_rows ps + image_mset (\<lambda>i. rq_table (?S i)) (mset_set ?D) = mset [0..<n]"
    using turn_rows_split [OF assms(1)] by (simp add: ps_def)
  then have on: "once (mset (tm_free (sc_tm sc)) + chunk_rows ps + image_mset (\<lambda>i. rq_table (?S i)) (mset_set ?D))"
    by (intro once_upt [of n]) simp
  have Q: "k \<le> length ps" "map rq_uid rs = take k (map pd_uid ps)" "pm_pending pm' = continued ps rs @ drop k ps"
    "mset (tm_free tm') + mset (map rq_table rs) + chunk_rows (drop k ps) = mset (tm_free (sc_tm sc)) + chunk_rows ps"
    "\<forall>r \<in> set rs. filled (tm_pool tm') r" "\<forall>u. u \<notin># mset (tm_free (sc_tm sc)) + chunk_rows ps \<longrightarrow> tm_pool tm' u = tm_pool (sc_tm sc) u"
    using schedule_prefill_pool [OF assms(3,2)] once_sub [OF on] by (simp_all add: ps_def k_def)
  have uid: "rq_uid (rs ! j) = pd_uid (ps ! j)" if "j < k" for j
    using Q(1,2) that by (metis k_def length_map nth_map nth_take order_less_le_trans)
  have dj: "pd_uid (ps ! i) = pd_uid (ps ! j) \<longleftrightarrow> i = j" if "i < length ps" "j < length ps" for i j
    using pd that by (simp add: distinct_conv_nth) (metis length_map nth_map)
  have "distinct (map rq_uid rs)" using pd Q(2) by (metis distinct_take)
  note R = foldl_ref [OF this, of _ "[?n0..<?n0 + k]" ?ref]
  have ids: "ids = [?n0..<?n0 + k]" and S_new: "\<And>j. j < k \<Longrightarrow> sc_store sc' (?n0 + j) = rs ! j"
    and S_old: "\<And>i. i < ?n0 \<Longrightarrow> sc_store sc' i = ?S i"
    and fr: "\<And>i. sc_freed sc' i \<longleftrightarrow> sc_freed sc i \<and> i \<notin> set ids" and nx: "sc_next sc' = ?n0 + k"
    and rest: "sc_dm sc' = sc_dm sc" "sc_pm sc' = pm'" "sc_tm sc' = tm'" "sc_finished sc' = sc_finished sc"
    and ref_new: "\<And>j. j < k \<Longrightarrow> sc_ref sc' (rq_uid (rs ! j)) = ?n0 + j"
    and ref_old: "\<And>u. u \<notin> rq_uid ` set rs \<Longrightarrow> sc_ref sc' u = ?ref u"
    using assms(4) R by (auto simp: new_objects_def Let_def foldl_store foldl_freed foldl_ref_other k_def)
  have tail_uid: "pd_uid p \<notin> rq_uid ` set rs" if "p \<in> set (drop k ps)" for p
  proof
    assume "pd_uid p \<in> rq_uid ` set rs"
    then obtain j where j: "j < k" "pd_uid p = pd_uid (ps ! j)" using uid by (auto simp: in_set_conv_nth k_def)
    from that obtain i where "i < length ps - k" "p = ps ! (k + i)" by (auto simp: in_set_conv_nth)
    then have "k + i < length ps" "p = ps ! (k + i)" by simp_all
    with j dj [of "k + i" j] show False by simp
  qed
  have cont: "\<exists>j < k. pd_uid q = rq_uid (rs ! j) \<and> rq_chunked (rs ! j) \<and> pd_uid q = pd_uid (ps ! j) \<and> pd_chunked q \<noteq> None"
    if "q \<in> set (continued ps rs)" for q
    using continued_set [OF _ that] Q(1) uid by (fastforce simp: k_def)
  have c1: "chunk_ids (sc_ref sc') (drop k ps) = chunk_ids ?ref (drop k ps)"
    using ref_old tail_uid by (force simp: chunk_ids_def)
  have c2: "chunk_ids (sc_ref sc') (continued ps rs) = (\<lambda>j. ?n0 + j) ` {j. j < k \<and> rq_chunked (rs ! j)}"
  proof (intro equalityI subsetI)
    fix i assume "i \<in> chunk_ids (sc_ref sc') (continued ps rs)"
    then obtain q where "q \<in> set (continued ps rs)" "i = sc_ref sc' (pd_uid q)" by (auto simp: chunk_ids_def)
    with cont [of q] ref_new show "i \<in> (\<lambda>j. ?n0 + j) ` {j. j < k \<and> rq_chunked (rs ! j)}" by force
  next
    fix i assume "i \<in> (\<lambda>j. ?n0 + j) ` {j. j < k \<and> rq_chunked (rs ! j)}"
    then obtain j where j: "j < k" "rq_chunked (rs ! j)" "i = ?n0 + j" by auto
    from continued_mem [of j rs ps] j Q(1) have "(ps ! j)\<lparr>pd_chunked := Some (rs ! j)\<rparr> \<in> set (continued ps rs)" by (simp add: k_def)
    moreover have "i = sc_ref sc' (pd_uid ((ps ! j)\<lparr>pd_chunked := Some (rs ! j)\<rparr>))" using j ref_new uid by simp
    ultimately show "i \<in> chunk_ids (sc_ref sc') (continued ps rs)" unfolding chunk_ids_def
      by (intro image_eqI [of i _ "(ps ! j)\<lparr>pd_chunked := Some (rs ! j)\<rparr>"]) simp_all
  qed
  have plain: "plain_ids (sc_store sc') ids = (\<lambda>j. ?n0 + j) ` {j. j < k \<and> \<not> rq_chunked (rs ! j)}"
    using S_new by (force simp: plain_ids_def ids image_iff le_iff_add)
  have newset: "set ids = (\<lambda>j. ?n0 + j) ` {j. j < k}" by (force simp: ids image_iff le_iff_add)
  have live: "sched_live (plain_ids (sc_store sc') ids) sc' = ?D \<union> chunk_ids ?ref (drop k ps) \<union> set ids"
    unfolding sched_live_def plain rest Q(3) chunk_ids_simps c1 c2 newset by auto
  have tails: "chunk_ids ?ref (drop k ps) \<subseteq> chunk_ids ?ref ps" by (auto simp: chunk_ids_def dest: in_set_dropD)
  have oldlt: "\<forall>i \<in> ?D \<union> chunk_ids ?ref ps. i < ?n0" using old by blast
  have disj: "?D \<inter> chunk_ids ?ref (drop k ps) = {}" using chunk_ids_run [OF V] tails by (auto simp: ps_def)
  have disj2: "(?D \<union> chunk_ids ?ref (drop k ps)) \<inter> set ids = {}"
  proof (rule equals0I)
    fix i assume "i \<in> (?D \<union> chunk_ids ?ref (drop k ps)) \<inter> set ids"
    then have "i \<in> ?D \<union> chunk_ids ?ref ps" "?n0 \<le> i" using tails unfolding ids by auto
    with bspec [OF oldlt this(1)] show False by linarith
  qed
  have tab: "image_mset (\<lambda>i. rq_table (sc_store sc' i)) (mset_set (set ids)) = mset (map rq_table rs)"
  proof -
    have "map (\<lambda>i. rq_table (sc_store sc' i)) ids = map rq_table rs"
      by (rule nth_equalityI) (simp_all add: ids k_def S_new [unfolded k_def])
    then show ?thesis by (metis distinct_upt ids mset_map mset_set_set)
  qed
  have oldtab: "image_mset (\<lambda>i. rq_table (sc_store sc' i)) (mset_set A) = image_mset (\<lambda>i. rq_table (?S i)) (mset_set A)"
    if "A \<subseteq> ?D \<union> chunk_ids ?ref ps" "finite A" for A
    using that old S_old by (intro image_mset_cong) (auto simp: subset_iff)
  have "chunk_rows (drop k ps) = image_mset (\<lambda>i. rq_table (?S i)) (mset_set (chunk_ids ?ref (drop k ps)))"
  proof -
    have "drop k ps = map (refresh sc) (drop k (pm_pending (sc_pm sc)))" by (simp add: ps_def drop_map)
    moreover have "distinct (map pd_uid (drop k (pm_pending (sc_pm sc))))" using V by (simp add: uids_ok_def drop_map [symmetric])
    moreover have "\<forall>p \<in> set (drop k (pm_pending (sc_pm sc))). pd_chunked p \<noteq> None \<longrightarrow> rq_uid (?S (?ref (pd_uid p))) = pd_uid p"
      using V by (auto simp: uids_ok_def simp del: not_None_eq dest: in_set_dropD)
    ultimately show ?thesis using chunk_rows_refresh [of "drop k (pm_pending (sc_pm sc))" sc] by simp
  qed
  note C = this
  have ms: "mset_set (?D \<union> chunk_ids ?ref (drop k ps) \<union> set ids) = mset_set ?D + mset_set (chunk_ids ?ref (drop k ps)) + mset_set (set ids)"
    using disj disj2 by (simp add: mset_set_Union)
  have "mset (tm_free tm') + image_mset (\<lambda>i. rq_table (sc_store sc' i)) (mset_set (?D \<union> chunk_ids ?ref (drop k ps) \<union> set ids))
      = (mset (tm_free tm') + mset (map rq_table rs) + chunk_rows (drop k ps)) + image_mset (\<lambda>i. rq_table (?S i)) (mset_set ?D)"
    using oldtab [of ?D] oldtab [OF le_supI2 [OF tails]] unfolding ms image_mset_union tab C by (simp add: ac_simps)
  then have rows: "rows_ok n (sched_live (plain_ids (sc_store sc') ids) sc') (sc_tm sc') (sc_store sc')"
    unfolding rows_ok_def live rest Q(4) split by simp
  let ?P = "plain_ids (sc_store sc') ids"
  have P: "\<exists>j < k. i = ?n0 + j \<and> \<not> rq_chunked (rs ! j) \<and> rq_uid (sc_store sc' i) = pd_uid (ps ! j)" if "i \<in> ?P" for i
    using that S_new uid by (auto simp: plain)
  have Dold: "rq_uid (sc_store sc' i) = rq_uid (?S i)" if "i \<in> ?D" for i using S_old oldlt that by simp
  have nth_in: "ps ! j \<in> set ps" if "j < k" for j using that Q(1) by simp
  have inj: "inj_on (\<lambda>i. rq_uid (sc_store sc' i)) (?D \<union> ?P)"
  proof (rule inj_onI)
    fix i i' assume i: "i \<in> ?D \<union> ?P" "i' \<in> ?D \<union> ?P" "rq_uid (sc_store sc' i) = rq_uid (sc_store sc' i')"
    show "i = i'"
    proof (cases "i \<in> ?D"; cases "i' \<in> ?D")
      assume "i \<in> ?D" "i' \<in> ?D"
      then show ?thesis using V i(3) Dold by (auto simp: uids_ok_def inj_on_def)
    next
      assume d: "i \<in> ?D" "i' \<notin> ?D"
      with i(2) P [of i'] obtain j where "j < k" "rq_uid (sc_store sc' i') = pd_uid (ps ! j)" by auto
      with pu(2) [OF nth_in] d(1) Dold i(3) show ?thesis by metis
    next
      assume d: "i \<notin> ?D" "i' \<in> ?D"
      with i(1) P [of i] obtain j where "j < k" "rq_uid (sc_store sc' i) = pd_uid (ps ! j)" by auto
      with pu(2) [OF nth_in] d(2) Dold i(3) show ?thesis by metis
    next
      assume d: "i \<notin> ?D" "i' \<notin> ?D"
      with i(1,2) P [of i] P [of i'] obtain j j' where "j < k" "j' < k" "i = ?n0 + j" "i' = ?n0 + j'"
        "pd_uid (ps ! j) = pd_uid (ps ! j')" using i(3) by auto
      with dj [of j j'] Q(1) show ?thesis by simp
    qed
  qed
  have index: "\<exists>j < length ps. pd_uid q = pd_uid (ps ! j) \<and> (\<forall>j' < k. \<not> rq_chunked (rs ! j') \<longrightarrow> j \<noteq> j')"
    if "q \<in> set (pm_pending pm')" for q
  proof (cases "q \<in> set (continued ps rs)")
    case True
    from cont [OF True] obtain j where "j < k" "pd_uid q = pd_uid (ps ! j)" "rq_chunked (rs ! j)" by auto
    with Q(1) show ?thesis by (intro exI [of _ j]) auto
  next
    case False
    with that Q(3) obtain i where "i < length ps - k" "q = ps ! (k + i)" by (auto simp: in_set_conv_nth)
    then show ?thesis by (intro exI [of _ "k + i"]) auto
  qed
  have dist: "distinct (map pd_uid (pm_pending pm'))"
  proof -
    have "pd_uid q \<in> rq_uid ` set rs" if "q \<in> set (continued ps rs)" for q
    proof -
      from cont [OF that] obtain j where "j < k" "pd_uid q = rq_uid (rs ! j)" by blast
      then show ?thesis by (simp add: k_def)
    qed
    then have "pd_uid ` set (continued ps rs) \<subseteq> rq_uid ` set rs" by blast
    moreover have "pd_uid ` set (drop k ps) \<inter> rq_uid ` set rs = {}" using tail_uid by blast
    ultimately have "pd_uid ` set (continued ps rs) \<inter> pd_uid ` set (drop k ps) = {}" by blast
    moreover have "distinct (map pd_uid (drop k ps))" using pd by (metis distinct_drop drop_map)
    ultimately show ?thesis using continued_uids [of rs ps] pd Q(1) unfolding Q(3) by (simp add: k_def)
  qed
  have refs: "rq_uid (sc_store sc' (sc_ref sc' (pd_uid q))) = pd_uid q" if q: "q \<in> set (pm_pending pm')" "pd_chunked q \<noteq> None" for q
  proof (cases "q \<in> set (continued ps rs)")
    case True
    from cont [OF True] ref_new S_new show ?thesis by force
  next
    case False
    with q Q(3) have d: "q \<in> set (drop k ps)" by auto
    then have "q \<in> set ps" by (rule in_set_dropD)
    with q(2) pu(3) [OF this] oldlt S_old ref_old [OF tail_uid [OF d]] show ?thesis by (auto simp: chunk_ids_def)
  qed
  have uids: "uids_ok U ?P sc'"
    unfolding uids_ok_def rest
  proof (intro conjI ballI impI)
    show "dm_ok (\<lambda>i. rq_uid (sc_store sc' i)) (sc_dm sc)"
      using V Dold dm_ok_cong [of "sc_dm sc" "\<lambda>i. rq_uid (sc_store sc' i)" "\<lambda>i. rq_uid (?S i)"] by (simp add: uids_ok_def)
  next
    fix q assume q: "q \<in> set (pm_pending pm')"
    from index [OF q] obtain j where j: "j < length ps" "pd_uid q = pd_uid (ps ! j)" "\<forall>j' < k. \<not> rq_chunked (rs ! j') \<longrightarrow> j \<noteq> j'" by auto
    with pu(1) show "pd_uid q \<in> U" by simp
    fix i assume i: "i \<in> ?D \<union> ?P"
    show "rq_uid (sc_store sc' i) \<noteq> pd_uid q"
    proof (cases "i \<in> ?D")
      case True
      with pu(2) [of "ps ! j"] j(1,2) Dold show ?thesis by simp
    next
      case False
      with i P [of i] obtain j' where "j' < k" "\<not> rq_chunked (rs ! j')" "rq_uid (sc_store sc' i) = pd_uid (ps ! j')" by auto
      with dj [of j' j] j Q(1) show ?thesis by auto
    qed
  next
    fix i assume i: "i \<in> ?D \<union> ?P"
    show "rq_uid (sc_store sc' i) \<in> U"
    proof (cases "i \<in> ?D")
      case True
      with V Dold show ?thesis by (simp add: uids_ok_def)
    next
      case False
      with i P [of i] obtain j' where "j' < k" "rq_uid (sc_store sc' i) = pd_uid (ps ! j')" by auto
      with pu(1) [OF nth_in] show ?thesis by simp
    qed
  qed (use inj dist refs in simp_all)
  have filled: "\<forall>i \<in> set ids. filled (tm_pool tm') (sc_store sc' i)
      \<and> (rq_chunked (sc_store sc' i) \<longrightarrow> i \<in> chunk_ids (sc_ref sc') (pm_pending pm'))"
    using Q(5) S_new by (auto simp: newset Q(3) chunk_ids_simps c2 k_def)
  have ready: "decode_ready (tm_pool tm') (sc_store sc' i)" if i: "i \<in> ?D" for i
  proof -
    have "rq_table (?S i) \<in># image_mset (\<lambda>i. rq_table (?S i)) (mset_set ?D)" using i by simp
    then have "rq_table (?S i) \<notin># mset (tm_free (sc_tm sc)) + chunk_rows ps" using onceD [OF on] by blast
    then have "tm_pool tm' (rq_table (?S i)) = tm_pool (sc_tm sc) (rq_table (?S i))" using Q(6) by blast
    with F i S_old oldlt show ?thesis using filled_cong [of "tm_pool tm'" "?S i"] by (simp add: decode_ready_def)
  qed
  have fin: "\<forall>i \<in> set (sc_finished sc). i < ?n0 \<and> sc_freed sc i" using L by (simp add: loop_ok_def)
  have liveok: "i < ?n0 + k \<and> \<not> sc_freed sc' i" if i: "i \<in> sched_live ?P sc'" for i
  proof (cases "i \<in> set ids")
    case True
    then show ?thesis by (simp add: fr) (simp add: ids)
  next
    case False
    with i live tails have "i \<in> ?D \<union> chunk_ids ?ref ps" by auto
    from old [OF this] show ?thesis by (simp add: fr)
  qed
  have "\<forall>i \<in> set (sc_finished sc). i < ?n0 + k \<and> sc_freed sc' i"
    using fin by (auto simp: fr ids)
  then have "loop_ok n U ?P sc'" using rows uids liveok by (simp add: loop_ok_def nx rest)
  then show ?thesis using filled ready by (simp add: batch_ok_def rest) (simp add: ids)
qed

end
