(* ===== verification/Scheduler_Run.thy ===== *)
theory Scheduler_Run
  imports Scheduler_Turn
begin

section \<open>The scheduler loop: a run\<close>

text \<open>
  From the choice of a batch to the settling of its last row: \<open>batch_ok\<close> before the forward
  pass, \<open>mid_ok\<close> while its results are processed, and \<open>turn_ok\<close> again after the turn.
\<close>

text \<open>Scheduling and preparing a batch.\<close>

lemma prefill_none_ok:
  assumes "turn_ok n U sc" "\<And>n. length (mem n) = n"
    "schedule_prefill K mem clk budget infl ((sc_pm sc)\<lparr>pm_pending := map (refresh sc) (pm_pending (sc_pm sc))\<rparr>) (sc_cm sc) (sc_tm sc)
       = Some (Inr (None, pm', cm', tm'))"
  shows "turn_ok n U (sc\<lparr>sc_pm := pm', sc_cm := cm', sc_tm := tm'\<rparr>)"
proof (rule turn_ok_tables [OF assms(1)])
  let ?pm = "(sc_pm sc)\<lparr>pm_pending := map (refresh sc) (pm_pending (sc_pm sc))\<rparr>"
  have split: "mset [0..<n] = mset (tm_free (sc_tm sc)) + chunk_rows (pm_pending ?pm)
      + image_mset (\<lambda>i. rq_table (sc_store sc i)) (mset_set (run_ids (sc_dm sc)))"
    using turn_rows_split [OF assms(1)] by simp
  note on = once_upt [OF split]
  note Q = schedule_prefill_pool [OF assms(3,2) once_sub [OF on], simplified]
  show "mset (tm_free tm') = mset (tm_free (sc_tm sc))" using Q by simp
  show "pm_pending pm' = map (refresh sc) (pm_pending (sc_pm sc))" using Q by simp
  show "\<forall>i \<in> run_ids (sc_dm sc). tm_pool tm' (rq_table (sc_store sc i)) = tm_pool (sc_tm sc) (rq_table (sc_store sc i))"
  proof
    fix i assume "i \<in> run_ids (sc_dm sc)"
    then have "rq_table (sc_store sc i) \<in># image_mset (\<lambda>i. rq_table (sc_store sc i)) (mset_set (run_ids (sc_dm sc)))" by simp
    then have "rq_table (sc_store sc i) \<notin># mset (tm_free (sc_tm sc)) + chunk_rows (pm_pending ?pm)" using onceD [OF on] by blast
    then show "tm_pool tm' (rq_table (sc_store sc i)) = tm_pool (sc_tm sc) (rq_table (sc_store sc i))"
      using Q by simp
  qed
qed

lemma schedule_ok:
  fixes sc sc' :: "('c, 'h) sched"
  assumes "turn_ok n U sc" "\<And>n. length (mem n) = n" "schedule_next_batch K mem clk budget sc = Some (Inr (ob, sc'))"
  shows "case ob of None \<Rightarrow> turn_ok n U sc' | Some b \<Rightarrow> batch_ok n U (fst b) sc'"
proof -
  let ?pm = "(sc_pm sc)\<lparr>pm_pending := map (refresh sc) (pm_pending (sc_pm sc))\<rparr>"
  obtain res pm' cm' tm' where
    P: "schedule_prefill K mem clk budget (inflight_tokens (sc_store sc) (sc_dm sc)) ?pm (sc_cm sc) (sc_tm sc) = Some (Inr (res, pm', cm', tm'))"
    using assms(3) by (auto simp: schedule_next_batch_def bindX_Inr)
  have R: "(let sc1 = sc\<lparr>sc_pm := pm', sc_cm := cm', sc_tm := tm'\<rparr>
          in case res of
               Some rs \<Rightarrow> (case new_objects rs sc1 of (ids, sc2) \<Rightarrow> Some (Inr (Some (ids, True), sc2)))
             | None \<Rightarrow>
                 (case dm_schedule (sc_store sc1) (sc_dm sc1) of
                    (None, dm) \<Rightarrow> Some (Inr (None, sc1\<lparr>sc_dm := dm\<rparr>))
                  | (Some ids, dm) \<Rightarrow> Some (Inr (Some (ids, False), sc1\<lparr>sc_dm := dm\<rparr>))))
      = (Some (Inr (ob, sc')) :: (sbatch option \<times> ('c, 'h) sched) run)"
    using assms(3) by (simp add: schedule_next_batch_def P)
  show ?thesis
  proof (cases res)
    case (Some rs)
    obtain ids sc2 where o: "new_objects rs (sc\<lparr>sc_pm := pm', sc_cm := cm', sc_tm := tm'\<rparr>) = (ids, sc2)" by fastforce
    from R Some o have "ob = Some (ids, True)" "sc' = sc2" by simp_all
    with prefill_batch_ok [OF assms(1,2) P [unfolded Some] o] show ?thesis by simp
  next
    case None
    let ?sc = "sc\<lparr>sc_pm := pm', sc_cm := cm', sc_tm := tm'\<rparr>"
    have t: "turn_ok n U ?sc" by (rule prefill_none_ok [OF assms(1,2) P [unfolded None]])
    show ?thesis
    proof (cases "dm_schedule (sc_store ?sc) (sc_dm ?sc)")
      case (Pair oi dm')
      show ?thesis
      proof (cases oi)
        case (Some ids)
        with R None Pair have "ob = Some (ids, False)" "sc' = ?sc\<lparr>sc_dm := dm'\<rparr>" by auto
        with decode_batch_ok [OF t] Pair Some show ?thesis by auto
      next
        case oi: None
        with Pair have "dm' = sc_dm sc" by (auto simp: dm_schedule_def split: if_splits prod.splits)
        with R None Pair oi have "ob = None" "sc' = ?sc" by auto
        with t show ?thesis by simp
      qed
    qed
  qed
qed

lemma prepare_ok:
  assumes "batch_ok n U ids sc" "prepare_batch K b sc = Some (Inr sc')"
  shows "batch_ok n U ids sc'" "sc_store sc' = sc_store sc"
proof -
  from assms(2) obtain m where "sc' = sc\<lparr>sc_cm := m\<rparr>" by (auto simp: prepare_batch_def bindX_Inr)
  then show "batch_ok n U ids sc'" "sc_store sc' = sc_store sc"
    using assms(1) by (simp_all add: batch_ok_def loop_ok_def uids_ok_def sched_live_def)
qed

text \<open>A filled batch reads exactly the host tokens its requests have not cached.\<close>

lemma filled_input:
  assumes "filled T r"
  shows "map (T (rq_table r)) [rq_cached r..<rq_device r] = drop (rq_cached r) (rq_ids r)"
proof (rule nth_equalityI)
  have len: "length (rq_ids r) = rq_device r" using assms by (simp add: filled_def rq_ids_def buf_ok_def)
  then show "length (map (T (rq_table r)) [rq_cached r..<rq_device r]) = length (drop (rq_cached r) (rq_ids r))" by simp
  fix i assume "i < length (map (T (rq_table r)) [rq_cached r..<rq_device r])"
  then show "map (T (rq_table r)) [rq_cached r..<rq_device r] ! i = drop (rq_cached r) (rq_ids r) ! i"
    using assms len by (simp add: filled_def)
qed

lemma batch_ok_input:
  "batch_ok n U ids sc \<Longrightarrow> input_tokens sc ids = map (\<lambda>i. drop (rq_cached (sc_store sc i)) (rq_ids (sc_store sc i))) ids"
  by (simp add: input_tokens_def Let_def batch_ok_def filled_input)

subsection \<open>The forward pass\<close>

lemma put_cells_other: "u \<notin> fst ` set cs \<Longrightarrow> put_cells (zip cs vs) T u = T u"
proof (induction cs arbitrary: vs T)
  case (Cons c cs)
  then show ?case by (cases vs) (auto simp: put_cells_def put_cell_def)
qed (simp add: put_cells_def)

lemma put_cells_at:
  "distinct (map fst cs) \<Longrightarrow> j < length cs \<Longrightarrow> length vs = length cs \<Longrightarrow>
   put_cells (zip cs vs) T (fst (cs ! j)) = (T (fst (cs ! j)))(snd (cs ! j) := vs ! j)"
proof (induction cs arbitrary: vs T j)
  case (Cons c cs)
  then obtain v vs' where v: "vs = v # vs'" by (cases vs) auto
  have step: "put_cells (zip (c # cs) vs) T = put_cells (zip cs vs') (put_cell c v T)" by (simp add: v put_cells_def)
  show ?case
  proof (cases j)
    case 0
    have "fst c \<notin> fst ` set cs" using Cons.prems(1) by simp
    with 0 v show ?thesis unfolding step by (simp add: put_cells_other) (simp add: put_cell_def)
  next
    case (Suc j')
    with Cons.prems have "fst (cs ! j') \<noteq> fst c" by (auto simp: in_set_conv_nth image_iff) (metis nth_mem)
    then have keep: "put_cell c v T (fst (cs ! j')) = T (fst (cs ! j'))" by (simp add: put_cell_def)
    have "put_cells (zip cs vs') (put_cell c v T) (fst (cs ! j')) = (put_cell c v T (fst (cs ! j')))(snd (cs ! j') := vs' ! j')"
      by (rule Cons.IH) (use Cons.prems Suc v in simp_all)
    with Suc v show ?thesis unfolding step keep by simp
  qed
qed simp

lemma foldl_complete:
  "distinct ids \<Longrightarrow> foldl (\<lambda>S i. S(i := complete_one (S i))) S ids i = (if i \<in> set ids then complete_one (S i) else S i)"
  by (induction ids arbitrary: S) auto

lemma filter_reqs_run:
  assumes "dm_ok uid dm" "\<forall>x. rq_uid (S x) = uid x" "inj_on uid (run_ids dm \<union> set ids)" "distinct ids"
  shows "run_ids (filter_reqs S ids dm) = (run_ids dm - set ids) \<union> {i \<in> set ids. can_decode (S i)}"
  using assms(1,3,4)
proof (induction ids arbitrary: dm)
  case Nil
  then show ?case by (simp add: filter_reqs_def)
next
  case (Cons x ids)
  have key: "fst e = uid (snd e)" if "e \<in> set (dm_running dm)" for e using Cons.prems(1) that by (auto simp: dm_ok_def)
  have x: "uid x \<in> fst ` set (dm_running dm) \<longleftrightarrow> x \<in> run_ids dm"
  proof
    assume "uid x \<in> fst ` set (dm_running dm)"
    then obtain e where e: "e \<in> set (dm_running dm)" "uid x = uid (snd e)" using key by auto
    then have "snd e \<in> run_ids dm" by (simp add: run_ids_def)
    with e(2) Cons.prems(2) have "x = snd e" by (auto simp: inj_on_def)
    with e(1) show "x \<in> run_ids dm" by (simp add: run_ids_def)
  next
    assume "x \<in> run_ids dm"
    then show "uid x \<in> fst ` set (dm_running dm)" using key by (force simp: run_ids_def)
  qed
  have one: "run_ids (filter_one S x dm) = (if can_decode (S x) then insert x (run_ids dm) else run_ids dm - {x})"
  proof (cases "can_decode (S x)")
    case True
    then show ?thesis using filter_one_ok(2) [OF Cons.prems(1) assms(2), of x] x by (auto simp: run_ids_def)
  next
    case False
    have "snd ` {e \<in> set (dm_running dm). fst e \<noteq> uid x} = run_ids dm - {x}"
    proof (intro equalityI subsetI)
      fix i assume "i \<in> snd ` {e \<in> set (dm_running dm). fst e \<noteq> uid x}"
      then show "i \<in> run_ids dm - {x}" using key by (auto simp: run_ids_def)
    next
      fix i assume i: "i \<in> run_ids dm - {x}"
      then obtain e where e: "e \<in> set (dm_running dm)" "snd e = i" by (auto simp: run_ids_def)
      from i Cons.prems(2) have "uid i \<noteq> uid x" by (auto simp: inj_on_def)
      with e key [OF e(1)] show "i \<in> snd ` {e \<in> set (dm_running dm). fst e \<noteq> uid x}" by force
    qed
    with False show ?thesis using filter_one_ok(2) [OF Cons.prems(1) assms(2), of x] by (simp add: run_ids_def)
  qed
  have "inj_on uid (run_ids (filter_one S x dm) \<union> set ids)"
    using Cons.prems(2) one by (auto intro: inj_on_subset)
  from Cons.IH [OF filter_one_ok(1) [OF Cons.prems(1) assms(2)] this] Cons.prems(3) one
  show ?case by (auto simp: filter_reqs_def)
qed

lemma uids_inj_live:
  assumes "uids_ok U B sc"
  shows "inj_on (\<lambda>i. rq_uid (sc_store sc i)) (sched_live B sc)"
proof (rule inj_onI)
  fix i j assume ij: "i \<in> sched_live B sc" "j \<in> sched_live B sc" "rq_uid (sc_store sc i) = rq_uid (sc_store sc j)"
  let ?C = "chunk_ids (sc_ref sc) (pm_pending (sc_pm sc))" and ?R = "run_ids (sc_dm sc) \<union> B"
  have c: "\<exists>p \<in> set (pm_pending (sc_pm sc)). i = sc_ref sc (pd_uid p) \<and> rq_uid (sc_store sc i) = pd_uid p" if "i \<in> ?C" for i
    using that assms by (auto simp: chunk_ids_def uids_ok_def simp del: not_None_eq)
  have r: "rq_uid (sc_store sc i) \<noteq> pd_uid p" if "i \<in> ?R" "p \<in> set (pm_pending (sc_pm sc))" for i p
    using that assms by (simp add: uids_ok_def)
  have "i \<in> ?C \<or> i \<in> ?R" "j \<in> ?C \<or> j \<in> ?R" using ij(1,2) by (auto simp: sched_live_def)
  then show "i = j"
  proof (elim disjE)
    assume "i \<in> ?C" "j \<in> ?C"
    with c [of i] c [of j] ij(3) show ?thesis by auto
  next
    assume "i \<in> ?C" "j \<in> ?R"
    with c [of i] r [of j] ij(3) show ?thesis by auto
  next
    assume "i \<in> ?R" "j \<in> ?C"
    with c [of j] r [of i] ij(3) show ?thesis by auto
  next
    assume "i \<in> ?R" "j \<in> ?R"
    with assms ij(3) show ?thesis by (simp add: uids_ok_def inj_on_def)
  qed
qed

text \<open>
  The state while results are processed: \<open>rows\<close> are the objects not yet settled with the tokens
  the forward wrote for them.
\<close>

definition sampled :: "(nat \<Rightarrow> nat \<Rightarrow> int) \<Rightarrow> int \<Rightarrow> 'h req \<Rightarrow> bool" where
  "sampled T tok r \<longleftrightarrow> buf_ok r \<and> rq_len r = rq_cached r \<and> rq_device r = Suc (rq_cached r) \<and> T (rq_table r) (rq_cached r) = tok"

definition mid_ok :: "nat \<Rightarrow> int set \<Rightarrow> (nat \<times> int) list \<Rightarrow> ('c, 'h) sched \<Rightarrow> bool" where
  "mid_ok n U rows sc \<longleftrightarrow> loop_ok n U (plain_ids (sc_store sc) (map fst rows)) sc \<and> distinct (map fst rows)
     \<and> (\<forall>(i, t) \<in> set rows. if i \<in> run_ids (sc_dm sc) then \<not> rq_chunked (sc_store sc i) \<and> sampled (tm_pool (sc_tm sc)) t (sc_store sc i)
          else \<not> can_decode (sc_store sc i))
     \<and> (\<forall>i \<in> run_ids (sc_dm sc) - fst ` set rows. decode_ready (tm_pool (sc_tm sc)) (sc_store sc i))"

lemma complete_one_simps [simp]:
  "rq_uid (complete_one r) = rq_uid r" "rq_table (complete_one r) = rq_table r" "rq_chunked (complete_one r) = rq_chunked r"
  "rq_cached (complete_one r) = rq_device r" "rq_device (complete_one r) = Suc (rq_device r)" "rq_len (complete_one r) = rq_len r"
  "buf_ok (complete_one r) = buf_ok r" "rq_max (complete_one r) = rq_max r" "rq_ids (complete_one r) = rq_ids r"
  by (simp_all add: complete_one_def buf_ok_def rq_ids_def)

lemma can_decode_complete: "can_decode (complete_one r) \<Longrightarrow> can_decode r"
  by (simp add: can_decode_def remain_len_def)

lemma decode_ready_pool: "T (rq_table r) = T' (rq_table r) \<Longrightarrow> decode_ready T r = decode_ready T' r"
  by (simp add: decode_ready_def filled_def)

lemma forward_sel:
  fixes sc :: "('c, 'h) sched" and env :: sched_env and pf :: bool and toks :: "int list"
  assumes "distinct ids"
  defines "sc' \<equiv> forward env (ids, pf) toks sc"
  shows "sc_store sc' = (\<lambda>i. if i \<in> set ids then complete_one (sc_store sc i) else sc_store sc i)"
    "sc_tm sc' = (sc_tm sc)\<lparr>tm_pool := put_cells (zip (write_cells env (sc_store sc) ids) toks) (tm_pool (sc_tm sc))\<rparr>"
    "sc_dm sc' = filter_reqs (sc_store sc') ids (sc_dm sc)"
    "sc_freed sc' = sc_freed sc" "sc_next sc' = sc_next sc" "sc_ref sc' = sc_ref sc" "sc_pm sc' = sc_pm sc" "sc_finished sc' = sc_finished sc"
proof -
  have "foldl (\<lambda>S i. S(i := complete_one (S i))) (sc_store sc) ids = (\<lambda>i. if i \<in> set ids then complete_one (sc_store sc i) else sc_store sc i)"
    using foldl_complete [OF assms(1), of "sc_store sc"] by (intro ext) (simp del: fun_upd_apply)
  then show "sc_store sc' = (\<lambda>i. if i \<in> set ids then complete_one (sc_store sc i) else sc_store sc i)"
    by (simp add: sc'_def forward_def Let_def del: fun_upd_apply)
  show "sc_tm sc' = (sc_tm sc)\<lparr>tm_pool := put_cells (zip (write_cells env (sc_store sc) ids) toks) (tm_pool (sc_tm sc))\<rparr>"
    "sc_dm sc' = filter_reqs (sc_store sc') ids (sc_dm sc)"
    "sc_freed sc' = sc_freed sc" "sc_next sc' = sc_next sc" "sc_ref sc' = sc_ref sc" "sc_pm sc' = sc_pm sc" "sc_finished sc' = sc_finished sc"
    by (simp_all add: sc'_def forward_def Let_def del: fun_upd_apply)
qed

lemma forward_mid_ok:
  fixes sc :: "('c, 'h) sched"
  assumes "batch_ok n U ids sc" "length toks = length ids"
  shows "mid_ok n U (zip ids toks) (forward env (ids, pf) toks sc)"
proof -
  let ?S = "sc_store sc" and ?D = "run_ids (sc_dm sc)" and ?sc = "forward env (ids, pf) toks sc"
  let ?P = "plain_ids ?S ids" and ?T = "tm_pool (sc_tm sc)" and ?cs = "write_cells env (sc_store sc) ids"
  have L: "loop_ok n U ?P sc" and d: "distinct ids" and Fi: "\<forall>i \<in> set ids. filled ?T (?S i)"
    and Ch: "\<forall>i \<in> set ids. rq_chunked (?S i) \<longrightarrow> i \<in> chunk_ids (sc_ref sc) (pm_pending (sc_pm sc))"
    and R: "\<forall>i \<in> ?D. decode_ready ?T (?S i)" using assms(1) by (simp_all add: batch_ok_def)
  note f = forward_sel [OF d, of env pf toks sc]
  have V: "uids_ok U ?P sc" and rows: "rows_ok n (sched_live ?P sc) (sc_tm sc) ?S" using L by (simp_all add: loop_ok_def)
  have idl: "set ids \<subseteq> sched_live ?P sc" using Ch by (auto simp: sched_live_def plain_ids_def)
  have dl: "?D \<subseteq> sched_live ?P sc" by (auto simp: sched_live_def)
  have tin: "inj_on (\<lambda>i. rq_table (?S i)) (sched_live ?P sc)" using rows by (rule rows_inj)
  have S': "sc_store ?sc i = (if i \<in> set ids then complete_one (?S i) else ?S i)" for i by (simp add: f(1))
  have same: "rq_uid (sc_store ?sc i) = rq_uid (?S i)" "rq_table (sc_store ?sc i) = rq_table (?S i)"
    "rq_chunked (sc_store ?sc i) = rq_chunked (?S i)" for i by (simp_all add: S')
  have dm: "dm_ok (\<lambda>i. rq_uid (?S i)) (sc_dm sc)" using V by (simp add: uids_ok_def)
  have "inj_on (\<lambda>i. rq_uid (?S i)) (?D \<union> set ids)" using uids_inj_live [OF V] idl dl by (auto intro: inj_on_subset)
  then have D': "run_ids (sc_dm ?sc) = (?D - set ids) \<union> {i \<in> set ids. can_decode (sc_store ?sc i)}"
    unfolding f(3) using filter_reqs_run [OF dm _ _ d, of "sc_store ?sc"] same(1) by simp
  have "{i \<in> set ids. can_decode (sc_store ?sc i)} \<subseteq> ?P" using same(3) by (auto simp: plain_ids_def can_decode_def)
  moreover have "?D \<inter> set ids \<subseteq> ?P" using R by (auto simp: plain_ids_def decode_ready_def)
  ultimately have DP: "run_ids (sc_dm ?sc) \<union> ?P = ?D \<union> ?P" unfolding D' by (auto simp: plain_ids_def)
  have pl: "plain_ids (sc_store ?sc) (map fst (zip ids toks)) = ?P"
    using assms(2) same(3) by (simp add: plain_ids_def)
  have live: "sched_live ?P ?sc = sched_live ?P sc" using DP by (auto simp: sched_live_def f)
  have "dm_ok (\<lambda>i. rq_uid (?S i)) (sc_dm ?sc)" unfolding f(3) by (rule filter_reqs_ok [OF dm]) (simp add: same)
  then have uo: "uids_ok U ?P ?sc" using V by (simp add: uids_ok_def same DP f(6,7) del: not_None_eq)
  have ro: "rows_ok n (sched_live ?P ?sc) (sc_tm ?sc) (sc_store ?sc)"
    using rows by (simp add: rows_ok_def live same f(2))
  have lo: "loop_ok n U ?P ?sc" using L uo ro live by (simp add: loop_ok_def f(4,5,8))
  have csd: "map fst ?cs = map (\<lambda>i. rq_table (?S i)) ids" by (simp add: write_cells_def)
  have dc: "distinct (map fst ?cs)" unfolding csd using d inj_on_subset [OF tin idl] by (simp add: distinct_map)
  have other: "tm_pool (sc_tm ?sc) (rq_table (?S i)) = ?T (rq_table (?S i))" if "i \<in> sched_live ?P sc" "i \<notin> set ids" for i
  proof -
    have "rq_table (?S i) \<notin> set (map fst ?cs)" unfolding csd using that tin idl by (auto simp: inj_on_def)
    then show ?thesis by (simp add: f(2) put_cells_other)
  qed
  have samp: "sampled (tm_pool (sc_tm ?sc)) (toks ! j) (sc_store ?sc (ids ! j))"
    if j: "j < length ids" "can_decode (sc_store ?sc (ids ! j))" for j
  proof -
    let ?r = "?S (ids ! j)"
    have i: "ids ! j \<in> set ids" using j(1) by simp
    have cd: "can_decode ?r" using j(2) can_decode_complete i by (simp add: S')
    have c: "?cs ! j = (rq_table ?r, rq_device ?r)" using j(1) cd by (simp add: write_cells_def)
    have "put_cells (zip ?cs toks) ?T (rq_table ?r) = (?T (rq_table ?r))(rq_device ?r := toks ! j)"
      using put_cells_at [OF dc, of j toks ?T] j(1) assms(2) c by (simp add: write_cells_def del: fun_upd_apply)
    moreover have "filled ?T ?r" using Fi i by simp
    ultimately show ?thesis using i by (simp add: sampled_def S' f(2) filled_def)
  qed
  have "if i \<in> run_ids (sc_dm ?sc) then \<not> rq_chunked (sc_store ?sc i) \<and> sampled (tm_pool (sc_tm ?sc)) t (sc_store ?sc i)
        else \<not> can_decode (sc_store ?sc i)" if it: "(i, t) \<in> set (zip ids toks)" for i t
  proof -
    from it obtain j where j: "j < length ids" "i = ids ! j" "t = toks ! j" by (auto simp: set_zip)
    show ?thesis using samp [OF j(1)] j D' by (auto simp: can_decode_def)
  qed
  moreover have "decode_ready (tm_pool (sc_tm ?sc)) (sc_store ?sc i)" if i: "i \<in> run_ids (sc_dm ?sc) - fst ` set (zip ids toks)" for i
  proof -
    have ni: "i \<notin> set ids" using i assms(2) by (simp add: image_set [symmetric] del: set_map image_set) (metis Diff_iff image_set map_fst_zip)
    with i D' have iD: "i \<in> ?D" by auto
    with R have "decode_ready ?T (?S i)" by simp
    with other [of i] dl iD ni decode_ready_pool [of "tm_pool (sc_tm ?sc)" "?S i" ?T] show ?thesis by (auto simp: S')
  qed
  ultimately show ?thesis unfolding mid_ok_def pl using lo d assms(2) by auto
qed

subsection \<open>The results of a batch\<close>

lemma append_host_ids_fields [simp]:
  "rq_uid (append_host_ids mem toks r) = rq_uid r" "rq_table (append_host_ids mem toks r) = rq_table r"
  "rq_chunked (append_host_ids mem toks r) = rq_chunked r" "rq_cached (append_host_ids mem toks r) = rq_cached r"
  "rq_device (append_host_ids mem toks r) = rq_device r" "rq_max (append_host_ids mem toks r) = rq_max r"
  by (simp_all add: append_host_ids_def Let_def)

lemma can_decode_append [simp]: "can_decode (append_host_ids mem toks r) = can_decode r"
  by (simp add: can_decode_def remain_len_def)

lemma commit_token_sel:
  assumes "commit_token mem env i tok sc = (fin, rp, sc1)"
  shows "\<exists>tok'. sc_store sc1 = (sc_store sc)(i := append_host_ids mem [tok'] (sc_store sc i))
     \<and> sc_tm sc1 = fixup_cell (sc_store sc i) tok tok' (sc_tm sc) \<and> rp_token rp = tok' \<and> rp_uid rp = rq_uid (sc_store sc i)"
    "\<not> fin \<Longrightarrow> can_decode (sc_store sc i)" "rp_finished rp = fin"
    "sc_freed sc1 = sc_freed sc" "sc_next sc1 = sc_next sc" "sc_ref sc1 = sc_ref sc" "sc_pm sc1 = sc_pm sc"
    "sc_finished sc1 = sc_finished sc" "sc_dm sc1 = sc_dm sc" "sc_cm sc1 = sc_cm sc"
  using assms by (auto simp: commit_token_def commit_armed_def commit_override_def commit_row_def row_state_def row_reply_def
      ends_with_def Let_def)

lemma fixup_cell_sel:
  "tm_free (fixup_cell r tok tok' tm) = tm_free tm"
  "u \<noteq> rq_table r \<Longrightarrow> tm_pool (fixup_cell r tok tok' tm) u = tm_pool tm u"
  "tm_pool tm (rq_table r) (rq_cached r) = tok \<Longrightarrow> tm_pool (fixup_cell r tok tok' tm) (rq_table r) (rq_cached r) = tok'"
  by (simp_all add: fixup_cell_def put_cell_def)

text \<open>Committing a sampled token makes its request ready for the next step.\<close>

lemma sampled_committed:
  assumes "sampled T tok r" "\<And>n. length (mem n) = n" "T' (rq_table r) (rq_cached r) = tok'" "\<not> rq_chunked r"
  shows "decode_ready T' (append_host_ids mem [tok'] r)"
proof -
  have b: "buf_ok r" "rq_len r = rq_cached r" "rq_device r = Suc (rq_cached r)" using assms(1) by (simp_all add: sampled_def)
  note a = append_host_ids_spec [OF assms(2) b(1), of "[tok']"]
  have "length (rq_ids r) = rq_cached r" using b by (simp add: rq_ids_def buf_ok_def)
  then have nth: "(rq_ids r @ [tok']) ! rq_cached r = tok'" by (metis nth_append_length)
  have "T' (rq_table r) k = (rq_ids r @ [tok']) ! k" if "rq_cached r \<le> k" "k < Suc (rq_cached r)" for k
  proof -
    have "k = rq_cached r" using that by simp
    with nth assms(3) show ?thesis by simp
  qed
  then show ?thesis using a b assms(4) by (simp add: decode_ready_def filled_def)
qed

lemma cache_req_sel:
  assumes "cache_req K a b f r m = Some (Inr (h, r', m'))"
  shows "r' = r\<lparr>rq_handle := rq_handle r'\<rparr>"
proof -
  have "r' = r \<or> (\<exists>h. r' = r\<lparr>rq_handle := h\<rparr>)"
    using assms by (auto simp: cache_req_def Let_def bindX_Inr split: if_splits)
  then show ?thesis by auto
qed

lemma handle_irrelevant [simp]:
  "rq_ids (r\<lparr>rq_handle := h\<rparr>) = rq_ids r" "buf_ok (r\<lparr>rq_handle := h\<rparr>) = buf_ok r" "can_decode (r\<lparr>rq_handle := h\<rparr>) = can_decode r"
  "decode_ready T (r\<lparr>rq_handle := h\<rparr>) = decode_ready T r" "sampled T t (r\<lparr>rq_handle := h\<rparr>) = sampled T t r"
  by (simp_all add: rq_ids_def buf_ok_def can_decode_def remain_len_def decode_ready_def filled_def sampled_def)

text \<open>Changing one object and its own row.\<close>

lemma loop_ok_same:
  assumes "loop_ok n U B sc" "sc_freed sc1 = sc_freed sc" "sc_next sc1 = sc_next sc" "sc_ref sc1 = sc_ref sc" "sc_pm sc1 = sc_pm sc"
    "sc_finished sc1 = sc_finished sc" "sc_dm sc1 = sc_dm sc" "tm_free (sc_tm sc1) = tm_free (sc_tm sc)"
    "\<And>j. rq_uid (sc_store sc1 j) = rq_uid (sc_store sc j)" "\<And>j. rq_table (sc_store sc1 j) = rq_table (sc_store sc j)"
  shows "loop_ok n U B sc1"
proof -
  have l: "sched_live B sc1 = sched_live B sc" by (simp add: sched_live_def assms(4,5,7))
  have "uids_ok U B sc" using assms(1) by (simp add: loop_ok_def)
  then have "uids_ok U B sc1" by (simp add: uids_ok_def assms(4,5,7,9) del: not_None_eq)
  then show ?thesis using assms(1) l by (simp add: loop_ok_def rows_ok_def assms(2,3,6,8,10))
qed

lemma settle_req_sel:
  assumes "settle_req K clk pf i fin sc = Some (Inr (new, sc'))"
  shows "(fin \<and> i \<notin> set (sc_finished sc) \<and> new = [i]
      \<and> free_req_resources K clk i (sc\<lparr>sc_dm := remove_req (sc_store sc) i (sc_dm sc)\<rparr>) = Some (Inr sc'))
    \<or> (\<not> (fin \<and> i \<notin> set (sc_finished sc)) \<and> new = [] \<and> (\<exists>h m. sc' = sc\<lparr>sc_store := (sc_store sc)(i := (sc_store sc i)\<lparr>rq_handle := h\<rparr>), sc_cm := m\<rparr>))"
proof (cases "fin \<and> i \<notin> set (sc_finished sc)")
  case True
  with assms show ?thesis by (auto simp: settle_req_def bindX_Inr)
next
  case fin: False
  show ?thesis
  proof (cases pf)
    case True
    with fin assms have "bindX (cache_req K (fst clk) (snd clk) False (sc_store sc i) (sc_cm sc))
             (\<lambda>(h, r', m). Some (Inr ([], sc\<lparr>sc_store := (sc_store sc)(i := r'), sc_cm := m\<rparr>))) = Some (Inr (new, sc'))"
      by (auto simp: settle_req_def)
    then obtain h r' m where c: "cache_req K (fst clk) (snd clk) False (sc_store sc i) (sc_cm sc) = Some (Inr (h, r', m))"
      "new = []" "sc' = sc\<lparr>sc_store := (sc_store sc)(i := r'), sc_cm := m\<rparr>" by (auto simp: bindX_Inr)
    from cache_req_sel [OF c(1)] c(2,3) fin show ?thesis by metis
  next
    case False
    with fin assms have "new = []" "sc' = sc" by (auto simp: settle_req_def)
    moreover have "sc = sc\<lparr>sc_store := (sc_store sc)(i := (sc_store sc i)\<lparr>rq_handle := rq_handle (sc_store sc i)\<rparr>), sc_cm := sc_cm sc\<rparr>" by simp
    ultimately show ?thesis using fin by metis
  qed
qed

lemma loop_ok_absorb:
  assumes "loop_ok n U (insert i B) sc" "i \<in> run_ids (sc_dm sc)"
  shows "loop_ok n U B sc"
proof -
  have "sched_live (insert i B) sc = sched_live B sc" using assms(2) by (auto simp: sched_live_def)
  moreover have "run_ids (sc_dm sc) \<union> insert i B = run_ids (sc_dm sc) \<union> B" using assms(2) by auto
  ultimately show ?thesis using assms(1) by (simp add: loop_ok_def uids_ok_def)
qed

lemma remove_req_run:
  assumes "uids_ok U B sc" "i \<in> run_ids (sc_dm sc) \<union> B"
  shows "run_ids (remove_req (sc_store sc) i (sc_dm sc)) = run_ids (sc_dm sc) - {i}"
    "dm_ok (\<lambda>j. rq_uid (sc_store sc j)) (remove_req (sc_store sc) i (sc_dm sc))"
proof -
  have dm: "dm_ok (\<lambda>j. rq_uid (sc_store sc j)) (sc_dm sc)" and inj: "inj_on (\<lambda>j. rq_uid (sc_store sc j)) (run_ids (sc_dm sc) \<union> B)"
    using assms(1) by (simp_all add: uids_ok_def)
  obtain o' dm' where p: "dm_pop (rq_uid (sc_store sc i)) (sc_dm sc) = (o', dm')" by fastforce
  note P = dm_popD [OF dm, of "rq_uid (sc_store sc i)", unfolded p, simplified]
  have "run_ids dm' = run_ids (sc_dm sc) - {i} \<and> dm_ok (\<lambda>j. rq_uid (sc_store sc j)) dm'"
  proof (cases o')
    case None
    with P dm show ?thesis by auto
  next
    case (Some j)
    with P have j: "j \<in> run_ids (sc_dm sc)" "rq_uid (sc_store sc j) = rq_uid (sc_store sc i)"
      "run_ids dm' = run_ids (sc_dm sc) - {j}" "dm_ok (\<lambda>j. rq_uid (sc_store sc j)) dm'" by simp_all
    from inj_onD [OF inj j(2)] j(1) assms(2) have "j = i" by simp
    with j show ?thesis by simp
  qed
  then show "run_ids (remove_req (sc_store sc) i (sc_dm sc)) = run_ids (sc_dm sc) - {i}"
    "dm_ok (\<lambda>j. rq_uid (sc_store sc j)) (remove_req (sc_store sc) i (sc_dm sc))"
    by (simp_all add: remove_req_def p)
qed

lemma row_ok:
  fixes sc sc2 :: "('c, 'h) sched"
  assumes M: "mid_ok n U ((i, tok) # rows) sc" and ch: "\<not> rq_chunked (sc_store sc i)"
    and c: "commit_token mem env i tok sc = (fin, rp, sc1)" and s: "settle_req K clk pf i fin sc1 = Some (Inr (new, sc2))"
    and mem: "\<And>n. length (mem n) = n"
  shows "mid_ok n U rows sc2" "\<forall>j \<in> set new. j < sc_next sc2 \<and> sc_freed sc2 j" "sc_next sc2 = sc_next sc"
    "\<forall>j. sc_freed sc j \<longrightarrow> sc_freed sc2 j" "\<forall>j. rq_chunked (sc_store sc2 j) = rq_chunked (sc_store sc j)"
proof -
  let ?S = "sc_store sc" and ?D = "run_ids (sc_dm sc)" and ?B = "plain_ids (sc_store sc) (map fst rows)"
  have B: "plain_ids ?S (map fst ((i, tok) # rows)) = insert i ?B" using ch by (auto simp: plain_ids_def)
  have L: "loop_ok n U (insert i ?B) sc" and d: "distinct (map fst rows)" "i \<notin> fst ` set rows"
    and I: "if i \<in> ?D then sampled (tm_pool (sc_tm sc)) tok (?S i) else \<not> can_decode (?S i)"
    and J: "\<And>j t. (j, t) \<in> set rows \<Longrightarrow> if j \<in> ?D then \<not> rq_chunked (?S j) \<and> sampled (tm_pool (sc_tm sc)) t (?S j) else \<not> can_decode (?S j)"
    and R: "\<And>j. j \<in> ?D \<Longrightarrow> j \<notin> fst ` set rows \<Longrightarrow> j \<noteq> i \<Longrightarrow> decode_ready (tm_pool (sc_tm sc)) (?S j)"
    using M unfolding mid_ok_def B by (auto split: if_splits)
  have V: "uids_ok U (insert i ?B) sc" and rows: "rows_ok n (sched_live (insert i ?B) sc) (sc_tm sc) ?S" using L by (simp_all add: loop_ok_def)
  have il: "i \<in> sched_live (insert i ?B) sc" by (simp add: sched_live_def)
  have nf: "i \<notin> set (sc_finished sc)" "i < sc_next sc" using L il by (auto simp: loop_ok_def)
  obtain tok' where t: "sc_store sc1 = ?S(i := append_host_ids mem [tok'] (?S i))" "sc_tm sc1 = fixup_cell (?S i) tok tok' (sc_tm sc)"
    using commit_token_sel(1) [OF c] by blast
  note f = commit_token_sel(2-) [OF c]
  have S1: "sc_store sc1 j = (if j = i then append_host_ids mem [tok'] (?S i) else ?S j)" for j by (simp add: t(1))
  have same: "rq_uid (sc_store sc1 j) = rq_uid (?S j)" "rq_table (sc_store sc1 j) = rq_table (?S j)"
    "rq_chunked (sc_store sc1 j) = rq_chunked (?S j)" "can_decode (sc_store sc1 j) = can_decode (?S j)" for j by (simp_all add: S1)
  have L1: "loop_ok n U (insert i ?B) sc1"
    by (rule loop_ok_same [OF L]) (simp_all add: f same t(2) fixup_cell_sel)
  have V1: "uids_ok U (insert i ?B) sc1" using L1 by (simp add: loop_ok_def)
  have pool: "tm_pool (sc_tm sc1) (rq_table (?S j)) = tm_pool (sc_tm sc) (rq_table (?S j))" if "j \<in> ?D" "j \<noteq> i" for j
  proof -
    have "j \<in> sched_live (insert i ?B) sc" using that(1) by (simp add: sched_live_def)
    then have "rq_table (?S j) \<noteq> rq_table (?S i)" using inj_onD [OF rows_inj [OF rows]] il that(2) by blast
    then show ?thesis by (simp add: t(2) fixup_cell_sel)
  qed
  have J1: "if j \<in> ?D then \<not> rq_chunked (sc_store sc1 j) \<and> sampled (tm_pool (sc_tm sc1)) t' (sc_store sc1 j) else \<not> can_decode (sc_store sc1 j)"
    if jt: "(j, t') \<in> set rows" for j t'
  proof -
    have "j \<noteq> i" using jt d(2) by force
    then show ?thesis using J [OF jt] pool [of j] by (cases "j \<in> ?D") (simp_all add: S1 sampled_def)
  qed
  have R1: "decode_ready (tm_pool (sc_tm sc1)) (sc_store sc1 j)" if "j \<in> ?D" "j \<notin> fst ` set rows" "j \<noteq> i" for j
    using R [OF that] pool [OF that(1,3)] decode_ready_pool [of "tm_pool (sc_tm sc1)" "?S j"] that(3) by (simp add: S1)
  have "mid_ok n U rows sc2 \<and> (\<forall>j \<in> set new. j < sc_next sc2 \<and> sc_freed sc2 j) \<and> sc_next sc2 = sc_next sc
    \<and> (\<forall>j. sc_freed sc j \<longrightarrow> sc_freed sc2 j) \<and> (\<forall>j. rq_chunked (sc_store sc2 j) = rq_chunked (?S j))"
    using settle_req_sel [OF s]
  proof (elim disjE conjE)
    let ?dm = "remove_req (sc_store sc1) i (sc_dm sc1)"
    assume new: "new = [i]" and fr: "free_req_resources K clk i (sc1\<lparr>sc_dm := ?dm\<rparr>) = Some (Inr sc2)"
    note rm = remove_req_run [OF V1, of i, simplified]
    let ?sc = "sc1\<lparr>sc_dm := ?dm\<rparr>"
    have nb: "i \<notin> ?B" using d(2) by (auto simp: plain_ids_def)
    have "chunk_ids (sc_ref sc1) (pm_pending (sc_pm sc1)) \<inter> (run_ids (sc_dm sc1) \<union> insert i ?B) = {}" by (rule chunk_ids_run [OF V1])
    then have lv: "sched_live ?B ?sc = sched_live (insert i ?B) sc1 - {i}" using rm(1) nb by (auto simp: sched_live_def)
    have uo: "uids_ok U ?B ?sc"
      by (rule uids_ok_pending [OF V1, of _ "\<lambda>_. True"]) (use rm in auto)
    have il1: "i \<in> sched_live (insert i ?B) sc1" by (simp add: sched_live_def)
    note X = loop_ok_free [OF L1 il1 lv uo _ _ _ _ _ fr, simplified]
    have pl: "plain_ids (sc_store sc2) (map fst rows) = ?B" by (simp add: plain_ids_def X(2) same)
    have D2: "run_ids (sc_dm sc2) = ?D - {i}" using rm(1) unfolding X(4) by (simp add: f(8))
    have "\<forall>(j, t') \<in> set rows. if j \<in> run_ids (sc_dm sc2) then \<not> rq_chunked (sc_store sc2 j) \<and> sampled (tm_pool (sc_tm sc2)) t' (sc_store sc2 j)
          else \<not> can_decode (sc_store sc2 j)"
    proof (intro ballI, clarify)
      fix j t' assume jt: "(j, t') \<in> set rows"
      then have "j \<noteq> i" using d(2) by force
      with J1 [OF jt] show "if j \<in> run_ids (sc_dm sc2) then \<not> rq_chunked (sc_store sc2 j) \<and> sampled (tm_pool (sc_tm sc2)) t' (sc_store sc2 j)
          else \<not> can_decode (sc_store sc2 j)" unfolding D2 X(2,3) by simp
    qed
    moreover have "\<forall>j \<in> run_ids (sc_dm sc2) - fst ` set rows. decode_ready (tm_pool (sc_tm sc2)) (sc_store sc2 j)"
      using R1 unfolding D2 X(2,3) by auto
    ultimately have "mid_ok n U rows sc2" using X(1) d(1) unfolding mid_ok_def pl by blast
    then show ?thesis using new nf(2) X(7,9,10) f(3,4) by (simp add: X(2) same)
  next
    assume nfin: "\<not> (fin \<and> i \<notin> set (sc_finished sc1))" and new: "new = []"
      and "\<exists>h m. sc2 = sc1\<lparr>sc_store := (sc_store sc1)(i := (sc_store sc1 i)\<lparr>rq_handle := h\<rparr>), sc_cm := m\<rparr>"
    then obtain h m where sc2: "sc2 = sc1\<lparr>sc_store := (sc_store sc1)(i := (sc_store sc1 i)\<lparr>rq_handle := h\<rparr>), sc_cm := m\<rparr>" by blast
    have "can_decode (?S i)" using nfin nf(1) f(1,7) by simp
    with I have iD: "i \<in> ?D" and sa: "sampled (tm_pool (sc_tm sc)) tok (?S i)" by (auto split: if_splits)
    have S2: "sc_store sc2 j = (if j = i then (sc_store sc1 i)\<lparr>rq_handle := h\<rparr> else sc_store sc1 j)" for j by (simp add: sc2)
    have same2: "rq_uid (sc_store sc2 j) = rq_uid (?S j)" "rq_table (sc_store sc2 j) = rq_table (?S j)"
      "rq_chunked (sc_store sc2 j) = rq_chunked (?S j)" "can_decode (sc_store sc2 j) = can_decode (?S j)" for j
      by (simp_all add: S2 same)
    have "loop_ok n U (insert i ?B) sc2"
      by (rule loop_ok_same [OF L1]) (simp_all add: same same2, simp_all add: sc2)
    then have lo: "loop_ok n U ?B sc2" by (rule loop_ok_absorb) (simp add: sc2 f iD)
    have pl: "plain_ids (sc_store sc2) (map fst rows) = ?B" by (simp add: plain_ids_def same2)
    have D2: "run_ids (sc_dm sc2) = ?D" "tm_pool (sc_tm sc2) = tm_pool (sc_tm sc1)" by (simp_all add: sc2 f)
    have ready: "decode_ready (tm_pool (sc_tm sc1)) (append_host_ids mem [tok'] (?S i))"
      by (rule sampled_committed [OF sa mem]) (use sa ch in \<open>simp_all add: t(2) fixup_cell_sel sampled_def\<close>)
    have "\<forall>(j, t') \<in> set rows. if j \<in> run_ids (sc_dm sc2) then \<not> rq_chunked (sc_store sc2 j) \<and> sampled (tm_pool (sc_tm sc2)) t' (sc_store sc2 j)
          else \<not> can_decode (sc_store sc2 j)"
    proof (intro ballI, clarify)
      fix j t' assume jt: "(j, t') \<in> set rows"
      then have "j \<noteq> i" using d(2) by force
      with J1 [OF jt] show "if j \<in> run_ids (sc_dm sc2) then \<not> rq_chunked (sc_store sc2 j) \<and> sampled (tm_pool (sc_tm sc2)) t' (sc_store sc2 j)
          else \<not> can_decode (sc_store sc2 j)" unfolding D2 by (simp add: S2)
    qed
    moreover have "\<forall>j \<in> run_ids (sc_dm sc2) - fst ` set rows. decode_ready (tm_pool (sc_tm sc2)) (sc_store sc2 j)"
    proof
      fix j assume j: "j \<in> run_ids (sc_dm sc2) - fst ` set rows"
      show "decode_ready (tm_pool (sc_tm sc2)) (sc_store sc2 j)"
      proof (cases "j = i")
        case True
        with ready show ?thesis by (simp add: S2 S1 D2)
      next
        case False
        with R1 [of j] j show ?thesis unfolding D2 by (simp add: S2)
      qed
    qed
    ultimately have "mid_ok n U rows sc2" using lo d(1) unfolding mid_ok_def pl by blast
    then show ?thesis using new f(3,4) by (simp add: same2) (simp add: sc2)
  qed
  then show "mid_ok n U rows sc2" "\<forall>j \<in> set new. j < sc_next sc2 \<and> sc_freed sc2 j" "sc_next sc2 = sc_next sc"
    "\<forall>j. sc_freed sc j \<longrightarrow> sc_freed sc2 j" "\<forall>j. rq_chunked (sc_store sc2 j) = rq_chunked (?S j)" by blast+
qed

lemma mid_ok_chunk:
  assumes "mid_ok n U ((i, tok) # rows) sc" "rq_chunked (sc_store sc i)"
  shows "mid_ok n U rows sc"
proof -
  have "i \<notin> run_ids (sc_dm sc)" using assms by (auto simp: mid_ok_def)
  moreover have "plain_ids (sc_store sc) (map fst ((i, tok) # rows)) = plain_ids (sc_store sc) (map fst rows)"
    using assms(2) by (auto simp: plain_ids_def)
  ultimately show ?thesis using assms(1) unfolding mid_ok_def by auto
qed

lemma process_rows_ok:
  assumes "process_rows K mem env clk pf k rows sc = Some (Inr (rs, fs, sc'))" "mid_ok n U rows sc" "\<And>n. length (mem n) = n"
  shows "mid_ok n U [] sc' \<and> (\<forall>j \<in> set fs. j < sc_next sc' \<and> sc_freed sc' j) \<and> sc_next sc' = sc_next sc
     \<and> (\<forall>j. sc_freed sc j \<longrightarrow> sc_freed sc' j)"
  using assms(1,2)
proof (induction rows arbitrary: k sc rs fs)
  case Nil
  then show ?case by simp
next
  case (Cons x rows)
  obtain i tok where x: "x = (i, tok)" by fastforce
  show ?case
  proof (cases "rq_chunked (sc_store sc i)")
    case True
    with Cons.prems x have "process_rows K mem env clk pf (Suc k) rows sc = Some (Inr (rs, fs, sc'))" by simp
    from Cons.IH [OF this mid_ok_chunk [OF Cons.prems(2) [unfolded x] True]] show ?thesis .
  next
    case False
    obtain fin rp sc1 where c: "commit_token mem env i tok sc = (fin, rp, sc1)" by (cases "commit_token mem env i tok sc")
    from Cons.prems(1) x False c obtain new sc2 rs2 fs2 where
      s: "settle_req K (clk k) pf i fin sc1 = Some (Inr (new, sc2))"
      and p: "process_rows K mem env clk pf (Suc k) rows sc2 = Some (Inr (rs2, fs2, sc'))" "fs = new @ fs2"
      by (auto simp: bindX_Inr)
    note r = row_ok [OF Cons.prems(2) [unfolded x] False c s assms(3)]
    from Cons.IH [OF p(1) r(1)] r p(2) show ?thesis by auto
  qed
qed

lemma mid_turn:
  assumes "mid_ok n U [] sc" "\<forall>j \<in> set fs. j < sc_next sc \<and> sc_freed sc j"
  shows "turn_ok n U (sc\<lparr>sc_finished := fs\<rparr>)"
proof -
  have "loop_ok n U {} sc" "\<forall>i \<in> run_ids (sc_dm sc). decode_ready (tm_pool (sc_tm sc)) (sc_store sc i)"
    using assms(1) by (simp_all add: mid_ok_def plain_ids_def)
  with assms(2) show ?thesis by (simp add: turn_ok_def loop_ok_def uids_ok_def sched_live_def)
qed

definition turn_uids :: "turn \<Rightarrow> int list" where
  "turn_uids tn = concat (map msg_uids (tn_msgs tn))"

lemma launch_ok:
  assumes "turn_ok n U sc" "\<And>n. length (mem n) = n" "launch_batch K mem env tn sc = Some (Inr (data, fed, sc'))"
  shows "case data of None \<Rightarrow> turn_ok n U sc' | Some (b, toks) \<Rightarrow> mid_ok n U (zip (fst b) toks) sc'"
proof -
  from assms(3) obtain ob sc1 where s: "schedule_next_batch K mem (tn_sched_clk tn) (tn_budget tn) sc = Some (Inr (ob, sc1))"
    by (auto simp: launch_batch_def bindX_Inr)
  note S = schedule_ok [OF assms(1,2) s]
  show ?thesis
  proof (cases ob)
    case None
    with assms(3) s S show ?thesis by (simp add: launch_batch_def)
  next
    case (Some b)
    with assms(3) s obtain sc2 where p: "prepare_batch K b sc1 = Some (Inr sc2)"
      and d: "data = Some (b, map (tn_tokens tn) [0..<length (fst b)])" "sc' = forward env b (map (tn_tokens tn) [0..<length (fst b)]) sc2"
      by (auto simp: launch_batch_def bindX_Inr Let_def)
    have "batch_ok n U (fst b) sc2" using prepare_ok [OF _ p] S Some by simp
    from forward_mid_ok [OF this, of "map (tn_tokens tn) [0..<length (fst b)]" env "snd b"] d show ?thesis by simp
  qed
qed

lemma normal_turn_ok:
  assumes "turn_ok n U sc" "\<And>n. length (mem n) = n" "normal_turn K mem env tn sc = Some (Inr (fed, rs, sc'))"
    "distinct (turn_uids tn)" "set (turn_uids tn) \<inter> U = {}"
  shows "turn_ok n (U \<union> set (turn_uids tn)) sc'"
proof -
  from assms(3) obtain rs1 sc1 data sc2 rs2 where
    m: "process_msgs K env (tn_clk tn) (tn_msgs tn) sc = Some (Inr (rs1, sc1))"
    and l: "launch_batch K mem env tn sc1 = Some (Inr (data, fed, sc2))"
    and p: "process_last_data K mem env (tn_done_clk tn) data sc2 = Some (Inr (rs2, sc'))"
    by (auto simp: normal_turn_def bindX_Inr)
  have "turn_ok n (U \<union> set (turn_uids tn)) sc1"
    using process_msgs_ok(2) [OF m assms(1)] assms(4,5) by (simp add: turn_uids_def)
  note L = launch_ok [OF this assms(2) l]
  show ?thesis
  proof (cases data)
    case None
    with L p show ?thesis by (simp add: process_last_data_def)
  next
    case (Some bt)
    obtain b toks where bt: "bt = (b, toks)" by fastforce
    from p Some bt obtain fs sc3 where r: "process_rows K mem env (tn_done_clk tn) (snd b) 0 (zip (fst b) toks) sc2 = Some (Inr (rs2, fs, sc3))"
      and sc': "sc' = sc3\<lparr>sc_finished := fs\<rparr>" by (auto simp: process_last_data_def bindX_Inr)
    have "mid_ok n (U \<union> set (turn_uids tn)) (zip (fst b) toks) sc2" using L Some bt by simp
    from process_rows_ok [OF r this assms(2)] show ?thesis unfolding sc' by (intro mid_turn) auto
  qed
qed

lemma normal_run_ok:
  assumes "\<And>n. length (mem n) = n"
  shows "normal_run K mem env tns sc = Some (Inr (feds, rs, sc')) \<Longrightarrow> turn_ok n U sc \<Longrightarrow> distinct (concat (map turn_uids tns))
    \<Longrightarrow> set (concat (map turn_uids tns)) \<inter> U = {} \<Longrightarrow> turn_ok n (U \<union> set (concat (map turn_uids tns))) sc'"
proof (induction tns arbitrary: sc U feds rs)
  case (Cons tn tns)
  from Cons.prems(1) obtain fed rs1 sc1 feds2 rs2 where t: "normal_turn K mem env tn sc = Some (Inr (fed, rs1, sc1))"
    "normal_run K mem env tns sc1 = Some (Inr (feds2, rs2, sc'))" by (auto simp: bindX_Inr)
  have "turn_ok n (U \<union> set (turn_uids tn)) sc1" by (rule normal_turn_ok [OF Cons.prems(2) assms t(1)]) (use Cons.prems(3,4) in auto)
  from Cons.IH [OF t(2) this] Cons.prems(3,4) show ?case by (auto simp: Un_assoc)
qed simp

lemma turn_ok_init: "turn_ok n U (sched_init S c pages page qsa ratio n table tg tool)"
  by (simp add: turn_ok_def loop_ok_def rows_ok_def uids_ok_def sched_live_def sched_init_def run_ids_def chunk_ids_def
      dm_init_def dm_ok_def tm_init_def)

lemma normal_run_turn_ok:
  assumes "\<And>n. length (mem n) = n" "normal_run K mem env tns (sched_init S c pages page qsa ratio n table tg tool) = Some (Inr (feds, rs, sc))"
    "distinct (concat (map turn_uids tns))"
  shows "turn_ok n (set (concat (map turn_uids tns))) sc"
  using normal_run_ok [OF assms(1,2) turn_ok_init, of "{}"] assms(3) by simp

end
