(* ===== verification/Scheduler_Claims.thy ===== *)
theory Scheduler_Claims
  imports Scheduler_Run Naive_Cache "HOL-Library.Code_Target_Nat"
begin

section \<open>The scheduler loop: claims\<close>

subsection \<open>The normal loop\<close>

text \<open>
  C2. Feedback integrity of \<open>normal_loop\<close>: what a forward pass reads for a request is exactly
  the tokens of its host sequence that are not cached yet.  After any run of turns, for a batch
  of either phase, chunked prefills, prefix hits, forced tokens and aborts included, the rows fed
  to the model are the host suffixes from \<open>cached_len\<close> on, so the client and the model see the
  same text.  The frontend must not use a uid twice.
\<close>

theorem normal_loop_feeds_committed:
  assumes "\<And>n. length (mem n) = n"
    "normal_run K mem env tns (sched_init S c pages page qsa ratio n table tg tool) = Some (Inr (feds, rs, sc))"
    "distinct (concat (map turn_uids (tns @ [tn])))"
    "process_msgs K env (tn_clk tn) (tn_msgs tn) sc = Some (Inr (rs', sc1))"
    "schedule_next_batch K mem (tn_sched_clk tn) (tn_budget tn) sc1 = Some (Inr (Some b, sc2))"
    "prepare_batch K b sc2 = Some (Inr sc3)"
  shows "input_tokens sc3 (fst b) = map (\<lambda>i. drop (rq_cached (sc_store sc3 i)) (rq_ids (sc_store sc3 i))) (fst b)"
proof -
  have d: "distinct (concat (map turn_uids tns))" "distinct (turn_uids tn)"
    "set (turn_uids tn) \<inter> set (concat (map turn_uids tns)) = {}" using assms(3) by auto
  from normal_run_turn_ok [OF assms(1,2) d(1)] process_msgs_ok(2) [OF assms(4)] d(2,3)
  have "turn_ok n (set (concat (map turn_uids tns)) \<union> set (turn_uids tn)) sc1" by (simp add: turn_uids_def)
  from schedule_ok [OF this assms(1,5)] prepare_ok(1) [OF _ assms(6)]
  have "batch_ok n (set (concat (map turn_uids tns)) \<union> set (turn_uids tn)) (fst b) sc3" by simp
  then show ?thesis by (rule batch_ok_input)
qed

text \<open>
  C8. No row of the request table is lost or shared: after any run of turns of \<open>normal_loop\<close> the
  free slots and the rows of the live requests (running, or continued in chunks) are together
  every row exactly once.
\<close>

theorem normal_loop_rows_accounted:
  assumes "\<And>n. length (mem n) = n"
    "normal_run K mem env tns (sched_init S c pages page qsa ratio n table tg tool) = Some (Inr (feds, rs, sc))"
    "distinct (concat (map turn_uids tns))"
  shows "mset (tm_free (sc_tm sc)) + image_mset (\<lambda>i. rq_table (sc_store sc i)) (mset_set (sched_live {} sc)) = mset [0..<n]"
  using normal_run_turn_ok [OF assms] by (simp add: turn_ok_def loop_ok_def rows_ok_def)

subsection \<open>A run\<close>

definition demo_spec :: req_spec where
  "demo_spec = \<lparr>rs_force = Some [99], rs_header = None, rs_prefix = None, rs_suffix = None, rs_release = [Some [5, 6]],
     rs_budget = Some 1, rs_grammar_required = False, rs_max_tokens = 64, rs_openers = [Some [5, 6]],
     rs_closers = [Some [7]], rs_think_closers = [], rs_ignore_eos = True\<rparr>"

definition demo_env :: sched_env where
  "demo_env = \<lparr>se_spec = (\<lambda>_. demo_spec), se_eos = [2], se_kv_budget = 0, se_max_seq = 64, se_cols = 64\<rparr>"

definition demo_turn :: "msg list \<Rightarrow> int \<Rightarrow> turn" where
  "demo_turn ms tok = \<lparr>tn_msgs = ms, tn_clk = (0, 0), tn_sched_clk = (\<lambda>_. (0, 0)), tn_done_clk = (\<lambda>_. (0, 0)),
     tn_budget = 100, tn_tokens = (\<lambda>_. tok)\<rparr>"

definition dead_req :: "'h \<Rightarrow> 'h req" where
  "dead_req h = \<lparr>rq_buf = [], rq_len = 0, rq_prompt = 0, rq_table = 0, rq_cached = 0, rq_device = 0, rq_max = 0,
     rq_uid = 0, rq_cache_output = False, rq_handle = h, rq_chunked = False\<rparr>"

definition naive_sched :: "(unit, naive_handle) sched" where
  "naive_sched = sched_init (\<lambda>_. dead_req NaiveCacheHandle) () 16 1 True None 2 (\<lambda>_ _. 0) (tg_init True 8 0 2 0) (tlg_init True 8)"

definition demo_turns :: "turn list" where
  "demo_turns = [demo_turn [User_msg 1 [1, 2] 8 True None] 10, demo_turn [] 11, demo_turn [] 12, demo_turn [] 13]"

text \<open>The state after two turns, and the batch of the third.\<close>

definition demo_mid :: "((unit, naive_handle) sched \<times> sbatch option \<times> (unit, naive_handle) sched) run" where
  "demo_mid =
     bindX (normal_run naive_ops (\<lambda>n. replicate n 0) demo_env (take 2 demo_turns) naive_sched) (\<lambda>(feds, rs, sc).
     bindX (process_msgs naive_ops demo_env (0, 0) [] sc) (\<lambda>(rs', sc1).
     bindX (schedule_next_batch naive_ops (\<lambda>n. replicate n 0) (\<lambda>_. (0, 0)) 100 sc1) (\<lambda>(ob, sc2).
     bindX (prepare_batch naive_ops (the ob) sc2) (\<lambda>sc3. Some (Inr (sc, ob, sc3))))))"

definition demo_read :: "(nat list option \<times> int list list \<times> nat list) option" where
  "demo_read = (case demo_mid of Some (Inr (sc, ob, sc3)) \<Rightarrow>
     Some (map_option fst ob, input_tokens sc3 (fst (the ob)), tm_free (sc_tm sc)) | _ \<Rightarrow> None)"

lemma demo_read_eval: "demo_read = Some (Some [0], [[99]], [0])"
  by code_simp

lemma demo_mid_run:
  obtains feds rs sc rs' sc1 b sc2 sc3 where
    "normal_run naive_ops (\<lambda>n. replicate n 0) demo_env (take 2 demo_turns) naive_sched = Some (Inr (feds, rs, sc))"
    "process_msgs naive_ops demo_env (0, 0) [] sc = Some (Inr (rs', sc1))"
    "schedule_next_batch naive_ops (\<lambda>n. replicate n 0) (\<lambda>_. (0, 0)) 100 sc1 = Some (Inr (Some b, sc2))"
    "prepare_batch naive_ops b sc2 = Some (Inr sc3)" "fst b = [0]" "input_tokens sc3 (fst b) = [[99]]" "tm_free (sc_tm sc) = [0]"
proof -
  obtain sc ob sc3 where m: "demo_mid = Some (Inr (sc, ob, sc3))"
    and v: "map_option fst ob = Some [0]" "input_tokens sc3 (fst (the ob)) = [[99]]" "tm_free (sc_tm sc) = [0]"
    using demo_read_eval by (auto simp: demo_read_def split: option.splits sum.splits prod.splits)
  from v(1) obtain b where b: "ob = Some b" "fst b = [0]" by auto
  from m [unfolded demo_mid_def bindX_Inr] obtain feds rs rs' sc1 sc2 where
    "normal_run naive_ops (\<lambda>n. replicate n 0) demo_env (take 2 demo_turns) naive_sched = Some (Inr (feds, rs, sc))"
    "process_msgs naive_ops demo_env (0, 0) [] sc = Some (Inr (rs', sc1))"
    "schedule_next_batch naive_ops (\<lambda>n. replicate n 0) (\<lambda>_. (0, 0)) 100 sc1 = Some (Inr (ob, sc2))"
    "prepare_batch naive_ops (the ob) sc2 = Some (Inr sc3)" by (auto simp: bindX_Inr)
  then show thesis using that v(2,3) b by simp
qed

text \<open>After two turns the forced token is committed; the third turn's batch reads it.\<close>

theorem normal_loop_feeds_committed_witness:
  "\<exists>sc3 (b :: sbatch). fst b = [0] \<and> input_tokens sc3 (fst b) = [[99]]
     \<and> map (\<lambda>i. drop (rq_cached (sc_store sc3 i)) (rq_ids (sc_store (sc3 :: (unit, naive_handle) sched) i))) (fst b) = [[99]]"
proof -
  obtain feds rs sc rs' sc1 b sc2 sc3 where d:
    "normal_run naive_ops (\<lambda>n. replicate n 0) demo_env (take 2 demo_turns) naive_sched = Some (Inr (feds, rs, sc))"
    "process_msgs naive_ops demo_env (0, 0) [] sc = Some (Inr (rs', sc1))"
    "schedule_next_batch naive_ops (\<lambda>n. replicate n 0) (\<lambda>_. (0, 0)) 100 sc1 = Some (Inr (Some b, sc2))"
    "prepare_batch naive_ops b sc2 = Some (Inr sc3)" "fst b = [0]" "input_tokens sc3 (fst b) = [[99]]" by (rule demo_mid_run)
  let ?tn = "demo_turn [] 12"
  have t: "tn_clk ?tn = (0, 0)" "tn_msgs ?tn = []" "tn_sched_clk ?tn = (\<lambda>_. (0, 0))" "tn_budget ?tn = 100"
    by (simp_all add: demo_turn_def)
  have u: "distinct (concat (map turn_uids (take 2 demo_turns @ [?tn])))" by code_simp
  have e: "input_tokens sc3 (fst b) = map (\<lambda>i. drop (rq_cached (sc_store sc3 i)) (rq_ids (sc_store sc3 i))) (fst b)"
    by (rule normal_loop_feeds_committed [OF _ d(1) [unfolded naive_sched_def] u, unfolded t, OF _ d(2-4)]) simp
  show ?thesis
  proof (intro exI conjI)
    show "fst b = [0]" by (rule d(5))
    show "input_tokens sc3 (fst b) = [[99]]" by (rule d(6))
    then show "map (\<lambda>i. drop (rq_cached (sc_store sc3 i)) (rq_ids (sc_store sc3 i))) (fst b) = [[99]]" unfolding e .
  qed
qed

text \<open>After the same two turns one row is free and the other is the request's.\<close>

theorem normal_loop_rows_accounted_witness:
  "\<exists>sc :: (unit, naive_handle) sched. tm_free (sc_tm sc) = [0]
     \<and> image_mset (\<lambda>i. rq_table (sc_store sc i)) (mset_set (sched_live {} sc)) = {#1#}"
proof -
  obtain feds rs sc where d:
    "normal_run naive_ops (\<lambda>n. replicate n 0) demo_env (take 2 demo_turns) naive_sched = Some (Inr (feds, rs, sc))"
    "tm_free (sc_tm sc) = [0]" by (rule demo_mid_run)
  have "mset (tm_free (sc_tm sc)) + image_mset (\<lambda>i. rq_table (sc_store sc i)) (mset_set (sched_live {} sc)) = mset [0..<2]"
    by (rule normal_loop_rows_accounted [OF _ d(1) [unfolded naive_sched_def]])
      (simp_all add: demo_turn_def demo_turns_def turn_uids_def)
  with d(2) show ?thesis by (intro exI [of _ sc]) (simp add: numeral_2_eq_2)
qed

subsection \<open>Overlap and forced tokens\<close>

text \<open>
  Under the overlap loop a forced token does not reach the model.  When the reasoning budget
  is spent the client gets the forced token, but the next forward has already read the sampled
  one, and the correction lands in the cell of the token after it: the model reads 10, 11, 99
  where the client has 10, 99, 12.  The normal loop, on the same turns, feeds the model exactly
  what the client got.
\<close>

definition fed_and_sent :: "(int list list list \<times> reply list \<times> 'a) run \<Rightarrow> (int list list list \<times> int list) option" where
  "fed_and_sent x = (case x of Some (Inr (fed, rs, _)) \<Rightarrow> Some (fed, map rp_token rs) | _ \<Rightarrow> None)"

theorem overlap_override_misplaced:
  "fed_and_sent (overlap_run naive_ops (\<lambda>n. replicate n 0) demo_env demo_turns None naive_sched)
     = Some ([[[1, 2]], [[10]], [[11]], [[99]]], [10, 99, 12])
   \<and> fed_and_sent (normal_run naive_ops (\<lambda>n. replicate n 0) demo_env demo_turns naive_sched)
     = Some ([[[1, 2]], [[10]], [[99]], [[12]]], [10, 99, 12, 13])"
  by (intro conjI; code_simp)

subsection \<open>The tool call gate\<close>





end
