(* ===== verification/Scheduler_Abort.thy ===== *)
theory Scheduler_Abort
  imports Scheduler_Claims Radix_Api
begin

section \<open>Aborting a request whose prefill is in flight\<close>

definition radix_sched :: "(nat radix, nat handle) sched" where
  "radix_sched = sched_init (\<lambda>_. dead_req (0, 0, None)) (rx_init 2 False 64 5) 4 2 True None 8 (\<lambda>_ _. 0)
     (tg_init True 8 0 2 0) (tlg_init True 8)"

definition abort_turns :: "turn list" where
  "abort_turns = [demo_turn [User_msg 1 [1, 2, 3] 2 True None] 10, demo_turn [Abort_msg 1] 11]"

definition is_idle :: "(sbatch \<times> int list) option \<Rightarrow> ('c, 'h) sched \<Rightarrow> bool" where
  "is_idle last_data sc \<longleftrightarrow> last_data = None \<and> pm_pending (sc_pm sc) = [] \<and> dm_running (sc_dm sc) = []"

text \<open>The slots the cache hands out for a prompt.\<close>

definition cached_slots :: "int list \<Rightarrow> (nat radix, nat handle) sched \<Rightarrow> int list" where
  "cached_slots ids sc = (case match_prefix 0 0 ids (cm_cache (sc_cm sc)) of
     Some (Inr (h, c)) \<Rightarrow> (case get_matched_indices c h of Some (Inr xs) \<Rightarrow> xs | _ \<Rightarrow> []) | _ \<Rightarrow> [])"

text \<open>
  Under the overlap loop, aborting a request whose prefill is still in flight corrupts the
  page pool.  The abort frees the request; the deferred results of its prefill then cache it
  again, without looking at the freed mark, and give its cached page back a second time.  The
  scheduler ends idle with page 0 both free and handed out for the prompt, \<open>check_integrity\<close>
  fails, and the reasoning gate is armed for a request that no longer exists.  On the same turns
  the normal loop ends with the four pages accounted for and the gate clear.
\<close>

theorem abort_in_flight_frees_cached_page:
  "(case overlap_run radix_ops (\<lambda>n. replicate n 0) demo_env abort_turns None radix_sched of
      Some (Inr (fed, rs, d, sc)) \<Rightarrow>
        is_idle d sc \<and> cm_free (sc_cm sc) = [4, 6, 2, 0] \<and> cached_slots [1, 2, 3] sc = [0, 1]
        \<and> cm_check_integrity radix_ops (sc_cm sc) = Inl RuntimeError \<and> tg_is_armed (sc_think sc) 1
    | _ \<Rightarrow> False)
   \<and> (case normal_run radix_ops (\<lambda>n. replicate n 0) demo_env abort_turns radix_sched of
      Some (Inr (fed, rs, sc)) \<Rightarrow>
        is_idle None sc \<and> cm_check_integrity radix_ops (sc_cm sc) = Inr () \<and> \<not> tg_is_armed (sc_think sc) 1
    | _ \<Rightarrow> False)"
  by (intro conjI; code_simp)

end
