(* ===== verification/Spec_Draft.thy ===== *)
theory Spec_Draft
  imports Prelude
begin

section \<open>Drafts and verify widths (spec/accept.py, spec/proposer.py, spec/width.py)\<close>

text \<open>
  The host side of speculative decoding: acceptance of a draft against the target's own tokens,
  the prompt-lookup proposer, the ladder of captured verify widths, the padding of a step to one
  of them, and the controller that chooses the width.  Floats are a record of operations, so that
  nothing rests on exact arithmetic; the thresholds of the kernels and the environment variables
  are arguments.
\<close>

subsection \<open>Greedy acceptance\<close>

function accept_len :: "int list \<Rightarrow> int list \<Rightarrow> nat \<Rightarrow> nat" where
  "accept_len draft target n =
     (if n < length draft \<and> target ! n = draft ! n then accept_len draft target (Suc n) else n)"
  by auto
termination by (relation "measure (\<lambda>(d, t, n). length d - n)") auto

declare accept_len.simps [simp del]

definition verify_greedy :: "int list \<Rightarrow> int list \<Rightarrow> py_error + int list \<times> nat" where
  "verify_greedy draft target =
     (if length target \<noteq> length draft + 1 then Inl AssertionError
      else (let n = accept_len draft target 0 in Inr (take (n + 1) target, n)))"

subsection \<open>The prompt-lookup proposer\<close>

definition MAX_LOOKBACK :: nat where
  "MAX_LOOKBACK = 4096"

text \<open>The starts \<open>0 .. L - n - 1\<close> whose window equals the last \<open>n\<close> tokens.\<close>

definition ngram_matches :: "int list \<Rightarrow> nat \<Rightarrow> nat list" where
  "ngram_matches t n = filter (\<lambda>s. take n (drop s t) = drop (length t - n) t) [0..<length t - n]"

fun try_windows :: "int list \<Rightarrow> nat \<Rightarrow> nat list \<Rightarrow> int list" where
  "try_windows t num_draft [] = []"
| "try_windows t num_draft (n # ns) =
     (if length t < n + 1 then try_windows t num_draft ns
      else let ms = ngram_matches t n
           in if ms = [] then try_windows t num_draft ns else take num_draft (drop (last ms + n) t))"

definition propose_ngram :: "int list \<Rightarrow> int \<Rightarrow> int \<Rightarrow> int \<Rightarrow> int list" where
  "propose_ngram ids num_draft max_ngram min_ngram =
     (if num_draft \<le> 0 then []
      else let t = (if length ids > MAX_LOOKBACK then lastn MAX_LOOKBACK ids else ids); L = length t
           in if L < 2 then []
              else let hi = min max_ngram (int L - 1); lo = max 1 min_ngram
                   in try_windows t (nat num_draft) (rev [nat lo..<nat (hi + 1)]))"

text \<open>One request: what it may still draft, from what it may still emit.\<close>

definition ngram_propose_one :: "int \<Rightarrow> int \<Rightarrow> int \<Rightarrow> int list \<Rightarrow> int \<Rightarrow> int list" where
  "ngram_propose_one num_draft ngram_max ngram_min ids remain =
     (let k = max 0 (min num_draft (remain - 1))
      in if k > 0 then propose_ngram ids k ngram_max ngram_min else [])"

subsection \<open>The ladder of verify widths\<close>

text \<open>The live thresholds: without quantised dense layers, int4, e2m1 and its kin.\<close>

record m_thresholds =
  mt_generic :: int
  mt_int4 :: int
  mt_e2m1 :: int

definition MAX_VERIFY_ROWS :: int where
  "MAX_VERIFY_ROWS = 16"

text \<open>From the constants of the kernel modules, or as documented when they cannot be imported.\<close>

definition live_m_thresholds :: "(int \<times> int \<times> int \<times> int) option \<Rightarrow> m_thresholds" where
  "live_m_thresholds imported =
     (case imported of
        None \<Rightarrow> \<lparr>mt_generic = MAX_VERIFY_ROWS, mt_int4 = 8, mt_e2m1 = MAX_VERIFY_ROWS\<rparr>
      | Some (dense, lmhead, e2m1, int4) \<Rightarrow>
          (let g = min dense lmhead in \<lparr>mt_generic = g, mt_int4 = min g int4, mt_e2m1 = min g e2m1\<rparr>))"

text \<open>A checkpoint's quantisation: whether it is int4, and whether its weights are e2m1 or nvfp4.\<close>

definition max_verify_rows :: "m_thresholds \<Rightarrow> (bool \<times> bool) option \<Rightarrow> int" where
  "max_verify_rows live quant =
     (case quant of
        None \<Rightarrow> max 2 (mt_generic live)
      | Some (is_int4, e2m1) \<Rightarrow>
          if is_int4 then max 2 (mt_int4 live) else if e2m1 then max 2 (mt_e2m1 live) else max 2 (mt_generic live))"

definition LADDER_LEN :: nat where
  "LADDER_LEN = 3"

definition LADDER_MIN :: nat where
  "LADDER_MIN = 2"

function halve_ladder :: "nat list \<Rightarrow> nat \<Rightarrow> nat list" where
  "halve_ladder ladder w =
     (if length ladder < LADDER_LEN \<and> w div 2 \<ge> LADDER_MIN then halve_ladder (ladder @ [w div 2]) (w div 2) else ladder)"
  by auto
termination by (relation "measure (\<lambda>(ladder, w). LADDER_LEN - length ladder)") auto

declare halve_ladder.simps [simp del]

text \<open>The greatest pair of a gap and its index, as \<open>max\<close> compares tuples.\<close>

fun max_gap :: "(nat \<times> nat) list \<Rightarrow> nat \<times> nat \<Rightarrow> nat \<times> nat" where
  "max_gap [] m = m"
| "max_gap (p # ps) m = max_gap ps (if fst p > fst m \<or> (fst p = fst m \<and> snd p > snd m) then p else m)"

definition ladder_gaps :: "nat list \<Rightarrow> (nat \<times> nat) list" where
  "ladder_gaps ladder = map (\<lambda>i. (ladder ! (i + 1) - ladder ! i, i)) [0..<length ladder - 1]"

function fill_ladder :: "nat list \<Rightarrow> nat list" where
  "fill_ladder ladder =
     (if length ladder < LADDER_LEN
      then (case ladder_gaps ladder of
              [] \<Rightarrow> ladder
            | g # gs \<Rightarrow>
                (case max_gap gs g of (gap, i) \<Rightarrow>
                   if gap < 2 then ladder
                   else fill_ladder (take (i + 1) ladder @ [(ladder ! i + ladder ! (i + 1)) div 2] @ drop (i + 1) ladder)))
      else ladder)"
  by auto

text \<open>Every insertion makes the ladder one rung longer.\<close>

termination by (relation "measure (\<lambda>ladder. LADDER_LEN - length ladder)") auto

declare fill_ladder.simps [simp del]

definition verify_width_ladder :: "m_thresholds \<Rightarrow> int \<Rightarrow> (bool \<times> bool) option \<Rightarrow> nat list" where
  "verify_width_ladder live num_draft quant =
     (let w_max = min num_draft (max_verify_rows live quant - 1)
      in if w_max < 1 then []
         else sorted_list_of_set (set (fill_ladder (sort (halve_ladder [nat w_max] (nat w_max))))))"

subsection \<open>One step on a captured width\<close>

text \<open>The drafts kept, the drafts staged, the width, and whether anything was padded.\<close>

definition pad_to_captured_width ::
    "int list list \<Rightarrow> nat list \<Rightarrow> bool \<Rightarrow> py_error + int list list \<times> int list list \<times> nat \<times> bool" where
  "pad_to_captured_width drafts widths adaptive =
     (let longest = foldl max 0 (map length drafts)
      in if widths = [] then Inr (drafts, drafts, longest, False)
         else let w = (if \<not> adaptive then last widths
                       else case find (\<lambda>x. x \<ge> longest) widths of Some x \<Rightarrow> x | None \<Rightarrow> last widths);
                  ds = (if \<exists>L \<in> set (map length drafts). L > w then map (take w) drafts else drafts)
              in if \<forall>L \<in> set (map length ds). L = w then Inr (ds, ds, w, False)
                 else let staged = map (\<lambda>d. d @ replicate (w - length d) 0) ds
                      in if \<forall>(s, d) \<in> set (zip staged ds). length s \<ge> length d then Inr (ds, staged, w, True)
                         else Inl AssertionError)"

subsection \<open>The controller\<close>

record 'f float_ops =
  fo_int :: "int \<Rightarrow> 'f"
  fo_add :: "'f \<Rightarrow> 'f \<Rightarrow> 'f"
  fo_sub :: "'f \<Rightarrow> 'f \<Rightarrow> 'f"
  fo_mul :: "'f \<Rightarrow> 'f \<Rightarrow> 'f"
  fo_div :: "'f \<Rightarrow> 'f \<Rightarrow> 'f"
  fo_less :: "'f \<Rightarrow> 'f \<Rightarrow> bool"
  fo_leq :: "'f \<Rightarrow> 'f \<Rightarrow> bool"
  fo_decay :: 'f

record 'f verify_width =
  vw_widths :: "nat list"
  vw_max :: nat
  vw_alpha :: 'f
  vw_ema :: "int \<Rightarrow> 'f option"
  vw_hist :: "nat \<Rightarrow> nat option"
  vw_pin :: nat
  vw_st :: "'f list"
  vw_sh :: "'f list"
  vw_budget :: int

definition MIN_TRIALS :: int where
  "MIN_TRIALS = 32"

text \<open>\<open>pin\<close> and \<open>budget\<close> are the two environment variables, parsed; a value that does not parse is 0 and 32.\<close>

definition vw_init :: "'f float_ops \<Rightarrow> nat list \<Rightarrow> 'f \<Rightarrow> nat \<Rightarrow> int \<Rightarrow> py_error + 'f verify_width" where
  "vw_init F widths alpha pin budget =
     (let ws = sort widths
      in if ws = [] then Inl AssertionError
         else Inr \<lparr>vw_widths = ws, vw_max = last ws, vw_alpha = alpha, vw_ema = (\<lambda>_. None),
                   vw_hist = (\<lambda>w. if w \<in> set ws then Some 0 else None),
                   vw_pin = (if pin \<in> set ws then pin else 0),
                   vw_st = replicate (last ws + 1) (fo_int F 0), vw_sh = replicate (last ws + 1) (fo_int F 0),
                   vw_budget = (if budget > 0 then budget else 32)\<rparr>)"

definition vw_adaptive :: "'f verify_width \<Rightarrow> bool" where
  "vw_adaptive v \<longleftrightarrow> length (vw_widths v) > 1"

text \<open>The deepest depth up to \<open>k\<close> with enough evidence.\<close>

fun survival_from :: "'f float_ops \<Rightarrow> 'f verify_width \<Rightarrow> nat \<Rightarrow> 'f" where
  "survival_from F v 0 = fo_int F 1"
| "survival_from F v (Suc k) =
     (if fo_leq F (fo_int F MIN_TRIALS) (vw_st v ! Suc k) then fo_div F (vw_sh v ! Suc k) (vw_st v ! Suc k)
      else survival_from F v k)"

definition survival :: "'f float_ops \<Rightarrow> 'f verify_width \<Rightarrow> nat \<Rightarrow> 'f" where
  "survival F v j =
     (if j < 1 then fo_int F 1
      else let t = (if j \<le> vw_max v then vw_st v ! j else fo_int F 0)
           in if fo_leq F (fo_int F MIN_TRIALS) t then fo_div F (vw_sh v ! j) t
              else survival_from F v (min j (vw_max v)))"

definition expected_run :: "'f float_ops \<Rightarrow> 'f verify_width \<Rightarrow> 'f" where
  "expected_run F v = foldl (\<lambda>s j. fo_add F s (survival F v j)) (fo_int F 0) [1..<vw_max v + 1]"

definition width_cap :: "'f verify_width \<Rightarrow> nat \<Rightarrow> nat" where
  "width_cap v bs =
     (if bs = 0 then vw_max v
      else foldl (\<lambda>best w. if int (bs * (w + 1)) \<le> vw_budget v then w else best) (hd (vw_widths v)) (vw_widths v))"

definition vw_choose :: "'f float_ops \<Rightarrow> 'f verify_width \<Rightarrow> int list \<Rightarrow> nat" where
  "vw_choose F v uids =
     (if vw_pin v \<noteq> 0 then vw_pin v
      else if length (vw_widths v) = 1 then vw_max v
      else if uids = [] then vw_max v
      else if fo_less F (vw_st v ! 1) (fo_int F MIN_TRIALS)
      then min (vw_widths v ! (length (vw_widths v) div 2)) (width_cap v (length uids))
      else let want = fo_add F (expected_run F v) (fo_int F 1);
               w_acc = (case find (\<lambda>w. fo_leq F want (fo_int F (int w))) (vw_widths v) of
                          Some w \<Rightarrow> w | None \<Rightarrow> vw_max v)
           in min w_acc (width_cap v (length uids)))"

definition fold_ema :: "'f float_ops \<Rightarrow> 'f \<Rightarrow> (int \<times> nat) list \<Rightarrow> (int \<Rightarrow> 'f option) \<Rightarrow> int \<Rightarrow> 'f option" where
  "fold_ema F a xs ema =
     foldl (\<lambda>e (u, n). e(u \<mapsto> (case e u of None \<Rightarrow> fo_int F (int n)
        | Some prev \<Rightarrow> fo_add F (fo_mul F (fo_sub F (fo_int F 1) a) prev) (fo_mul F a (fo_int F (int n)))))) ema xs"

text \<open>Add \<open>x\<close> to the counters at the depths \<open>1 .. k\<close>; decay every counter but the first.\<close>

definition bump_depths :: "'f float_ops \<Rightarrow> int \<Rightarrow> nat \<Rightarrow> 'f list \<Rightarrow> 'f list" where
  "bump_depths F x k cs = map (\<lambda>j. if 1 \<le> j \<and> j \<le> k then fo_add F (cs ! j) (fo_int F x) else cs ! j) [0..<length cs]"

definition decay :: "'f float_ops \<Rightarrow> 'f list \<Rightarrow> 'f list" where
  "decay F cs = map (\<lambda>j. if 1 \<le> j then fo_mul F (cs ! j) (fo_decay F) else cs ! j) [0..<length cs]"

definition vw_record ::
    "'f float_ops \<Rightarrow> int list \<Rightarrow> nat list \<Rightarrow> nat \<Rightarrow> nat list option \<Rightarrow> 'f verify_width \<Rightarrow> 'f verify_width" where
  "vw_record F uids accepted width offered v =
     (let w = min width (vw_max v);
          st = (if w \<ge> 1
                then case offered of
                       None \<Rightarrow> bump_depths F (int (length accepted)) w (decay F (vw_st v))
                     | Some os \<Rightarrow> foldl (\<lambda>cs k. bump_depths F 1 (min k w) cs) (decay F (vw_st v)) os
                else vw_st v);
          sh = (if w \<ge> 1 then foldl (\<lambda>cs n. bump_depths F 1 (min n w) cs) (decay F (vw_sh v)) accepted else vw_sh v)
      in v\<lparr>vw_ema := fold_ema F (vw_alpha v) (zip uids accepted) (vw_ema v), vw_st := st, vw_sh := sh,
           vw_hist := (vw_hist v)(width \<mapsto> (case vw_hist v width of None \<Rightarrow> 0 | Some n \<Rightarrow> n) + 1)\<rparr>)"

definition vw_free :: "int \<Rightarrow> 'f verify_width \<Rightarrow> 'f verify_width" where
  "vw_free u v = v\<lparr>vw_ema := (vw_ema v)(u := None)\<rparr>"

end
