(* ===== verification/Spec_Width.thy ===== *)
theory Spec_Width
  imports Spec_Draft
begin

section \<open>Drafts and verify widths: lemmas\<close>

text \<open>
  Acceptance against the target's own greedy continuation, the proposer's choice of an occurrence,
  the shape of the ladder, and what every state of the width controller keeps.
\<close>

subsection \<open>Acceptance\<close>

lemma accept_len_spec:
  assumes "n \<le> length draft" "\<forall>i < n. target ! i = draft ! i"
  shows "n \<le> accept_len draft target n" "accept_len draft target n \<le> length draft"
    "\<forall>i < accept_len draft target n. target ! i = draft ! i"
    "accept_len draft target n < length draft \<Longrightarrow> target ! accept_len draft target n \<noteq> draft ! accept_len draft target n"
proof -
  have "n \<le> accept_len draft target n \<and> accept_len draft target n \<le> length draft
    \<and> (\<forall>i < accept_len draft target n. target ! i = draft ! i)
    \<and> (accept_len draft target n < length draft \<longrightarrow> target ! accept_len draft target n \<noteq> draft ! accept_len draft target n)"
    using assms
  proof (induction draft target n rule: accept_len.induct)
    case (1 draft target n)
    show ?case
    proof (cases "n < length draft \<and> target ! n = draft ! n")
      case True
      with "1.prems" have "\<forall>i < Suc n. target ! i = draft ! i" by (simp add: less_Suc_eq)
      with "1.IH" [OF True] True show ?thesis by (subst (1 2 3 4 5 6) accept_len.simps) simp
    next
      case False
      then have "accept_len draft target n = n" by (subst accept_len.simps) (simp only: if_False)
      with False "1.prems" show ?thesis by auto
    qed
  qed
  then show "n \<le> accept_len draft target n" "accept_len draft target n \<le> length draft"
    "\<forall>i < accept_len draft target n. target ! i = draft ! i"
    "accept_len draft target n < length draft \<Longrightarrow> target ! accept_len draft target n \<noteq> draft ! accept_len draft target n"
    by blast+
qed

text \<open>Plain greedy decoding, and a sequence whose tokens from \<open>p\<close> on are plain greedy tokens.\<close>

fun greedy :: "(int list \<Rightarrow> int) \<Rightarrow> int list \<Rightarrow> nat \<Rightarrow> int list" where
  "greedy lm ctx 0 = []"
| "greedy lm ctx (Suc k) = lm ctx # greedy lm (ctx @ [lm ctx]) k"

definition greedy_from :: "(int list \<Rightarrow> int) \<Rightarrow> nat \<Rightarrow> int list \<Rightarrow> bool" where
  "greedy_from lm p ids \<longleftrightarrow> (\<forall>k. p \<le> k \<and> k < length ids \<longrightarrow> ids ! k = lm (take k ids))"

lemma length_greedy [simp]: "length (greedy lm ctx k) = k"
  by (induction k arbitrary: ctx) auto

lemma greedy_nth: "j < k \<Longrightarrow> greedy lm ctx k ! j = lm (ctx @ take j (greedy lm ctx k))"
proof (induction k arbitrary: ctx j)
  case (Suc k)
  then show ?case by (cases j) auto
qed simp

lemma greedy_unique:
  assumes "\<And>j. j < length xs \<Longrightarrow> xs ! j = lm (ctx @ take j xs)"
  shows "xs = greedy lm ctx (length xs)"
  using assms
proof (induction xs arbitrary: ctx)
  case (Cons x xs)
  have x: "x = lm ctx" using Cons.prems [of 0] by simp
  have "xs = greedy lm (ctx @ [x]) (length xs)"
  proof (rule Cons.IH)
    fix j assume "j < length xs"
    then show "xs ! j = lm ((ctx @ [x]) @ take j xs)" using Cons.prems [of "Suc j"] by simp
  qed
  with x show ?case by simp
qed simp

lemma greedy_from_unique:
  assumes "greedy_from lm (length ctx) (ctx @ xs)"
  shows "xs = greedy lm ctx (length xs)"
proof (rule greedy_unique)
  fix j assume "j < length xs"
  then show "xs ! j = lm (ctx @ take j xs)" using assms by (auto simp: greedy_from_def nth_append dest: spec [of _ "length ctx + j"])
qed

lemma greedy_from_append:
  "p \<le> length ctx \<Longrightarrow> greedy_from lm p (ctx @ xs) \<longleftrightarrow> greedy_from lm p ctx \<and> (\<forall>j < length xs. xs ! j = lm (ctx @ take j xs))"
proof
  assume p: "p \<le> length ctx" and g: "greedy_from lm p (ctx @ xs)"
  have "ctx ! k = lm (take k ctx)" if "p \<le> k" "k < length ctx" for k
    using g that by (auto simp: greedy_from_def nth_append dest: spec [of _ k])
  moreover have "xs ! j = lm (ctx @ take j xs)" if "j < length xs" for j
    using g p that by (auto simp: greedy_from_def nth_append dest: spec [of _ "length ctx + j"])
  ultimately show "greedy_from lm p ctx \<and> (\<forall>j < length xs. xs ! j = lm (ctx @ take j xs))" by (simp add: greedy_from_def)
next
  assume p: "p \<le> length ctx" and g: "greedy_from lm p ctx \<and> (\<forall>j < length xs. xs ! j = lm (ctx @ take j xs))"
  have "(ctx @ xs) ! k = lm (take k (ctx @ xs))" if "p \<le> k" "k < length (ctx @ xs)" for k
    using g that by (cases "k < length ctx") (auto simp: greedy_from_def nth_append)
  then show "greedy_from lm p (ctx @ xs)" by (simp add: greedy_from_def)
qed

lemma greedy_from_take: "greedy_from lm p ids \<Longrightarrow> greedy_from lm p (take n ids)"
  by (auto simp: greedy_from_def min_def)

text \<open>The argmax rows of a verify pass over the confirmed context and a draft.\<close>

definition verify_rows :: "(int list \<Rightarrow> int) \<Rightarrow> int list \<Rightarrow> int list \<Rightarrow> int list" where
  "verify_rows lm ctx draft = map (\<lambda>j. lm (ctx @ take j draft)) [0..<length draft + 1]"

lemma verify_greedy_rows:
  fixes lm ctx draft
  defines "n \<equiv> accept_len draft (verify_rows lm ctx draft) 0"
  defines "e \<equiv> take (n + 1) (verify_rows lm ctx draft)"
  shows "verify_greedy draft (verify_rows lm ctx draft) = Inr (e, n)" "length e = n + 1" "n \<le> length draft"
    "take n draft = take n e" "\<And>j. j < length e \<Longrightarrow> e ! j = lm (ctx @ take j e)"
    "n < length draft \<Longrightarrow> draft ! n \<noteq> e ! n"
proof -
  let ?t = "verify_rows lm ctx draft"
  have len: "length ?t = length draft + 1" by (simp add: verify_rows_def)
  have A: "n \<le> length draft" "\<And>i. i < n \<Longrightarrow> ?t ! i = draft ! i" "n < length draft \<Longrightarrow> ?t ! n \<noteq> draft ! n"
    using accept_len_spec [of 0 draft ?t] unfolding n_def by blast+
  show "verify_greedy draft ?t = Inr (e, n)" by (simp add: verify_greedy_def len e_def n_def Let_def)
  show "n \<le> length draft" by (rule A(1))
  then show le: "length e = n + 1" by (simp add: e_def len)
  have nth: "e ! j = ?t ! j" if "j \<le> n" for j using that by (simp add: e_def)
  have pre: "take j draft = take j e" if "j \<le> n" for j
    by (rule nth_equalityI) (use that A(1,2) le nth in auto)
  then show "take n draft = take n e" by simp
  show "e ! j = lm (ctx @ take j e)" if "j < length e" for j
    using that le nth [of j] pre [of j] A(1) by (simp add: verify_rows_def del: upt_Suc)
  show "n < length draft \<Longrightarrow> draft ! n \<noteq> e ! n" using A(3) nth [of n] by auto
qed

subsection \<open>The proposer\<close>

lemma ngram_matches_set: "s \<in> set (ngram_matches t n) \<longleftrightarrow> s + n < length t \<and> take n (drop s t) = drop (length t - n) t"
  by (auto simp: ngram_matches_def)

lemma ngram_matches_last:
  assumes "s \<in> set (ngram_matches t n)" "\<And>s'. s' \<in> set (ngram_matches t n) \<Longrightarrow> s' \<le> s"
  shows "last (ngram_matches t n) = s"
proof -
  have ne: "ngram_matches t n \<noteq> []" using assms(1) by auto
  then have m: "ngram_matches t n = butlast (ngram_matches t n) @ [last (ngram_matches t n)]" by simp
  have "sorted (ngram_matches t n)" by (simp add: ngram_matches_def sorted_wrt_filter)
  then have "sorted (butlast (ngram_matches t n) @ [last (ngram_matches t n)])" using m by simp
  then have "\<forall>x \<in> set (butlast (ngram_matches t n)). x \<le> last (ngram_matches t n)" by (simp only: sorted_append) simp
  moreover have "s \<in> set (butlast (ngram_matches t n) @ [last (ngram_matches t n)])" using assms(1) m by simp
  ultimately have "s \<le> last (ngram_matches t n)" by auto
  with assms(2) [OF last_in_set [OF ne]] show ?thesis by simp
qed

lemma try_windows_hit:
  assumes "n \<in> set ns" "sorted_wrt (>) ns" "ngram_matches t n \<noteq> []" "\<And>m. m \<in> set ns \<Longrightarrow> n < m \<Longrightarrow> ngram_matches t m = []"
  shows "try_windows t k ns = take k (drop (last (ngram_matches t n) + n) t)"
  using assms
proof (induction ns)
  case (Cons m ns)
  show ?case
  proof (cases "m = n")
    case True
    obtain s where "s \<in> set (ngram_matches t n)" using Cons.prems(3) by (cases "ngram_matches t n") auto
    then have "n + 1 \<le> length t" by (simp add: ngram_matches_set)
    with True Cons.prems(3) show ?thesis by simp
  next
    case False
    with Cons.prems(1,2) have "n < m" "n \<in> set ns" by auto
    with Cons.prems(4) have "ngram_matches t m = []" by simp
    with Cons \<open>n \<in> set ns\<close> show ?thesis by simp
  qed
qed simp

lemma try_windows_miss: "(\<And>m. m \<in> set ns \<Longrightarrow> ngram_matches t m = []) \<Longrightarrow> try_windows t k ns = []"
  by (induction ns) auto

lemma ngram_none_or_max:
  assumes "n \<in> {lo..hi}" "ngram_matches t n \<noteq> []" "\<And>m. m \<in> {lo..hi} \<Longrightarrow> n < m \<Longrightarrow> ngram_matches t m = []"
  shows "try_windows t k (rev [lo..<Suc hi]) = take k (drop (last (ngram_matches t n) + n) t)"
proof (rule try_windows_hit)
  show "sorted_wrt (>) (rev [lo..<Suc hi])" by (simp add: sorted_wrt_rev del: upt_Suc)
qed (use assms in \<open>auto simp del: upt_Suc\<close>)

subsection \<open>The ladder\<close>

lemma halve_ladder_cases:
  "halve_ladder [w] w = (if w < 4 then [w] else if w < 8 then [w, w div 2] else [w, w div 2, w div 4])"
proof -
  have "w div 2 div 2 = w div 4" by (simp add: div_mult2_eq [symmetric])
  then show ?thesis
    by (auto simp: halve_ladder.simps [of "[w]"] halve_ladder.simps [of "[w, w div 2]"] halve_ladder.simps [of "[w, w div 2, w div 4]"]
        LADDER_LEN_def LADDER_MIN_def)
qed

lemma fill_ladder_cases:
  "fill_ladder [a] = [a]" "fill_ladder [a, b] = (if b - a < 2 then [a, b] else [a, (a + b) div 2, b])" "fill_ladder [a, b, c] = [a, b, c]"
proof -
  have three: "fill_ladder [a, b, c] = [a, b, c]" for a b c by (simp add: fill_ladder.simps LADDER_LEN_def)
  then show "fill_ladder [a, b, c] = [a, b, c]" .
  show "fill_ladder [a] = [a]" by (simp add: fill_ladder.simps LADDER_LEN_def ladder_gaps_def)
  show "fill_ladder [a, b] = (if b - a < 2 then [a, b] else [a, (a + b) div 2, b])"
    by (simp add: fill_ladder.simps [of "[a, b]"] LADDER_LEN_def ladder_gaps_def three)
qed

definition ladder_of :: "nat \<Rightarrow> nat list" where
  "ladder_of w = (if w < 4 then [w] else if w < 8 then [w div 2, (w div 2 + w) div 2, w] else [w div 4, w div 2, w])"

lemma ladder_of_shape: "sorted_wrt (<) (ladder_of w)" "last (ladder_of w) = w" "0 < w \<Longrightarrow> \<forall>x \<in> set (ladder_of w). 1 \<le> x \<and> x \<le> w"
  by (auto simp: ladder_of_def)

lemma ladder_sorted_set: "sorted_list_of_set (set (ladder_of w)) = ladder_of w"
  by (simp add: strict_sorted_equal ladder_of_shape(1))

lemma fill_halve: "fill_ladder (sort (halve_ladder [w] w)) = ladder_of w"
  by (auto simp: halve_ladder_cases fill_ladder_cases ladder_of_def)

subsection \<open>One step on a captured width\<close>

lemma foldl_max: "foldl max (a :: nat) xs = Max (insert a (set xs))"
proof (induction xs arbitrary: a)
  case (Cons x xs)
  have "Max (insert (max a x) (set xs)) = Max (insert a (insert x (set xs)))"
    by (cases "xs = []") (auto simp: max.assoc)
  with Cons show ?case by simp
qed simp

lemma longest_ge: "d \<in> set drafts \<Longrightarrow> length d \<le> foldl max 0 (map length drafts)"
  by (simp add: foldl_max)

lemma pad_spec:
  fixes drafts :: "int list list" and widths :: "nat list" and adaptive :: bool
  assumes "widths \<noteq> []"
  defines "longest \<equiv> foldl max 0 (map length drafts)"
  defines "w \<equiv> (if \<not> adaptive then last widths else case find (\<lambda>x. x \<ge> longest) widths of Some x \<Rightarrow> x | None \<Rightarrow> last widths)"
  shows "\<exists>p. pad_to_captured_width drafts widths adaptive
     = Inr (map (take w) drafts, map (\<lambda>d. take w d @ replicate (w - length d) 0) drafts, w, p)" "w \<in> set widths"
proof -
  have id: "map (take w) drafts = drafts" if "\<not> (\<exists>L \<in> set (map length drafts). L > w)"
    by (rule map_idI) (use that in auto)
  then have ds: "(if \<exists>L \<in> set (map length drafts). L > w then map (take w) drafts else drafts) = map (take w) drafts" by auto
  have eq: "map (take w) drafts = map (\<lambda>d. take w d @ replicate (w - length d) 0) drafts"
    if "\<forall>L \<in> set (map length (map (take w) drafts)). L = w"
    by (rule map_cong [OF refl]) (use that in auto)
  have st: "map (\<lambda>d. d @ replicate (w - length d) 0) (map (take w) drafts) = map (\<lambda>d. take w d @ replicate (w - length d) 0) drafts"
    by (auto simp: min_def)
  have ok: "\<forall>(s, d) \<in> set (zip (map (\<lambda>d. take w d @ replicate (w - length d) 0) drafts) (map (take w) drafts)). length s \<ge> length d"
    by (auto simp: set_zip)
  show "\<exists>p. pad_to_captured_width drafts widths adaptive
     = Inr (map (take w) drafts, map (\<lambda>d. take w d @ replicate (w - length d) 0) drafts, w, p)"
  proof (cases "\<forall>L \<in> set (map length (map (take w) drafts)). L = w")
    case True
    then show ?thesis using assms(1) unfolding pad_to_captured_width_def Let_def
      by (simp only: longest_def [symmetric] w_def [symmetric] ds if_False if_P [OF True]) (use eq [OF True] in auto)
  next
    case False
    then show ?thesis using assms(1) unfolding pad_to_captured_width_def Let_def
      by (simp only: longest_def [symmetric] w_def [symmetric] ds if_False if_not_P [OF False] st if_P [OF ok]) blast
  qed
  have "find (\<lambda>x. x \<ge> longest) widths = Some x \<Longrightarrow> x \<in> set widths" for x by (auto simp: find_Some_iff)
  then show "w \<in> set widths" using assms(1) by (auto simp: w_def split: option.split)
qed

subsection \<open>The controller\<close>

text \<open>What every state keeps: the ladder never changes, so whatever is chosen is one of its rungs.\<close>

definition vw_ok :: "nat list \<Rightarrow> 'f verify_width \<Rightarrow> bool" where
  "vw_ok ws v \<longleftrightarrow> ws \<noteq> [] \<and> vw_widths v = ws \<and> vw_max v = last ws \<and> (vw_pin v = 0 \<or> vw_pin v \<in> set ws)
     \<and> length (vw_st v) = last ws + 1 \<and> length (vw_sh v) = last ws + 1"

lemma vw_init_ok: "vw_init F widths alpha pin budget = Inr v \<Longrightarrow> vw_ok (sort widths) v"
  by (auto simp: vw_init_def vw_ok_def Let_def split: if_splits)

lemma length_bump_depths [simp]: "length (bump_depths F x k cs) = length cs"
  by (simp add: bump_depths_def)

lemma length_decay [simp]: "length (decay F cs) = length cs"
  by (simp add: decay_def)

lemma length_foldl_bump_depths [simp]: "length (foldl (\<lambda>cs k. bump_depths F 1 (f k) cs) cs xs) = length cs"
  by (induction xs arbitrary: cs) auto

lemma vw_record_ok: "vw_ok ws v \<Longrightarrow> vw_ok ws (vw_record F uids accepted width offered v)"
  by (simp add: vw_ok_def vw_record_def Let_def split: option.split)

lemma vw_free_ok: "vw_ok ws v \<Longrightarrow> vw_ok ws (vw_free u v)"
  by (simp add: vw_ok_def vw_free_def)

lemma width_cap_mem:
  assumes "vw_ok ws v"
  shows "width_cap v bs \<in> set ws"
proof -
  have "foldl (\<lambda>best w. if P w then w else best) b xs \<in> insert b (set xs)" for P b and xs :: "nat list"
    by (induction xs arbitrary: b) auto
  from this [of "\<lambda>w. int (bs * (w + 1)) \<le> vw_budget v" "hd ws" ws] assms show ?thesis
    by (auto simp: width_cap_def vw_ok_def)
qed

lemma choose_mem:
  assumes "vw_ok ws v"
  shows "vw_choose F v uids \<in> set ws"
proof -
  have ws: "ws \<noteq> []" "vw_widths v = ws" "vw_max v = last ws" "vw_pin v = 0 \<or> vw_pin v \<in> set ws" using assms by (auto simp: vw_ok_def)
  have f: "(case find P ws of Some w \<Rightarrow> w | None \<Rightarrow> last ws) \<in> set ws" for P
    using ws(1) by (auto simp: find_Some_iff split: option.split)
  have m: "a \<in> set ws \<Longrightarrow> b \<in> set ws \<Longrightarrow> min a b \<in> set ws" for a b by (simp add: min_def)
  have "length ws div 2 < length ws" using ws(1) by (cases ws) auto
  then have c: "ws ! (length ws div 2) \<in> set ws" by simp
  note cap = width_cap_mem [OF assms, of "length uids"]
  have "last ws \<in> set ws" using ws(1) by simp
  with m [OF f cap] m [OF c cap] ws show ?thesis unfolding vw_choose_def Let_def ws(2,3) by auto
qed

datatype vw_op = Record "int list" "nat list" nat "nat list option" | Free int

fun vw_apply :: "'f float_ops \<Rightarrow> vw_op \<Rightarrow> 'f verify_width \<Rightarrow> 'f verify_width" where
  "vw_apply F (Record uids accepted width offered) v = vw_record F uids accepted width offered v"
| "vw_apply F (Free u) v = vw_free u v"

lemma vw_run_ok: "vw_ok ws v \<Longrightarrow> vw_ok ws (fold (vw_apply F) ops v)"
proof (induction ops arbitrary: v)
  case (Cons x ops)
  then show ?case by (cases x) (auto intro: vw_record_ok vw_free_ok)
qed simp

end
