(* ===== verification/Spec_Claims.thy ===== *)
theory Spec_Claims
  imports Spec_Width
begin

section \<open>Drafts and verify widths: what they guarantee\<close>

text \<open>
  Acceptance emits plain greedy decoding whatever was drafted; a step's width is a captured one
  and never wider than the one the controller chose; the prompt-lookup draft is the continuation
  of the most recent occurrence of the longest window.
\<close>

subsection \<open>Acceptance\<close>

lemma take_greedy: "take i (greedy lm ctx k) = greedy lm ctx (min i k)"
  by (induction k arbitrary: ctx i) (auto simp: take_Cons split: nat.split)

text \<open>
  C17. Acceptance is lossless and complete: against the target's row of argmaxes over a context
  and any draft, it emits exactly the next tokens of plain greedy decoding, one more than the
  draft's longest prefix that greedy decoding itself would have produced.
\<close>

theorem verify_greedy_lossless:
  fixes lm ctx draft
  defines "n \<equiv> (GREATEST k. k \<le> length draft \<and> take k draft = greedy lm ctx k)"
  shows "verify_greedy draft (verify_rows lm ctx draft) = Inr (greedy lm ctx (n + 1), n)"
proof -
  define m where "m = accept_len draft (verify_rows lm ctx draft) 0"
  define e where "e = take (m + 1) (verify_rows lm ctx draft)"
  note V = verify_greedy_rows [where lm = lm and ctx = ctx and draft = draft, folded m_def, folded e_def]
  have e: "e = greedy lm ctx (m + 1)" using greedy_unique [of e lm ctx] V(2,5) by simp
  have pre: "take m draft = greedy lm ctx m" using V(4) e by (simp only: take_greedy) simp
  have "n = m"
    unfolding n_def
  proof (rule Greatest_equality)
    fix k assume k: "k \<le> length draft \<and> take k draft = greedy lm ctx k"
    show "k \<le> m"
    proof (rule ccontr)
      assume "\<not> k \<le> m"
      then have mk: "m < k" by simp
      then have "draft ! m = take k draft ! m" by simp
      also have "\<dots> = take (m + 1) (greedy lm ctx k) ! m" using k by simp
      also have "\<dots> = e ! m" using mk by (simp only: e take_greedy)
      finally show False using V(6) mk k by simp
    qed
  qed (simp add: pre V(3))
  with V(1) e show ?thesis by (simp only:)
qed

subsection \<open>The width of a step\<close>

lemma find_first_le:
  "sorted_wrt (<) xs \<Longrightarrow> (w :: nat) \<in> set xs \<Longrightarrow> P w \<Longrightarrow> \<exists>x. find P xs = Some x \<and> x \<le> w \<and> P x"
  by (induction xs) auto

lemma ladder_closed_form:
  "verify_width_ladder live k quant
     = (let w = min k (max_verify_rows live quant - 1) in if w < 1 then [] else ladder_of (nat w))"
  by (simp add: verify_width_ladder_def Let_def fill_halve ladder_sorted_set)

lemma ladder_bounds:
  assumes "w \<in> set (verify_width_ladder live k quant)"
  shows "1 \<le> w" "int w \<le> k" "int w + 1 \<le> max_verify_rows live quant"
proof -
  define m where "m = min k (max_verify_rows live quant - 1)"
  have w: "\<not> m < 1" "w \<in> set (ladder_of (nat m))"
    using assms by (auto simp: ladder_closed_form m_def Let_def split: if_splits)
  then have "1 \<le> w \<and> int w \<le> m" using ladder_of_shape(3) [of "nat m"] by force
  then show "1 \<le> w" "int w \<le> k" "int w + 1 \<le> max_verify_rows live quant" by (auto simp: m_def)
qed

lemma sort_ladder: "sort (verify_width_ladder live k quant) = verify_width_ladder live k quant"
  by (rule sorted_sort_id) (simp add: verify_width_ladder_def Let_def)

lemma strict_ladder: "sorted_wrt (<) (verify_width_ladder live k quant)"
  by (simp add: verify_width_ladder_def Let_def)

text \<open>
  C16. A step always lands on a captured width: from any state the controller reaches, the drafts
  proposed within its choice are all staged, whole and padded at the end only, with one width
  that is a rung of the ladder, at most the chosen one and the requested one, and whose rows stay
  below the threshold at which the kernels change family.
\<close>

theorem verify_step_captured:
  assumes "vw_init F (verify_width_ladder live k quant) alpha pin budget = Inr v0"
    and "v = fold (vw_apply F) ops v0"
    and "\<forall>d \<in> set drafts. length d \<le> vw_choose F v uids"
  shows "\<exists>w p staged. pad_to_captured_width drafts (vw_widths v) (vw_adaptive v) = Inr (drafts, staged, w, p)
    \<and> staged = map (\<lambda>d. d @ replicate (w - length d) 0) drafts \<and> (\<forall>s \<in> set staged. length s = w)
    \<and> w \<in> set (verify_width_ladder live k quant)
    \<and> w \<le> vw_choose F v uids \<and> int w \<le> k \<and> int w + 1 \<le> max_verify_rows live quant"
proof -
  let ?ws = "verify_width_ladder live k quant"
  have ok: "vw_ok ?ws v" using vw_run_ok [OF vw_init_ok [OF assms(1)]] by (simp add: assms(2) sort_ladder)
  then have ws: "?ws \<noteq> []" "vw_widths v = ?ws" "vw_max v = last ?ws" by (auto simp: vw_ok_def)
  let ?c = "vw_choose F v uids"
  have c: "?c \<in> set ?ws" by (rule choose_mem [OF ok])
  define longest where "longest = foldl max 0 (map length drafts)"
  have lc: "longest \<le> ?c" using assms(3) by (simp add: longest_def foldl_max)
  define w where "w = (if \<not> vw_adaptive v then last ?ws
    else case find (\<lambda>x. x \<ge> longest) ?ws of Some x \<Rightarrow> x | None \<Rightarrow> last ?ws)"
  note pad = pad_spec [where drafts = drafts and widths = ?ws and adaptive = "vw_adaptive v", OF ws(1), folded longest_def, folded w_def]
  have w: "w \<le> ?c \<and> longest \<le> w"
  proof (cases "vw_adaptive v")
    case True
    with find_first_le [where P = "\<lambda>x. x \<ge> longest", OF strict_ladder c lc] show ?thesis by (auto simp: w_def)
  next
    case False
    then have "?ws = [last ?ws]" using ws by (cases ?ws; cases "tl ?ws") (auto simp: vw_adaptive_def)
    then have "set ?ws = {last ?ws}" by (metis list.simps(15) set_empty)
    with c False lc show ?thesis by (auto simp: w_def)
  qed
  have "length d \<le> w" if "d \<in> set drafts" for d using longest_ge [OF that] w by (simp add: longest_def)
  then have "map (take w) drafts = drafts" "map (\<lambda>d. take w d @ replicate (w - length d) 0) drafts = map (\<lambda>d. d @ replicate (w - length d) 0) drafts"
    "\<forall>s \<in> set (map (\<lambda>d. d @ replicate (w - length d) 0) drafts). length s = w"
    by (auto intro: map_idI)
  note eqs = this
  obtain p where "pad_to_captured_width drafts ?ws (vw_adaptive v) = Inr (drafts, map (\<lambda>d. d @ replicate (w - length d) 0) drafts, w, p)"
    using pad(1) by (auto simp only: eqs(1,2))
  with eqs(3) w pad(2) ladder_bounds [OF pad(2)] show ?thesis unfolding ws(2) by blast
qed

text \<open>A controller over whole numbers, with two recorded steps.\<close>

definition int_ops :: "int float_ops" where
  "int_ops = \<lparr>fo_int = (\<lambda>i. i), fo_add = (+), fo_sub = (-), fo_mul = (*), fo_div = (div),
     fo_less = (<), fo_leq = (\<le>), fo_decay = 1\<rparr>"

definition eight_rows :: m_thresholds where
  "eight_rows = \<lparr>mt_generic = 16, mt_int4 = 8, mt_e2m1 = 16\<rparr>"

definition seven_rungs :: "int verify_width" where
  "seven_rungs = \<lparr>vw_widths = [3, 5, 7], vw_max = 7, vw_alpha = 0, vw_ema = (\<lambda>_. None),
     vw_hist = (\<lambda>w. if w \<in> {3, 5, 7} then Some 0 else None), vw_pin = 0,
     vw_st = replicate 8 0, vw_sh = replicate 8 0, vw_budget = 32\<rparr>"

lemma seven_ladder: "verify_width_ladder eight_rows 12 (Some (True, False)) = [3, 5, 7]"
  by (simp add: ladder_closed_form ladder_of_def max_verify_rows_def eight_rows_def)

lemma seven_init: "vw_init int_ops [3, 5, 7] 0 0 32 = Inr seven_rungs"
  by (simp add: vw_init_def seven_rungs_def int_ops_def fun_eq_iff numeral_eq_Suc)

lemma seven_choice: "vw_choose int_ops (fold (vw_apply int_ops) [Record [5] [2] 3 None, Free 5] seven_rungs) [5] = 5"
  by code_simp

lemma verify_step_captured_witness:
  "\<exists>w p staged. pad_to_captured_width [[4, 9], []]
        (vw_widths (fold (vw_apply int_ops) [Record [5] [2] 3 None, Free 5] seven_rungs))
        (vw_adaptive (fold (vw_apply int_ops) [Record [5] [2] 3 None, Free 5] seven_rungs)) = Inr ([[4, 9], []], staged, w, p)
    \<and> staged = map (\<lambda>d. d @ replicate (w - length d) 0) [[4, 9], []] \<and> (\<forall>s \<in> set staged. length s = w)
    \<and> w \<in> set [3, 5, 7] \<and> w \<le> 5 \<and> int w \<le> 12 \<and> int w + 1 \<le> max_verify_rows eight_rows (Some (True, False))"
proof -
  have init: "vw_init int_ops (verify_width_ladder eight_rows 12 (Some (True, False))) 0 0 32 = Inr seven_rungs"
    by (simp only: seven_ladder seven_init)
  have drafts: "\<forall>d \<in> set [[4, 9], []].
    length d \<le> vw_choose int_ops (fold (vw_apply int_ops) [Record [5] [2] 3 None, Free 5] seven_rungs) [5]"
    by (simp only: seven_choice) simp
  show ?thesis
    using verify_step_captured [OF init refl drafts] by (simp only: seven_ladder seven_choice)
qed

subsection \<open>The prompt-lookup draft\<close>

text \<open>The starts of the earlier occurrences of the last \<open>n\<close> tokens, and the window sizes that have one.\<close>

definition earlier :: "int list \<Rightarrow> nat \<Rightarrow> nat set" where
  "earlier t n = {s \<in> {..<length t - n}. take n (drop s t) = drop (length t - n) t}"

definition window_sizes :: "int list \<Rightarrow> int \<Rightarrow> int \<Rightarrow> nat set" where
  "window_sizes t lo hi = {n \<in> {1..<length t}. lo \<le> int n \<and> int n \<le> hi \<and> earlier t n \<noteq> {}}"

lemma set_ngram_matches: "set (ngram_matches t n) = earlier t n"
  by (auto simp: ngram_matches_def earlier_def)

lemma last_ngram_matches: "earlier t n \<noteq> {} \<Longrightarrow> last (ngram_matches t n) = Max (earlier t n)"
proof (rule ngram_matches_last)
  have fin: "finite (earlier t n)" by (simp add: earlier_def)
  show "earlier t n \<noteq> {} \<Longrightarrow> Max (earlier t n) \<in> set (ngram_matches t n)" using Max_in [OF fin] by (simp add: set_ngram_matches)
  show "s \<in> set (ngram_matches t n) \<Longrightarrow> s \<le> Max (earlier t n)" for s using Max_ge [OF fin] by (simp add: set_ngram_matches)
qed

text \<open>
  C30. The prompt-lookup proposer drafts the continuation of the most recent earlier occurrence of
  the longest trailing window that occurs earlier at all, within the last \<open>MAX_LOOKBACK\<close> tokens
  and cut to the number of tokens asked for; it drafts nothing exactly when no window occurs.
\<close>

theorem ngram_longest_most_recent:
  assumes "0 < k"
  shows "propose_ngram ids k hi lo
    = (let t = lastn MAX_LOOKBACK ids; sizes = window_sizes t lo hi
       in if sizes = {} then []
          else let n = Max sizes in take (nat k) (drop (Max (earlier t n) + n) t))"
proof -
  define t where "t = lastn MAX_LOOKBACK ids"
  have t: "(if length ids > MAX_LOOKBACK then lastn MAX_LOOKBACK ids else ids) = t" by (simp add: t_def)
  let ?lo = "nat (max 1 lo)" and ?hi = "nat (min hi (int (length t) - 1) + 1)"
  have in_range: "n \<in> window_sizes t lo hi \<longleftrightarrow> ?lo \<le> n \<and> n < ?hi \<and> ngram_matches t n \<noteq> []" for n
  proof -
    have "ngram_matches t n = [] \<longleftrightarrow> earlier t n = {}" using set_ngram_matches [of t n] by auto
    then show ?thesis by (auto simp: window_sizes_def)
  qed
  have unfold: "propose_ngram ids k hi lo = (if length t < 2 then [] else try_windows t (nat k) (rev [?lo..<?hi]))"
    using assms by (simp add: propose_ngram_def Let_def t)
  have "propose_ngram ids k hi lo = (if window_sizes t lo hi = {} then []
      else take (nat k) (drop (Max (earlier t (Max (window_sizes t lo hi))) + Max (window_sizes t lo hi)) t))"
  proof (cases "window_sizes t lo hi = {}")
    case True
    have "try_windows t (nat k) (rev [?lo..<?hi]) = []"
      by (rule try_windows_miss) (use True in_range in auto)
    then show ?thesis using unfold True by simp
  next
    case False
    let ?n = "Max (window_sizes t lo hi)"
    have fin: "finite (window_sizes t lo hi)" by (simp add: window_sizes_def)
    have n: "?n \<in> window_sizes t lo hi" using fin False by simp
    have len: "\<not> length t < 2" using n by (auto simp: window_sizes_def)
    have "try_windows t (nat k) (rev [?lo..<?hi]) = take (nat k) (drop (last (ngram_matches t ?n) + ?n) t)"
    proof (rule try_windows_hit)
      show "sorted_wrt (>) (rev [?lo..<?hi])" by (simp add: sorted_wrt_rev)
    next
      fix m assume m: "m \<in> set (rev [?lo..<?hi])" "?n < m"
      then have "m \<notin> window_sizes t lo hi" using Max_ge [OF fin, of m] by auto
      with m(1) show "ngram_matches t m = []" by (auto simp: in_range)
    qed (use n in_range in auto)
    moreover have "last (ngram_matches t ?n) = Max (earlier t ?n)"
      by (rule last_ngram_matches) (use n in \<open>simp add: window_sizes_def\<close>)
    ultimately show ?thesis using unfold len False by simp
  qed
  then show ?thesis by (simp add: t_def Let_def)
qed

lemma ngram_longest_most_recent_witness:
  "propose_ngram [1, 2, 3, 4, 1, 2, 3, 5, 2, 3] 2 4 1
    = (let t = lastn MAX_LOOKBACK [1, 2, 3, 4, 1, 2, 3, 5, 2, 3]; sizes = window_sizes t 1 4
       in if sizes = {} then [] else let n = Max sizes in take (nat 2) (drop (Max (earlier t n) + n) t))
   \<and> propose_ngram [1, 2, 3, 4, 1, 2, 3, 5, 2, 3] 2 4 1 = [5, 2]"
proof (rule conjI)
  show "propose_ngram [1, 2, 3, 4, 1, 2, 3, 5, 2, 3] 2 4 1 = [5, 2]" by code_simp
qed (rule ngram_longest_most_recent, simp)

end
