(* ===== verification/Spec_Tree.thy ===== *)
theory Spec_Tree
  imports Prelude
begin

section \<open>Draft trees (spec/ddtree.py)\<close>

text \<open>
  \<open>dtree\<close> is \<open>Tree\<close>: parallel lists over node ids, the root's parent \<open>-1\<close> being \<open>None\<close> and each
  dict of children a map.  A score is any linear order with the three operations the code uses
  and no law about them.  \<open>heapq\<close> is the library's: its pop takes the least entry, entries being
  compared by negated score and then by the tie counter, which no two share.  An additive mask
  is a list of rows of booleans, true where the code has \<open>0.0\<close> and false where it has \<open>-inf\<close>.
\<close>

record dtree =
  dt_token :: "int list"
  dt_parent :: "nat option list"
  dt_depth :: "nat list"
  dt_children :: "(int \<Rightarrow> nat option) list"

definition n_nodes :: "dtree \<Rightarrow> nat" where
  "n_nodes t = length (dt_token t)"

text \<open>\<open>xs[i]\<close> for \<open>i >= 0\<close>.\<close>

definition py_get :: "'a list \<Rightarrow> nat \<Rightarrow> py_error + 'a" where
  "py_get xs i = (if i < length xs then Inr (xs ! i) else Inl IndexError)"

definition py_get2 :: "'a list list \<Rightarrow> nat \<Rightarrow> nat \<Rightarrow> py_error + 'a" where
  "py_get2 xss i k = bindR (py_get xss i) (\<lambda>xs. py_get xs k)"

subsection \<open>Building the tree best first\<close>

type_synonym 's entry = "'s \<times> nat \<times> nat list"

definition entry_less :: "'s::linorder entry \<Rightarrow> 's entry \<Rightarrow> bool" where
  "entry_less a b \<longleftrightarrow> fst a < fst b \<or> (fst a = fst b \<and> fst (snd a) < fst (snd b))"

fun heap_min :: "'s::linorder entry \<Rightarrow> 's entry list \<Rightarrow> 's entry" where
  "heap_min m [] = m"
| "heap_min m (e # es) = heap_min (if entry_less e m then e else m) es"

record 's builder =
  bd_tree :: dtree
  bd_ids :: "nat list \<Rightarrow> nat option"
  bd_heap :: "'s entry list"
  bd_tie :: nat

text \<open>\<open>dict.setdefault\<close>.\<close>

definition setdefault :: "int \<Rightarrow> nat \<Rightarrow> (int \<Rightarrow> nat option) \<Rightarrow> int \<Rightarrow> nat option" where
  "setdefault k v m = (if m k = None then m(k \<mapsto> v) else m)"

definition add_node :: "int \<Rightarrow> nat \<Rightarrow> nat \<Rightarrow> dtree \<Rightarrow> dtree" where
  "add_node tok p d t =
     (let cs = dt_children t @ [Map.empty]
      in t\<lparr>dt_token := dt_token t @ [tok], dt_parent := dt_parent t @ [Some p], dt_depth := dt_depth t @ [d],
           dt_children := cs[p := setdefault tok (n_nodes t) (cs ! p)]\<rparr>)"

definition push_entry :: "'s \<Rightarrow> nat list \<Rightarrow> 's builder \<Rightarrow> 's builder" where
  "push_entry neg rt b = b\<lparr>bd_heap := bd_heap b @ [(neg, bd_tie b, rt)], bd_tie := bd_tie b + 1\<rparr>"

text \<open>The next sibling and the first child of the popped rank tuple.\<close>

definition push_sibling ::
    "'s::{linorder, plus, minus, uminus} list list \<Rightarrow> nat \<Rightarrow> 's \<Rightarrow> nat list \<Rightarrow> 's builder \<Rightarrow> py_error + 's builder" where
  "push_sibling logp K score rt b =
     (let d = length rt; r = last rt
      in if r + 1 < K
         then bindR (py_get2 logp (d - 1) r) (\<lambda>p. bindR (py_get2 logp (d - 1) (r + 1)) (\<lambda>q.
                Inr (push_entry (- (score - p + q)) (butlast rt @ [r + 1]) b)))
         else Inr b)"

definition push_child ::
    "'s::{linorder, plus, minus, uminus} list list \<Rightarrow> nat \<Rightarrow> 's \<Rightarrow> nat list \<Rightarrow> 's builder \<Rightarrow> py_error + 's builder" where
  "push_child logp L score rt b =
     (if length rt < L
      then bindR (py_get2 logp (length rt) 0) (\<lambda>p. Inr (push_entry (- (score + p)) (rt @ [0]) b))
      else Inr b)"

text \<open>One turn of the loop, on the popped entry.\<close>

definition grow_step ::
    "'s::{linorder, plus, minus, uminus} list list \<Rightarrow> int list list \<Rightarrow> nat \<Rightarrow> nat \<Rightarrow> 's entry \<Rightarrow> 's builder \<Rightarrow> py_error + 's builder" where
  "grow_step logp ids L K e b =
     (case e of (neg, _, rt) \<Rightarrow>
        (case bd_ids b (butlast rt) of
           None \<Rightarrow> Inl KeyError
         | Some p \<Rightarrow>
             bindR (py_get2 ids (length rt - 1) (last rt)) (\<lambda>tok.
             let b1 = b\<lparr>bd_tree := add_node tok p (length rt) (bd_tree b),
                        bd_ids := (bd_ids b)(rt \<mapsto> n_nodes (bd_tree b))\<rparr>
             in bindR (push_sibling logp K (- neg) rt b1) (push_child logp L (- neg) rt))))"

text \<open>Every turn adds one node, so the loop turns at most as often as the budget leaves nodes.\<close>

fun grow ::
    "'s::{linorder, plus, minus, uminus} list list \<Rightarrow> int list list \<Rightarrow> nat \<Rightarrow> nat \<Rightarrow> nat \<Rightarrow> 's builder \<Rightarrow> py_error + 's builder" where
  "grow logp ids L K 0 b = Inr b"
| "grow logp ids L K (Suc left) b =
     (case bd_heap b of
        [] \<Rightarrow> Inr b
      | x # xs \<Rightarrow>
          (let e = heap_min x xs
           in bindR (grow_step logp ids L K e (b\<lparr>bd_heap := remove1 e (bd_heap b)\<rparr>)) (grow logp ids L K left)))"

definition root_tree :: "int \<Rightarrow> dtree" where
  "root_tree root = \<lparr>dt_token = [root], dt_parent = [None], dt_depth = [0], dt_children = [Map.empty]\<rparr>"

definition build_draft_tree ::
    "'s::{linorder, plus, minus, uminus} list list \<Rightarrow> int list list \<Rightarrow> int \<Rightarrow> int \<Rightarrow> py_error + dtree" where
  "build_draft_tree logp ids budget root =
     (let L = length logp; K = (case logp of [] \<Rightarrow> 0 | row # _ \<Rightarrow> length row)
      in if budget \<le> 0 \<or> L = 0 \<or> K = 0 then Inr (root_tree root)
         else bindR (grow logp ids L K (nat budget)
                \<lparr>bd_tree = root_tree root, bd_ids = [[] \<mapsto> 0], bd_heap = [(- (logp ! 0 ! 0), 0, [0])], bd_tie = 1\<rparr>)
              (\<lambda>b. Inr (bd_tree b)))"

subsection \<open>A fixed topology\<close>

record static_template =
  st_parent :: "nat option list"
  st_depth :: "nat list"
  st_rank :: "int list"

text \<open>\<open>geo k\<close> is the float \<open>-decay * k\<close>.\<close>

definition build_static_template ::
    "(nat \<Rightarrow> 's::{linorder, plus, minus, uminus}) \<Rightarrow> int \<Rightarrow> nat \<Rightarrow> nat \<Rightarrow> py_error + static_template" where
  "build_static_template geo budget top_k block_len =
     (if \<not> (budget > 0 \<and> top_k > 0 \<and> block_len > 0) then Inl AssertionError
      else bindR (build_draft_tree (replicate block_len (map geo [0..<top_k])) (replicate block_len (map int [0..<top_k])) budget (- 1))
             (\<lambda>t. if int (n_nodes t) - 1 \<noteq> budget then Inl AssertionError
                  else Inr \<lparr>st_parent = dt_parent t, st_depth = dt_depth t, st_rank = dt_token t\<rparr>))"

definition fill_node :: "static_template \<Rightarrow> int list list \<Rightarrow> int \<Rightarrow> nat \<Rightarrow> int" where
  "fill_node t ids root j =
     (let d = st_depth t ! j - 1; r = nat (st_rank t ! j)
      in if d < length ids \<and> r < length (ids ! d) then ids ! d ! r else root)"

definition fill_step :: "static_template \<Rightarrow> int list list \<Rightarrow> int \<Rightarrow> nat \<Rightarrow> dtree \<Rightarrow> dtree" where
  "fill_step t ids root j tr =
     (let tok = fill_node t ids root j
      in tr\<lparr>dt_token := (dt_token tr)[j := tok],
            dt_children := (case st_parent t ! j of None \<Rightarrow> dt_children tr
              | Some p \<Rightarrow> (dt_children tr)[p := setdefault tok j (dt_children tr ! p)])\<rparr>)"

definition fill_static_template :: "static_template \<Rightarrow> int list list \<Rightarrow> int \<Rightarrow> dtree" where
  "fill_static_template t ids root =
     (let n = length (st_parent t)
      in fold (fill_step t ids root) [1..<n]
           \<lparr>dt_token = root # replicate (n - 1) 0, dt_parent = st_parent t, dt_depth = st_depth t,
            dt_children = replicate n Map.empty\<rparr>)"

text \<open>The chain of rank 0: at each node the child of rank 0, as the last such node of the dict of dicts.\<close>

definition rank0_child :: "static_template \<Rightarrow> nat \<Rightarrow> nat option" where
  "rank0_child t cur =
     (case filter (\<lambda>j. st_parent t ! j = Some cur \<and> st_rank t ! j = 0) [1..<length (st_parent t)] of
        [] \<Rightarrow> None | js \<Rightarrow> Some (last js))"

partial_function (option) rank0_walk :: "static_template \<Rightarrow> nat \<Rightarrow> nat list option" where
  "rank0_walk t cur =
     (case rank0_child t cur of
        None \<Rightarrow> Some []
      | Some c \<Rightarrow> Option.bind (rank0_walk t c) (\<lambda>xs. Some (c # xs)))"

definition template_rank0_path :: "static_template \<Rightarrow> nat list option" where
  "template_rank0_path t = Option.bind (rank0_walk t 0) (\<lambda>xs. Some (0 # xs))"

subsection \<open>Ancestors and masks\<close>

text \<open>The walk \<open>while a != -1\<close> from a node to the root.\<close>

partial_function (option) anc_walk :: "nat option list \<Rightarrow> nat \<Rightarrow> nat list run" where
  "anc_walk parent a =
     (if a < length parent
      then (case parent ! a of
              None \<Rightarrow> Some (Inr [a])
            | Some p \<Rightarrow> bindX (anc_walk parent p) (\<lambda>as. Some (Inr (a # as))))
      else Some (Inl IndexError))"

text \<open>Run the walk from every node of a list.\<close>

fun walk_all :: "nat option list \<Rightarrow> nat list \<Rightarrow> nat list list run" where
  "walk_all parent [] = Some (Inr [])"
| "walk_all parent (j # js) =
     bindX (anc_walk parent j) (\<lambda>as. bindX (walk_all parent js) (\<lambda>ass. Some (Inr (as # ass))))"

text \<open>The cells \<open>js\<close> of a row become allowed.\<close>

definition allow_cells :: "nat list \<Rightarrow> bool list \<Rightarrow> bool list" where
  "allow_cells js row = foldl (\<lambda>r j. r[j := True]) row js"

definition template_ancestor_block :: "static_template \<Rightarrow> bool list list run" where
  "template_ancestor_block t =
     (let n = length (st_parent t)
      in bindX (walk_all (st_parent t) [0..<n]) (\<lambda>ass. Some (Inr (map (\<lambda>as. allow_cells as (replicate n False)) ass))))"

text \<open>The same block for a topology of its own, as one flat list: row \<open>j\<close> starts at \<open>j * qlen\<close>.\<close>

definition ancestor_block_host :: "nat option list \<Rightarrow> nat \<Rightarrow> nat \<Rightarrow> bool list run" where
  "ancestor_block_host parent n qlen =
     bindX (walk_all parent [0..<n]) (\<lambda>ass.
       let cells = concat (map (\<lambda>(j, as). map (\<lambda>a. j * qlen + a) as) (zip [0..<n] ass));
           pads = concat (map (\<lambda>j. map (\<lambda>c. j * qlen + c) [0..<qlen]) [n..<qlen])
       in if \<exists>c \<in> set (cells @ pads). c \<ge> qlen * qlen then Some (Inl IndexError)
          else Some (Inr (allow_cells (cells @ pads) (replicate (qlen * qlen) False))))"

text \<open>The layout over a cached prefix: positions, mask, columns.\<close>

definition ddtree_paged_layout :: "nat \<Rightarrow> dtree \<Rightarrow> (nat list \<times> bool list list \<times> nat list) run" where
  "ddtree_paged_layout cached t =
     (let n = n_nodes t
      in bindX (walk_all (dt_parent t) [0..<n]) (\<lambda>ass.
           Some (Inr (map (\<lambda>j. cached + dt_depth t ! j) [0..<n],
                      map (\<lambda>as. allow_cells (map (\<lambda>a. cached + a) as) (replicate cached True @ replicate n False)) ass,
                      map (\<lambda>j. cached + j) [0..<n]))))"

text \<open>
  The segmented layout: before node \<open>j\<close> a copy of each of its \<open>conv_width - 1\<close> closest ancestors,
  shallow to deep.  The result is the rows' nodes, which rows are copies, the row of each node,
  the positions and the mask.
\<close>

record segments =
  sg_rep :: "nat list"
  sg_ctx :: "bool list"
  sg_rows :: "nat list"

definition seg_step :: "nat \<Rightarrow> nat \<times> nat list \<Rightarrow> segments \<Rightarrow> segments" where
  "seg_step conv_width ja s =
     (case ja of (j, as) \<Rightarrow>
        (let anc = take (conv_width - 1) (tl as)
         in \<lparr>sg_rep = sg_rep s @ rev anc @ [j], sg_ctx = sg_ctx s @ map (\<lambda>_. True) anc @ [False],
             sg_rows = sg_rows s @ [length (sg_rep s) + length anc]\<rparr>))"

definition ddtree_paged_layout_segmented :: "nat \<Rightarrow> dtree \<Rightarrow> nat \<Rightarrow> (segments \<times> nat list \<times> bool list list) run" where
  "ddtree_paged_layout_segmented cached t conv_width =
     bindX (walk_all (dt_parent t) [0..<n_nodes t]) (\<lambda>ass.
       let s = fold (seg_step conv_width) (zip [0..<n_nodes t] ass) \<lparr>sg_rep = [], sg_ctx = [], sg_rows = []\<rparr>;
           n_query = length (sg_rep s)
       in Some (Inr (s, map (\<lambda>m. cached + dt_depth t ! m) (sg_rep s),
            map (\<lambda>m. allow_cells (map (\<lambda>a. cached + sg_rows s ! a) (ass ! m)) (replicate cached True @ replicate n_query False))
              (sg_rep s))))"

subsection \<open>The verifier's walk\<close>

partial_function (option) walk_tree :: "int list \<Rightarrow> dtree \<Rightarrow> nat \<Rightarrow> (int list \<times> int) run" where
  "walk_tree argmax t cur =
     (if cur < length argmax \<and> cur < length (dt_children t)
      then (case (dt_children t ! cur) (argmax ! cur) of
              None \<Rightarrow> Some (Inr ([], argmax ! cur))
            | Some nxt \<Rightarrow> bindX (walk_tree argmax t nxt) (\<lambda>(acc, bonus). Some (Inr ((argmax ! cur) # acc, bonus))))
      else Some (Inl IndexError))"

definition ddtree_walk :: "int list \<Rightarrow> dtree \<Rightarrow> (int list \<times> int) run" where
  "ddtree_walk argmax t = walk_tree argmax t 0"

end
