(* ===== verification/Spec_Tree_Inv.thy ===== *)
theory Spec_Tree_Inv
  imports Spec_Tree Spec_Width
begin

section \<open>Draft trees: well-formedness\<close>

text \<open>
  \<open>dtree_ok\<close>: parents come before their children, depths count edges, and the dict of a node holds
  exactly its children's tokens, the first child of each.  Then every walk up to the root returns,
  and the ancestors of a node in column order spell its path.
\<close>

definition parents_ok :: "nat option list \<Rightarrow> nat list \<Rightarrow> bool" where
  "parents_ok ps ds \<longleftrightarrow> ps \<noteq> [] \<and> length ds = length ps \<and> ps ! 0 = None \<and> ds ! 0 = 0
     \<and> (\<forall>j. 0 < j \<and> j < length ps \<longrightarrow> (\<exists>p < j. ps ! j = Some p \<and> ds ! j = Suc (ds ! p)))"

definition children_ok :: "dtree \<Rightarrow> bool" where
  "children_ok t \<longleftrightarrow> (\<forall>p < n_nodes t. \<forall>tok c. (dt_children t ! p) tok = Some c \<longrightarrow>
       p < c \<and> c < n_nodes t \<and> dt_parent t ! c = Some p \<and> dt_token t ! c = tok)
     \<and> (\<forall>j < n_nodes t. \<forall>p. dt_parent t ! j = Some p \<longrightarrow> (dt_children t ! p) (dt_token t ! j) \<noteq> None)"

lemma children_okD:
  assumes "children_ok t"
  shows "p < n_nodes t \<Longrightarrow> (dt_children t ! p) tok = Some c \<Longrightarrow>
      p < c \<and> c < n_nodes t \<and> dt_parent t ! c = Some p \<and> dt_token t ! c = tok"
    "j < n_nodes t \<Longrightarrow> dt_parent t ! j = Some p \<Longrightarrow> (dt_children t ! p) (dt_token t ! j) \<noteq> None"
  using assms unfolding children_ok_def by blast+

definition dtree_ok :: "dtree \<Rightarrow> bool" where
  "dtree_ok t \<longleftrightarrow> length (dt_parent t) = n_nodes t \<and> length (dt_children t) = n_nodes t
     \<and> parents_ok (dt_parent t) (dt_depth t) \<and> children_ok t"

subsection \<open>The walk to the root\<close>

declare anc_walk.simps [code]
declare walk_tree.simps [code]
declare rank0_walk.simps [code]

definition ancs :: "nat option list \<Rightarrow> nat \<Rightarrow> nat list" where
  "ancs ps j = (case anc_walk ps j of Some (Inr as) \<Rightarrow> as | _ \<Rightarrow> [])"

lemma anc_walk_total:
  assumes "parents_ok ps ds" "j < length ps"
  shows "\<exists>as. anc_walk ps j = Some (Inr as)"
  using assms(2)
proof (induction j rule: less_induct)
  case (less j)
  show ?case
  proof (cases "j = 0")
    case True
    with assms(1) less.prems show ?thesis by (subst anc_walk.simps) (simp add: parents_ok_def)
  next
    case False
    with assms(1) less.prems obtain p where p: "p < j" "ps ! j = Some p" by (auto simp: parents_ok_def)
    from less.IH [OF p(1)] p(1) less.prems obtain as where "anc_walk ps p = Some (Inr as)" by auto
    with p less.prems show ?thesis by (subst anc_walk.simps) simp
  qed
qed

lemma anc_walk_eq: "parents_ok ps ds \<Longrightarrow> j < length ps \<Longrightarrow> anc_walk ps j = Some (Inr (ancs ps j))"
  using anc_walk_total [of ps ds j] by (auto simp: ancs_def)

lemma ancs_root: "parents_ok ps ds \<Longrightarrow> ancs ps 0 = [0]"
  by (simp add: ancs_def anc_walk.simps [of ps 0] parents_ok_def)

lemma ancs_step: "parents_ok ps ds \<Longrightarrow> j < length ps \<Longrightarrow> ps ! j = Some p \<Longrightarrow> p < j \<and> ancs ps j = j # ancs ps p"
proof -
  assume a: "parents_ok ps ds" "j < length ps" "ps ! j = Some p"
  then have "p < j" by (cases "j = 0") (auto simp: parents_ok_def)
  with a anc_walk_eq [OF a(1), of p] show ?thesis by (simp add: ancs_def [of ps j] anc_walk.simps [of ps j])
qed

lemma node_induct [consumes 2, case_names root child]:
  assumes ok: "parents_ok ps ds" and j: "j < length ps"
    and root: "P 0"
    and child: "\<And>j p. j < length ps \<Longrightarrow> ps ! j = Some p \<Longrightarrow> p < j \<Longrightarrow> ds ! j = Suc (ds ! p)
      \<Longrightarrow> ancs ps j = j # ancs ps p \<Longrightarrow> P p \<Longrightarrow> P j"
  shows "P j"
  using j
proof (induction j rule: less_induct)
  case (less j)
  show ?case
  proof (cases "j = 0")
    case False
    with ok less.prems obtain p where p: "p < j" "ps ! j = Some p" "ds ! j = Suc (ds ! p)" by (auto simp: parents_ok_def)
    have "P p" by (rule less.IH [OF p(1)]) (use p(1) less.prems in simp)
    with ancs_step [OF ok less.prems p(2)] p less.prems show ?thesis by (intro child [of j p]) auto
  qed (use root in simp)
qed

lemma ancs_shape:
  assumes "parents_ok ps ds" "j < length ps"
  shows "sorted_wrt (>) (ancs ps j) \<and> (\<forall>a \<in> set (ancs ps j). a \<le> j) \<and> hd (ancs ps j) = j \<and> last (ancs ps j) = 0
    \<and> ancs ps j \<noteq> [] \<and> map (\<lambda>a. ds ! a) (rev (ancs ps j)) = [0..<Suc (ds ! j)]"
  using assms
proof (induction rule: node_induct)
  case root
  with assms(1) show ?case by (simp add: ancs_root [OF assms(1)] parents_ok_def)
next
  case (child j p)
  then have "\<forall>a \<in> set (ancs ps p). a < j" "ancs ps p \<noteq> []" by auto
  moreover from this(1) have "\<forall>a \<in> set (ancs ps p). a \<le> j" by (simp add: less_imp_le)
  ultimately show ?case using child by simp
qed

definition parent_rel :: "nat option list \<Rightarrow> (nat \<times> nat) set" where
  "parent_rel ps = {(c, p). c < length ps \<and> ps ! c = Some p}"

lemma set_ancs:
  assumes "parents_ok ps ds" "j < length ps"
  shows "set (ancs ps j) = {a. (j, a) \<in> (parent_rel ps)\<^sup>*}"
  using assms
proof (induction rule: node_induct)
  case root
  have "(0, a) \<in> (parent_rel ps)\<^sup>* \<Longrightarrow> a = 0" for a
    by (induction rule: rtrancl_induct) (use assms(1) in \<open>auto simp: parent_rel_def parents_ok_def\<close>)
  then show ?case by (auto simp: ancs_root [OF assms(1)])
next
  case (child j p)
  have "(j, a) \<in> (parent_rel ps)\<^sup>* \<longleftrightarrow> a = j \<or> (p, a) \<in> (parent_rel ps)\<^sup>*" for a
  proof
    assume "(j, a) \<in> (parent_rel ps)\<^sup>*"
    then show "a = j \<or> (p, a) \<in> (parent_rel ps)\<^sup>*"
      by (cases rule: converse_rtranclE) (use child(1,2) in \<open>auto simp: parent_rel_def\<close>)
  next
    assume "a = j \<or> (p, a) \<in> (parent_rel ps)\<^sup>*"
    moreover have "(j, p) \<in> parent_rel ps" using child(1,2) by (simp add: parent_rel_def)
    ultimately show "(j, a) \<in> (parent_rel ps)\<^sup>*" by (auto intro: converse_rtrancl_into_rtrancl)
  qed
  with child show ?case by auto
qed

lemma walk_all_eq:
  "parents_ok ps ds \<Longrightarrow> \<forall>j \<in> set js. j < length ps \<Longrightarrow> walk_all ps js = Some (Inr (map (ancs ps) js))"
  by (induction js) (simp_all add: anc_walk_eq)

subsection \<open>Masks\<close>

lemma length_allow_cells [simp]: "length (allow_cells js row) = length row"
  by (induction js arbitrary: row) (simp_all add: allow_cells_def)

lemma nth_allow_cells: "c < length row \<Longrightarrow> allow_cells js row ! c \<longleftrightarrow> row ! c \<or> c \<in> set js"
proof (induction js arbitrary: row)
  case (Cons j js)
  have "allow_cells (j # js) row = allow_cells js (row[j := True])" by (simp add: allow_cells_def)
  with Cons.IH [of "row[j := True]"] Cons.prems show ?case by (cases "c = j") auto
qed (simp add: allow_cells_def)

text \<open>A strictly ascending list is what a filter by membership finds.\<close>

lemma filter_mem_upt:
  assumes "sorted_wrt (<) xs" "\<forall>x \<in> set xs. x < (n :: nat)"
  shows "filter (\<lambda>c. c \<in> set xs) [0..<n] = xs"
proof (rule sorted_distinct_set_unique)
  show "sorted (filter (\<lambda>c. c \<in> set xs) [0..<n])" by (simp add: sorted_wrt_filter)
  show "sorted xs" using assms(1) by (simp add: strict_sorted_iff)
  show "distinct xs" using assms(1) by (simp add: strict_sorted_iff)
  show "set (filter (\<lambda>c. c \<in> set xs) [0..<n]) = set xs" using assms(2) by auto
qed simp

subsection \<open>Paths and the verifier's walk\<close>

text \<open>The tokens from below the root down to a node.\<close>

definition path :: "dtree \<Rightarrow> nat \<Rightarrow> int list" where
  "path t j = tl (map (\<lambda>a. dt_token t ! a) (rev (ancs (dt_parent t) j)))"

lemma path_root: "dtree_ok t \<Longrightarrow> path t 0 = []"
  using ancs_root [of "dt_parent t" "dt_depth t"] by (simp add: path_def dtree_ok_def)

lemma path_step:
  assumes "dtree_ok t" "j < n_nodes t" "dt_parent t ! j = Some p"
  shows "path t j = path t p @ [dt_token t ! j]" "p < j"
proof -
  have ok: "parents_ok (dt_parent t) (dt_depth t)" and j: "j < length (dt_parent t)" using assms by (simp_all add: dtree_ok_def)
  from ancs_step [OF ok j assms(3)] have s: "p < j" "ancs (dt_parent t) j = j # ancs (dt_parent t) p" by simp_all
  then have "ancs (dt_parent t) p \<noteq> []" using ancs_shape [OF ok, of p] j by simp
  with s show "path t j = path t p @ [dt_token t ! j]" "p < j" by (simp_all add: path_def)
qed

lemma path_tokens:
  assumes "dtree_ok t" "j < n_nodes t"
  shows "map (\<lambda>a. dt_token t ! a) (rev (ancs (dt_parent t) j)) = dt_token t ! 0 # path t j"
proof -
  have ok: "parents_ok (dt_parent t) (dt_depth t)" and j: "j < length (dt_parent t)" using assms by (simp_all add: dtree_ok_def)
  from ancs_shape [OF ok j] have "ancs (dt_parent t) j \<noteq> []" "last (ancs (dt_parent t) j) = 0" by simp_all
  then have "map (\<lambda>a. dt_token t ! a) (rev (ancs (dt_parent t) j)) \<noteq> []"
    "hd (map (\<lambda>a. dt_token t ! a) (rev (ancs (dt_parent t) j))) = dt_token t ! 0"
    by (simp_all add: hd_map hd_rev)
  then show ?thesis unfolding path_def by (metis list.collapse)
qed

text \<open>When siblings carry different tokens a path belongs to one node.\<close>

definition siblings_differ :: "dtree \<Rightarrow> bool" where
  "siblings_differ t \<longleftrightarrow> (\<forall>i < n_nodes t. \<forall>j < n_nodes t. dt_parent t ! i \<noteq> None
     \<and> dt_parent t ! i = dt_parent t ! j \<and> dt_token t ! i = dt_token t ! j \<longrightarrow> i = j)"

lemma path_cases:
  assumes "dtree_ok t" "j < n_nodes t"
  shows "j = 0 \<and> path t j = [] \<or> (\<exists>p < j. dt_parent t ! j = Some p \<and> path t j = path t p @ [dt_token t ! j])"
proof (cases "j = 0")
  case False
  with assms obtain p where "p < j" "dt_parent t ! j = Some p" by (auto simp: dtree_ok_def parents_ok_def)
  with path_step [OF assms] show ?thesis by auto
qed (simp add: path_root assms)

lemma path_inj:
  assumes "dtree_ok t" "siblings_differ t"
  shows "i < n_nodes t \<Longrightarrow> j < n_nodes t \<Longrightarrow> path t i = path t j \<Longrightarrow> i = j"
proof (induction i arbitrary: j rule: less_induct)
  case (less i)
  from path_cases [OF assms(1) less.prems(1)] path_cases [OF assms(1) less.prems(2)] less.prems(3)
  consider "i = 0" "j = 0" | p q where "p < i" "q < j" "dt_parent t ! i = Some p" "dt_parent t ! j = Some q"
      "path t p @ [dt_token t ! i] = path t q @ [dt_token t ! j]" by force
  then show ?case
  proof cases
    case (2 p q)
    with less.IH [of p q] less.prems have "p = q" by simp
    with 2 assms(2) less.prems show ?thesis by (auto simp: siblings_differ_def)
  qed simp
qed

lemma path_prefix:
  assumes "dtree_ok t"
  shows "j < n_nodes t \<Longrightarrow> path t j = xs @ ys \<Longrightarrow> \<exists>i < n_nodes t. path t i = xs"
proof (induction j arbitrary: ys rule: less_induct)
  case (less j)
  show ?case
  proof (cases ys rule: rev_cases)
    case (snoc ys' y)
    with path_cases [OF assms less.prems(1)] less.prems(2) obtain p where "p < j" "path t p = xs @ ys'" by auto
    with less.IH less.prems(1) show ?thesis by auto
  qed (use less.prems in auto)
qed

text \<open>The walk follows the target's own greedy continuation as far as the tree holds it.\<close>

lemma walk_tree_greedy:
  assumes "dtree_ok t" "length argmax = n_nodes t" "\<And>j. j < n_nodes t \<Longrightarrow> argmax ! j = lm (ctx @ path t j)" "cur < n_nodes t"
  shows "\<exists>acc bonus. walk_tree argmax t cur = Some (Inr (acc, bonus)) \<and> acc @ [bonus] = greedy lm (ctx @ path t cur) (Suc (length acc))
    \<and> (\<exists>j < n_nodes t. path t j = path t cur @ acc)
    \<and> (siblings_differ t \<longrightarrow> (\<forall>j < n_nodes t. \<forall>k. path t j = path t cur @ greedy lm (ctx @ path t cur) k \<longrightarrow> k \<le> length acc))"
  using assms(4)
proof (induction "n_nodes t - cur" arbitrary: cur rule: less_induct)
  case less
  let ?c = "ctx @ path t cur" and ?ch = "dt_children t ! cur"
  have a: "argmax ! cur = lm ?c" by (rule assms(3) [OF less.prems])
  have len: "cur < length argmax \<and> cur < length (dt_children t)" using assms(1,2) less.prems by (simp add: dtree_ok_def)
  have C: "children_ok t" using assms(1) by (simp add: dtree_ok_def)
  show ?case
  proof (cases "?ch (lm ?c)")
    case None
    have "k = 0" if sd: "siblings_differ t" and j: "j < n_nodes t" "path t j = path t cur @ greedy lm ?c k" for j k
    proof (rule ccontr)
      assume "k \<noteq> 0"
      then obtain k' where k: "k = Suc k'" by (cases k) auto
      from path_prefix [OF assms(1) j(1), of "path t cur @ [lm ?c]"] j(2) k obtain i where
        i: "i < n_nodes t" "path t i = path t cur @ [lm ?c]" by auto
      from path_cases [OF assms(1) i(1)] i(2) obtain p where p: "p < i" "dt_parent t ! i = Some p" "path t p = path t cur" "dt_token t ! i = lm ?c"
        by auto
      from path_inj [OF assms(1) sd _ less.prems p(3)] p(1) i(1) have "p = cur" by simp
      with children_okD(2) [OF C i(1) p(2)] p(4) None show False by simp
    qed
    with None a len less.prems show ?thesis by (subst walk_tree.simps) auto
  next
    case (Some nxt)
    note n = children_okD(1) [OF C less.prems Some]
    have p: "path t nxt = path t cur @ [lm ?c]" using path_step [OF assms(1), of nxt cur] n by simp
    have "n_nodes t - nxt < n_nodes t - cur" using n less.prems by (simp add: diff_less_mono2)
    note IH = less.hyps [OF this n [THEN conjunct2, THEN conjunct1]]
    obtain acc bonus where
      W: "walk_tree argmax t nxt = Some (Inr (acc, bonus))" "acc @ [bonus] = greedy lm (ctx @ path t nxt) (Suc (length acc))"
      and J: "\<exists>j < n_nodes t. path t j = path t nxt @ acc"
      and K: "siblings_differ t \<longrightarrow> (\<forall>j < n_nodes t. \<forall>k. path t j = path t nxt @ greedy lm (ctx @ path t nxt) k \<longrightarrow> k \<le> length acc)"
      using IH by blast
    have "walk_tree argmax t cur = Some (Inr (lm ?c # acc, bonus))" using Some W(1) a len by (subst walk_tree.simps) simp
    moreover have "(lm ?c # acc) @ [bonus] = greedy lm ?c (Suc (length (lm ?c # acc)))" using W(2) p by simp
    moreover have "k \<le> length (lm ?c # acc)" if "siblings_differ t" "j < n_nodes t" "path t j = path t cur @ greedy lm ?c k" for j k
      using that K p by (cases k) auto
    ultimately show ?thesis using J p by (intro exI [of _ "lm ?c # acc"] exI [of _ bonus]) auto
  qed
qed

end
