(* ===== verification/Spec_Tree_Build.thy ===== *)
theory Spec_Tree_Build
  imports Spec_Tree_Inv
begin

section \<open>Draft trees: the builders\<close>

text \<open>
  The heap always holds exactly the rank tuples whose predecessor (the elder sibling, or the
  parent of a first child) is in the tree, so a popped tuple finds its parent there.  With exact
  scores that never increase along predecessors, the tuples left out score no better than those in
  the tree.
\<close>

subsection \<open>Adding a node\<close>

lemma n_nodes_add [simp]: "n_nodes (add_node tok p d t) = Suc (n_nodes t)"
  by (simp add: n_nodes_def add_node_def Let_def)

lemma add_node_nth:
  assumes "dtree_ok t" "j < n_nodes t"
  shows "dt_token (add_node tok p d t) ! j = dt_token t ! j" "dt_parent (add_node tok p d t) ! j = dt_parent t ! j"
    "dt_depth (add_node tok p d t) ! j = dt_depth t ! j"
    "p < n_nodes t \<Longrightarrow> dt_children (add_node tok p d t) ! j = (if j = p then setdefault tok (n_nodes t) (dt_children t ! p) else dt_children t ! j)"
  using assms by (auto simp: add_node_def Let_def dtree_ok_def parents_ok_def nth_append n_nodes_def nth_list_update)

lemma add_node_last:
  assumes "dtree_ok t" "p < n_nodes t"
  shows "dt_token (add_node tok p d t) ! n_nodes t = tok" "dt_parent (add_node tok p d t) ! n_nodes t = Some p"
    "dt_depth (add_node tok p d t) ! n_nodes t = d" "dt_children (add_node tok p d t) ! n_nodes t = Map.empty"
  using assms by (auto simp: add_node_def Let_def dtree_ok_def parents_ok_def nth_append n_nodes_def nth_list_update)

lemma add_node_ok:
  assumes "dtree_ok t" "p < n_nodes t" "d = Suc (dt_depth t ! p)"
  shows "dtree_ok (add_node tok p d t)"
proof -
  let ?t = "add_node tok p d t"
  have P: "parents_ok (dt_parent t) (dt_depth t)" and C: "children_ok t"
    and len: "length (dt_parent t) = n_nodes t" "length (dt_children t) = n_nodes t" "length (dt_depth t) = n_nodes t"
    using assms(1) by (simp_all add: dtree_ok_def parents_ok_def)
  have len': "length (dt_parent ?t) = n_nodes ?t" "length (dt_children ?t) = n_nodes ?t" "length (dt_depth ?t) = n_nodes ?t"
    using len by (simp_all add: add_node_def Let_def n_nodes_def)
  note O = add_node_nth [OF assms(1), where tok = tok and p = p and d = d] and N = add_node_last [OF assms(1,2), of tok d]
  have "parents_ok (dt_parent ?t) (dt_depth ?t)"
    unfolding parents_ok_def
  proof (intro conjI allI impI)
    have "0 < n_nodes t" using assms(2) by simp
    with O(2,3) [of 0] P show "dt_parent ?t ! 0 = None" "dt_depth ?t ! 0 = 0" by (simp_all add: parents_ok_def)
    fix j assume j: "0 < j \<and> j < length (dt_parent ?t)"
    show "\<exists>q < j. dt_parent ?t ! j = Some q \<and> dt_depth ?t ! j = Suc (dt_depth ?t ! q)"
    proof (cases "j = n_nodes t")
      case True
      with N O(3) [OF assms(2)] assms(2,3) show ?thesis by (intro exI [of _ p]) simp
    next
      case False
      with j len' have l: "j < n_nodes t" by simp
      with P j len obtain q where "q < j" "dt_parent t ! j = Some q" "dt_depth t ! j = Suc (dt_depth t ! q)" by (auto simp: parents_ok_def)
      with O [OF l] O(3) [of q] l show ?thesis by (intro exI [of _ q]) simp
    qed
  qed (use len' in auto)
  moreover have "children_ok ?t"
    unfolding children_ok_def
  proof (intro conjI allI impI)
    fix q tok' c assume q: "q < n_nodes ?t" and c: "(dt_children ?t ! q) tok' = Some c"
    have q': "q < n_nodes t" using q c N(4) by (cases "q = n_nodes t") auto
    have "(dt_children t ! q) tok' = Some c \<or> (q = p \<and> tok' = tok \<and> c = n_nodes t)"
      using c O(4) [OF q' assms(2)] by (auto simp: setdefault_def split: if_splits)
    then have "q < c \<and> c < n_nodes ?t \<and> dt_parent ?t ! c = Some q \<and> dt_token ?t ! c = tok'"
    proof
      assume "(dt_children t ! q) tok' = Some c"
      from children_okD(1) [OF C q' this] O(1,2) [of c] show ?thesis by simp
    qed (use N assms(2) in simp)
    then show "q < c" "c < n_nodes ?t" "dt_parent ?t ! c = Some q" "dt_token ?t ! c = tok'" by simp_all
  next
    fix j q assume j: "j < n_nodes ?t" and q: "dt_parent ?t ! j = Some q"
    show "(dt_children ?t ! q) (dt_token ?t ! j) \<noteq> None"
    proof (cases "j = n_nodes t")
      case True
      with q N O(4) [OF assms(2,2)] show ?thesis by (auto simp: setdefault_def)
    next
      case False
      with j have l: "j < n_nodes t" by simp
      with q O(2) [OF l] have "dt_parent t ! j = Some q" by simp
      from children_okD(2) [OF C l this] path_step(2) [OF assms(1) l this] O(1) [OF l] O(4) [of q, OF _ assms(2)] l
      show ?thesis by (auto simp: setdefault_def)
    qed
  qed
  ultimately show ?thesis using len' by (simp add: dtree_ok_def)
qed

lemma root_tree_ok: "dtree_ok (root_tree root)" "n_nodes (root_tree root) = 1"
  by (auto simp: dtree_ok_def root_tree_def n_nodes_def parents_ok_def children_ok_def)

subsection \<open>Rank tuples\<close>

definition valid_ranks :: "nat \<Rightarrow> nat \<Rightarrow> nat list \<Rightarrow> bool" where
  "valid_ranks L K rt \<longleftrightarrow> rt \<noteq> [] \<and> length rt \<le> L \<and> (\<forall>r \<in> set rt. r < K)"

lemma valid_ranksD:
  assumes "valid_ranks L K rt"
  shows "length rt - 1 < L" "last rt < K" "0 < K" "rt \<noteq> []"
proof -
  show ne: "rt \<noteq> []" using assms by (simp add: valid_ranks_def)
  then have "0 < length rt" by simp
  with assms show "length rt - 1 < L" unfolding valid_ranks_def by linarith
  show "last rt < K" using assms last_in_set [OF ne] by (simp add: valid_ranks_def)
  then show "0 < K" by simp
qed

definition elder :: "nat list \<Rightarrow> nat list" where
  "elder rt = (if last rt > 0 then butlast rt @ [last rt - 1] else butlast rt)"

lemma elder_cases:
  assumes "valid_ranks L K rt"
  shows "elder rt = [] \<and> rt = [0] \<or> valid_ranks L K (elder rt)"
proof -
  obtain xs x where rt: "rt = xs @ [x]" using assms by (cases rt rule: rev_cases) (auto simp: valid_ranks_def)
  then show ?thesis using assms by (cases "x = 0"; cases "xs = []") (auto simp: elder_def valid_ranks_def)
qed

lemma elder_measure: "rt \<noteq> [] \<Longrightarrow> sum_list (elder rt) + length (elder rt) < sum_list rt + length rt"
  by (cases rt rule: rev_cases) (auto simp: elder_def)

text \<open>The tuples of which \<open>rt\<close> is the elder.\<close>

lemma elder_eq:
  assumes "rt \<noteq> []" "rt' \<noteq> []"
  shows "elder rt' = rt \<longleftrightarrow> rt' = rt @ [0] \<or> rt' = butlast rt @ [last rt + 1]"
proof -
  obtain xs x where rt: "rt = xs @ [x]" using assms by (cases rt rule: rev_cases) auto
  obtain ys y where rt': "rt' = ys @ [y]" using assms by (cases rt' rule: rev_cases) auto
  show ?thesis by (cases y) (auto simp: rt rt' elder_def)
qed

lemma closed_butlast:
  assumes "\<And>rt. rt \<in> D \<Longrightarrow> rt \<noteq> [] \<Longrightarrow> elder rt \<in> D"
  shows "xs @ [x] \<in> D \<Longrightarrow> xs \<in> D"
proof (induction x)
  case 0
  from assms [OF 0] show ?case by (simp add: elder_def)
next
  case (Suc x)
  from assms [OF Suc.prems] Suc.IH show ?case by (simp add: elder_def)
qed

subsection \<open>The heap\<close>

lemma heap_min_in: "heap_min m es \<in> insert m (set es)"
  by (induction es arbitrary: m) (auto split: if_splits)

lemma heap_min_le: "e \<in> insert m (set es) \<Longrightarrow> fst (heap_min m es) \<le> fst e"
proof (induction es arbitrary: m e)
  case (Cons x es)
  let ?m = "if entry_less x m then x else m"
  have le: "fst ?m \<le> fst x" "fst ?m \<le> fst m" by (auto simp: entry_less_def)
  from Cons.IH [of ?m ?m] le have "fst (heap_min m (x # es)) \<le> fst x" "fst (heap_min m (x # es)) \<le> fst m" by auto
  with Cons.IH [of e ?m] Cons.prems show ?case by auto
qed simp

subsection \<open>What the loop keeps\<close>

definition rect :: "'a list list \<Rightarrow> nat \<Rightarrow> nat \<Rightarrow> bool" where
  "rect m L K \<longleftrightarrow> length m = L \<and> (\<forall>row \<in> set m. length row = K)"

lemma rect_get2: "rect m L K \<Longrightarrow> i < L \<Longrightarrow> k < K \<Longrightarrow> py_get2 m i k = Inr (m ! i ! k)"
  by (simp add: rect_def py_get2_def py_get_def)

definition heap_ranks :: "'s builder \<Rightarrow> nat list list" where
  "heap_ranks b = map (\<lambda>e. snd (snd e)) (bd_heap b)"

definition builder_ok :: "int \<Rightarrow> int list list \<Rightarrow> nat \<Rightarrow> nat \<Rightarrow> nat list list \<Rightarrow> 's builder \<Rightarrow> bool" where
  "builder_ok root ids L K R b \<longleftrightarrow> dtree_ok (bd_tree b) \<and> dt_token (bd_tree b) ! 0 = root \<and> length R = n_nodes (bd_tree b) \<and> distinct R \<and> R \<noteq> [] \<and> R ! 0 = []
     \<and> (\<forall>rt j. bd_ids b rt = Some j \<longleftrightarrow> j < length R \<and> R ! j = rt)
     \<and> (\<forall>j. 0 < j \<and> j < length R \<longrightarrow> valid_ranks L K (R ! j) \<and> elder (R ! j) \<in> set R \<and> dt_depth (bd_tree b) ! j = length (R ! j)
          \<and> (\<exists>p < j. dt_parent (bd_tree b) ! j = Some p \<and> R ! p = butlast (R ! j))
          \<and> dt_token (bd_tree b) ! j = ids ! (length (R ! j) - 1) ! last (R ! j))
     \<and> distinct (heap_ranks b) \<and> set (heap_ranks b) = {rt. valid_ranks L K rt \<and> rt \<notin> set R \<and> elder rt \<in> set R}"

lemma builder_okD:
  assumes "builder_ok root ids L K R b"
  shows "dtree_ok (bd_tree b)" "length R = n_nodes (bd_tree b)" "distinct R" "R \<noteq> []" "R ! 0 = []"
    "bd_ids b rt = Some j \<longleftrightarrow> j < length R \<and> R ! j = rt"
    "0 < j \<Longrightarrow> j < length R \<Longrightarrow> valid_ranks L K (R ! j) \<and> elder (R ! j) \<in> set R \<and> dt_depth (bd_tree b) ! j = length (R ! j)
       \<and> (\<exists>p < j. dt_parent (bd_tree b) ! j = Some p \<and> R ! p = butlast (R ! j))
       \<and> dt_token (bd_tree b) ! j = ids ! (length (R ! j) - 1) ! last (R ! j)"
    "distinct (heap_ranks b)" "set (heap_ranks b) = {rt. valid_ranks L K rt \<and> rt \<notin> set R \<and> elder rt \<in> set R}"
    "dt_token (bd_tree b) ! 0 = root"
  using assms unfolding builder_ok_def by blast+

lemma builder_closed:
  assumes "builder_ok root ids L K R b" "rt \<in> set R" "rt \<noteq> []"
  shows "elder rt \<in> set R"
proof -
  from assms(2) obtain j where j: "j < length R" "R ! j = rt" by (auto simp: in_set_conv_nth)
  with assms(3) builder_okD(5) [OF assms(1)] have "0 < j" by (cases j) auto
  with builder_okD(7) [OF assms(1) this j(1)] j(2) show ?thesis by simp
qed

lemma butlast_in_tree:
  assumes "builder_ok root ids L K R b" "rt \<noteq> []" "elder rt \<in> set R"
  shows "butlast rt \<in> set R"
proof (cases "last rt = 0")
  case False
  then have "butlast rt @ [last rt - 1] \<in> set R" using assms(3) by (simp add: elder_def)
  from closed_butlast [OF builder_closed [OF assms(1)] this] show ?thesis by simp
qed (use assms(3) in \<open>simp add: elder_def\<close>)

definition pushes ::
    "'s::{linorder, plus, minus, uminus} list list \<Rightarrow> nat \<Rightarrow> nat \<Rightarrow> 's \<Rightarrow> nat list \<Rightarrow> ('s \<times> nat list) list" where
  "pushes logp L K score rt =
     (if last rt + 1 < K
      then [(- (score - logp ! (length rt - 1) ! last rt + logp ! (length rt - 1) ! (last rt + 1)), butlast rt @ [last rt + 1])] else [])
     @ (if length rt < L then [(- (score + logp ! length rt ! 0), rt @ [0])] else [])"

lemma grow_step_eq:
  assumes "rect logp L K" "rect ids L K" "valid_ranks L K rt" "bd_ids b (butlast rt) = Some p"
  shows "\<exists>b'. grow_step logp ids L K (neg, tie, rt) b = Inr b'
    \<and> bd_tree b' = add_node (ids ! (length rt - 1) ! last rt) p (length rt) (bd_tree b)
    \<and> bd_ids b' = (bd_ids b)(rt \<mapsto> n_nodes (bd_tree b))
    \<and> map (\<lambda>e. (fst e, snd (snd e))) (bd_heap b') = map (\<lambda>e. (fst e, snd (snd e))) (bd_heap b) @ pushes logp L K (- neg) rt"
proof -
  note v = valid_ranksD [OF assms(3)]
  note G = rect_get2 [OF assms(2) v(1,2), unfolded One_nat_def] rect_get2 [OF assms(1) v(1), unfolded One_nat_def] v(2)
    rect_get2 [OF assms(1) _ v(3)] grow_step_def assms(4) push_sibling_def push_child_def push_entry_def pushes_def Let_def
  show ?thesis
    by (cases "last rt + 1 < K"; cases "length rt < L")
      (simp_all add: G)
qed

lemma pushes_ranks:
  assumes "valid_ranks L K rt"
  shows "set (map snd (pushes logp L K score rt)) = {rt'. valid_ranks L K rt' \<and> elder rt' = rt}" "distinct (map snd (pushes logp L K score rt))"
proof -
  have ne: "rt \<noteq> []" using assms by (simp add: valid_ranks_def)
  have b: "valid_ranks L K (butlast rt @ [last rt + 1]) \<longleftrightarrow> last rt + 1 < K"
    using assms by (auto simp: valid_ranks_def dest: in_set_butlastD)
  have c: "valid_ranks L K (rt @ [0]) \<longleftrightarrow> length rt < L"
    using assms valid_ranksD(3) [OF assms] by (auto simp: valid_ranks_def)
  have e: "valid_ranks L K rt' \<and> elder rt' = rt \<longleftrightarrow> valid_ranks L K rt' \<and> (rt' = rt @ [0] \<or> rt' = butlast rt @ [last rt + 1])" for rt'
    using elder_eq [OF ne, of rt'] by (auto simp: valid_ranks_def)
  show "set (map snd (pushes logp L K score rt)) = {rt'. valid_ranks L K rt' \<and> elder rt' = rt}"
    unfolding e using b c by (auto simp: pushes_def)
  have "butlast rt @ [last rt + 1] \<noteq> rt @ [0]" by simp
  then show "distinct (map snd (pushes logp L K score rt))" by (simp add: pushes_def)
qed

lemma grow_step_ok:
  assumes ok: "builder_ok root ids L K R b" and logp: "rect logp L K" and ids: "rect ids L K" and e: "(neg, tie, rt) \<in> set (bd_heap b)"
  shows "\<exists>b'. grow_step logp ids L K (neg, tie, rt) (b\<lparr>bd_heap := remove1 (neg, tie, rt) (bd_heap b)\<rparr>) = Inr b'
    \<and> builder_ok root ids L K (R @ [rt]) b'
    \<and> map (\<lambda>e. (fst e, snd (snd e))) (bd_heap b')
        = map (\<lambda>e. (fst e, snd (snd e))) (remove1 (neg, tie, rt) (bd_heap b)) @ pushes logp L K (- neg) rt"
proof -
  let ?b = "b\<lparr>bd_heap := remove1 (neg, tie, rt) (bd_heap b)\<rparr>" and ?tok = "ids ! (length rt - 1) ! last rt"
  note D = builder_okD [OF ok]
  have "rt \<in> set (heap_ranks b)" using e by (force simp: heap_ranks_def)
  with D(9) have rt: "valid_ranks L K rt" "rt \<notin> set R" "elder rt \<in> set R" by auto
  have ne: "rt \<noteq> []" using rt(1) by (simp add: valid_ranks_def)
  from butlast_in_tree [OF ok ne rt(3)] obtain p where p: "p < length R" "R ! p = butlast rt" by (auto simp: in_set_conv_nth)
  then have "bd_ids ?b (butlast rt) = Some p" using D(6) by simp
  from grow_step_eq [OF logp ids rt(1) this, of neg tie] obtain b' where
    g: "grow_step logp ids L K (neg, tie, rt) ?b = Inr b'" and t: "bd_tree b' = add_node ?tok p (length rt) (bd_tree b)"
    and i: "bd_ids b' = (bd_ids b)(rt \<mapsto> n_nodes (bd_tree b))"
    and h: "map (\<lambda>e. (fst e, snd (snd e))) (bd_heap b') = map (\<lambda>e. (fst e, snd (snd e))) (remove1 (neg, tie, rt) (bd_heap b)) @ pushes logp L K (- neg) rt"
    by auto
  have d: "length rt = Suc (dt_depth (bd_tree b) ! p)"
  proof (cases "p = 0")
    case True
    with p(2) D(5) have "butlast rt = []" by simp
    with ne have "length rt = 1" by (cases rt) (auto split: if_splits)
    with True D(1) show ?thesis by (simp add: dtree_ok_def parents_ok_def)
  next
    case False
    with D(7) [of p] p ne show ?thesis by simp
  qed
  have pn: "p < n_nodes (bd_tree b)" using p(1) D(2) by simp
  note A = add_node_ok [OF D(1) pn d, of ?tok] and O = add_node_nth [OF D(1), where tok = ?tok and p = p and d = "length rt"]
    and N = add_node_last [OF D(1) pn, of ?tok "length rt"]
  have hr: "heap_ranks b' = map (\<lambda>e. snd (snd e)) (remove1 (neg, tie, rt) (bd_heap b)) @ map snd (pushes logp L K (- neg) rt)"
    using arg_cong [OF h, of "map snd"] by (simp add: heap_ranks_def o_def)
  have "inj_on (\<lambda>e. snd (snd e)) (set (bd_heap b))" using D(8) by (simp add: heap_ranks_def distinct_map)
  moreover have "distinct (bd_heap b)" using D(8) by (simp add: heap_ranks_def distinct_map)
  ultimately have rm: "set (map (\<lambda>e. snd (snd e)) (remove1 (neg, tie, rt) (bd_heap b))) = set (heap_ranks b) - {rt}"
      "distinct (map (\<lambda>e. snd (snd e)) (remove1 (neg, tie, rt) (bd_heap b)))"
    using e by (auto simp: heap_ranks_def distinct_map inj_on_def dest: notin_set_remove1) force+
  have "builder_ok root ids L K (R @ [rt]) b'"
    unfolding builder_ok_def
  proof (intro conjI allI impI)
    show "dtree_ok (bd_tree b')" using A t by simp
    show "dt_token (bd_tree b') ! 0 = root" using O(1) [of 0] pn D(10) t by simp
    show "length (R @ [rt]) = n_nodes (bd_tree b')" using t D(2) by simp
    show "distinct (R @ [rt])" "R @ [rt] \<noteq> []" using D(3) rt(2) by simp_all
    show "(R @ [rt]) ! 0 = []" using D(4,5) by (simp add: nth_append)
    fix rt' j show "bd_ids b' rt' = Some j \<longleftrightarrow> j < length (R @ [rt]) \<and> (R @ [rt]) ! j = rt'"
      using D(2) D(6) rt(2) by (auto simp: i nth_append less_Suc_eq)
  next
    fix j assume j: "0 < j \<and> j < length (R @ [rt])"
    have p': "(R @ [rt]) ! p = butlast rt" using p by (simp add: nth_append)
    have "valid_ranks L K ((R @ [rt]) ! j) \<and> elder ((R @ [rt]) ! j) \<in> set (R @ [rt]) \<and> dt_depth (bd_tree b') ! j = length ((R @ [rt]) ! j)
          \<and> (\<exists>p < j. dt_parent (bd_tree b') ! j = Some p \<and> (R @ [rt]) ! p = butlast ((R @ [rt]) ! j))
          \<and> dt_token (bd_tree b') ! j = ids ! (length ((R @ [rt]) ! j) - 1) ! last ((R @ [rt]) ! j)"
    proof (cases "j = length R")
      case True
      then have "(R @ [rt]) ! j = rt" by simp
      moreover have "p < j" using p(1) True by simp
      ultimately show ?thesis using rt N p' D(2) True unfolding t by simp
    next
      case False
      with j have l: "j < length R" "j < n_nodes (bd_tree b)" "0 < j" using D(2) by simp_all
      have R: "(R @ [rt]) ! i = R ! i" if "i \<le> j" for i using that l(1) by (simp add: nth_append)
      from D(7) [OF l(3,1)] obtain q where q: "q < j" "dt_parent (bd_tree b) ! j = Some q" "R ! q = butlast (R ! j)"
        and r: "valid_ranks L K (R ! j)" "elder (R ! j) \<in> set R" "dt_depth (bd_tree b) ! j = length (R ! j)"
          "dt_token (bd_tree b) ! j = ids ! (length (R ! j) - 1) ! last (R ! j)" by blast
      have "\<exists>p < j. dt_parent (bd_tree b') ! j = Some p \<and> (R @ [rt]) ! p = butlast (R ! j)"
        using q R [of q] O(2) [OF l(2)] by (intro exI [of _ q]) (simp add: t)
      then show ?thesis using r O(1,3) [OF l(2)] R [of j] by (simp add: t)
    qed
    then show "valid_ranks L K ((R @ [rt]) ! j)" "elder ((R @ [rt]) ! j) \<in> set (R @ [rt])" "dt_depth (bd_tree b') ! j = length ((R @ [rt]) ! j)"
      "\<exists>p < j. dt_parent (bd_tree b') ! j = Some p \<and> (R @ [rt]) ! p = butlast ((R @ [rt]) ! j)"
      "dt_token (bd_tree b') ! j = ids ! (length ((R @ [rt]) ! j) - 1) ! last ((R @ [rt]) ! j)" by blast+
  next
    have "elder rt' \<noteq> rt" if "rt' \<in> set (heap_ranks b)" for rt' using that D(9) rt(2) by auto
    then show "distinct (heap_ranks b')" unfolding hr using rm pushes_ranks [OF rt(1), of logp "- neg"] by auto
    have "elder rt \<noteq> rt" using elder_measure [OF ne] by auto
    moreover have "elder rt' \<noteq> rt" if "rt' \<in> set R" "rt' \<noteq> []" for rt' using builder_closed [OF ok that] rt(2) by auto
    ultimately show "set (heap_ranks b') = {rt'. valid_ranks L K rt' \<and> rt' \<notin> set (R @ [rt]) \<and> elder rt' \<in> set (R @ [rt])}"
      unfolding hr set_append rm(1) pushes_ranks(1) [OF rt(1)] D(9) by (auto simp: valid_ranks_def)
  qed
  with g h show ?thesis by blast
qed

lemma grow_ok:
  fixes Q :: "nat list list \<Rightarrow> 's::{linorder, plus, minus, uminus} builder \<Rightarrow> bool"
  assumes rects: "rect logp L K" "rect ids L K"
    and step: "\<And>R b neg tie rt b'. builder_ok root ids L K R b \<Longrightarrow> Q R b \<Longrightarrow> (neg, tie, rt) \<in> set (bd_heap b) \<Longrightarrow>
      (\<forall>e \<in> set (bd_heap b). neg \<le> fst e) \<Longrightarrow>
      map (\<lambda>e. (fst e, snd (snd e))) (bd_heap b')
        = map (\<lambda>e. (fst e, snd (snd e))) (remove1 (neg, tie, rt) (bd_heap b)) @ pushes logp L K (- neg) rt \<Longrightarrow> Q (R @ [rt]) b'"
  shows "builder_ok root ids L K R b \<Longrightarrow> Q R b \<Longrightarrow> \<exists>R' b'. grow logp ids L K left b = Inr b' \<and> builder_ok root ids L K R' b' \<and> Q R' b'
     \<and> length R' \<le> length R + left \<and> (length R' < length R + left \<longrightarrow> bd_heap b' = [])"
proof (induction left arbitrary: R b)
  case (Suc left)
  show ?case
  proof (cases "bd_heap b")
    case Nil
    with Suc.prems show ?thesis by (intro exI [of _ R] exI [of _ b]) simp
  next
    case (Cons x xs)
    obtain neg tie rt where e: "heap_min x xs = (neg, tie, rt)" by (metis prod.exhaust)
    have in_heap: "(neg, tie, rt) \<in> set (bd_heap b)" using heap_min_in [of x xs] Cons e by simp
    have least: "\<forall>y \<in> set (bd_heap b). neg \<le> fst y" using heap_min_le [of _ x xs] Cons e by simp
    from grow_step_ok [OF Suc.prems(1) rects in_heap] obtain b1 where
      g: "grow_step logp ids L K (neg, tie, rt) (b\<lparr>bd_heap := remove1 (neg, tie, rt) (bd_heap b)\<rparr>) = Inr b1"
      and b1: "builder_ok root ids L K (R @ [rt]) b1"
      and h: "map (\<lambda>e. (fst e, snd (snd e))) (bd_heap b1)
        = map (\<lambda>e. (fst e, snd (snd e))) (remove1 (neg, tie, rt) (bd_heap b)) @ pushes logp L K (- neg) rt" by blast
    from Suc.IH [OF b1 step [OF Suc.prems in_heap least h]] obtain R' b' where
      "grow logp ids L K left b1 = Inr b'" "builder_ok root ids L K R' b'" "Q R' b'" "length R' \<le> length (R @ [rt]) + left"
      "length R' < length (R @ [rt]) + left \<longrightarrow> bd_heap b' = []" by blast
    moreover have "grow logp ids L K (Suc left) b = bindR (Inr b1) (grow logp ids L K left)"
      using g Cons e unfolding grow.simps by (simp only: list.case Let_def)
    ultimately show ?thesis by (intro exI [of _ R'] exI [of _ b']) simp
  qed
qed auto

text \<open>Nothing left to pop: every tuple is in the tree.\<close>

lemma heap_empty_full:
  assumes "builder_ok root ids L K R b" "bd_heap b = []" "valid_ranks L K rt"
  shows "rt \<in> set R"
  using assms(3)
proof (induction "sum_list rt + length rt" arbitrary: rt rule: less_induct)
  case less
  have "[] \<in> set R" using builder_okD(4,5) [OF assms(1)] by (metis length_greater_0_conv nth_mem)
  moreover have "elder rt \<in> set R" if "valid_ranks L K (elder rt)"
    using less.hyps [OF elder_measure that] less.prems by (simp add: valid_ranks_def)
  ultimately have "elder rt \<in> set R" using elder_cases [OF less.prems] by auto
  with builder_okD(9) [OF assms(1)] assms(2) less.prems show ?case by (auto simp: heap_ranks_def)
qed

definition start_builder :: "'s::{linorder, plus, minus, uminus} list list \<Rightarrow> int \<Rightarrow> 's builder" where
  "start_builder logp root =
     \<lparr>bd_tree = root_tree root, bd_ids = [[] \<mapsto> 0], bd_heap = [(- (logp ! 0 ! 0), 0, [0])], bd_tie = 1\<rparr>"

lemma start_ok: "0 < L \<Longrightarrow> 0 < K \<Longrightarrow> builder_ok root ids L K [[]] (start_builder logp root)"
proof -
  assume a: "0 < L" "0 < K"
  have "valid_ranks L K rt \<and> rt \<noteq> [] \<and> elder rt = [] \<longleftrightarrow> rt = [0]" for rt
  proof
    assume "valid_ranks L K rt \<and> rt \<noteq> [] \<and> elder rt = []"
    then show "rt = [0]" by (cases rt rule: rev_cases) (auto simp: elder_def split: if_splits)
  qed (use a in \<open>simp add: valid_ranks_def elder_def\<close>)
  then have "{rt. valid_ranks L K rt \<and> rt \<noteq> [] \<and> elder rt = []} = {[0]}" by blast
  then have h: "{[0]} = {rt. valid_ranks L K rt \<and> rt \<notin> set [[]] \<and> elder rt \<in> set [[]]}" by auto
  have i: "([[] \<mapsto> 0] rt = Some j) = (j < length [[]] \<and> [[]] ! j = rt)" for rt :: "nat list" and j :: nat by auto
  show ?thesis unfolding builder_ok_def start_builder_def heap_ranks_def
    using root_tree_ok [of root] h i by (auto simp: root_tree_def)
qed

lemma build_draft_tree_ok:
  fixes Q :: "nat list list \<Rightarrow> 's::{linorder, plus, minus, uminus} builder \<Rightarrow> bool"
  assumes rects: "rect logp L K" "rect ids L K"
    and step: "\<And>R b neg tie rt b'. builder_ok root ids L K R b \<Longrightarrow> Q R b \<Longrightarrow> (neg, tie, rt) \<in> set (bd_heap b) \<Longrightarrow>
      (\<forall>e \<in> set (bd_heap b). neg \<le> fst e) \<Longrightarrow>
      map (\<lambda>e. (fst e, snd (snd e))) (bd_heap b')
        = map (\<lambda>e. (fst e, snd (snd e))) (remove1 (neg, tie, rt) (bd_heap b)) @ pushes logp L K (- neg) rt \<Longrightarrow> Q (R @ [rt]) b'"
    and start: "Q [[]] (start_builder logp root)" and ne: "0 < budget" "0 < L" "0 < K"
  shows "\<exists>R b. build_draft_tree logp ids budget root = Inr (bd_tree b) \<and> builder_ok root ids L K R b \<and> Q R b
    \<and> int (n_nodes (bd_tree b)) - 1 \<le> budget
    \<and> (int (n_nodes (bd_tree b)) - 1 < budget \<longrightarrow> (\<forall>rt. valid_ranks L K rt \<longrightarrow> rt \<in> set R))"
proof -
  have l: "length logp = L" "(case logp of [] \<Rightarrow> 0 | row # _ \<Rightarrow> length row) = K"
    using rects(1) ne(2) by (auto simp: rect_def split: list.split)
  have "\<exists>R b. grow logp ids L K (nat budget) (start_builder logp root) = Inr b \<and> builder_ok root ids L K R b \<and> Q R b
     \<and> length R \<le> length [[] :: nat list] + nat budget \<and> (length R < length [[] :: nat list] + nat budget \<longrightarrow> bd_heap b = [])"
    by (rule grow_ok [where Q = Q, OF rects _ start_ok [OF ne(2,3)] start]) (rule step)
  then obtain R b where
    g: "grow logp ids L K (nat budget) (start_builder logp root) = Inr b" "builder_ok root ids L K R b" "Q R b"
      "length R \<le> 1 + nat budget" "length R < 1 + nat budget \<longrightarrow> bd_heap b = []" by auto
  have n: "length R = n_nodes (bd_tree b)" by (rule builder_okD(2) [OF g(2)])
  show ?thesis
    using g n ne heap_empty_full [OF g(2)] l
    by (intro exI [of _ R] exI [of _ b]) (auto simp: build_draft_tree_def start_builder_def Let_def)
qed

subsection \<open>Best first is best\<close>

definition sigma :: "'s::linordered_ab_group_add list list \<Rightarrow> nat list \<Rightarrow> 's" where
  "sigma logp rt = (\<Sum>i < length rt. logp ! i ! (rt ! i))"

lemma sigma_snoc: "sigma logp (rt @ [r]) = sigma logp rt + logp ! length rt ! r"
  by (simp add: sigma_def nth_append)

text \<open>Log-probabilities, best first at every position.\<close>

definition descending :: "'s::linordered_ab_group_add list list \<Rightarrow> bool" where
  "descending logp \<longleftrightarrow> (\<forall>row \<in> set logp. sorted_wrt (\<ge>) row \<and> (\<forall>x \<in> set row. x \<le> 0))"

lemma sigma_elder:
  assumes "rect logp L K" "descending logp" "valid_ranks L K rt"
  shows "sigma logp rt \<le> sigma logp (elder rt)"
proof -
  obtain xs x where rt: "rt = xs @ [x]" using assms(3) by (cases rt rule: rev_cases) (auto simp: valid_ranks_def)
  have l: "length xs < L" "x < K" using assms(3) by (auto simp: rt valid_ranks_def)
  then have row: "logp ! length xs \<in> set logp" "length (logp ! length xs) = K" using assms(1) by (auto simp: rect_def)
  show ?thesis
  proof (cases x)
    case 0
    have "logp ! length xs ! x \<le> 0" using assms(2) row l(2) by (auto simp: descending_def)
    with 0 show ?thesis by (simp add: rt elder_def sigma_snoc)
  next
    case (Suc y)
    have "sorted_wrt (\<ge>) (logp ! length xs)" using assms(2) row(1) by (simp add: descending_def)
    from sorted_wrt_nth_less [OF this, of y x] Suc l(2) row(2) have "logp ! length xs ! x \<le> logp ! length xs ! y" by simp
    with Suc show ?thesis by (simp add: rt elder_def sigma_snoc)
  qed
qed

definition best_so_far :: "'s::linordered_ab_group_add list list \<Rightarrow> nat \<Rightarrow> nat \<Rightarrow> nat list list \<Rightarrow> 's builder \<Rightarrow> bool" where
  "best_so_far logp L K R b \<longleftrightarrow> (\<forall>e \<in> set (map (\<lambda>e. (fst e, snd (snd e))) (bd_heap b)). fst e = - sigma logp (snd e))
     \<and> (\<forall>rt \<in> set R. \<forall>rt'. rt \<noteq> [] \<and> valid_ranks L K rt' \<and> rt' \<notin> set R \<longrightarrow> sigma logp rt' \<le> sigma logp rt)"

text \<open>Everything outside the tree is below something in the heap.\<close>

lemma heap_dominates:
  assumes "builder_ok root ids L K R b" "rect logp L K" "descending logp" "valid_ranks L K rt" "rt \<notin> set R"
  shows "\<exists>h \<in> set (heap_ranks b). sigma logp rt \<le> sigma logp h"
  using assms(4,5)
proof (induction "sum_list rt + length rt" arbitrary: rt rule: less_induct)
  case less
  show ?case
  proof (cases "elder rt \<in> set R")
    case True
    with builder_okD(9) [OF assms(1)] less.prems show ?thesis by (intro bexI [of _ rt]) auto
  next
    case False
    have "[] \<in> set R" using builder_okD(4,5) [OF assms(1)] by (metis length_greater_0_conv nth_mem)
    with False elder_cases [OF less.prems(1)] have v: "valid_ranks L K (elder rt)" by auto
    have "rt \<noteq> []" using less.prems(1) by (simp add: valid_ranks_def)
    from less.hyps [OF elder_measure [OF this] v False] obtain h where "h \<in> set (heap_ranks b)" "sigma logp (elder rt) \<le> sigma logp h" by blast
    with sigma_elder [OF assms(2,3) less.prems(1)] show ?thesis by (intro bexI [of _ h]) auto
  qed
qed

lemma pushes_sigma:
  assumes "valid_ranks L K rt" "e \<in> set (pushes logp L K (sigma logp rt) rt)"
  shows "fst e = - sigma logp (snd e)"
proof -
  obtain xs x where rt: "rt = xs @ [x]" using assms(1) by (cases rt rule: rev_cases) (auto simp: valid_ranks_def)
  show ?thesis using assms(2) by (auto simp: pushes_def rt sigma_snoc split: if_splits)
      (simp_all add: sigma_def nth_append)
qed

lemma best_step:
  assumes ok: "builder_ok root ids L K R b" and logp: "rect logp L K" "descending logp" and best: "best_so_far logp L K R b"
    and e: "(neg, tie, rt) \<in> set (bd_heap b)" and least: "\<forall>e \<in> set (bd_heap b). neg \<le> fst e"
    and h: "map (\<lambda>e. (fst e, snd (snd e))) (bd_heap b')
      = map (\<lambda>e. (fst e, snd (snd e))) (remove1 (neg, tie, rt) (bd_heap b)) @ pushes logp L K (- neg) rt"
  shows "best_so_far logp L K (R @ [rt]) b'"
proof -
  have "rt \<in> set (heap_ranks b)" using e by (force simp: heap_ranks_def)
  with builder_okD(9) [OF ok] have v: "valid_ranks L K rt" by auto
  have s: "fst x = - sigma logp (snd (snd x))" if "x \<in> set (bd_heap b)" for x
    using best that unfolding best_so_far_def by (metis (no_types, lifting) fst_conv snd_conv image_eqI list.set_map)
  have neg: "- neg = sigma logp rt" using s [OF e] by simp
  have "fst y = - sigma logp (snd y)" if "y \<in> set (map (\<lambda>e. (fst e, snd (snd e))) (bd_heap b'))" for y
  proof (cases "y \<in> set (pushes logp L K (sigma logp rt) rt)")
    case False
    with that obtain x where x: "x \<in> set (remove1 (neg, tie, rt) (bd_heap b))" "y = (fst x, snd (snd x))" unfolding h neg by auto
    then have "x \<in> set (bd_heap b)" using set_remove1_subset by fast
    from s [OF this] x(2) show ?thesis by simp
  qed (rule pushes_sigma [OF v])
  moreover have "sigma logp rt' \<le> sigma logp r" if r: "r \<in> set (R @ [rt])" "r \<noteq> []" "valid_ranks L K rt'" "rt' \<notin> set (R @ [rt])" for r rt'
  proof (cases "r \<in> set R")
    case True
    with best r show ?thesis unfolding best_so_far_def by auto
  next
    case False
    with r(1) have "r = rt" by simp
    from heap_dominates [OF ok logp r(3)] r(4) obtain g where g: "g \<in> set (heap_ranks b)" "sigma logp rt' \<le> sigma logp g" by auto
    then obtain x where x: "x \<in> set (bd_heap b)" "g = snd (snd x)" by (auto simp: heap_ranks_def)
    with s [OF x(1)] least neg have "sigma logp g \<le> sigma logp rt" by (metis neg_le_iff_le minus_minus)
    with g(2) \<open>r = rt\<close> show ?thesis by simp
  qed
  ultimately show ?thesis unfolding best_so_far_def by blast
qed

lemma best_start: "best_so_far logp L K [[]] (start_builder logp root)"
  by (simp add: best_so_far_def start_builder_def sigma_def)

subsection \<open>Filling a template\<close>

definition template_ok :: "static_template \<Rightarrow> bool" where
  "template_ok t \<longleftrightarrow> parents_ok (st_parent t) (st_depth t)"

definition fill_prefix :: "static_template \<Rightarrow> int list list \<Rightarrow> int \<Rightarrow> nat \<Rightarrow> dtree" where
  "fill_prefix t ids root m = fold (fill_step t ids root) [1..<m]
     \<lparr>dt_token = root # replicate (length (st_parent t) - 1) 0, dt_parent = st_parent t, dt_depth = st_depth t,
      dt_children = replicate (length (st_parent t)) Map.empty\<rparr>"

lemma fill_prefix_Suc: "0 < m \<Longrightarrow> fill_prefix t ids root (Suc m) = fill_step t ids root m (fill_prefix t ids root m)"
  by (simp add: fill_prefix_def)

lemma fill_prefix_fields:
  assumes "template_ok t"
  shows "dt_parent (fill_prefix t ids root m) = st_parent t" "dt_depth (fill_prefix t ids root m) = st_depth t"
    "length (dt_token (fill_prefix t ids root m)) = length (st_parent t)"
    "length (dt_children (fill_prefix t ids root m)) = length (st_parent t)"
    "dt_token (fill_prefix t ids root m) ! 0 = root"
proof -
  have "st_parent t \<noteq> []" using assms by (simp add: template_ok_def parents_ok_def)
  then have z: "Suc (length (st_parent t) - Suc 0) = length (st_parent t)" by simp
  let ?P = "\<lambda>m. dt_parent (fill_prefix t ids root m) = st_parent t \<and> dt_depth (fill_prefix t ids root m) = st_depth t
    \<and> length (dt_token (fill_prefix t ids root m)) = length (st_parent t)
    \<and> length (dt_children (fill_prefix t ids root m)) = length (st_parent t)
    \<and> dt_token (fill_prefix t ids root m) ! 0 = root"
  have "?P m"
  proof (induction m)
    case (Suc m)
    show ?case
    proof (cases "0 < m")
      case True
      with Suc show ?thesis unfolding fill_prefix_Suc [OF True] by (simp add: fill_step_def Let_def split: option.split)
    qed (simp add: fill_prefix_def z)
  qed (simp add: fill_prefix_def z)
  then show "dt_parent (fill_prefix t ids root m) = st_parent t" "dt_depth (fill_prefix t ids root m) = st_depth t"
    "length (dt_token (fill_prefix t ids root m)) = length (st_parent t)"
    "length (dt_children (fill_prefix t ids root m)) = length (st_parent t)"
    "dt_token (fill_prefix t ids root m) ! 0 = root" by simp_all
qed

text \<open>The dicts of the nodes filled so far.\<close>

lemma fill_prefix_children:
  assumes ok: "template_ok t"
  shows "0 < m \<Longrightarrow> m \<le> length (st_parent t) \<Longrightarrow>
     (\<forall>p < length (st_parent t). \<forall>tok c. (dt_children (fill_prefix t ids root m) ! p) tok = Some c \<longrightarrow>
        p < c \<and> c < m \<and> st_parent t ! c = Some p \<and> dt_token (fill_prefix t ids root m) ! c = tok)
     \<and> (\<forall>j < m. \<forall>p. st_parent t ! j = Some p \<longrightarrow> (dt_children (fill_prefix t ids root m) ! p) (dt_token (fill_prefix t ids root m) ! j) \<noteq> None)"
proof (induction m)
  case (Suc m)
  let ?n = "length (st_parent t)" and ?T = "fill_prefix t ids root m" and ?T' = "fill_prefix t ids root (Suc m)"
  have P: "parents_ok (st_parent t) (st_depth t)" using ok by (simp add: template_ok_def)
  show ?case
  proof (cases "0 < m")
    case False
    have "fill_prefix t ids root (Suc m) = fill_prefix t ids root 0" using False by (simp add: fill_prefix_def)
    with False P show ?thesis by (auto simp: fill_prefix_def parents_ok_def)
  next
    case True
    with P Suc.prems obtain p where p: "p < m" "st_parent t ! m = Some p" by (auto simp: parents_ok_def)
    note F = fill_prefix_fields [OF ok, of ids root m]
    define tok where "tok = fill_node t ids root m"
    have T': "dt_token ?T' = (dt_token ?T)[m := tok]" "dt_children ?T' = (dt_children ?T)[p := setdefault tok m (dt_children ?T ! p)]"
      unfolding fill_prefix_Suc [OF True] by (simp_all add: fill_step_def Let_def p(2) tok_def)
    have I1: "q < c \<and> c < m \<and> st_parent t ! c = Some q \<and> dt_token ?T ! c = tk"
      if "q < ?n" "(dt_children ?T ! q) tk = Some c" for q tk c using Suc.IH True Suc.prems that by auto
    have I2: "(dt_children ?T ! q) (dt_token ?T ! j) \<noteq> None" if "j < m" "st_parent t ! j = Some q" for j q
      using Suc.IH True Suc.prems that by auto
    have tk: "dt_token ?T' ! j = (if j = m then tok else dt_token ?T ! j)" for j
      using F(3) Suc.prems by (auto simp: T'(1))
    have ch: "dt_children ?T' ! q = (if q = p then setdefault tok m (dt_children ?T ! p) else dt_children ?T ! q)" for q
      using F(4) p Suc.prems by (auto simp: T'(2))
    show ?thesis
    proof (intro conjI allI impI)
      fix q tk' c assume q: "q < ?n" and c: "(dt_children ?T' ! q) tk' = Some c"
      then consider "(dt_children ?T ! q) tk' = Some c" | "q = p" "tk' = tok" "c = m"
        by (auto simp: ch setdefault_def split: if_splits)
      then have "q < c \<and> c < Suc m \<and> st_parent t ! c = Some q \<and> dt_token ?T' ! c = tk'"
        by cases (use I1 [OF q] p tk in \<open>auto intro: less_SucI\<close>)
      then show "q < c" "c < Suc m" "st_parent t ! c = Some q" "dt_token ?T' ! c = tk'" by simp_all
    next
      fix j q assume j: "j < Suc m" "st_parent t ! j = Some q"
      show "(dt_children ?T' ! q) (dt_token ?T' ! j) \<noteq> None"
      proof (cases "j = m")
        case True
        with j(2) p(2) tk show ?thesis by (simp add: ch setdefault_def)
      next
        case False
        with j I2 [of j q] tk show ?thesis by (auto simp: ch setdefault_def)
      qed
    qed
  qed
qed simp

lemma fill_static_template_ok:
  assumes "template_ok t"
  shows "dtree_ok (fill_static_template t ids root)" "dt_token (fill_static_template t ids root) ! 0 = root"
    "n_nodes (fill_static_template t ids root) = length (st_parent t)"
proof -
  have e: "fill_static_template t ids root = fill_prefix t ids root (length (st_parent t))"
    by (simp add: fill_static_template_def fill_prefix_def Let_def)
  have P: "parents_ok (st_parent t) (st_depth t)" using assms by (simp add: template_ok_def)
  then have "0 < length (st_parent t)" by (simp add: parents_ok_def)
  note F = fill_prefix_fields [OF assms, of ids root "length (st_parent t)"]
    and C = fill_prefix_children [OF assms this order_refl, of ids root]
  show n: "n_nodes (fill_static_template t ids root) = length (st_parent t)" using F by (simp add: e n_nodes_def)
  show "dt_token (fill_static_template t ids root) ! 0 = root" using F by (simp add: e)
  have "children_ok (fill_static_template t ids root)" unfolding children_ok_def n unfolding e F(1) by (rule C)
  then show "dtree_ok (fill_static_template t ids root)" using P F n by (simp add: dtree_ok_def e)
qed

lemma build_static_template_ok:
  fixes geo :: "nat \<Rightarrow> 's::{linorder, plus, minus, uminus}"
  assumes "build_static_template geo budget top_k block_len = Inr t"
  shows "template_ok t" "int (length (st_parent t)) - 1 = budget"
proof -
  let ?logp = "replicate block_len (map geo [0..<top_k])" and ?ids = "replicate block_len (map int [0..<top_k])"
  have pos: "0 < budget" "0 < block_len" "0 < top_k" using assms by (auto simp: build_static_template_def split: if_splits)
  have "rect ?logp block_len top_k" "rect ?ids block_len top_k" by (auto simp: rect_def)
  from build_draft_tree_ok [where Q = "\<lambda>_ _. True", OF this TrueI TrueI pos, of "- 1"] obtain R and b :: "'s builder" where
    "build_draft_tree ?logp ?ids budget (- 1) = Inr (bd_tree b)" "builder_ok (- 1) ?ids block_len top_k R b" by blast
  with assms pos builder_okD(1) have "t = \<lparr>st_parent = dt_parent (bd_tree b), st_depth = dt_depth (bd_tree b), st_rank = dt_token (bd_tree b)\<rparr>"
    "int (n_nodes (bd_tree b)) - 1 = budget" "dtree_ok (bd_tree b)"
    by (auto simp: build_static_template_def split: if_splits)
  then show "template_ok t" "int (length (st_parent t)) - 1 = budget" by (simp_all add: template_ok_def dtree_ok_def)
qed

end
