(* ===== verification/Spec_Tree_Layout.thy ===== *)
theory Spec_Tree_Layout
  imports Spec_Tree_Build
begin

section \<open>Draft trees: layouts\<close>

text \<open>
  What the masks allow: a node sees the committed prefix and its own ancestors, at consecutive
  positions, however the mask is built; in the segmented layout the rows before a node are its
  closest ancestors.
\<close>

subsection \<open>Layouts\<close>

lemma allow_row_nth:
  assumes "c < m + n"
  shows "allow_cells (map (\<lambda>a. m + a) as) (replicate m True @ replicate n False) ! c \<longleftrightarrow> c < m \<or> c - m \<in> set as"
proof -
  have "c \<in> (\<lambda>a. m + a) ` set as \<longleftrightarrow> m \<le> c \<and> c - m \<in> set as"
    by (metis (no_types, lifting) diff_add_inverse image_iff le_add1 le_add_diff_inverse)
  then show ?thesis using assms by (subst nth_allow_cells) (auto simp: nth_append)
qed

text \<open>The columns a node sees: the whole prefix, then its ancestors from the root down.\<close>

lemma allow_row_filter:
  assumes "sorted_wrt (>) as" "\<forall>a \<in> set as. a < n"
  shows "filter (\<lambda>c. allow_cells (map (\<lambda>a. m + a) as) (replicate m True @ replicate n False) ! c) [0..<m + n] = [0..<m] @ map (\<lambda>a. m + a) (rev as)"
proof -
  have "filter (\<lambda>c. allow_cells (map (\<lambda>a. m + a) as) (replicate m True @ replicate n False) ! c) [0..<m + n]
      = filter (\<lambda>c. c \<in> set ([0..<m] @ map (\<lambda>a. m + a) (rev as))) [0..<m + n]"
  proof (rule filter_cong [OF refl])
    fix c assume "c \<in> set [0..<m + n]"
    moreover have "c \<in> (\<lambda>a. m + a) ` set as \<longleftrightarrow> m \<le> c \<and> c - m \<in> set as"
      by (metis (no_types, lifting) diff_add_inverse image_iff le_add1 le_add_diff_inverse)
    ultimately show "allow_cells (map (\<lambda>a. m + a) as) (replicate m True @ replicate n False) ! c
      = (c \<in> set ([0..<m] @ map (\<lambda>a. m + a) (rev as)))" by (auto simp: allow_row_nth)
  qed
  also have "\<dots> = [0..<m] @ map (\<lambda>a. m + a) (rev as)"
    by (rule filter_mem_upt) (use assms in \<open>auto simp: sorted_wrt_append sorted_wrt_map sorted_wrt_rev\<close>)
  finally show ?thesis .
qed

lemma ancs_below:
  assumes "dtree_ok t" "j < n_nodes t"
  shows "sorted_wrt (>) (ancs (dt_parent t) j)" "\<forall>a \<in> set (ancs (dt_parent t) j). a < n_nodes t"
  using ancs_shape [of "dt_parent t" "dt_depth t" j] assms by (auto simp: dtree_ok_def)

lemma layout_eq:
  assumes "dtree_ok t"
  shows "ddtree_paged_layout m t = Some (Inr (map (\<lambda>j. m + dt_depth t ! j) [0..<n_nodes t],
     map (\<lambda>j. allow_cells (map (\<lambda>a. m + a) (ancs (dt_parent t) j)) (replicate m True @ replicate (n_nodes t) False)) [0..<n_nodes t],
     map (\<lambda>j. m + j) [0..<n_nodes t]))"
  using assms walk_all_eq [of "dt_parent t" "dt_depth t" "[0..<n_nodes t]"]
  by (simp add: ddtree_paged_layout_def Let_def dtree_ok_def o_def)

text \<open>
  The target's choices under a mask: each row's is a function of the tokens in the columns it may
  attend to.
\<close>

definition tree_targets :: "(int list \<Rightarrow> int) \<Rightarrow> int list \<Rightarrow> dtree \<Rightarrow> bool list list \<Rightarrow> int list" where
  "tree_targets lm pre t msk =
     map (\<lambda>row. lm (map (\<lambda>c. (pre @ dt_token t) ! c) (filter (\<lambda>c. row ! c) [0..<length pre + n_nodes t]))) msk"

lemma tree_targets_path:
  assumes "dtree_ok t" "ddtree_paged_layout (length pre) t = Some (Inr (pos, msk, cols))"
  shows "length (tree_targets lm pre t msk) = n_nodes t"
    "j < n_nodes t \<Longrightarrow> tree_targets lm pre t msk ! j = lm ((pre @ [dt_token t ! 0]) @ path t j)"
proof -
  have msk: "msk = map (\<lambda>j. allow_cells (map (\<lambda>a. length pre + a) (ancs (dt_parent t) j))
      (replicate (length pre) True @ replicate (n_nodes t) False)) [0..<n_nodes t]"
    using assms layout_eq [OF assms(1)] by simp
  then show "length (tree_targets lm pre t msk) = n_nodes t" by (simp add: tree_targets_def)
  assume j: "j < n_nodes t"
  have p: "map (\<lambda>c. (pre @ dt_token t) ! c) [0..<length pre] = pre"
    by (rule nth_equalityI) (simp_all add: nth_append)
  have q: "map (\<lambda>c. (pre @ dt_token t) ! c) (map (\<lambda>a. length pre + a) (rev (ancs (dt_parent t) j))) = dt_token t ! 0 # path t j"
    unfolding path_tokens [OF assms(1) j, symmetric] by (simp add: nth_append)
  show "tree_targets lm pre t msk ! j = lm ((pre @ [dt_token t ! 0]) @ path t j)"
    unfolding tree_targets_def msk using j
    by (simp add: allow_row_filter [OF ancs_below [OF assms(1) j]] p q [unfolded map_map] del: upt_Suc)
qed

lemma ddtree_walk_ok:
  assumes "dtree_ok t" "ddtree_paged_layout (length pre) t = Some (Inr (pos, msk, cols))"
  shows "\<exists>acc bonus. ddtree_walk (tree_targets lm pre t msk) t = Some (Inr (acc, bonus))
    \<and> acc @ [bonus] = greedy lm (pre @ [dt_token t ! 0]) (Suc (length acc)) \<and> (\<exists>j < n_nodes t. path t j = acc)
    \<and> (siblings_differ t \<longrightarrow> (\<forall>j < n_nodes t. \<forall>k. path t j = greedy lm (pre @ [dt_token t ! 0]) k \<longrightarrow> k \<le> length acc))"
proof -
  have z: "0 < n_nodes t" using assms(1) by (auto simp: dtree_ok_def parents_ok_def)
  from walk_tree_greedy [OF assms(1) tree_targets_path [OF assms] z] show ?thesis
    unfolding ddtree_walk_def path_root [OF assms(1)] append_Nil append_Nil2 .
qed

subsection \<open>The flat block\<close>

lemma flat_cells:
  assumes "\<And>j. j < n \<Longrightarrow> \<forall>a \<in> set (f j). a < q" "a < q"
  shows "j * q + a \<in> set (concat (map (\<lambda>(j, as). map (\<lambda>a. j * q + a) as) (zip [0..<n] (map f [0..<n])))) \<longleftrightarrow> j < n \<and> a \<in> set (f j)"
proof -
  have z: "zip [0..<n] (map f [0..<n]) = map (\<lambda>j. (j, f j)) [0..<n]" by (simp add: zip_map2 zip_same_conv_map)
  have u: "i * q + b = j * q + a \<longleftrightarrow> i = j \<and> b = a" if "b < q" for i b
  proof
    assume e: "i * q + b = j * q + a"
    have "(i * q + b) div q = i" "(j * q + a) div q = j" using that assms(2) by simp_all
    then have "i = j" using e by simp
    with e show "i = j \<and> b = a" by simp
  qed simp
  have "j * q + a \<in> set (concat (map (\<lambda>(j, as). map (\<lambda>a. j * q + a) as) (map (\<lambda>j. (j, f j)) [0..<n])))
      \<longleftrightarrow> (\<exists>i < n. \<exists>b \<in> set (f i). j * q + a = i * q + b)" by (auto simp: image_iff)
  also have "\<dots> \<longleftrightarrow> (\<exists>i < n. \<exists>b \<in> set (f i). i = j \<and> b = a)" using assms(1) u by metis
  finally show ?thesis unfolding z by auto
qed

lemma ancestor_block_host_eq:
  assumes "parents_ok ps ds" "length ps = n" "n \<le> q"
  shows "\<exists>flat. ancestor_block_host ps n q = Some (Inr flat) \<and> length flat = q * q
    \<and> (\<forall>j < q. \<forall>a < q. flat ! (j * q + a) \<longleftrightarrow> n \<le> j \<or> a \<in> set (ancs ps j))"
proof -
  let ?cells = "concat (map (\<lambda>(j, as). map (\<lambda>a. j * q + a) as) (zip [0..<n] (map (ancs ps) [0..<n])))"
  let ?pads = "concat (map (\<lambda>j. map (\<lambda>c. j * q + c) [0..<q]) [n..<q])"
  have below: "\<forall>a \<in> set (ancs ps j). a < q" if "j < n" for j
    using ancs_shape [OF assms(1), of j] that assms(2,3) by auto
  have z: "zip [0..<n] (map (ancs ps) [0..<n]) = map (\<lambda>j. (j, ancs ps j)) [0..<n]" by (simp add: zip_map2 zip_same_conv_map)
  have range: "c < q * q" if "c \<in> set (?cells @ ?pads)" for c
  proof -
    have "\<exists>j < q. \<exists>a < q. c = j * q + a" if "c \<in> set ?pads"
    proof -
      from that obtain x where x: "x < q" "x * q \<le> c" "c < q + x * q" by auto
      then have "c - x * q < q" "c = x * q + (c - x * q)" by simp_all
      with x(1) show ?thesis by blast
    qed
    moreover have "\<exists>j < n. \<exists>a \<in> set (ancs ps j). c = j * q + a" if "c \<in> set ?cells" using that unfolding z by auto
    ultimately have "(\<exists>j < n. \<exists>a \<in> set (ancs ps j). c = j * q + a) \<or> (\<exists>j < q. \<exists>a < q. c = j * q + a)"
      using that unfolding set_append Un_iff by blast
    then obtain j a where "c = j * q + a" "j < q" "a < q"
    proof
      assume "\<exists>j < n. \<exists>a \<in> set (ancs ps j). c = j * q + a"
      then obtain j a where "j < n" "a \<in> set (ancs ps j)" "c = j * q + a" by auto
      with below [of j] assms(3) show ?thesis by (intro that [of j a]) auto
    qed (use that in auto)
    then have "c < Suc j * q" by simp
    also have "\<dots> \<le> q * q" using \<open>j < q\<close> by (intro mult_le_mono1) simp
    finally show ?thesis .
  qed
  have pads: "j * q + a \<in> set ?pads \<longleftrightarrow> n \<le> j \<and> j < q" if "a < q" for j a
  proof
    assume "j * q + a \<in> set ?pads"
    then obtain i where i: "n \<le> i" "i < q" "i * q \<le> j * q + a" "j * q + a < q + i * q" by auto
    have "j * q + a < q * Suc i" "q * i \<le> j * q + a" using i(3,4) by (simp_all add: ac_simps)
    then have "(j * q + a) div q = i" by (intro div_nat_eqI) (simp_all add: ac_simps)
    then show "n \<le> j \<and> j < q" using that i(1,2) by simp
  next
    assume "n \<le> j \<and> j < q"
    with that show "j * q + a \<in> set ?pads" by (auto intro!: bexI [of _ j])
  qed
  have "flat ! (j * q + a) \<longleftrightarrow> n \<le> j \<or> a \<in> set (ancs ps j)"
    if "flat = allow_cells (?cells @ ?pads) (replicate (q * q) False)" "j < q" "a < q" for flat j a
  proof -
    have "j * q + a < Suc j * q" using that(3) by simp
    also have "\<dots> \<le> q * q" using that(2) by (intro mult_le_mono1) simp
    finally show ?thesis using that flat_cells [of n "ancs ps" q a j, OF below that(3)] pads [OF that(3), of j]
      by (subst that(1), subst nth_allow_cells) auto
  qed
  note cell = this
  have w: "walk_all ps [0..<n] = Some (Inr (map (ancs ps) [0..<n]))" by (rule walk_all_eq [OF assms(1)]) (simp add: assms(2))
  have no: "\<not> (\<exists>c \<in> set (?cells @ ?pads). c \<ge> q * q)" using range not_le by blast
  have "ancestor_block_host ps n q = (if \<exists>c \<in> set (?cells @ ?pads). c \<ge> q * q then Some (Inl IndexError)
      else Some (Inr (allow_cells (?cells @ ?pads) (replicate (q * q) False))))"
    unfolding ancestor_block_host_def w bindX_simps Let_def ..
  then have "ancestor_block_host ps n q = Some (Inr (allow_cells (?cells @ ?pads) (replicate (q * q) False)))"
    by (simp only: if_not_P [OF no])
  with cell [OF refl] show ?thesis by (metis length_allow_cells length_replicate)
qed

lemma template_block_eq:
  assumes "template_ok t"
  shows "\<exists>blk. template_ancestor_block t = Some (Inr blk) \<and> length blk = length (st_parent t)
    \<and> (\<forall>row \<in> set blk. length row = length (st_parent t))
    \<and> (\<forall>j < length (st_parent t). \<forall>a < length (st_parent t). blk ! j ! a \<longleftrightarrow> a \<in> set (ancs (st_parent t) j))"
  using walk_all_eq [of "st_parent t" "st_depth t" "[0..<length (st_parent t)]"] assms
  by (simp add: template_ancestor_block_def Let_def template_ok_def nth_allow_cells)

subsection \<open>Segments\<close>

definition segs :: "nat \<Rightarrow> nat option list \<Rightarrow> nat \<Rightarrow> segments" where
  "segs w ps n = fold (seg_step w) (map (\<lambda>j. (j, ancs ps j)) [0..<n]) \<lparr>sg_rep = [], sg_ctx = [], sg_rows = []\<rparr>"

lemma segs_Suc: "segs w ps (Suc n) = seg_step w (n, ancs ps n) (segs w ps n)"
  by (simp add: segs_def)

lemma segs_window:
  assumes "i < length anc" "length cs = length xs"
  shows "(xs @ rev anc @ [n]) ! (length xs + length anc - 1 - i) = anc ! i"
    "(cs @ map (\<lambda>_. True) anc @ [False]) ! (length xs + length anc - 1 - i)"
proof -
  have e: "length xs + length anc - 1 - i = length xs + (length anc - 1 - i)" using assms(1) by simp
  have k: "length anc - 1 - i < length anc" using assms(1) by simp
  have "rev anc ! (length anc - 1 - i) = anc ! i" using assms(1) by (simp add: rev_nth)
  then show "(xs @ rev anc @ [n]) ! (length xs + length anc - 1 - i) = anc ! i"
    "(cs @ map (\<lambda>_. True) anc @ [False]) ! (length xs + length anc - 1 - i)"
    using assms(2) k unfolding e by (simp_all add: nth_append)
qed

lemma segs_shape:
  "length (sg_rows (segs w ps n)) = n \<and> length (sg_ctx (segs w ps n)) = length (sg_rep (segs w ps n))
   \<and> (\<forall>j < n. let r = sg_rows (segs w ps n) ! j; anc = take (w - 1) (tl (ancs ps j))
        in r < length (sg_rep (segs w ps n)) \<and> sg_rep (segs w ps n) ! r = j \<and> \<not> sg_ctx (segs w ps n) ! r
           \<and> length anc \<le> r \<and> (\<forall>i < length anc. sg_rep (segs w ps n) ! (r - 1 - i) = anc ! i \<and> sg_ctx (segs w ps n) ! (r - 1 - i)))"
proof (induction n)
  case 0
  show ?case by (simp add: segs_def)
next
  case (Suc n)
  let ?s = "segs w ps n" and ?anc = "take (w - 1) (tl (ancs ps n))"
  have s: "sg_rep (segs w ps (Suc n)) = sg_rep ?s @ rev ?anc @ [n]" "sg_ctx (segs w ps (Suc n)) = sg_ctx ?s @ map (\<lambda>_. True) ?anc @ [False]"
    "sg_rows (segs w ps (Suc n)) = sg_rows ?s @ [length (sg_rep ?s) + length ?anc]"
    by (simp_all add: segs_Suc seg_step_def Let_def)
  show ?case
  proof (intro conjI allI impI)
    show "length (sg_rows (segs w ps (Suc n))) = Suc n" "length (sg_ctx (segs w ps (Suc n))) = length (sg_rep (segs w ps (Suc n)))"
      using Suc by (simp_all add: s)
    fix j assume j: "j < Suc n"
    show "let r = sg_rows (segs w ps (Suc n)) ! j; anc = take (w - 1) (tl (ancs ps j))
      in r < length (sg_rep (segs w ps (Suc n))) \<and> sg_rep (segs w ps (Suc n)) ! r = j \<and> \<not> sg_ctx (segs w ps (Suc n)) ! r
         \<and> length anc \<le> r \<and> (\<forall>i < length anc. sg_rep (segs w ps (Suc n)) ! (r - 1 - i) = anc ! i \<and> sg_ctx (segs w ps (Suc n)) ! (r - 1 - i))"
    proof (cases "j = n")
      case True
      have l: "length (sg_ctx ?s) = length (sg_rep ?s)" "length (sg_rows ?s) = n" using Suc by simp_all
      have "r = length (sg_rep ?s) + length ?anc \<Longrightarrow> r < length (sg_rep (segs w ps (Suc n))) \<and> sg_rep (segs w ps (Suc n)) ! r = n
          \<and> \<not> sg_ctx (segs w ps (Suc n)) ! r \<and> length ?anc \<le> r" for r
        using l by (simp add: s nth_append)
      moreover have "sg_rows (segs w ps (Suc n)) ! n = length (sg_rep ?s) + length ?anc" using l by (simp add: s nth_append)
      ultimately show ?thesis using True segs_window(1) [of _ ?anc "sg_ctx ?s" "sg_rep ?s" n, OF _ l(1)]
        segs_window(2) [of _ ?anc "sg_ctx ?s" "sg_rep ?s", OF _ l(1)] unfolding Let_def by (simp add: s)
    next
      case False
      with j have j': "j < n" by simp
      from Suc j' have r: "sg_rows ?s ! j < length (sg_rep ?s)" "length (sg_ctx ?s) = length (sg_rep ?s)" "length (sg_rows ?s) = n"
        by (simp_all add: Let_def)
      have k: "sg_rows ?s ! j - 1 - i < length (sg_rep ?s)" for i using r(1) by simp
      have "sg_rows ?s ! j < Suc (length (sg_rep ?s) + x)" for x using r(1) by simp
      with Suc j' r k show ?thesis by (simp add: s Let_def nth_append)
    qed
  qed
qed

text \<open>What lies before a segment: the real row of the node before.\<close>

lemma segs_before:
  assumes "Suc j < n"
  shows "let r = sg_rows (segs w ps n) ! Suc j; anc = take (w - 1) (tl (ancs ps (Suc j)))
    in length anc < r \<and> sg_rep (segs w ps n) ! (r - 1 - length anc) = j \<and> \<not> sg_ctx (segs w ps n) ! (r - 1 - length anc)"
  using assms
proof (induction n)
  case (Suc n)
  let ?s = "segs w ps n" and ?anc = "take (w - 1) (tl (ancs ps n))"
  have s: "sg_rep (segs w ps (Suc n)) = sg_rep ?s @ rev ?anc @ [n]" "sg_ctx (segs w ps (Suc n)) = sg_ctx ?s @ map (\<lambda>_. True) ?anc @ [False]"
    "sg_rows (segs w ps (Suc n)) = sg_rows ?s @ [length (sg_rep ?s) + length ?anc]"
    by (simp_all add: segs_Suc seg_step_def Let_def)
  note sh = segs_shape [of w ps n]
  show ?case
  proof (cases "Suc j = n")
    case True
    have e: "sg_rep ?s = sg_rep (segs w ps j) @ rev (take (w - 1) (tl (ancs ps j))) @ [j]"
      "sg_ctx ?s = sg_ctx (segs w ps j) @ map (\<lambda>_. True) (take (w - 1) (tl (ancs ps j))) @ [False]"
      using True [symmetric] by (simp_all add: segs_Suc seg_step_def Let_def)
    have l: "length (sg_ctx ?s) = length (sg_rep ?s)" "length (sg_rows ?s) = n" "sg_rep ?s \<noteq> []" "sg_ctx ?s \<noteq> []"
      using sh e by simp_all
    have "last (sg_rep ?s) = j" "\<not> last (sg_ctx ?s)" by (simp_all add: e)
    then have "sg_rep ?s ! (length (sg_rep ?s) - 1) = j" "\<not> sg_ctx ?s ! (length (sg_rep ?s) - 1)"
      using l by (simp_all add: last_conv_nth)
    then show ?thesis using True l by (simp add: s Let_def nth_append)
  next
    case False
    with Suc.prems have j: "Suc j < n" by simp
    from sh j have r: "sg_rows ?s ! Suc j < length (sg_rep ?s)" "length (sg_ctx ?s) = length (sg_rep ?s)" "length (sg_rows ?s) = n"
      by (simp_all add: Let_def)
    have k: "sg_rows ?s ! Suc j - 1 - i < length (sg_rep ?s)" for i using r(1) by simp
    from Suc.IH [OF j] r k j show ?thesis by (simp add: s Let_def nth_append)
  qed
qed simp

lemma segmented_eq:
  fixes t :: dtree and w :: nat
  assumes "dtree_ok t"
  defines "s \<equiv> segs w (dt_parent t) (n_nodes t)"
  shows "ddtree_paged_layout_segmented m t w = Some (Inr (s, map (\<lambda>a. m + dt_depth t ! a) (sg_rep s),
     map (\<lambda>b. allow_cells (map (\<lambda>a. m + sg_rows s ! a) (map (ancs (dt_parent t)) [0..<n_nodes t] ! b))
       (replicate m True @ replicate (length (sg_rep s)) False)) (sg_rep s)))"
proof -
  have "zip [0..<n_nodes t] (map (ancs (dt_parent t)) [0..<n_nodes t]) = map (\<lambda>j. (j, ancs (dt_parent t) j)) [0..<n_nodes t]"
    by (simp add: zip_map2 zip_same_conv_map)
  then show ?thesis using assms(1) walk_all_eq [of "dt_parent t" "dt_depth t" "[0..<n_nodes t]"]
    by (simp add: ddtree_paged_layout_segmented_def Let_def dtree_ok_def s_def segs_def)
qed

end
