(* ===== verification/Spec_Tree_Claims.thy ===== *)
theory Spec_Tree_Claims
  imports Spec_Tree_Layout
begin

section \<open>Draft trees: claims\<close>

text \<open>Trees from the builder, with the rank tuple of each node; two siblings differ when no row of tokens repeats one.\<close>

lemma built_tree:
  fixes logp :: "'s::{linorder, plus, minus, uminus} list list"
  assumes "rect logp L K" "rect ids L K" "build_draft_tree logp ids budget root = Inr t"
  shows "dtree_ok t" "dt_token t ! 0 = root" "\<forall>row \<in> set ids. distinct row \<Longrightarrow> siblings_differ t"
proof -
  have "dtree_ok t \<and> dt_token t ! 0 = root \<and> ((\<forall>row \<in> set ids. distinct row) \<longrightarrow> siblings_differ t)"
  proof (cases "0 < budget \<and> 0 < L \<and> 0 < K")
    case False
    have "length logp = L" "L \<noteq> 0 \<Longrightarrow> (case logp of [] \<Rightarrow> 0 | row # _ \<Rightarrow> length row) = K"
      using assms(1) by (auto simp: rect_def split: list.split)
    with False assms(3) have "t = root_tree root" by (auto simp: build_draft_tree_def Let_def split: if_splits)
    then show ?thesis using root_tree_ok [of root] by (auto simp: root_tree_def siblings_differ_def n_nodes_def)
  next
    case True
    from build_draft_tree_ok [where Q = "\<lambda>_ _. True", OF assms(1,2) TrueI TrueI, of budget root] True obtain R and b :: "'s builder" where
      "build_draft_tree logp ids budget root = Inr (bd_tree b)" and B: "builder_ok root ids L K R b" by blast
    with assms(3) have t: "t = bd_tree b" by simp
    note D = builder_okD [OF B, folded t]
    have "siblings_differ t" if dist: "\<forall>row \<in> set ids. distinct row"
      unfolding siblings_differ_def
    proof (intro allI impI)
      fix i j assume i: "i < n_nodes t" and j: "j < n_nodes t"
        and e: "dt_parent t ! i \<noteq> None \<and> dt_parent t ! i = dt_parent t ! j \<and> dt_token t ! i = dt_token t ! j"
      have "dt_parent t ! 0 = None" using D(1) by (simp add: dtree_ok_def parents_ok_def)
      with e have p: "0 < i" "0 < j" by (metis gr0I)+
      from D(7) [OF p(1)] D(7) [OF p(2)] i j D(2) e have bl: "butlast (R ! i) = butlast (R ! j)"
        and v: "valid_ranks L K (R ! i)" "valid_ranks L K (R ! j)"
        and tk: "ids ! (length (R ! i) - 1) ! last (R ! i) = ids ! (length (R ! j) - 1) ! last (R ! j)" by auto
      have len: "length (R ! i) = length (R ! j)" using bl v by (metis valid_ranksD(4) append_butlast_last_id length_append_singleton)
      have row: "ids ! (length (R ! i) - 1) \<in> set ids" "length (ids ! (length (R ! i) - 1)) = K"
        using assms(2) valid_ranksD(1) [OF v(1)] by (auto simp: rect_def)
      have "last (R ! i) = last (R ! j)"
        using dist row tk len valid_ranksD(2) [OF v(1)] valid_ranksD(2) [OF v(2)] nth_eq_iff_index_eq by metis
      with bl v have "R ! i = R ! j" by (metis valid_ranksD(4) append_butlast_last_id)
      with D(2,3) i j show "i = j" by (simp add: nth_eq_iff_index_eq)
    qed
    with D show ?thesis by simp
  qed
  then show "dtree_ok t" "dt_token t ! 0 = root" "\<forall>row \<in> set ids. distinct row \<Longrightarrow> siblings_differ t" by blast+
qed

lemma path_length: "dtree_ok t \<Longrightarrow> j < n_nodes t \<Longrightarrow> length (path t j) \<le> j"
proof (induction j rule: less_induct)
  case (less j)
  from path_cases [OF less.prems] less.IH less.prems show ?case by fastforce
qed

text \<open>
  C6. The walk over a tree built by \<open>build_draft_tree\<close>, on the target's argmax under the mask of
  \<open>ddtree_paged_layout\<close>, always returns, and the accepted tokens with the bonus are exactly the
  tokens plain greedy decoding would produce; when no row of candidates repeats a token, no node
  of the tree spells a longer piece of the greedy continuation.
\<close>

theorem ddtree_walk_lossless:
  fixes logp :: "'s::{linorder, plus, minus, uminus} list list"
  assumes "rect logp L K" "rect ids L K" "build_draft_tree logp ids budget root = Inr t"
    "ddtree_paged_layout (length pre) t = Some (Inr (pos, msk, cols))"
  shows "\<exists>acc bonus. ddtree_walk (tree_targets lm pre t msk) t = Some (Inr (acc, bonus))
    \<and> acc @ [bonus] = greedy lm (pre @ [root]) (Suc (length acc))
    \<and> ((\<forall>row \<in> set ids. distinct row) \<longrightarrow> (\<forall>j < n_nodes t. \<forall>k. path t j = greedy lm (pre @ [root]) k \<longrightarrow> k \<le> length acc))"
  using ddtree_walk_ok [OF built_tree(1) [OF assms(1-3)] assms(4), of lm] built_tree [OF assms(1-3)] by auto

definition demo_logp :: "int list list" where
  "demo_logp = [[- 1, - 2], [- 1, - 3]]"

definition demo_ids :: "int list list" where
  "demo_ids = [[5, 6], [7, 8]]"

lemma demo_tree: "\<exists>t. build_draft_tree demo_logp demo_ids 3 1 = Inr t \<and> dt_token t = [1, 5, 6, 7]"
proof -
  have "(case build_draft_tree demo_logp demo_ids 3 1 of Inl _ \<Rightarrow> False | Inr t \<Rightarrow> dt_token t = [1, 5, 6, 7])" by code_simp
  then show ?thesis by (auto split: sum.splits)
qed

theorem ddtree_walk_lossless_witness:
  "\<exists>t pos msk cols acc bonus. build_draft_tree demo_logp demo_ids 3 1 = Inr t
    \<and> ddtree_paged_layout 2 t = Some (Inr (pos, msk, cols))
    \<and> ddtree_walk (tree_targets (\<lambda>ctx. last ctx + 4) [8, 9] t msk) t = Some (Inr (acc, bonus))
    \<and> acc @ [bonus] = greedy (\<lambda>ctx. last ctx + 4) [8, 9, 1] (Suc (length acc))"
proof -
  obtain t where t: "build_draft_tree demo_logp demo_ids 3 1 = Inr t" using demo_tree by blast
  have r: "rect demo_logp 2 2" "rect demo_ids 2 2" by (simp_all add: rect_def demo_logp_def demo_ids_def)
  obtain pos msk cols where l: "ddtree_paged_layout (length [8, 9 :: int]) t = Some (Inr (pos, msk, cols))"
    using layout_eq [OF built_tree(1) [OF r t]] by blast
  have two: "length [8, 9 :: int] = 2" by simp
  from ddtree_walk_lossless [OF r t l, of "\<lambda>ctx. last ctx + 4"] obtain acc bonus where
    "ddtree_walk (tree_targets (\<lambda>ctx. last ctx + 4) [8, 9] t msk) t = Some (Inr (acc, bonus))"
    "acc @ [bonus] = greedy (\<lambda>ctx. last ctx + 4) ([8, 9] @ [1]) (Suc (length acc))" by blast
  with t l show ?thesis unfolding two by (intro exI conjI) (assumption | simp)+
qed

text \<open>
  C15. With a frozen topology filled from any candidates, fewer positions or fewer tokens than it
  expects included, the walk returns too and stays lossless.
\<close>

theorem static_walk_lossless:
  assumes "build_static_template geo budget top_k block_len = Inr tpl"
    "ddtree_paged_layout (length pre) (fill_static_template tpl ids root) = Some (Inr (pos, msk, cols))"
  shows "\<exists>acc bonus. ddtree_walk (tree_targets lm pre (fill_static_template tpl ids root) msk) (fill_static_template tpl ids root) = Some (Inr (acc, bonus))
    \<and> acc @ [bonus] = greedy lm (pre @ [root]) (Suc (length acc)) \<and> int (length acc) \<le> budget"
proof -
  note T = build_static_template_ok [OF assms(1)]
  note F = fill_static_template_ok [OF T(1), of ids root]
  from ddtree_walk_ok [OF F(1) assms(2), of lm] F(2) obtain acc bonus j where
    W: "ddtree_walk (tree_targets lm pre (fill_static_template tpl ids root) msk) (fill_static_template tpl ids root) = Some (Inr (acc, bonus))"
      "acc @ [bonus] = greedy lm (pre @ [root]) (Suc (length acc))" "j < n_nodes (fill_static_template tpl ids root)"
      "path (fill_static_template tpl ids root) j = acc" by auto
  have "length acc \<le> j" using path_length [OF F(1) W(3)] W(4) by simp
  then have "int (length acc) \<le> budget" using W(3) F(3) T(2) by simp
  with W show ?thesis by blast
qed

text \<open>The template of three nodes and a step in which the drafter gave one position only.\<close>

lemma demo_template: "\<exists>tpl. build_static_template (\<lambda>k. - int k) 3 2 2 = Inr tpl \<and> st_rank tpl = [- 1, 0, 0, 1]"
proof -
  have "(case build_static_template (\<lambda>k. - int k) 3 2 2 of Inl _ \<Rightarrow> False | Inr t \<Rightarrow> st_rank t = [- 1, 0, 0, 1])" by code_simp
  then show ?thesis by (auto split: sum.splits)
qed

theorem static_walk_lossless_witness:
  "\<exists>tpl pos msk cols acc bonus. build_static_template (\<lambda>k. - int k) 3 2 2 = Inr tpl
    \<and> ddtree_paged_layout (length [8, 9 :: int]) (fill_static_template tpl [[5, 6]] 1) = Some (Inr (pos, msk, cols))
    \<and> ddtree_walk (tree_targets (\<lambda>ctx. last ctx + 4) [8, 9] (fill_static_template tpl [[5, 6]] 1) msk) (fill_static_template tpl [[5, 6]] 1)
        = Some (Inr (acc, bonus))
    \<and> acc @ [bonus] = greedy (\<lambda>ctx. last ctx + 4) ([8, 9] @ [1]) (Suc (length acc)) \<and> int (length acc) \<le> 3"
proof -
  obtain tpl where t: "build_static_template (\<lambda>k. - int k) 3 2 2 = Inr tpl" using demo_template by blast
  from layout_eq [OF fill_static_template_ok(1) [OF build_static_template_ok(1) [OF t]], of "length [8, 9 :: int]" "[[5, 6]]" 1]
  obtain pos msk cols where l: "ddtree_paged_layout (length [8, 9 :: int]) (fill_static_template tpl [[5, 6]] 1) = Some (Inr (pos, msk, cols))"
    by blast
  from static_walk_lossless [OF t l, of "\<lambda>ctx. last ctx + 4"] t l show ?thesis by blast
qed

text \<open>
  C11. \<open>build_draft_tree\<close> on log-probabilities in descending order never fails and is optimal: its
  nodes are distinct rank tuples, each below its prefix and carrying the token its last rank
  names; it has at most the budget, and all tuples if it has less; and every tuple it leaves out
  has a sum of log-probabilities no better than any it took.  Scores are exact here.
\<close>

theorem draft_tree_best:
  fixes logp :: "'s::linordered_ab_group_add list list"
  assumes "rect logp L K" "rect ids L K" "descending logp" "0 < budget" "0 < L" "0 < K"
  shows "\<exists>t R. build_draft_tree logp ids budget root = Inr t \<and> length R = n_nodes t \<and> distinct R \<and> R ! 0 = []
    \<and> (\<forall>j. 0 < j \<and> j < length R \<longrightarrow> valid_ranks L K (R ! j) \<and> (\<exists>p < j. dt_parent t ! j = Some p \<and> R ! p = butlast (R ! j))
         \<and> dt_token t ! j = ids ! (length (R ! j) - 1) ! last (R ! j))
    \<and> int (n_nodes t) - 1 \<le> budget
    \<and> (int (n_nodes t) - 1 < budget \<longrightarrow> (\<forall>rt. valid_ranks L K rt \<longrightarrow> rt \<in> set R))
    \<and> (\<forall>rt \<in> set R. \<forall>rt'. rt \<noteq> [] \<and> valid_ranks L K rt' \<and> rt' \<notin> set R \<longrightarrow> sigma logp rt' \<le> sigma logp rt)"
proof -
  have "\<exists>R b. build_draft_tree logp ids budget root = Inr (bd_tree b) \<and> builder_ok root ids L K R b \<and> best_so_far logp L K R b
    \<and> int (n_nodes (bd_tree b)) - 1 \<le> budget
    \<and> (int (n_nodes (bd_tree b)) - 1 < budget \<longrightarrow> (\<forall>rt. valid_ranks L K rt \<longrightarrow> rt \<in> set R))"
    by (rule build_draft_tree_ok [where Q = "best_so_far logp L K", OF assms(1,2) _ best_start assms(4-6)]) (rule best_step [OF _ assms(1,3)])
  then obtain R b where B: "build_draft_tree logp ids budget root = Inr (bd_tree b)" "builder_ok root ids L K R b" "best_so_far logp L K R b"
    "int (n_nodes (bd_tree b)) - 1 \<le> budget"
    "int (n_nodes (bd_tree b)) - 1 < budget \<longrightarrow> (\<forall>rt. valid_ranks L K rt \<longrightarrow> rt \<in> set R)" by blast
  note D = builder_okD [OF B(2)]
  have "\<forall>j. 0 < j \<and> j < length R \<longrightarrow> valid_ranks L K (R ! j) \<and> (\<exists>p < j. dt_parent (bd_tree b) ! j = Some p \<and> R ! p = butlast (R ! j))
         \<and> dt_token (bd_tree b) ! j = ids ! (length (R ! j) - 1) ! last (R ! j)" using D(7) by blast
  moreover have "\<forall>rt \<in> set R. \<forall>rt'. rt \<noteq> [] \<and> valid_ranks L K rt' \<and> rt' \<notin> set R \<longrightarrow> sigma logp rt' \<le> sigma logp rt"
    using B(3) unfolding best_so_far_def by blast
  ultimately show ?thesis using B(1,4,5) D(2,3,5) by blast
qed

lemma demo_rect: "rect demo_logp 2 2" "rect demo_ids 2 2" "descending demo_logp"
  by (simp_all add: rect_def demo_logp_def demo_ids_def descending_def)

theorem draft_tree_best_witness:
  "\<exists>t R. build_draft_tree demo_logp demo_ids 3 1 = Inr t \<and> length R = n_nodes t \<and> distinct R \<and> int (n_nodes t) - 1 \<le> 3
    \<and> (\<forall>rt \<in> set R. \<forall>rt'. rt \<noteq> [] \<and> valid_ranks 2 2 rt' \<and> rt' \<notin> set R \<longrightarrow> sigma demo_logp rt' \<le> sigma demo_logp rt)"
proof -
  have "0 < (3 :: int)" "0 < (2 :: nat)" by simp_all
  from draft_tree_best [OF demo_rect(1,2,3) this(1,2,2), of 1] show ?thesis by blast
qed

text \<open>
  C25. The three ways a mask is built agree cell by cell: in the block baked from a template, in
  the flat block of \<open>ancestor_block_host\<close> padded to any length and in the mask of
  \<open>ddtree_paged_layout\<close> the row of a node allows exactly its own ancestors (and the prefix, where
  there is one) and no pad column; a pad row allows everything.  The rotary positions of the
  allowed nodes count on from the prefix without a gap.
\<close>

theorem tree_masks_agree:
  fixes ids :: "int list list" and root :: int and tpl :: static_template
  assumes "build_static_template geo budget top_k block_len = Inr tpl" "length (st_parent tpl) \<le> qlen"
  defines "t \<equiv> fill_static_template tpl ids root" and "n \<equiv> length (st_parent tpl)" and "R \<equiv> (parent_rel (st_parent tpl))\<^sup>*"
  shows "\<exists>blk flat pos msk. template_ancestor_block tpl = Some (Inr blk)
    \<and> ancestor_block_host (dt_parent t) (n_nodes t) qlen = Some (Inr flat)
    \<and> ddtree_paged_layout m t = Some (Inr (pos, msk, map (\<lambda>j. m + j) [0..<n_nodes t])) \<and> n_nodes t = n
    \<and> length blk = n \<and> (\<forall>row \<in> set blk. length row = n) \<and> (\<forall>j < n. \<forall>a < n. blk ! j ! a \<longleftrightarrow> (j, a) \<in> R)
    \<and> length flat = qlen * qlen \<and> (\<forall>i < qlen. \<forall>c < qlen. flat ! (i * qlen + c) \<longleftrightarrow> n \<le> i \<or> c < n \<and> (i, c) \<in> R)
    \<and> length msk = n \<and> (\<forall>row \<in> set msk. length row = m + n)
    \<and> (\<forall>j < n. (\<forall>c < m. msk ! j ! c) \<and> (\<forall>a < n. msk ! j ! (m + a) \<longleftrightarrow> (j, a) \<in> R)
         \<and> map (\<lambda>c. pos ! (c - m)) (filter (\<lambda>c. msk ! j ! c) [m..<m + n]) = [m..<m + Suc (dt_depth t ! j)])"
proof -
  note T = build_static_template_ok(1) [OF assms(1)]
  note F = fill_static_template_ok [OF T, of ids root, folded t_def]
  have p: "dt_parent t = st_parent tpl" "dt_depth t = st_depth tpl"
    unfolding t_def fill_static_template_def Let_def
    using fill_prefix_fields(1,2) [OF T, of ids root "length (st_parent tpl)"] by (simp_all add: fill_prefix_def)
  have P: "parents_ok (dt_parent t) (dt_depth t)" using T p by (simp add: template_ok_def)
  have n: "n_nodes t = n" using F(3) by (simp add: n_def)
  have S: "a \<in> set (ancs (st_parent tpl) j) \<longleftrightarrow> (j, a) \<in> R" if "j < n" for j a
    using set_ancs [OF P, of j] that p by (simp add: n_def R_def)
  have B: "c < n" if "i < n" "(i, c) \<in> R" for i c
    using ancs_below(2) [OF F(1), of i] S [OF that(1), of c] that n p by auto
  from template_block_eq [OF T] S obtain blk where blk: "template_ancestor_block tpl = Some (Inr blk)"
    "length blk = n" "\<forall>row \<in> set blk. length row = n" "\<forall>j < n. \<forall>a < n. blk ! j ! a \<longleftrightarrow> (j, a) \<in> R"
    by (auto simp: n_def)
  from ancestor_block_host_eq [OF P, of "n_nodes t" qlen] n assms(2) p obtain flat where
    flat: "ancestor_block_host (dt_parent t) (n_nodes t) qlen = Some (Inr flat)" "length flat = qlen * qlen"
      "\<forall>i < qlen. \<forall>c < qlen. flat ! (i * qlen + c) \<longleftrightarrow> n \<le> i \<or> c \<in> set (ancs (st_parent tpl) i)"
    by (auto simp: n_def)
  have fl: "\<forall>i < qlen. \<forall>c < qlen. flat ! (i * qlen + c) \<longleftrightarrow> n \<le> i \<or> c < n \<and> (i, c) \<in> R"
    using flat(3) S B by (meson not_le)
  let ?row = "\<lambda>j. allow_cells (map (\<lambda>a. m + a) (ancs (dt_parent t) j)) (replicate m True @ replicate (n_nodes t) False)"
  let ?pos = "map (\<lambda>j. m + dt_depth t ! j) [0..<n_nodes t]" and ?msk = "map ?row [0..<n_nodes t]"
  have row: "(\<forall>c < m. ?msk ! j ! c) \<and> (\<forall>a < n. ?msk ! j ! (m + a) \<longleftrightarrow> (j, a) \<in> R)
      \<and> map (\<lambda>c. ?pos ! (c - m)) (filter (\<lambda>c. ?msk ! j ! c) [m..<m + n]) = [m..<m + Suc (dt_depth t ! j)]" if j: "j < n" for j
  proof -
    have jn: "j < n_nodes t" using j n by simp
    have "filter (\<lambda>c. ?row j ! c) [0..<m + n_nodes t] = [0..<m] @ map (\<lambda>a. m + a) (rev (ancs (dt_parent t) j))"
      by (rule allow_row_filter [OF ancs_below [OF F(1) jn]])
    moreover have "filter (\<lambda>c. ?row j ! c) [0..<m] = [0..<m]" by (rule filter_True) (simp add: allow_row_nth)
    moreover have "[0..<m + n_nodes t] = [0..<m] @ [m..<m + n_nodes t]" by (metis le0 le_add1 upt_add_eq_append add_0)
    ultimately have f: "filter (\<lambda>c. ?row j ! c) [m..<m + n_nodes t] = map (\<lambda>a. m + a) (rev (ancs (dt_parent t) j))" by simp
    have "map (\<lambda>c. ?pos ! (c - m)) (map (\<lambda>a. m + a) (rev (ancs (dt_parent t) j)))
        = map (\<lambda>d. m + d) (map (\<lambda>a. dt_depth t ! a) (rev (ancs (dt_parent t) j)))"
      using ancs_below(2) [OF F(1) jn] by simp
    also have "\<dots> = [m..<m + Suc (dt_depth t ! j)]"
      using ancs_shape [OF P, of j] jn F(3) p map_add_upt [of m "Suc (dt_depth t ! j)"] by (simp add: ac_simps)
    finally show ?thesis using f S [OF j] n p jn by (simp add: allow_row_nth)
  qed
  have len: "length ?msk = n" "\<forall>row \<in> set ?msk. length row = m + n" using n by auto
  show ?thesis
    by (rule exI [of _ blk], rule exI [of _ flat], rule exI [of _ ?pos], rule exI [of _ ?msk])
       (intro conjI blk flat(1,2) fl len n layout_eq [OF F(1)] allI impI row)
qed


theorem tree_masks_agree_witness:
  "\<exists>tpl blk flat. build_static_template (\<lambda>k. - int k) 3 2 2 = Inr tpl \<and> template_ancestor_block tpl = Some (Inr blk)
    \<and> (blk ! 2 ! 1 \<longleftrightarrow> (2, 1) \<in> (parent_rel (st_parent tpl))\<^sup>*) \<and> length flat = 25 \<and> \<not> flat ! 4 \<and> flat ! 24"
proof -
  obtain tpl where t: "build_static_template (\<lambda>k. - int k) 3 2 2 = Inr tpl" using demo_template by blast
  have n: "length (st_parent tpl) = 4" using build_static_template_ok(2) [OF t] by simp
  from tree_masks_agree [OF t, of 5 "[[5, 6]]" 1 7] n obtain blk flat where
    b: "template_ancestor_block tpl = Some (Inr blk)" "\<forall>j < 4. \<forall>a < 4. blk ! j ! a \<longleftrightarrow> (j, a) \<in> (parent_rel (st_parent tpl))\<^sup>*"
    "length flat = 5 * 5" "\<forall>i < 5. \<forall>c < 5. flat ! (i * 5 + c) \<longleftrightarrow> 4 \<le> i \<or> c < 4 \<and> (i, c) \<in> (parent_rel (st_parent tpl))\<^sup>*"
    by auto
  from b(2) have "blk ! 2 ! 1 \<longleftrightarrow> (2, 1) \<in> (parent_rel (st_parent tpl))\<^sup>*" by simp
  moreover have "\<not> flat ! 4" using b(4) [rule_format, of 0 4] by simp
  moreover have "flat ! 24" using b(4) [rule_format, of 4 4] by simp
  ultimately show ?thesis using t b(1,3) by auto
qed


end
