(* ===== verification/Spec2Isabelle.thy ===== *)
theory Spec2Isabelle
  imports Prelude Chunk_Plan Chunk_Headroom Torch_Charge Token_Patterns Think_Gate Tool_Gate Prefill_Claims Decode_Manager
    Expert_Cache_Claims Chat_Stream Scheduler_Claims Scheduler_Abort Spec_Claims Spec_Tree_Claims
begin

text \<open>
  A verification development for minisgl, the LLM serving engine under \<open>src/python/minisgl\<close>.

  \<^bold>\<open>The program and its parts.\<close>  An API server turns HTTP requests into token ids and streams
  text back; a scheduler process per rank admits requests, keeps their KV-cache pages, forms
  batches, runs the model and commits its tokens; the engine and the models are tensor code.
  This development models the parts whose logic is discrete.

  \<^item> Scheduling and memory.  \<open>Request\<close> (\<open>core.py\<close> \<open>Req\<close>, \<open>scheduler/table.py\<close>), \<open>Decode_Manager\<close>
    (\<open>scheduler/decode.py\<close>), \<open>Cache_Manager\<close> (\<open>scheduler/cache.py\<close>), \<open>Prefill\<close>
    (\<open>scheduler/prefill.py\<close>, \<open>utils.py\<close>), \<open>Scheduler\<close> (\<open>scheduler/scheduler.py\<close>: messages,
    choice of a batch, forward pass, \<open>_process_last_data\<close>, \<open>normal_loop\<close>, \<open>overlap_loop\<close>).  The
    scheduler owns one object of each; a \<open>Req\<close> is a number into a store because the managers
    share it, and the token pool and page table are functions from row and column.
  \<^item> Prefix caches.  \<open>Prefix_Iface\<close> is \<open>BasePrefixCache\<close>: a record of operations with the locale
    \<open>prefix_cache\<close> of what they promise about pages.  \<open>Radix_Cache\<close>, \<open>Radix_Api\<close>
    (\<open>kvcache/radix_cache.py\<close>) and \<open>Naive_Cache\<close> (\<open>kvcache/naive_cache.py\<close>) provide it, by the
    interpretations \<open>radix_pc\<close> and \<open>naive_pc\<close>; \<open>Page_System\<close> is the client.
  \<^item> Gates (\<open>scheduler/think_gate.py\<close>).  \<open>Token_Patterns\<close>, \<open>Think_Gate\<close>, \<open>Tool_Gate\<close>: which
    tokens a request may be forced to emit or kept from emitting.
  \<^item> Speculative decoding.  \<open>Spec_Draft\<close> (\<open>spec/accept.py\<close>, \<open>proposer.py\<close>, \<open>width.py\<close>):
    acceptance, the prompt-lookup proposer, the captured widths and their controller;
    \<open>Spec_Tree\<close> (\<open>spec/ddtree.py\<close>): draft trees, their masks and layouts, the verifier's walk.
  \<^item> Text splitters of the server.  \<open>Reasoning_Parser\<close> (\<open>server/reasoning.py\<close>), \<open>Tool_Stream\<close> and
    \<open>Chat_Stream\<close> (\<open>server/api_server.py\<close>): incremental splitting of a reply into reasoning,
    content and tool calls, and the loop that sends them.
  \<^item> Weights.  \<open>Chunk_Plan\<close>, \<open>Chunk_Headroom\<close>, \<open>Torch_Charge\<close> (\<open>weights/chunk_plan.py\<close>): layout
    arithmetic of the pinned host arena; \<open>Slru\<close>, \<open>Expert_Cache\<close> (\<open>weights/expert_cache.py\<close>): the
    cache of resident experts with its manager thread, scheduler half and two GPU streams.

  \<^bold>\<open>How the code is written down.\<close>  Classes are records with the code's fields, operations are
  functions on them under the code's names (prefixed where a name is taken).  An operation that
  may raise returns \<open>py_error + 'a\<close>; one with a loop over mutable data that the code does not
  bound is a \<open>partial_function\<close> into \<open>'a run = (py_error + 'a) option\<close>, where \<open>None\<close> is a loop that
  does not return, so that returning is something to prove (\<open>radix_never_fails\<close>,
  \<open>cache_req_total\<close>, \<open>ddtree_walk_lossless\<close>).  There is no fuel (the loop of \<open>build_draft_tree\<close> counts its own budget): every other loop is structural or has a
  \<open>termination\<close> proof with a measure.  Python integers are \<open>int\<close> or, where the code keeps them
  nonnegative, \<open>nat\<close>; none of the modelled code works at a machine width.  Where an index can be
  out of range the error is a value.  Clock readings, fresh memory (\<open>torch.empty\<close>), sampled
  tokens and the environment are arguments.

  \<^bold>\<open>What the theorems show.\<close>
  \<^item> \<open>Radix_Inv\<close>, \<open>Radix_Walk\<close>, \<open>Radix_Ops\<close>, \<open>Radix_Main\<close> carry the invariant of the tree through
    every operation, with the token sequence of each node as a ghost; \<open>Radix_Claims\<close> has the
    consequences for every reachable cache (no failure, longest match, insertion round trip,
    sizes, eviction order, snapshots).  \<open>Radix_Pages\<close> accounts for its pages.
  \<^item> \<open>Page_System\<close> proves, inside the locale, that pages are conserved by any schedule of
    admissions, allocations, forward passes and frees; \<open>Prefill_Claims\<close> states it for the radix
    cache, with the bounds on a chunk and on an admission.
  \<^item> \<open>Scheduler_Inv\<close>, \<open>Scheduler_Turn\<close>, \<open>Scheduler_Run\<close> carry the invariant \<open>turn_ok\<close> (request
    table rows owned once, uids distinct, the pool cell of the next step holds the last committed
    token) through a turn; \<open>Scheduler_Claims\<close> states it for every run of \<open>normal_loop\<close> and shows
    a starved gate.  Concrete runs at its end and in \<open>Scheduler_Abort\<close> exhibit two defects of
    \<open>overlap_loop\<close>, which is outside these claims.
  \<^item> \<open>Spec_Width\<close>, \<open>Spec_Claims\<close>: what acceptance emits is plain greedy decoding, every step lands
    on a captured width, what the proposer looks up.  \<open>Spec_Tree_Inv\<close>, \<open>Spec_Tree_Build\<close>,
    \<open>Spec_Tree_Layout\<close> carry the well-formedness of a tree through its construction and read its
    masks; \<open>Spec_Tree_Claims\<close> concludes that the walk is lossless and that the tree is optimal.
    The target model is a function from a sequence to its next token, evaluated at what the mask
    lets a row see.
  \<^item> The gate theories relate the bounded window of the code to the whole committed stream: when
    the gate opens, that the query scan agrees with committing, that the backstop leaves room,
    that no gate holds forever, exactly when the loop breaker fires.
  \<^item> \<open>Reasoning_Claims\<close>, \<open>Tool_Claims\<close>, \<open>Chat_Stream\<close>: how a reply is cut into chunks does not
    matter for the text that is delivered, the streamed arguments join to the value in the text,
    and the places where this fails.
  \<^item> \<open>Chunk_Plan\<close>: a plan serves every region disjointly and the bounded arena replays it.
    \<open>Expert_Cache_Inv\<close>, \<open>Expert_Cache_Run\<close>, \<open>Expert_Cache_Claims\<close>: with the manager and the
    streams between any two pieces of \<open>apply_pending\<close> (take, fence, one entry, give back), and
    provided the manager retracts no key whose in-flight entry \<open>apply_pending\<close> holds, a published
    slot holds the expert it is published for and slots are conserved; a concrete run shows that
    the proviso is needed and the code does not ensure it.  A placement and a top up of the free
    pool are single steps of the manager.

  \<^bold>\<open>Hypotheses.\<close>  The laws of a prefix cache are discharged for both caches.  Remaining hypotheses
  are that fresh memory has the asked length, that uids are not used twice (the frontend counts
  them), and that arguments are in the range the callers establish; each has a witness on a
  concrete run.

  \<^bold>\<open>What is not modelled, and why.\<close>  Attention backends, models, quantisation, MoE execution, CUDA
  graphs, sampling, drafter networks, diffusion: floating point tensor programs over torch and
  kernels.  Weight file access, transport between processes, collectives, HTTP and tokenizer
  glue, metrics, reports and the scripts under \<open>tools/\<close>: input and output around libraries that
  are not in the repository.  Of the scheduler: the EP, CAM, diffusion and TiDAR paths, grammar
  matchers, recurrent and sliding-window state, logprobs and statistics.  Logging and wall-clock
  measurements are left out of every component.
\<close>

end
